(* ===== verification/Prelude.thy ===== *)
theory Prelude
  imports Main "HOL-Library.Word" "HOL-Library.List_Lexorder" "HOL-Library.Sublist"
begin

text \<open>
  Shared vocabulary of the development: C strings and the functions of the C library
  the sources call on them (\<open>strcasecmp\<close>, \<open>strncasecmp\<close>, \<open>strchr\<close>, \<open>strstr\<close>,
  \<open>atoi\<close>, \<open>snprintf\<close> of an integer), the 32-bit integers of the code, and the lemma
  collections of the library.

  A C string is a \<^typ>\<open>string\<close> without the terminating byte; a raw buffer is a
  \<^typ>\<open>string\<close> that may hold zero bytes, and \<open>cstr\<close> is the string a pointer to its
  start denotes. A position inside a string is the number of characters before it.
\<close>

named_theorems cstr_simps \<open>facts on the C string functions\<close>
named_theorems cdefs \<open>definitions that the component proofs unfold together\<close>

unbundle bit_operations_syntax

section \<open>Characters and integers\<close>

type_synonym byte = "8 word"

definition NUL :: char where
  "NUL = CHR 0x00"

definition CR :: char where
  "CR = CHR 0x0D"

definition LF :: char where
  "LF = CHR 0x0A"

definition CRLF :: string where
  "CRLF = [CR, LF]"

text \<open>\<open>tolower\<close> of the C locale on an unsigned byte.\<close>

definition lower :: "char \<Rightarrow> nat" where
  "lower c = (let n = of_char c in if 65 \<le> n \<and> n \<le> 90 then n + 32 else n)"

definition isdigit :: "char \<Rightarrow> bool" where
  "isdigit c \<longleftrightarrow> (48::nat) \<le> of_char c \<and> of_char c \<le> (57::nat)"

text \<open>The conversion of a wide integer to \<open>int\<close>: two's complement in 32 bits.\<close>

definition to_int32 :: "int \<Rightarrow> int" where
  "to_int32 z = sint (word_of_int z :: 32 word)"

lemma to_int32_id [simp]:
  assumes "- (2 ^ 31) \<le> z" "z < 2 ^ 31"
  shows "to_int32 z = z"
proof -
  have "sint (word_of_int z :: 32 word) = signed_take_bit 31 z"
    by (simp add: sint_sbintrunc')
  also have "\<dots> = z"
    using assms by (simp add: signed_take_bit_int_eq_self_iff)
  finally show ?thesis by (simp add: to_int32_def)
qed

lemma to_int32_range: "to_int32 z < 2 ^ 31"
  using sint_lt [of "word_of_int z :: 32 word"] by (simp add: to_int32_def)

lemma to_int32_wrap:
  assumes "2 ^ 31 \<le> z" "z < 2 ^ 32 + 2 ^ 31"
  shows "to_int32 z = z - 2 ^ 32"
proof -
  have "(word_of_int (z - 2 ^ 32) :: 32 word) = word_of_int z - word_of_int (2 ^ 32)"
    by (rule wi_hom_sub [symmetric])
  moreover have "(word_of_int (2 ^ 32) :: 32 word) = 0" by simp
  ultimately have eq: "(word_of_int (z - 2 ^ 32) :: 32 word) = word_of_int z" by (simp only: diff_zero)
  have "to_int32 z = to_int32 (z - 2 ^ 32)" unfolding to_int32_def eq ..
  also have "\<dots> = z - 2 ^ 32" by (rule to_int32_id) (use assms in auto)
  finally show ?thesis .
qed

section \<open>String functions\<close>

text \<open>The string a pointer to the start of a buffer denotes.\<close>

definition cstr :: "string \<Rightarrow> string" where
  "cstr b = takeWhile (\<lambda>c. c \<noteq> NUL) b"

text \<open>The key under which \<open>strcasecmp\<close> compares a string.\<close>

definition fold_key :: "string \<Rightarrow> nat list" where
  "fold_key s = map lower (cstr s)"

fun strcasecmp :: "string \<Rightarrow> string \<Rightarrow> int" where
  "strcasecmp [] [] = 0"
| "strcasecmp [] (b # bs) = - int (lower b)"
| "strcasecmp (a # as) [] = int (lower a)"
| "strcasecmp (a # as) (b # bs) =
     (if lower a = lower b then (if a = NUL then 0 else strcasecmp as bs)
      else int (lower a) - int (lower b))"

fun strncasecmp :: "string \<Rightarrow> string \<Rightarrow> nat \<Rightarrow> int" where
  "strncasecmp as bs 0 = 0"
| "strncasecmp [] [] (Suc n) = 0"
| "strncasecmp [] (b # bs) (Suc n) = - int (lower b)"
| "strncasecmp (a # as) [] (Suc n) = int (lower a)"
| "strncasecmp (a # as) (b # bs) (Suc n) =
     (if lower a = lower b then (if a = NUL then 0 else strncasecmp as bs n)
      else int (lower a) - int (lower b))"

text \<open>\<open>strchr\<close> for a character other than the terminator: the offset of the first one.\<close>

fun strchr :: "string \<Rightarrow> char \<Rightarrow> nat option" where
  "strchr [] c = None"
| "strchr (a # as) c = (if a = c then Some 0 else map_option Suc (strchr as c))"

text \<open>\<open>strstr\<close>: the offset of the first occurrence of the needle.\<close>

fun strstr :: "string \<Rightarrow> string \<Rightarrow> nat option" where
  "strstr [] pat = (if pat = [] then Some 0 else None)"
| "strstr (a # as) pat =
     (if prefix pat (a # as) then Some 0 else map_option Suc (strstr as pat))"

text \<open>Decimal digits: \<open>snprintf "%d"\<close> and \<open>atoi\<close>.\<close>

definition digit_char :: "nat \<Rightarrow> char" where
  "digit_char d = char_of (48 + d)"

fun show_nat :: "nat \<Rightarrow> string" where
  "show_nat n = (if n < 10 then [digit_char n] else show_nat (n div 10) @ [digit_char (n mod 10)])"

declare show_nat.simps [simp del]

definition show_int :: "int \<Rightarrow> string" where
  "show_int z = (if z < 0 then CHR ''-'' # show_nat (nat (- z)) else show_nat (nat z))"

fun digits_val :: "nat \<Rightarrow> string \<Rightarrow> nat" where
  "digits_val acc [] = acc"
| "digits_val acc (c # cs) =
     (if isdigit c then digits_val (10 * acc + (of_char c - 48)) cs else acc)"

text \<open>
  \<open>atoi\<close> of the platform's C library: \<open>(int) strtol(s, NULL, 10)\<close>, that is white space,
  an optional sign and the longest run of digits, clamped to \<open>long\<close> and truncated to
  \<open>int\<close>.
\<close>

definition is_space :: "char \<Rightarrow> bool" where
  "is_space c \<longleftrightarrow> of_char c = (32::nat) \<or> ((9::nat) \<le> of_char c \<and> of_char c \<le> (13::nat))"

definition strtol10 :: "string \<Rightarrow> int" where
  "strtol10 s =
     (let t = dropWhile is_space s in
      case t of [] \<Rightarrow> 0
      | c # cs \<Rightarrow>
          if c = CHR ''-'' then max (- (2 ^ 63)) (- int (digits_val 0 cs))
          else if c = CHR ''+'' then min (2 ^ 63 - 1) (int (digits_val 0 cs))
          else min (2 ^ 63 - 1) (int (digits_val 0 t)))"

definition atoi :: "string \<Rightarrow> int" where
  "atoi s = to_int32 (strtol10 s)"

section \<open>Facts on the string functions\<close>

lemma of_char_NUL [simp]: "of_char NUL = (0::nat)"
  by (simp add: NUL_def)

lemma of_char_eq_0_iff: "of_char c = (0::nat) \<longleftrightarrow> c = NUL"
  by (metis of_char_NUL of_char_eq_iff)

lemma lower_eq_0_iff [simp]: "lower c = 0 \<longleftrightarrow> c = NUL"
  using of_char_eq_0_iff [of c] by (cases "c = NUL") (auto simp: lower_def Let_def)

lemma lower_pos_iff [simp]: "0 < lower c \<longleftrightarrow> c \<noteq> NUL"
  using lower_eq_0_iff [of c] by linarith

lemma cstr_Nil [simp]: "cstr [] = []"
  by (simp add: cstr_def)

lemma cstr_Cons [simp]: "cstr (c # cs) = (if c = NUL then [] else c # cstr cs)"
  by (simp add: cstr_def)

lemma cstr_no_NUL [simp]: "NUL \<notin> set (cstr b)"
  by (induction b) auto

lemma cstr_id [simp]: "NUL \<notin> set s \<Longrightarrow> cstr s = s"
  by (induction s) auto

lemma cstr_append_NUL [simp]: "cstr (s @ NUL # t) = cstr s"
  by (induction s) auto

lemma fold_key_Nil [simp]: "fold_key [] = []"
  by (simp add: fold_key_def)

lemma fold_key_Cons: "fold_key (c # cs) = (if c = NUL then [] else lower c # fold_key cs)"
  by (simp add: fold_key_def)

lemma lower_NUL [simp]: "lower NUL = 0"
  by simp

lemma strcasecmp_less [cstr_simps]: "strcasecmp a b < 0 \<longleftrightarrow> fold_key a < fold_key b"
proof (induction a b rule: strcasecmp.induct)
  case (4 a as b bs)
  show ?case
  proof (cases "lower a = lower b")
    case True
    then have "a = NUL \<longleftrightarrow> b = NUL" by (metis lower_eq_0_iff)
    with True 4 show ?thesis by (cases "a = NUL") (simp_all add: fold_key_Cons)
  next
    case False
    then show ?thesis
      by (cases "a = NUL"; cases "b = NUL") (simp_all add: fold_key_Cons)
  qed
qed (simp_all add: fold_key_Cons)

lemma strcasecmp_greater [cstr_simps]: "0 < strcasecmp a b \<longleftrightarrow> fold_key b < fold_key a"
proof (induction a b rule: strcasecmp.induct)
  case (4 a as b bs)
  show ?case
  proof (cases "lower a = lower b")
    case True
    then have "a = NUL \<longleftrightarrow> b = NUL" by (metis lower_eq_0_iff)
    with True 4 show ?thesis by (cases "a = NUL") (simp_all add: fold_key_Cons)
  next
    case False
    then show ?thesis
      by (cases "a = NUL"; cases "b = NUL") (simp_all add: fold_key_Cons)
  qed
qed (simp_all add: fold_key_Cons)

lemma strcasecmp_eq_0 [cstr_simps]: "strcasecmp a b = 0 \<longleftrightarrow> fold_key a = fold_key b"
  using strcasecmp_less [of a b] strcasecmp_greater [of a b]
    linorder_neq_iff [of "fold_key a" "fold_key b"] by (metis linorder_neq_iff)

lemma strcasecmp_refl [simp]: "strcasecmp a a = 0"
  by (simp add: strcasecmp_eq_0)

lemma strncasecmp_eq_0:
  assumes "NUL \<notin> set a" "NUL \<notin> set b" "n \<le> length b"
  shows "strncasecmp a b n = 0 \<longleftrightarrow> n \<le> length a \<and> fold_key (take n a) = fold_key (take n b)"
  using assms
  by (induction a b n rule: strncasecmp.induct) (auto simp: fold_key_Cons)

lemma strchr_None: "strchr s c = None \<longleftrightarrow> c \<notin> set s"
  by (induction s) auto

lemma strchr_Some:
  "strchr s c = Some n \<longleftrightarrow> n < length s \<and> s ! n = c \<and> c \<notin> set (take n s)"
proof (induction s arbitrary: n)
  case (Cons a s)
  then show ?case by (cases n) auto
qed simp

lemma strchr_append [cstr_simps]: "c \<notin> set s \<Longrightarrow> strchr (s @ c # t) c = Some (length s)"
  by (induction s) auto

lemma strstr_le: "strstr s pat = Some n \<Longrightarrow> n + length pat \<le> length s"
  by (induction s arbitrary: n) (auto split: if_splits dest: prefix_length_le)

lemma strstr_Some: "strstr s pat = Some n \<Longrightarrow> prefix pat (drop n s)"
  by (induction s arbitrary: n) (auto split: if_splits)

lemma strstr_decomp:
  assumes "strstr s pat = Some n"
  shows "s = take n s @ pat @ drop (n + length pat) s"
proof -
  obtain t where "drop n s = pat @ t"
    using strstr_Some [OF assms] by (auto elim: prefixE)
  then have "s = take n s @ pat @ t" "t = drop (n + length pat) s"
    by (metis append_take_drop_id, metis add.commute append_eq_conv_conj drop_drop)
  then show ?thesis by simp
qed

lemma CRLF_simps [simp]: "CRLF \<noteq> []" "length CRLF = 2" "CR \<noteq> LF" "CR \<noteq> NUL" "LF \<noteq> NUL"
  by (simp_all add: CRLF_def CR_def LF_def NUL_def)

lemma strstr_CRLF_append [cstr_simps]: "CR \<notin> set s \<Longrightarrow> strstr (s @ CRLF @ t) CRLF = Some (length s)"
  by (induction s) (auto simp: CRLF_def)

lemma strstr_CRLF_None [cstr_simps]: "CR \<notin> set s \<Longrightarrow> strstr s CRLF = None"
  by (induction s) (auto simp: CRLF_def)

section \<open>Decimal numerals\<close>

lemma of_char_digit_char: "d < 10 \<Longrightarrow> of_char (digit_char d) = 48 + d"
  by (simp add: digit_char_def of_char_of)

lemma isdigit_digit_char [simp]: "d < 10 \<Longrightarrow> isdigit (digit_char d)"
  by (simp add: isdigit_def of_char_digit_char)

lemma digits_val_append:
  "list_all isdigit s \<Longrightarrow> digits_val acc (s @ t) = digits_val (digits_val acc s) t"
  by (induction s arbitrary: acc) auto

lemma show_nat_digits [simp]: "list_all isdigit (show_nat n)"
proof (induction n rule: show_nat.induct)
  case (1 n)
  show ?case
  proof (cases "n < 10")
    case True
    then show ?thesis by (subst show_nat.simps) simp
  next
    case False
    with 1 show ?thesis by (subst show_nat.simps) simp
  qed
qed

lemma show_nat_nonempty [simp]: "show_nat n \<noteq> []"
  by (subst show_nat.simps) simp

lemma digits_val_show_nat: "digits_val 0 (show_nat n) = n"
proof (induction n rule: show_nat.induct)
  case (1 n)
  show ?case
  proof (cases "n < 10")
    case True
    then show ?thesis by (subst show_nat.simps) (simp add: of_char_digit_char)
  next
    case False
    with 1 have "digits_val 0 (show_nat (n div 10)) = n div 10" by simp
    with False show ?thesis
      by (subst show_nat.simps) (simp add: digits_val_append of_char_digit_char)
  qed
qed

lemma isdigit_not_space: "isdigit c \<Longrightarrow> \<not> is_space c"
  by (auto simp: isdigit_def is_space_def)

lemma isdigit_not_sign: "isdigit c \<Longrightarrow> c \<noteq> CHR ''-'' \<and> c \<noteq> CHR ''+''"
  by (auto simp: isdigit_def)

lemma strtol10_digits:
  assumes "s \<noteq> []" "list_all isdigit s"
  shows "strtol10 s = min (2 ^ 63 - 1) (int (digits_val 0 s))"
  using assms by (cases s) (auto simp: strtol10_def isdigit_not_space isdigit_not_sign)

text \<open>Printing a non-negative \<open>int\<close> and reading it back.\<close>

lemma atoi_show_nat: "n < 2 ^ 31 \<Longrightarrow> atoi (show_nat n) = int n"
  by (simp add: atoi_def strtol10_digits digits_val_show_nat)

section \<open>Lists\<close>

text \<open>The first index of a list at which a predicate holds: the scan loops of the sources.\<close>

fun find_index :: "('a \<Rightarrow> bool) \<Rightarrow> 'a list \<Rightarrow> nat option" where
  "find_index P [] = None"
| "find_index P (x # xs) = (if P x then Some 0 else map_option Suc (find_index P xs))"

lemma find_index_None: "find_index P xs = None \<longleftrightarrow> (\<forall>x\<in>set xs. \<not> P x)"
  by (induction xs) auto

lemma find_index_Some:
  "find_index P xs = Some i \<longleftrightarrow> i < length xs \<and> P (xs ! i) \<and> (\<forall>j<i. \<not> P (xs ! j))"
proof (induction xs arbitrary: i)
  case (Cons x xs)
  then show ?case by (cases i) (auto simp: less_Suc_eq_0_disj)
qed simp

lemma find_index_SomeD:
  assumes "find_index P xs = Some i"
  shows "i < length xs" "P (xs ! i)"
  using assms by (auto simp: find_index_Some)

text \<open>Splitting a list at a separator and joining the pieces again.\<close>

fun splitc :: "'a \<Rightarrow> 'a list \<Rightarrow> 'a list list" where
  "splitc c [] = [[]]"
| "splitc c (x # xs) =
     (if x = c then [] # splitc c xs else (x # hd (splitc c xs)) # tl (splitc c xs))"

fun joins :: "'a list \<Rightarrow> 'a list list \<Rightarrow> 'a list" where
  "joins sep [] = []"
| "joins sep [x] = x"
| "joins sep (x # y # ys) = x @ sep @ joins sep (y # ys)"

lemma splitc_nonempty [simp]: "splitc c s \<noteq> []"
  by (cases s) auto

lemma splitc_pure: "c \<notin> set s \<Longrightarrow> splitc c s = [s]"
  by (induction s) auto

lemma splitc_append: "c \<notin> set s \<Longrightarrow> splitc c (s @ c # t) = s # splitc c t"
  by (induction s) auto

lemma splitc_joins:
  "ps \<noteq> [] \<Longrightarrow> \<forall>p\<in>set ps. c \<notin> set p \<Longrightarrow> splitc c (joins [c] ps) = ps"
  by (induction "[c]" ps rule: joins.induct) (auto simp: splitc_pure splitc_append)

lemma splitc_pieces: "p \<in> set (splitc c s) \<Longrightarrow> c \<notin> set p \<and> set p \<subseteq> set s"
proof (induction s arbitrary: p)
  case (Cons x s)
  then show ?case
    by (cases "splitc c s") (auto split: if_splits, blast)
qed simp

lemma strchr_split:
  assumes "strchr s c = Some n"
  shows "s = take n s @ c # drop (Suc n) s" "c \<notin> set (take n s)" "n < length s"
  using assms by (auto simp: strchr_Some Cons_nth_drop_Suc intro: id_take_nth_drop)

text \<open>Folding a partial step over a list.\<close>

fun foldo :: "('a \<Rightarrow> 's \<Rightarrow> 's option) \<Rightarrow> 'a list \<Rightarrow> 's \<Rightarrow> 's option" where
  "foldo f [] s = Some s"
| "foldo f (x # xs) s = (case f x s of None \<Rightarrow> None | Some s' \<Rightarrow> foldo f xs s')"

lemma foldo_inv:
  assumes "foldo f xs s = Some t" "P s"
    and "\<And>x s s'. x \<in> set xs \<Longrightarrow> P s \<Longrightarrow> f x s = Some s' \<Longrightarrow> P s'"
  shows "P t"
  using assms
proof (induction xs arbitrary: s)
  case (Cons a xs)
  from Cons.prems(1) obtain s1 where s1: "f a s = Some s1" "foldo f xs s1 = Some t"
    by (auto split: option.splits)
  with Cons.prems have "P s1" by (metis list.set_intros(1))
  show ?case by (rule Cons.IH [OF s1(2) \<open>P s1\<close>]) (use Cons.prems(3) in auto)
qed simp

section \<open>Copying into a buffer\<close>

text \<open>\<open>memcpy\<close> of the bytes to an offset of the buffer.\<close>

definition store_at :: "nat \<Rightarrow> 'a list \<Rightarrow> 'a list \<Rightarrow> 'a list" where
  "store_at i bs xs = take i xs @ bs @ drop (i + length bs) xs"

lemma store_length: "i + length bs \<le> length xs \<Longrightarrow> length (store_at i bs xs) = length xs"
  by (simp add: store_at_def)

lemma store_nth:
  assumes "i + length bs \<le> length xs" "j < length xs"
  shows "store_at i bs xs ! j = (if i \<le> j \<and> j < i + length bs then bs ! (j - i) else xs ! j)"
proof -
  consider "j < i" | "i \<le> j" "j < i + length bs" | "i + length bs \<le> j" by linarith
  then show ?thesis
  proof cases
    case 2
    then have "j - i < length bs" by linarith
    then show ?thesis using 2 assms by (simp add: store_at_def nth_append)
  next
    case 3
    then have "\<not> j - i < length bs" "\<not> j < i" by linarith+
    then show ?thesis using 3 assms by (simp add: store_at_def nth_append)
  qed (use assms in \<open>simp add: store_at_def nth_append\<close>)
qed

end
