(* ===== verification/Avltree.thy ===== *)
theory Avltree
  imports Prelude
begin

text \<open>
  The AVL tree of \<^verbatim>\<open>naxfw/src/avltree.c\<close>, the index under every level of the
  configuration tree. A \<open>struct avltree_node_t *\<close> is \<open>ET\<close> for \<open>NULL\<close> or a node with
  its children, the object that embeds it and the stored height; the comparison routine
  is an argument, as in the code. The theory shows that insertion and removal keep the
  tree balanced and ordered, that search finds exactly what is stored, and that the tree
  is a finite map on the comparison keys.
\<close>

section \<open>The tree and its operations\<close>

datatype (elems: 'a) avltree = ET | TN (lchild: "'a avltree") (leaf: 'a) (height: int) (rchild: "'a avltree")

definition HEIGHT :: "'a avltree \<Rightarrow> int" where
  "HEIGHT t = (case t of ET \<Rightarrow> -1 | TN l x h r \<Rightarrow> h)"

text \<open>A node whose height is assigned \<open>MAX(HEIGHT(lchild), HEIGHT(rchild)) + 1\<close>.\<close>

definition mknode :: "'a avltree \<Rightarrow> 'a \<Rightarrow> 'a avltree \<Rightarrow> 'a avltree" where
  "mknode l x r = TN l x (max (HEIGHT l) (HEIGHT r) + 1) r"

text \<open>
  The rotations dereference the child (and grandchild) that the caller's height test has
  shown to exist; on any other shape the model leaves the tree alone.
\<close>

fun avlsinglerotateleft :: "'a avltree \<Rightarrow> 'a avltree" where
  "avlsinglerotateleft (TN (TN ll y hy lr) x hx r) = mknode ll y (mknode lr x r)"
| "avlsinglerotateleft t = t"

fun avlsinglerotateright :: "'a avltree \<Rightarrow> 'a avltree" where
  "avlsinglerotateright (TN l x hx (TN rl y hy rr)) = mknode (mknode l x rl) y rr"
| "avlsinglerotateright t = t"

fun avldoublerotateleft :: "'a avltree \<Rightarrow> 'a avltree" where
  "avldoublerotateleft (TN (TN ll y hy (TN a z hz b)) x hx r) =
     mknode (mknode ll y a) z (mknode b x r)"
| "avldoublerotateleft t = t"

fun avldoublerotateright :: "'a avltree \<Rightarrow> 'a avltree" where
  "avldoublerotateright (TN l x hx (TN (TN a z hz b) y hy rr)) =
     mknode (mknode l x a) z (mknode b y rr)"
| "avldoublerotateright t = t"

fun avlinsert :: "('a \<Rightarrow> 'a \<Rightarrow> int) \<Rightarrow> 'a avltree \<Rightarrow> 'a \<Rightarrow> 'a avltree" where
  "avlinsert compare ET node = TN ET node 0 ET"
| "avlinsert compare (TN l x h r) node =
     (let ret = compare node x in
      if ret < 0 then
        (let l' = avlinsert compare l node in
         if HEIGHT l' - HEIGHT r = 2 then
           (let ret = compare node (leaf l') in
            if ret < 0 then avlsinglerotateleft (TN l' x h r)
            else if 0 < ret then avldoublerotateleft (TN l' x h r)
            else TN l' x h r)
         else mknode l' x r)
      else if 0 < ret then
        (let r' = avlinsert compare r node in
         if HEIGHT r' - HEIGHT l = 2 then
           (let ret = compare node (leaf r') in
            if ret < 0 then avldoublerotateright (TN l x h r')
            else if 0 < ret then avlsinglerotateright (TN l x h r')
            else TN l x h r')
         else mknode l x r')
      else TN l x h r)"

fun avlgetmin :: "'a avltree \<Rightarrow> 'a option" where
  "avlgetmin ET = None"
| "avlgetmin (TN l x h r) = (if l \<noteq> ET then avlgetmin l else Some x)"

fun avlgetmax :: "'a avltree \<Rightarrow> 'a option" where
  "avlgetmax ET = None"
| "avlgetmax (TN l x h r) = (if r \<noteq> ET then avlgetmax r else Some x)"

text \<open>The rebalancing that \<open>avlremove\<close> does on its way up.\<close>

definition avlrebalance :: "'a avltree \<Rightarrow> 'a avltree" where
  "avlrebalance tree =
     (let l = lchild tree; r = rchild tree;
          tree' =
            (if HEIGHT l - HEIGHT r = 2 then
               (if HEIGHT (lchild l) - HEIGHT r = 1 \<and> HEIGHT (rchild l) - HEIGHT r = 1
                then avlsinglerotateleft tree
                else if HEIGHT (lchild l) - HEIGHT r = 1 then avlsinglerotateleft tree
                else if HEIGHT (rchild l) - HEIGHT r = 1 then avldoublerotateleft tree
                else tree)
             else if HEIGHT r - HEIGHT l = 2 then
               (if HEIGHT (rchild r) - HEIGHT l = 1 \<and> HEIGHT (lchild r) - HEIGHT l = 1
                then avlsinglerotateright tree
                else if HEIGHT (rchild r) - HEIGHT l = 1 then avlsinglerotateright tree
                else if HEIGHT (lchild r) - HEIGHT l = 1 then avldoublerotateright tree
                else tree)
             else tree)
      in mknode (lchild tree') (leaf tree') (rchild tree'))"

text \<open>
  \<open>avlremove\<close> returns the new root and the object written to \<open>*rmnode\<close> (\<open>None\<close>: it holds
  \<open>NULL\<close>, or was left untouched when the tree is empty). In the two-child case the node
  that moves up keeps its old height until the end, so the stale height is irrelevant.
\<close>

fun avlremove :: "('a \<Rightarrow> 'a \<Rightarrow> int) \<Rightarrow> 'a avltree \<Rightarrow> 'a \<Rightarrow> 'a avltree \<times> 'a option" where
  "avlremove compare ET node = (ET, None)"
| "avlremove compare (TN l x h r) node =
     (let ret = compare node x in
      if ret = 0 then
        (if l \<noteq> ET \<and> r \<noteq> ET then
           (case avlgetmin r of
              Some tmpnode \<Rightarrow>
                (let (r', _) = avlremove compare r tmpnode
                 in (avlrebalance (TN l tmpnode h r'), Some x))
            | None \<Rightarrow> (TN l x h r, None))
         else if l \<noteq> ET then (l, Some x)
         else if r \<noteq> ET then (r, Some x)
         else (ET, Some x))
      else if ret < 0 then
        (if l \<noteq> ET then
           (let (l', rmnode) = avlremove compare l node
            in (avlrebalance (TN l' x h r), rmnode))
         else (avlrebalance (TN l x h r), None))
      else
        (if r \<noteq> ET then
           (let (r', rmnode) = avlremove compare r node
            in (avlrebalance (TN l x h r'), rmnode))
         else (avlrebalance (TN l x h r), None)))"

fun avlsearch :: "('a \<Rightarrow> 'a \<Rightarrow> int) \<Rightarrow> 'a avltree \<Rightarrow> 'a \<Rightarrow> 'a option" where
  "avlsearch compare ET node = None"
| "avlsearch compare (TN l x h r) node =
     (let ret = compare node x in
      if ret < 0 then avlsearch compare l node
      else if 0 < ret then avlsearch compare r node
      else Some x)"

section \<open>Balance\<close>

text \<open>The height of a tree, \<open>-1\<close> for the empty one, and the AVL invariant.\<close>

fun hgt :: "'a avltree \<Rightarrow> int" where
  "hgt ET = -1"
| "hgt (TN l x h r) = max (hgt l) (hgt r) + 1"

fun avl :: "'a avltree \<Rightarrow> bool" where
  "avl ET = True"
| "avl (TN l x h r) =
     (\<bar>hgt l - hgt r\<bar> \<le> 1 \<and> h = max (hgt l) (hgt r) + 1 \<and> avl l \<and> avl r)"

lemma HEIGHT_simps [simp]: "HEIGHT ET = -1" "HEIGHT (TN l x h r) = h"
  by (simp_all add: HEIGHT_def)

lemma HEIGHT_hgt [simp]: "avl t \<Longrightarrow> HEIGHT t = hgt t"
  by (cases t) simp_all

lemma hgt_ge: "-1 \<le> hgt t"
  by (induction t) auto

lemma hgt_nonempty: "t \<noteq> ET \<Longrightarrow> 0 \<le> hgt t"
proof (cases t)
  case (TN l x h r)
  with hgt_ge [of l] show ?thesis by (simp add: max_def)
qed simp

lemma hgt_eq_ET [simp]: "hgt t = -1 \<longleftrightarrow> t = ET"
  using hgt_nonempty by fastforce

lemma hgt_mknode [simp]: "hgt (mknode l x r) = max (hgt l) (hgt r) + 1"
  by (simp add: mknode_def)

lemma avl_mknode [simp]:
  "avl l \<Longrightarrow> avl r \<Longrightarrow> avl (mknode l x r) \<longleftrightarrow> \<bar>hgt l - hgt r\<bar> \<le> 1"
  by (simp add: mknode_def)

lemma mknode_not_ET [simp]: "mknode l x r \<noteq> ET"
  by (simp add: mknode_def)

lemma avl_singleleft:
  assumes "avl l" "avl r" "hgt l = hgt r + 2" "hgt (lchild l) = hgt r + 1"
  shows "avl (avlsinglerotateleft (TN l x h r))"
    and "hgt (avlsinglerotateleft (TN l x h r)) = hgt (rchild l) + 2"
proof -
  from assms obtain ll y hy lr where l: "l = TN ll y hy lr"
    using hgt_ge [of r] by (cases l) auto
  with assms have "hgt ll = hgt r + 1" "hgt lr = hgt r \<or> hgt lr = hgt r + 1" "avl ll" "avl lr"
    by auto
  with l assms(2) show "avl (avlsinglerotateleft (TN l x h r))"
    and "hgt (avlsinglerotateleft (TN l x h r)) = hgt (rchild l) + 2"
    by auto
qed

lemma avl_singleright:
  assumes "avl l" "avl r" "hgt r = hgt l + 2" "hgt (rchild r) = hgt l + 1"
  shows "avl (avlsinglerotateright (TN l x h r))"
    and "hgt (avlsinglerotateright (TN l x h r)) = hgt (lchild r) + 2"
proof -
  from assms obtain rl y hy rr where r: "r = TN rl y hy rr"
    using hgt_ge [of l] by (cases r) auto
  with assms have "hgt rr = hgt l + 1" "hgt rl = hgt l \<or> hgt rl = hgt l + 1" "avl rl" "avl rr"
    by auto
  with r assms(1) show "avl (avlsinglerotateright (TN l x h r))"
    and "hgt (avlsinglerotateright (TN l x h r)) = hgt (lchild r) + 2"
    by auto
qed

lemma avl_doubleleft:
  assumes "avl l" "avl r" "hgt l = hgt r + 2" "hgt (rchild l) = hgt r + 1" "hgt (lchild l) = hgt r"
  shows "avl (avldoublerotateleft (TN l x h r))"
    and "hgt (avldoublerotateleft (TN l x h r)) = hgt r + 2"
proof -
  from assms obtain ll y hy lr where l: "l = TN ll y hy lr"
    using hgt_ge [of r] by (cases l) auto
  with assms obtain a z hz b where "lr = TN a z hz b"
    using hgt_ge [of r] by (cases lr) auto
  with l assms show "avl (avldoublerotateleft (TN l x h r))"
    and "hgt (avldoublerotateleft (TN l x h r)) = hgt r + 2"
    by (auto simp: max_def split: if_splits)
qed

lemma avl_doubleright:
  assumes "avl l" "avl r" "hgt r = hgt l + 2" "hgt (lchild r) = hgt l + 1" "hgt (rchild r) = hgt l"
  shows "avl (avldoublerotateright (TN l x h r))"
    and "hgt (avldoublerotateright (TN l x h r)) = hgt l + 2"
proof -
  from assms obtain rl y hy rr where r: "r = TN rl y hy rr"
    using hgt_ge [of l] by (cases r) auto
  with assms obtain a z hz b where "rl = TN a z hz b"
    using hgt_ge [of l] by (cases rl) auto
  with r assms show "avl (avldoublerotateright (TN l x h r))"
    and "hgt (avldoublerotateright (TN l x h r)) = hgt l + 2"
    by (auto simp: max_def split: if_splits)
qed

lemmas avl_rotations = avl_singleleft avl_singleright avl_doubleleft avl_doubleright

text \<open>
  What an insertion does to a balanced tree: the height stays or grows by one, and when it
  grows the object went to the side on which the comparison with the new root puts it.
  That is why the code may choose the rotation by a second comparison.
\<close>

definition grown :: "('a \<Rightarrow> 'a \<Rightarrow> int) \<Rightarrow> 'a avltree \<Rightarrow> 'a \<Rightarrow> 'a avltree \<Rightarrow> bool" where
  "grown compare t node t' \<longleftrightarrow>
     hgt t' = hgt t + 1 \<and>
     (t \<noteq> ET \<longrightarrow>
       (compare node (leaf t') < 0 \<and> hgt (lchild t') = hgt (rchild t') + 1 \<or>
        0 < compare node (leaf t') \<and> hgt (rchild t') = hgt (lchild t') + 1))"

lemma avlinsert_left_heavy:
  assumes bal: "avl r" "\<bar>hgt l - hgt r\<bar> \<le> 1"
    and l': "avl l'" "l' \<noteq> ET" "hgt l' = hgt l \<or> grown compare l node l'"
    and heavy: "hgt l' - hgt r = 2"
    and t'_def: "t' = (if compare node (leaf l') < 0 then avlsinglerotateleft (TN l' x h r)
     else if 0 < compare node (leaf l') then avldoublerotateleft (TN l' x h r) else TN l' x h r)"
  shows "avl t' \<and> t' \<noteq> ET \<and> hgt t' = max (hgt l) (hgt r) + 1"
proof -
  from l'(3) bal(2) heavy have g: "grown compare l node l'" and hl: "hgt l = hgt r + 1"
    by (auto simp: grown_def)
  from hl have "l \<noteq> ET" using hgt_ge [of r] by auto
  with g have side: "compare node (leaf l') < 0 \<and> hgt (lchild l') = hgt (rchild l') + 1 \<or>
      0 < compare node (leaf l') \<and> hgt (rchild l') = hgt (lchild l') + 1"
    by (simp add: grown_def)
  have parts: "hgt l' = max (hgt (lchild l')) (hgt (rchild l')) + 1"
    using l'(2) by (cases l') auto
  from side have "avl t' \<and> hgt t' = hgt r + 2"
  proof
    assume s: "compare node (leaf l') < 0 \<and> hgt (lchild l') = hgt (rchild l') + 1"
    with parts heavy have "hgt l' = hgt r + 2" "hgt (lchild l') = hgt r + 1" "hgt (rchild l') = hgt r"
      by auto
    with avl_singleleft [OF l'(1) bal(1), of x h] s show ?thesis by (simp add: t'_def)
  next
    assume s: "0 < compare node (leaf l') \<and> hgt (rchild l') = hgt (lchild l') + 1"
    with parts heavy have "hgt l' = hgt r + 2" "hgt (rchild l') = hgt r + 1" "hgt (lchild l') = hgt r"
      by auto
    with avl_doubleleft [OF l'(1) bal(1), of x h] s show ?thesis by (simp add: t'_def)
  qed
  with hl hgt_ge [of r] show ?thesis by auto
qed

lemma avlinsert_right_heavy:
  assumes bal: "avl l" "\<bar>hgt l - hgt r\<bar> \<le> 1"
    and r': "avl r'" "r' \<noteq> ET" "hgt r' = hgt r \<or> grown compare r node r'"
    and heavy: "hgt r' - hgt l = 2"
    and t'_def: "t' = (if compare node (leaf r') < 0 then avldoublerotateright (TN l x h r')
     else if 0 < compare node (leaf r') then avlsinglerotateright (TN l x h r') else TN l x h r')"
  shows "avl t' \<and> t' \<noteq> ET \<and> hgt t' = max (hgt l) (hgt r) + 1"
proof -
  from r'(3) bal(2) heavy have g: "grown compare r node r'" and hr: "hgt r = hgt l + 1"
    by (auto simp: grown_def)
  from hr have "r \<noteq> ET" using hgt_ge [of l] by auto
  with g have side: "compare node (leaf r') < 0 \<and> hgt (lchild r') = hgt (rchild r') + 1 \<or>
      0 < compare node (leaf r') \<and> hgt (rchild r') = hgt (lchild r') + 1"
    by (simp add: grown_def)
  have parts: "hgt r' = max (hgt (lchild r')) (hgt (rchild r')) + 1"
    using r'(2) by (cases r') auto
  from side have "avl t' \<and> hgt t' = hgt l + 2"
  proof
    assume s: "compare node (leaf r') < 0 \<and> hgt (lchild r') = hgt (rchild r') + 1"
    with parts heavy have "hgt r' = hgt l + 2" "hgt (lchild r') = hgt l + 1" "hgt (rchild r') = hgt l"
      by auto
    with avl_doubleright [OF bal(1) r'(1), of x h] s show ?thesis by (simp add: t'_def)
  next
    assume s: "0 < compare node (leaf r') \<and> hgt (rchild r') = hgt (lchild r') + 1"
    with parts heavy have "hgt r' = hgt l + 2" "hgt (rchild r') = hgt l + 1" "hgt (lchild r') = hgt l"
      by auto
    with avl_singleright [OF bal(1) r'(1), of x h] s show ?thesis by (simp add: t'_def)
  qed
  with hr hgt_ge [of l] show ?thesis by auto
qed

lemma avlinsert_balanced:
  "avl t \<Longrightarrow> avl (avlinsert compare t node) \<and> avlinsert compare t node \<noteq> ET \<and>
     (hgt (avlinsert compare t node) = hgt t \<or> grown compare t node (avlinsert compare t node))"
proof (induction t)
  case ET
  show ?case by (simp add: grown_def)
next
  case (TN l x h r)
  let ?ret = "compare node x"
  let ?l = "avlinsert compare l node" and ?r = "avlinsert compare r node"
  from TN.prems have bal: "avl l" "avl r" "\<bar>hgt l - hgt r\<bar> \<le> 1" "h = max (hgt l) (hgt r) + 1"
    by auto
  with TN.IH have IHl: "avl ?l" "?l \<noteq> ET" "hgt ?l = hgt l \<or> grown compare l node ?l"
    and IHr: "avl ?r" "?r \<noteq> ET" "hgt ?r = hgt r \<or> grown compare r node ?r"
    by auto
  consider (less) "?ret < 0" | (greater) "0 < ?ret" | (equal) "?ret = 0" by linarith
  then show ?case
  proof cases
    case less
    show ?thesis
    proof (cases "hgt ?l - hgt r = 2")
      case True
      have "HEIGHT ?l - HEIGHT r = 2" using True IHl(1) bal(2) by simp
      with less have eq: "avlinsert compare (TN l x h r) node =
          (if compare node (leaf ?l) < 0 then avlsinglerotateleft (TN ?l x h r)
           else if 0 < compare node (leaf ?l) then avldoublerotateleft (TN ?l x h r)
           else TN ?l x h r)"
        by (simp only: avlinsert.simps Let_def simp_thms if_True)
      from avlinsert_left_heavy [OF bal(2,3) IHl True eq] show ?thesis by simp
    next
      case False
      with less IHl bal show ?thesis
        by (auto simp: Let_def grown_def mknode_def max_def)
    qed
  next
    case greater
    show ?thesis
    proof (cases "hgt ?r - hgt l = 2")
      case True
      have "HEIGHT ?r - HEIGHT l = 2" "\<not> ?ret < 0" using True IHr(1) bal(1) greater by simp_all
      with greater have eq: "avlinsert compare (TN l x h r) node =
          (if compare node (leaf ?r) < 0 then avldoublerotateright (TN l x h ?r)
           else if 0 < compare node (leaf ?r) then avlsinglerotateright (TN l x h ?r)
           else TN l x h ?r)"
        by (simp only: avlinsert.simps Let_def simp_thms if_True if_False)
      from avlinsert_right_heavy [OF bal(1,3) IHr True eq] show ?thesis by simp
    next
      case False
      with greater IHr bal show ?thesis
        by (auto simp: Let_def grown_def mknode_def max_def)
    qed
  next
    case equal
    with TN.prems show ?thesis by simp
  qed
qed

lemma avlrebalance_id:
  assumes "avl l" "avl r" "\<bar>hgt l - hgt r\<bar> \<le> 1"
  shows "avlrebalance (TN l x h r) = mknode l x r"
proof -
  from assms have "HEIGHT l - HEIGHT r \<noteq> 2" "HEIGHT r - HEIGHT l \<noteq> 2" by auto
  then show ?thesis by (simp add: avlrebalance_def)
qed

lemma mknode_sel [simp]:
  "lchild (mknode l x r) = l" "leaf (mknode l x r) = x" "rchild (mknode l x r) = r"
  by (simp_all add: mknode_def)

text \<open>Rebalancing repairs a difference of two, and lowers the height by at most one.\<close>

lemma avlrebalance_left:
  assumes "avl l" "avl r" "hgt l = hgt r + 2"
  shows "avl (avlrebalance (TN l x h r)) \<and>
    hgt (avlrebalance (TN l x h r)) \<in> {hgt r + 2, hgt r + 3}"
proof -
  from assms obtain ll y hy lr where l: "l = TN ll y hy lr"
    using hgt_ge [of r] by (cases l) auto
  with assms have parts: "avl ll" "avl lr" "max (hgt ll) (hgt lr) = hgt r + 1" "\<bar>hgt ll - hgt lr\<bar> \<le> 1"
    by auto
  show ?thesis
  proof (cases "hgt ll = hgt r + 1")
    case True
    with l assms have "avlrebalance (TN l x h r) = avlsinglerotateleft (TN l x h r)"
      by (simp add: avlrebalance_def Let_def)
    with avl_singleleft [OF assms, of x h] True parts l show ?thesis by auto
  next
    case False
    with parts have lr: "hgt lr = hgt r + 1" "hgt ll = hgt r" by auto
    then obtain a z hz b where "lr = TN a z hz b"
      using hgt_ge [of r] by (cases lr) auto
    with lr l assms have "avlrebalance (TN l x h r) = avldoublerotateleft (TN l x h r)"
      by (simp add: avlrebalance_def Let_def)
    with avl_doubleleft [OF assms, of x h] lr l show ?thesis by simp
  qed
qed

lemma avlrebalance_right:
  assumes "avl l" "avl r" "hgt r = hgt l + 2"
  shows "avl (avlrebalance (TN l x h r)) \<and>
    hgt (avlrebalance (TN l x h r)) \<in> {hgt l + 2, hgt l + 3}"
proof -
  from assms obtain rl y hy rr where r: "r = TN rl y hy rr"
    using hgt_ge [of l] by (cases r) auto
  with assms have parts: "avl rl" "avl rr" "max (hgt rl) (hgt rr) = hgt l + 1" "\<bar>hgt rl - hgt rr\<bar> \<le> 1"
    by auto
  show ?thesis
  proof (cases "hgt rr = hgt l + 1")
    case True
    with r assms have "avlrebalance (TN l x h r) = avlsinglerotateright (TN l x h r)"
      by (simp add: avlrebalance_def Let_def)
    with avl_singleright [OF assms, of x h] True parts r show ?thesis by auto
  next
    case False
    with parts have rl: "hgt rl = hgt l + 1" "hgt rr = hgt l" by auto
    then obtain a z hz b where "rl = TN a z hz b"
      using hgt_ge [of l] by (cases rl) auto
    with rl r assms have "avlrebalance (TN l x h r) = avldoublerotateright (TN l x h r)"
      by (simp add: avlrebalance_def Let_def)
    with avl_doubleright [OF assms, of x h] rl r show ?thesis by simp
  qed
qed

lemma avlrebalance_shrink_left:
  assumes "avl l" "avl r" "\<bar>hgt l0 - hgt r\<bar> \<le> 1" "hgt l \<in> {hgt l0, hgt l0 - 1}"
  shows "avl (avlrebalance (TN l x h r)) \<and>
    hgt (avlrebalance (TN l x h r)) \<in> {max (hgt l0) (hgt r) + 1, max (hgt l0) (hgt r)}"
proof (cases "\<bar>hgt l - hgt r\<bar> \<le> 1")
  case True
  with assms show ?thesis by (auto simp: avlrebalance_id)
next
  case False
  with assms have "hgt r = hgt l + 2" "hgt l0 = hgt l + 1" by auto
  with avlrebalance_right [OF assms(1,2), of x h] show ?thesis by auto
qed

lemma avlrebalance_shrink_right:
  assumes "avl l" "avl r" "\<bar>hgt l - hgt r0\<bar> \<le> 1" "hgt r \<in> {hgt r0, hgt r0 - 1}"
  shows "avl (avlrebalance (TN l x h r)) \<and>
    hgt (avlrebalance (TN l x h r)) \<in> {max (hgt l) (hgt r0) + 1, max (hgt l) (hgt r0)}"
proof (cases "\<bar>hgt l - hgt r\<bar> \<le> 1")
  case True
  with assms show ?thesis by (auto simp: avlrebalance_id)
next
  case False
  with assms have "hgt l = hgt r + 2" "hgt r0 = hgt r + 1" by auto
  with avlrebalance_left [OF assms(1,2), of x h] show ?thesis by auto
qed

lemma avlgetmin_Some: "t \<noteq> ET \<Longrightarrow> \<exists>x. avlgetmin t = Some x \<and> x \<in> elems t"
  by (induction t) auto

lemma avlremove_balanced:
  "avl t \<Longrightarrow> avl (fst (avlremove compare t node)) \<and>
     hgt (fst (avlremove compare t node)) \<in> {hgt t, hgt t - 1}"
proof (induction compare t node rule: avlremove.induct)
  case (1 compare node)
  show ?case by simp
next
  case (2 compare l x h r node)
  let ?ret = "compare node x"
  from "2.prems" have bal: "avl l" "avl r" "\<bar>hgt l - hgt r\<bar> \<le> 1" by auto
  consider (two) tmp where "?ret = 0" "l \<noteq> ET" "r \<noteq> ET" "avlgetmin r = Some tmp"
    | (one) "?ret = 0" "l = ET \<or> r = ET"
    | (less) "?ret < 0" | (greater) "0 < ?ret"
    using avlgetmin_Some [of r] by (metis linorder_neq_iff)
  then show ?case
  proof cases
    case two
    with "2.IH"(1) [OF refl] bal(2)
    have "avl (fst (avlremove compare r tmp))" "hgt (fst (avlremove compare r tmp)) \<in> {hgt r, hgt r - 1}"
      by auto
    from avlrebalance_shrink_right [OF bal(1) this(1) bal(3) this(2)] two show ?thesis
      by (auto simp: case_prod_beta)
  next
    case one
    with bal hgt_ge [of l] hgt_ge [of r] show ?thesis by auto
  next
    case less
    show ?thesis
    proof (cases "l = ET")
      case True
      with less bal show ?thesis by (auto simp: avlrebalance_id)
    next
      case False
      with less "2.IH"(2) [OF refl] bal(1)
      have "avl (fst (avlremove compare l node))" "hgt (fst (avlremove compare l node)) \<in> {hgt l, hgt l - 1}"
        by auto
      from avlrebalance_shrink_left [OF this(1) bal(2,3) this(2)] less False show ?thesis
        by (auto simp: case_prod_beta)
    qed
  next
    case greater
    show ?thesis
    proof (cases "r = ET")
      case True
      with greater bal show ?thesis by (auto simp: avlrebalance_id)
    next
      case False
      with greater "2.IH"(3) [OF refl] bal(2)
      have "avl (fst (avlremove compare r node))" "hgt (fst (avlremove compare r node)) \<in> {hgt r, hgt r - 1}"
        by auto
      from avlrebalance_shrink_right [OF bal(1) this(1) bal(3) this(2)] greater False show ?thesis
        by (auto simp: case_prod_beta)
    qed
  qed
qed

section \<open>Logarithmic height\<close>

fun nodes :: "'a avltree \<Rightarrow> nat" where
  "nodes ET = 0"
| "nodes (TN l x h r) = nodes l + nodes r + 1"

lemma avl_levels:
  "avl t \<Longrightarrow> hgt t + 2 = int k \<Longrightarrow> 2 ^ (k div 2) \<le> nodes t + 1"
proof (induction k arbitrary: t rule: less_induct)
  case (less k)
  show ?case
  proof (cases t)
    case ET
    with less.prems have "k = 1" by simp
    then show ?thesis by simp
  next
    case (TN l x h r)
    with less.prems have bal: "avl l" "avl r" "\<bar>hgt l - hgt r\<bar> \<le> 1"
      and h: "max (hgt l) (hgt r) + 3 = int k" by auto
    show ?thesis
    proof (cases "k < 3")
      case True
      have "max (hgt l) (hgt r) \<ge> -1" using hgt_ge [of l] by simp
      with h True have "k = 2" by linarith
      then show ?thesis using TN by simp
    next
      case False
      have "k div 2 = Suc ((k - 2) div 2)" using False by presburger
      then have half: "(2::nat) ^ (k div 2) = 2 * 2 ^ ((k - 2) div 2)" by simp
      have sub: "2 ^ ((k - 2) div 2) \<le> nodes s + 1"
        if s: "avl s" "hgt s + 2 = int (k - 1) \<or> hgt s + 2 = int (k - 2)" for s :: "'a avltree"
      proof -
        have "2 ^ ((k - 1) div 2) \<le> nodes s + 1 \<or> 2 ^ ((k - 2) div 2) \<le> nodes s + 1"
          using s less.IH [of "k - 1" s] less.IH [of "k - 2" s] False by force
        moreover have "(2::nat) ^ ((k - 2) div 2) \<le> 2 ^ ((k - 1) div 2)"
          by (intro power_increasing div_le_mono) auto
        ultimately show ?thesis by linarith
      qed
      have "hgt l + 2 = int (k - 1) \<or> hgt l + 2 = int (k - 2)"
        "hgt r + 2 = int (k - 1) \<or> hgt r + 2 = int (k - 2)"
        using h bal(3) False by (auto simp: max_def split: if_splits)
      with sub [OF bal(1)] sub [OF bal(2)] half TN show ?thesis by simp
    qed
  qed
qed

text \<open>
  In a balanced tree the recursion depth of the operations is logarithmic: a tree of
  height \<open>h\<close> (counted as the code does, \<open>0\<close> for a single node) holds at least
  \<open>2 ^ ((h + 2) div 2) - 1\<close> objects.
\<close>

theorem avl_height_logarithmic:
  assumes "avl t"
  shows "2 ^ (nat (HEIGHT t + 2) div 2) \<le> nodes t + 1"
  using avl_levels [OF assms, of "nat (hgt t + 2)"] hgt_ge [of t] assms by simp

theorem avl_height_logarithmic_witness:
  "2 ^ (nat (HEIGHT (TN (TN ET (1::nat) 0 ET) 2 1 ET) + 2) div 2)
     \<le> nodes (TN (TN ET (1::nat) 0 ET) 2 1 ET) + 1"
  by (rule avl_height_logarithmic) simp

section \<open>Order: the interface of the comparison routine\<close>

text \<open>The order invariant, by the key under which the comparison routine orders the objects.\<close>

fun bst :: "('a \<Rightarrow> 'k::linorder) \<Rightarrow> 'a avltree \<Rightarrow> bool" where
  "bst key ET = True"
| "bst key (TN l x h r) =
     (bst key l \<and> bst key r \<and> (\<forall>y\<in>elems l. key y < key x) \<and> (\<forall>y\<in>elems r. key x < key y))"

lemma bst_mknode [simp]:
  "bst key (mknode l x r) \<longleftrightarrow>
     bst key l \<and> bst key r \<and> (\<forall>y\<in>elems l. key y < key x) \<and> (\<forall>y\<in>elems r. key x < key y)"
  by (simp add: mknode_def)

lemma elems_mknode [simp]: "elems (mknode l x r) = elems l \<union> {x} \<union> elems r"
  by (auto simp: mknode_def)

lemma elems_rotations [simp]:
  shows "elems (avlsinglerotateleft t) = elems t"
    and "elems (avlsinglerotateright t) = elems t"
    and "elems (avldoublerotateleft t) = elems t"
    and "elems (avldoublerotateright t) = elems t"
  subgoal by (cases t rule: avlsinglerotateleft.cases) auto
  subgoal by (cases t rule: avlsinglerotateright.cases) auto
  subgoal by (cases t rule: avldoublerotateleft.cases) auto
  subgoal by (cases t rule: avldoublerotateright.cases) auto
  done

lemma bst_rotations:
  assumes "bst key t"
  shows "bst key (avlsinglerotateleft t)"
    and "bst key (avlsinglerotateright t)"
    and "bst key (avldoublerotateleft t)"
    and "bst key (avldoublerotateright t)"
  subgoal using assms by (cases t rule: avlsinglerotateleft.cases) (auto simp: mknode_def)
  subgoal using assms by (cases t rule: avlsinglerotateright.cases) (auto simp: mknode_def)
  subgoal using assms by (cases t rule: avldoublerotateleft.cases) (force simp: mknode_def)+
  subgoal using assms by (cases t rule: avldoublerotateright.cases) (force simp: mknode_def)+
  done

lemma avlrebalance_elems [simp]: "elems (avlrebalance (TN l x h r)) = elems l \<union> {x} \<union> elems r"
proof -
  have "elems (mknode (lchild t) (leaf t) (rchild t)) = elems t" if "t \<noteq> ET" for t :: "'a avltree"
    using that by (cases t) auto
  moreover have "avlsinglerotateleft t \<noteq> ET" "avldoublerotateleft t \<noteq> ET"
      "avlsinglerotateright t \<noteq> ET" "avldoublerotateright t \<noteq> ET" if "t \<noteq> ET" for t :: "'a avltree"
    using that elems_rotations [of t] by (cases t; force)+
  ultimately show ?thesis
    by (auto simp: avlrebalance_def Let_def)
qed

lemma avlrebalance_bst:
  assumes "bst key (TN l x h r)"
  shows "bst key (avlrebalance (TN l x h r))"
proof -
  have "bst key (mknode (lchild t) (leaf t) (rchild t))" if "bst key t" "t \<noteq> ET" for t :: "'a avltree"
    using that by (cases t) (auto simp: mknode_def)
  moreover have "avlsinglerotateleft t \<noteq> ET" "avldoublerotateleft t \<noteq> ET"
      "avlsinglerotateright t \<noteq> ET" "avldoublerotateright t \<noteq> ET" if "t \<noteq> ET" for t :: "'a avltree"
    using that elems_rotations [of t] by (cases t; force)+
  ultimately show ?thesis
    using assms bst_rotations [OF assms] by (simp add: avlrebalance_def Let_def)
qed

lemma avlgetmin_elem: "avlgetmin t = Some x \<Longrightarrow> x \<in> elems t"
  by (induction t) (auto split: if_splits)

lemma avlgetmin_least:
  "bst key t \<Longrightarrow> avlgetmin t = Some x \<Longrightarrow> y \<in> elems t \<Longrightarrow> y = x \<or> key x < key y"
  by (induction t) (fastforce split: if_splits dest: avlgetmin_elem)+

lemma avlgetmax_elem: "avlgetmax t = Some x \<Longrightarrow> x \<in> elems t"
  by (induction t) (auto split: if_splits)

lemma avlgetmax_greatest:
  "bst key t \<Longrightarrow> avlgetmax t = Some x \<Longrightarrow> y \<in> elems t \<Longrightarrow> y = x \<or> key y < key x"
  by (induction t) (fastforce split: if_splits dest: avlgetmax_elem)+

lemma avlgetmin_None [simp]: "avlgetmin t = None \<longleftrightarrow> t = ET"
  by (induction t) auto

lemma avlgetmax_None [simp]: "avlgetmax t = None \<longleftrightarrow> t = ET"
  by (induction t) auto

lemma elems_empty [simp]: "elems t = {} \<longleftrightarrow> t = ET"
  by (cases t) auto

lemma bst_inj: "bst key t \<Longrightarrow> y \<in> elems t \<Longrightarrow> z \<in> elems t \<Longrightarrow> key y = key z \<Longrightarrow> y = z"
  by (induction t) fastforce+

text \<open>
  What the tree needs of its comparison routine: it orders the objects by some key. The
  client's facts are proved once from these laws: the order invariant is kept, search is
  exact, insertion keeps an object that compares equal, removal takes one object out.
\<close>

locale avl_compare =
  fixes compare :: "'a \<Rightarrow> 'a \<Rightarrow> int"
    and key :: "'a \<Rightarrow> 'k::linorder"
  assumes compare_less: "compare a b < 0 \<longleftrightarrow> key a < key b"
    and compare_greater: "0 < compare a b \<longleftrightarrow> key b < key a"
begin

lemma compare_eq: "compare a b = 0 \<longleftrightarrow> key a = key b"
  using compare_less [of a b] compare_greater [of a b] by (metis linorder_neq_iff)

lemma avlsearch_Some:
  "bst key t \<Longrightarrow> avlsearch compare t node = Some y \<longleftrightarrow> y \<in> elems t \<and> key y = key node"
  by (induction t)
    (auto simp: Let_def compare_less compare_greater compare_eq not_less_iff_gr_or_eq)

lemma avlsearch_None:
  "bst key t \<Longrightarrow> avlsearch compare t node = None \<longleftrightarrow> key node \<notin> key ` elems t"
  using avlsearch_Some [of t node] by (cases "avlsearch compare t node") (fastforce simp: image_iff)+

lemma elems_avlinsert_TN:
  "elems (avlinsert compare (TN l x h r) node) =
     (if key node < key x then elems (TN (avlinsert compare l node) x h r)
      else if key x < key node then elems (TN l x h (avlinsert compare r node))
      else elems (TN l x h r))"
  by (simp add: Let_def compare_less compare_greater)

lemma bst_avlinsert_TN:
  assumes "key node < key x \<Longrightarrow> bst key (TN (avlinsert compare l node) x h r)"
    and "key x < key node \<Longrightarrow> bst key (TN l x h (avlinsert compare r node))"
    and "bst key (TN l x h r)"
  shows "bst key (avlinsert compare (TN l x h r) node)"
proof (rule linorder_cases [of "key node" "key x"])
  assume lt: "key node < key x"
  then have "bst key (TN (avlinsert compare l node) x h r)" by (rule assms(1))
  moreover from this have "bst key (mknode (avlinsert compare l node) x r)" by simp
  moreover from lt have "compare node x < 0" by (simp add: compare_less)
  ultimately show ?thesis using bst_rotations [of key "TN (avlinsert compare l node) x h r"]
    by (simp only: avlinsert.simps Let_def if_True if_False simp_thms split: if_split)
next
  assume gt: "key x < key node"
  then have "bst key (TN l x h (avlinsert compare r node))" by (rule assms(2))
  moreover from this have "bst key (mknode l x (avlinsert compare r node))" by simp
  moreover from gt have "\<not> compare node x < 0" "0 < compare node x"
    by (auto simp: compare_less compare_greater)
  ultimately show ?thesis using bst_rotations [of key "TN l x h (avlinsert compare r node)"]
    by (simp only: avlinsert.simps Let_def if_True if_False simp_thms split: if_split)
next
  assume "key node = key x"
  with assms(3) show ?thesis by (simp add: Let_def compare_less compare_greater)
qed

lemma elems_avlinsert:
  "bst key t \<Longrightarrow> elems (avlinsert compare t node) =
     (if key node \<in> key ` elems t then elems t else insert node (elems t))"
proof (induction t)
  case (TN l x h r)
  consider "key node < key x" | "key x < key node" | "key node = key x" by (rule linorder_cases)
  then show ?case
    by cases (use TN in \<open>auto simp del: avlinsert.simps simp: elems_avlinsert_TN image_iff\<close>)
qed simp

lemma bst_avlinsert: "bst key t \<Longrightarrow> bst key (avlinsert compare t node)"
proof (induction t)
  case (TN l x h r)
  then show ?case
    by (intro bst_avlinsert_TN) (auto simp: elems_avlinsert split: if_splits)
qed simp

lemma avlremove_correct:
  "bst key t \<Longrightarrow>
     bst key (fst (avlremove compare t node)) \<and>
     elems (fst (avlremove compare t node)) = {y \<in> elems t. key y \<noteq> key node} \<and>
     snd (avlremove compare t node) = avlsearch compare t node"
proof (induction t arbitrary: node)
  case (TN l x h r)
  note b = TN.prems
  have L: "bst key (fst (avlremove compare l n))"
      "elems (fst (avlremove compare l n)) = {y \<in> elems l. key y \<noteq> key n}"
      "snd (avlremove compare l n) = avlsearch compare l n" for n
    using TN.IH(1) [of n] b by auto
  have R: "bst key (fst (avlremove compare r n))"
      "elems (fst (avlremove compare r n)) = {y \<in> elems r. key y \<noteq> key n}"
      "snd (avlremove compare r n) = avlsearch compare r n" for n
    using TN.IH(2) [of n] b by auto
  consider (eq) "key node = key x" | (less) "key node < key x" | (gt) "key x < key node"
    by (metis linorder_neq_iff)
  then show ?case
  proof cases
    case eq
    show ?thesis
    proof (cases "l \<noteq> ET \<and> r \<noteq> ET")
      case True
      then obtain m where m: "avlgetmin r = Some m" by fastforce
      have mr: "m \<in> elems r" using m by (rule avlgetmin_elem)
      have least: "key m < key y" if "y \<in> elems r" "key y \<noteq> key m" for y
        using avlgetmin_least [OF _ m that(1)] b that(2) by auto
      have "bst key (TN l m h (fst (avlremove compare r m)))"
        using b L R mr least by (auto intro: less_trans)
      moreover have "elems l \<union> {m} \<union> {y \<in> elems r. key y \<noteq> key m} = {y \<in> elems (TN l x h r). key y \<noteq> key node}"
        using b mr eq bst_inj [of key r m] by (fastforce simp: less_imp_neq)
      ultimately show ?thesis
        using True m eq R by (simp add: compare_eq case_prod_beta avlrebalance_bst compare_less compare_greater)
    next
      case False
      have "elems l \<union> elems r = {y \<in> elems (TN l x h r). key y \<noteq> key node}"
        using b eq by auto
      with False b eq show ?thesis
        by (auto simp: compare_eq compare_less compare_greater)
    qed
  next
    case less
    have e: "elems r \<subseteq> {y. key y \<noteq> key node}" "key x \<noteq> key node" using b less by auto
    have "bst key (TN (fst (avlremove compare l node)) x h r)" using b L by auto
    with less e L [of node] show ?thesis
      by (cases "l = ET") (auto simp: compare_eq compare_less case_prod_beta avlrebalance_bst)
  next
    case gt
    have e: "elems l \<subseteq> {y. key y \<noteq> key node}" "key x \<noteq> key node" using b gt by auto
    have "bst key (TN l x h (fst (avlremove compare r node)))" using b R by auto
    with gt e R [of node] show ?thesis
      by (cases "r = ET") (auto simp: compare_eq compare_less compare_greater case_prod_beta avlrebalance_bst)
  qed
qed simp

end

end
