(* ===== verification/Request.thy ===== *)
theory Request
  imports Prelude
begin

text \<open>
  The request parser, \<^verbatim>\<open>runtime/request.h\<close> and \<^verbatim>\<open>runtime/request.c\<close>: the
  payload of a request is split at CRLF into sections, each section at the first
  \<open>=\<close> into a key and an optional value, each key at \<open>.\<close> into the segments of a path, and
  a segment may carry an array index in brackets. Every \<open>return -1\<close> of the code is
  \<open>None\<close> here (or a negative code where the caller distinguishes them).
\<close>

section \<open>Limits, symbols and the request record\<close>

definition MAX_TITLE_SIZE :: nat where "MAX_TITLE_SIZE = 16"
definition MAX_OPT_SIZE :: nat where "MAX_OPT_SIZE = 128"
definition MAX_PRE_SEG_SIZE :: nat where "MAX_PRE_SEG_SIZE = 192"
definition MAX_DEPTH_REQ :: nat where "MAX_DEPTH_REQ = 10"
definition MAX_KEY_SIZE :: nat where
  "MAX_KEY_SIZE = MAX_PRE_SEG_SIZE * MAX_DEPTH_REQ + (MAX_DEPTH_REQ - 1)"
definition MAX_VALUE_SIZE :: nat where "MAX_VALUE_SIZE = 256"
definition MAX_PAYLOAD_SIZE :: nat where "MAX_PAYLOAD_SIZE = MAX_KEY_SIZE + MAX_VALUE_SIZE"
definition MAX_REQ_SECT :: nat where "MAX_REQ_SECT = 8"
definition MAX_REP_STAT_SIZE :: nat where "MAX_REP_STAT_SIZE = 16"
definition MAX_REP_SIZE :: nat where
  "MAX_REP_SIZE = MAX_TITLE_SIZE + MAX_OPT_SIZE + MAX_REP_STAT_SIZE + 4"
definition MAX_ARY_SIZE :: int where "MAX_ARY_SIZE = 256"

lemmas limit_defs [cdefs] =
  MAX_TITLE_SIZE_def MAX_OPT_SIZE_def MAX_PRE_SEG_SIZE_def MAX_DEPTH_REQ_def MAX_KEY_SIZE_def
  MAX_VALUE_SIZE_def MAX_PAYLOAD_SIZE_def MAX_REQ_SECT_def MAX_REP_STAT_SIZE_def
  MAX_REP_SIZE_def MAX_ARY_SIZE_def

text \<open>\<open>JA_CODE_TO_SYMBOL\<close>: the index values that stand for \<open>[$]\<close>, \<open>[?]\<close>, \<open>[+]\<close>, \<open>[*]\<close>.\<close>

definition JA_CODE_TO_SYMBOL :: "char \<Rightarrow> int" where
  "JA_CODE_TO_SYMBOL c = of_char c OR 0x7FFFFF00"

definition JA_SYM_LAST :: int where "JA_SYM_LAST = JA_CODE_TO_SYMBOL (CHR ''$'')"
definition JA_SYM_QUERY_SIZE :: int where "JA_SYM_QUERY_SIZE = JA_CODE_TO_SYMBOL (CHR ''?'')"
definition JA_SYM_ADD :: int where "JA_SYM_ADD = JA_CODE_TO_SYMBOL (CHR ''+'')"
definition JA_SYM_ENTIRE :: int where "JA_SYM_ENTIRE = JA_CODE_TO_SYMBOL (CHR ''*'')"

lemma ja_sym_values:
  "JA_SYM_LAST = 0x7FFFFF24" "JA_SYM_QUERY_SIZE = 0x7FFFFF3F"
  "JA_SYM_ADD = 0x7FFFFF2B" "JA_SYM_ENTIRE = 0x7FFFFF2A"
  by (simp_all add: JA_SYM_LAST_def JA_SYM_QUERY_SIZE_def JA_SYM_ADD_def JA_SYM_ENTIRE_def
      JA_CODE_TO_SYMBOL_def)

datatype JSL =
    JSL_DIR | JSL_ARCHIVE | JSL_LOGIC_SCOPE | JSL_ARRAY | JSL_ARRAY_ITEM
  | JSL_ARRAY_ITEM_AS_FIELD | JSL_FIELD

record segment =
  sname :: string
  index :: int
  sjsl :: JSL

text \<open>
  A JRP. \<open>segm\<close> holds the first \<open>depth\<close> segments; \<open>keystring\<close> is only used inside the
  parser and has no field; \<open>valuestring\<close> is \<open>None\<close> for a null pointer; the request's task
  is an argument of the handlers.
\<close>

record JRP =
  segm :: "segment list"
  valuestring :: "string option"
  dupkey :: string
  dupvalue :: string

abbreviation depth :: "JRP \<Rightarrow> nat" where
  "depth jrp \<equiv> length (segm jrp)"

section \<open>Array syntax\<close>

text \<open>The scan of \<open>rt_is_array_syntax\<close>: the positions of the only \<open>[\<close> and the only \<open>]\<close>.\<close>

fun rt_scan_brackets ::
  "string \<Rightarrow> nat \<Rightarrow> nat option \<Rightarrow> nat option \<Rightarrow> (nat option \<times> nat option) option" where
  "rt_scan_brackets [] i left right = Some (left, right)"
| "rt_scan_brackets (c # cs) i left right =
     (if c = CHR ''['' then
        (if left \<noteq> None then None else rt_scan_brackets cs (Suc i) (Some i) right)
      else if c = CHR '']'' then
        (if right \<noteq> None then None else rt_scan_brackets cs (Suc i) left (Some i))
      else rt_scan_brackets cs (Suc i) left right)"

datatype array_syntax = ArraySyntaxError | NotArray | LooksLikeArray nat nat

definition rt_is_array_syntax :: "string \<Rightarrow> array_syntax" where
  "rt_is_array_syntax key =
     (case rt_scan_brackets key 0 None None of
        None \<Rightarrow> ArraySyntaxError
      | Some (None, None) \<Rightarrow> NotArray
      | Some (Some left, Some right) \<Rightarrow>
          if right < left \<or> left = 0 \<or> right + 1 < length key \<or> right = left + 1
          then ArraySyntaxError else LooksLikeArray left right
      | Some _ \<Rightarrow> ArraySyntaxError)"

text \<open>
  \<open>rt_analysis_array_syntax\<close>: on success the duplicated key cut at the bracket (\<open>None\<close>
  when the key is no array) and the index, \<open>-1\<close> for none.
\<close>

definition rt_analysis_array_syntax :: "string \<Rightarrow> (string option \<times> int) option" where
  "rt_analysis_array_syntax key =
     (case rt_is_array_syntax key of
        ArraySyntaxError \<Rightarrow> None
      | NotArray \<Rightarrow> Some (None, -1)
      | LooksLikeArray left right \<Rightarrow>
          (let newkey = take left key;
               range = take (right - (left + 1)) (drop (left + 1) key)
           in if length range = 1 \<and>
                 hd range \<in> {CHR ''$'', CHR ''?'', CHR ''+'', CHR ''*''} then
                Some (Some newkey, JA_CODE_TO_SYMBOL (hd range))
              else if \<not> list_all isdigit range then None
              else (let idx = atoi range in
                    if idx \<ge> MAX_ARY_SIZE \<or> idx < 0 then None
                    else Some (Some newkey, idx))))"

definition rt_standardize_segment :: "string \<Rightarrow> (string \<times> int) option" where
  "rt_standardize_segment key =
     (case rt_analysis_array_syntax key of
        None \<Rightarrow> None
      | Some (newkey, idx) \<Rightarrow>
          Some (if idx < 0 then key else (case newkey of Some k \<Rightarrow> k | None \<Rightarrow> ''''), idx))"

definition rt_analyze_segment :: "string \<Rightarrow> nat \<Rightarrow> segment option" where
  "rt_analyze_segment key dep =
     (case rt_standardize_segment key of
        None \<Rightarrow> None
      | Some (name, idx) \<Rightarrow>
          if dep = 0 \<or> dep = 1 then
            (if idx < 0
             then Some \<lparr>sname = name, index = idx, sjsl = (if dep = 0 then JSL_DIR else JSL_ARCHIVE)\<rparr>
             else None)
          else Some \<lparr>sname = name, index = idx, sjsl = (if idx < 0 then JSL_LOGIC_SCOPE else JSL_ARRAY)\<rparr>)"

section \<open>Keys and values\<close>

text \<open>One segment of the key, with the checks both branches of \<open>rt_separate_segment\<close> make.\<close>

definition rt_take_segment :: "string \<Rightarrow> segment list \<Rightarrow> segment list option" where
  "rt_take_segment key segs =
     (if length segs \<ge> MAX_DEPTH_REQ then None
      else if length key \<ge> MAX_PRE_SEG_SIZE then None
      else case rt_analyze_segment key (length segs) of
        None \<Rightarrow> None
      | Some sg \<Rightarrow>
          if segs \<noteq> [] \<and> sjsl (last segs) = JSL_ARRAY \<and> index (last segs) = JA_SYM_ENTIRE
          then None else Some (segs @ [sg]))"

function rt_separate_loop :: "string \<Rightarrow> segment list \<Rightarrow> segment list option" where
  "rt_separate_loop cursor segs =
     (case strchr cursor (CHR ''.'') of
        Some ending \<Rightarrow>
          if ending = 0 then None
          else (case rt_take_segment (take ending cursor) segs of
            None \<Rightarrow> None
          | Some segs' \<Rightarrow>
              (let cursor' = drop (Suc ending) cursor in
               if cursor' = [] then None else rt_separate_loop cursor' segs'))
      | None \<Rightarrow> if cursor = [] then Some segs else rt_take_segment cursor segs)"
  by pat_completeness auto
termination
  by (relation "measure (\<lambda>(cursor, segs). length cursor)") (auto simp: strchr_Some)

declare rt_separate_loop.simps [simp del]

text \<open>The last segment becomes a field when the path has at least three.\<close>

definition rt_last_to_field :: "segment list \<Rightarrow> segment list" where
  "rt_last_to_field segs =
     (if length segs \<ge> 3 \<and> sjsl (last segs) = JSL_LOGIC_SCOPE
      then butlast segs @ [(last segs)\<lparr>sjsl := JSL_FIELD\<rparr>] else segs)"

definition rt_separate_segment :: "string \<Rightarrow> segment list option" where
  "rt_separate_segment keystring = map_option rt_last_to_field (rt_separate_loop keystring [])"

text \<open>The key and the value of a section.\<close>

definition rt_separate_kv_field :: "string \<Rightarrow> (string \<times> string option) option" where
  "rt_separate_kv_field kvpair =
     (if kvpair = [] then None
      else let split = strchr kvpair (CHR ''='') in
        if split = Some 0 then None
        else let key = (case split of Some n \<Rightarrow> take n kvpair | None \<Rightarrow> kvpair) in
          if length key = 0 \<or> length key \<ge> MAX_KEY_SIZE then None
          else case split of
            None \<Rightarrow> Some (key, None)
          | Some n \<Rightarrow>
              (let val = drop (Suc n) kvpair in
               if length val = 0 \<or> length val \<ge> MAX_VALUE_SIZE then None
               else Some (key, Some val)))"

definition rt_create_jrp :: "string \<Rightarrow> JRP option" where
  "rt_create_jrp string =
     (case rt_separate_kv_field string of
        None \<Rightarrow> None
      | Some (key, val) \<Rightarrow>
          (case rt_separate_segment key of
             None \<Rightarrow> None
           | Some sg \<Rightarrow>
               Some \<lparr>segm = sg, valuestring = val, dupkey = key,
                     dupvalue = (case val of None \<Rightarrow> '''' | Some v \<Rightarrow> v)\<rparr>))"

section \<open>Sections of a payload\<close>

text \<open>The checks on one section; a failing section drops the whole list (\<open>rt_cleanup_jrplist\<close>).\<close>

definition rt_add_section :: "string \<Rightarrow> JRP list \<Rightarrow> JRP list option" where
  "rt_add_section string jrplist =
     (if length jrplist \<ge> MAX_REQ_SECT then None
      else if length string = 0 \<or> length string > MAX_PAYLOAD_SIZE then None
      else map_option (\<lambda>jrp. jrplist @ [jrp]) (rt_create_jrp string))"

function rt_build_loop :: "string \<Rightarrow> JRP list \<Rightarrow> JRP list option" where
  "rt_build_loop cursor jrplist =
     (if cursor = [] then Some jrplist
      else case strstr cursor CRLF of
        Some splits \<Rightarrow>
          (case rt_add_section (take splits cursor) jrplist of
             None \<Rightarrow> None
           | Some jrplist' \<Rightarrow> rt_build_loop (drop (splits + 2) cursor) jrplist')
      | None \<Rightarrow> rt_add_section cursor jrplist)"
  by pat_completeness auto
termination
  by (relation "measure (\<lambda>(cursor, jrplist). length cursor)") (auto dest: strstr_le)

declare rt_build_loop.simps [simp del]

text \<open>\<open>rt_build_jrp\<close> on a payload in memory; the result's length is the return value.\<close>

definition rt_build_jrp :: "string \<Rightarrow> JRP list option" where
  "rt_build_jrp payload = rt_build_loop (cstr payload) []"

section \<open>The grammar of a segment\<close>

text \<open>
  The syntax that the bracket scan accepts, as a specification: a name without brackets,
  optionally followed by a bracketed index that is one of the four symbols or a decimal
  numeral whose \<open>int\<close> value is below \<open>MAX_ARY_SIZE\<close>.
\<close>

definition plain :: "string \<Rightarrow> bool" where
  "plain s \<longleftrightarrow> CHR ''['' \<notin> set s \<and> CHR '']'' \<notin> set s"

definition index_value :: "string \<Rightarrow> int option" where
  "index_value rg =
     (if length rg = 1 \<and> hd rg \<in> {CHR ''$'', CHR ''?'', CHR ''+'', CHR ''*''}
      then Some (JA_CODE_TO_SYMBOL (hd rg))
      else if list_all isdigit rg \<and> 0 \<le> atoi rg \<and> atoi rg < MAX_ARY_SIZE
      then Some (atoi rg) else None)"

lemma scan_left:
  "rt_scan_brackets s i l r = Some (l', r') \<Longrightarrow>
     (if CHR ''['' \<in> set s
      then l = None \<and> (\<exists>a b. s = a @ CHR ''['' # b \<and> CHR ''['' \<notin> set a \<and> CHR ''['' \<notin> set b \<and> l' = Some (i + length a))
      else l' = l)"
proof (induction s arbitrary: i l r)
  case (Cons c s)
  show ?case
  proof (cases "c = CHR ''[''")
    case True
    with Cons.prems have "l = None" "rt_scan_brackets s (Suc i) (Some i) r = Some (l', r')"
      by (auto split: if_splits)
    with Cons.IH [of "Suc i" "Some i" r] True show ?thesis
      by (auto split: if_splits intro: exI [of _ "[]"])
  next
    case False
    with Cons.prems obtain r2 where "rt_scan_brackets s (Suc i) l r2 = Some (l', r')"
      by (auto split: if_splits)
    from Cons.IH [OF this] False show ?thesis
      by (auto split: if_splits) (metis Cons_eq_appendI add_Suc_right length_Cons set_ConsD)
  qed
qed simp

lemma scan_right:
  "rt_scan_brackets s i l r = Some (l', r') \<Longrightarrow>
     (if CHR '']'' \<in> set s
      then r = None \<and> (\<exists>a b. s = a @ CHR '']'' # b \<and> CHR '']'' \<notin> set a \<and> CHR '']'' \<notin> set b \<and> r' = Some (i + length a))
      else r' = r)"
proof (induction s arbitrary: i l r)
  case (Cons c s)
  show ?case
  proof (cases "c = CHR '']''")
    case True
    with Cons.prems have "r = None" "rt_scan_brackets s (Suc i) l (Some i) = Some (l', r')"
      by (auto split: if_splits)
    with Cons.IH [of "Suc i" l "Some i"] True show ?thesis
      by (auto split: if_splits intro: exI [of _ "[]"])
  next
    case False
    with Cons.prems obtain l2 where "rt_scan_brackets s (Suc i) l2 r = Some (l', r')"
      by (auto split: if_splits)
    from Cons.IH [OF this] False show ?thesis
      by (auto split: if_splits) (metis Cons_eq_appendI add_Suc_right length_Cons set_ConsD)
  qed
qed simp

lemma scan_plain: "plain s \<Longrightarrow> rt_scan_brackets (s @ t) i l r = rt_scan_brackets t (i + length s) l r"
  by (induction s arbitrary: i) (auto simp: plain_def)

lemma rt_is_array_syntax_plain: "plain s \<Longrightarrow> rt_is_array_syntax s = NotArray"
  using scan_plain [of s "[]"] by (simp add: rt_is_array_syntax_def)

lemma rt_is_array_syntax_bracket:
  assumes "plain nm" "plain rg" "nm \<noteq> []" "rg \<noteq> []"
  shows "rt_is_array_syntax (nm @ CHR ''['' # rg @ [CHR '']'']) =
    LooksLikeArray (length nm) (length nm + 1 + length rg)"
  using assms scan_plain [of rg "[CHR '']'']"] by (simp add: rt_is_array_syntax_def scan_plain)

lemma rt_is_array_syntax_NotArrayD:
  assumes "rt_is_array_syntax key = NotArray"
  shows "plain key"
proof -
  from assms have "rt_scan_brackets key 0 None None = Some (None, None)"
    by (auto simp: rt_is_array_syntax_def split: option.splits prod.splits if_splits)
  from scan_left [OF this] scan_right [OF this] show ?thesis
    by (auto simp: plain_def split: if_splits)
qed

lemma rt_is_array_syntax_LooksLikeD:
  assumes "rt_is_array_syntax key = LooksLikeArray l r"
  obtains nm rg where "key = nm @ CHR ''['' # rg @ [CHR '']'']" "plain nm" "plain rg"
    "nm \<noteq> []" "rg \<noteq> []" "l = length nm" "r = length nm + 1 + length rg"
proof -
  from assms have scan: "rt_scan_brackets key 0 None None = Some (Some l, Some r)"
    and pos: "\<not> r < l" "l \<noteq> 0" "\<not> r + 1 < length key" "r \<noteq> l + 1"
    by (auto simp: rt_is_array_syntax_def split: option.splits prod.splits if_splits)
  from scan_left [OF scan] obtain a b where a: "key = a @ CHR ''['' # b" "CHR ''['' \<notin> set a"
    "CHR ''['' \<notin> set b" "l = length a" by (auto split: if_splits)
  from scan_right [OF scan] obtain c d where c: "key = c @ CHR '']'' # d" "CHR '']'' \<notin> set c"
    "CHR '']'' \<notin> set d" "r = length c" by (auto split: if_splits)
  from c pos have d: "d = []" by simp
  have "key ! l = CHR ''[''" "key ! r = CHR '']''" using a(1,4) c(1,4) by (metis nth_append_length)+
  then have "l \<noteq> r" by auto
  with pos a c have "length a < length c" by simp
  with a(1) c(1) d obtain rg where rg: "c = a @ CHR ''['' # rg" "b = rg @ [CHR '']'']"
    by (auto simp: append_eq_append_conv2 append_eq_Cons_conv Cons_eq_append_conv)
  show ?thesis
    by (rule that [of a rg]) (use a c d rg pos in \<open>auto simp: plain_def\<close>)
qed

lemma rt_standardize_plain: "plain key \<Longrightarrow> rt_standardize_segment key = Some (key, -1)"
  by (simp add: rt_standardize_segment_def rt_analysis_array_syntax_def rt_is_array_syntax_plain)

lemma index_value_nonneg: "index_value rg = Some idx \<Longrightarrow> 0 \<le> idx"
  by (auto simp: index_value_def JA_CODE_TO_SYMBOL_def split: if_splits)

lemma rt_analysis_bracket:
  assumes "plain nm" "plain rg" "nm \<noteq> []" "rg \<noteq> []"
  shows "rt_analysis_array_syntax (nm @ CHR ''['' # rg @ [CHR '']'']) =
    map_option (Pair (Some nm)) (index_value rg)"
  by (auto simp: rt_analysis_array_syntax_def rt_is_array_syntax_bracket [OF assms] index_value_def
      Let_def not_le)

lemma rt_standardize_bracket:
  assumes "plain nm" "plain rg" "nm \<noteq> []" "rg \<noteq> []"
  shows "rt_standardize_segment (nm @ CHR ''['' # rg @ [CHR '']'']) = map_option (Pair nm) (index_value rg)"
  by (cases "index_value rg")
    (auto simp: rt_standardize_segment_def rt_analysis_bracket [OF assms] dest: index_value_nonneg)

definition segment_grammar :: "string \<Rightarrow> string \<Rightarrow> int \<Rightarrow> bool" where
  "segment_grammar key nm idx \<longleftrightarrow>
     plain nm \<and>
     (key = nm \<and> idx = -1 \<or>
      (\<exists>rg. key = nm @ CHR ''['' # rg @ [CHR '']''] \<and> plain rg \<and> nm \<noteq> [] \<and> rg \<noteq> [] \<and>
            index_value rg = Some idx))"

lemma takeWhile_bracket: "plain nm \<Longrightarrow> takeWhile (\<lambda>c. c \<noteq> CHR ''['') (nm @ CHR ''['' # x) = nm"
  by (induction nm) (auto simp: plain_def)

lemma rt_standardize_segment_iff:
  "rt_standardize_segment key = Some (nm, idx) \<longleftrightarrow> segment_grammar key nm idx"
proof (cases "rt_is_array_syntax key")
  case ArraySyntaxError
  then have "\<not> segment_grammar key nm idx"
    by (auto simp: segment_grammar_def rt_is_array_syntax_plain rt_is_array_syntax_bracket)
  with ArraySyntaxError show ?thesis
    by (simp add: rt_standardize_segment_def rt_analysis_array_syntax_def)
next
  case NotArray
  from rt_is_array_syntax_NotArrayD [OF this] show ?thesis
    by (auto simp: rt_standardize_plain segment_grammar_def plain_def)
next
  case (LooksLikeArray l r)
  from rt_is_array_syntax_LooksLikeD [OF this]
  obtain nm' rg' where k: "key = nm' @ CHR ''['' # rg' @ [CHR '']'']" "plain nm'" "plain rg'"
    "nm' \<noteq> []" "rg' \<noteq> []" by metis
  have uniq: "nm = nm' \<and> rg = rg'"
    if "key = nm @ CHR ''['' # rg @ [CHR '']'']" "plain nm" for rg
  proof -
    have "nm = takeWhile (\<lambda>c. c \<noteq> CHR ''['') key" using that by (simp add: takeWhile_bracket)
    moreover have "nm' = takeWhile (\<lambda>c. c \<noteq> CHR ''['') key" using k(1,2) by (simp add: takeWhile_bracket)
    ultimately show ?thesis using that(1) k(1) by simp
  qed
  have "\<not> plain key" using k(1) by (simp add: plain_def)
  with k uniq have "segment_grammar key nm idx \<longleftrightarrow> nm = nm' \<and> index_value rg' = Some idx"
    unfolding segment_grammar_def by blast
  then show ?thesis
    unfolding k(1) rt_standardize_bracket [OF k(2-5)] by auto
qed

lemma segment_grammar_name: "segment_grammar key nm idx \<Longrightarrow> key \<noteq> [] \<Longrightarrow> nm \<noteq> [] \<and> length nm \<le> length key \<and> set nm \<subseteq> set key"
  by (auto simp: segment_grammar_def)

section \<open>Keys as sequences of pieces\<close>

lemma rt_separate_loop_pieces:
  "rt_separate_loop key segs =
     (if key = [] then Some segs
      else if [] \<in> set (splitc (CHR ''.'') key) then None
      else foldo rt_take_segment (splitc (CHR ''.'') key) segs)"
proof (induction key segs rule: rt_separate_loop.induct)
  case (1 key segs)
  show ?case
  proof (cases "strchr key (CHR ''.'')")
    case None
    then have "splitc (CHR ''.'') key = [key]" by (simp add: strchr_None splitc_pure)
    with None show ?thesis
      by (cases "rt_take_segment key segs") (auto simp: rt_separate_loop.simps [of key])
  next
    case (Some n)
    note sp = strchr_split [OF Some]
    let ?rest = "drop (Suc n) key"
    have pieces: "splitc (CHR ''.'') key = take n key # splitc (CHR ''.'') ?rest"
      by (subst sp(1)) (rule splitc_append [OF sp(2)])
    have ne: "key \<noteq> []" using sp(3) by auto
    show ?thesis
    proof (cases "n = 0 \<or> ?rest = []")
      case True
      with Some pieces ne show ?thesis
        by (auto simp: rt_separate_loop.simps [of key] split: option.splits)
    next
      case False
      then have "take n key \<noteq> []" using ne by simp
      with False Some pieces ne 1 show ?thesis
        by (cases "rt_take_segment (take n key) segs") (simp_all add: rt_separate_loop.simps [of key])
    qed
  qed
qed

text \<open>What one step adds.\<close>

definition valid_index :: "int \<Rightarrow> bool" where
  "valid_index idx \<longleftrightarrow> idx = -1 \<or> 0 \<le> idx \<and> idx < MAX_ARY_SIZE \<or>
     idx \<in> {JA_SYM_LAST, JA_SYM_QUERY_SIZE, JA_SYM_ADD, JA_SYM_ENTIRE}"

definition seg_level :: "nat \<Rightarrow> nat \<Rightarrow> int \<Rightarrow> JSL" where
  "seg_level n i idx =
     (if i = 0 then JSL_DIR else if i = 1 then JSL_ARCHIVE
      else if 0 \<le> idx then JSL_ARRAY else if i + 1 = n then JSL_FIELD else JSL_LOGIC_SCOPE)"

definition mkseg :: "nat \<Rightarrow> nat \<Rightarrow> string \<times> int \<Rightarrow> segment" where
  "mkseg n i p = \<lparr>sname = fst p, index = snd p, sjsl = seg_level n i (snd p)\<rparr>"

lemma index_value_valid: "index_value rg = Some idx \<Longrightarrow> valid_index idx"
  by (auto simp: index_value_def valid_index_def JA_SYM_LAST_def JA_SYM_QUERY_SIZE_def
      JA_SYM_ADD_def JA_SYM_ENTIRE_def split: if_splits)

text \<open>With an unreachable length every segment is given its level before the last is adjusted.\<close>

lemma rt_analyze_segment_iff:
  "rt_analyze_segment key i = Some sg \<longleftrightarrow>
     (\<exists>nm idx. segment_grammar key nm idx \<and> (i < 2 \<longrightarrow> idx = -1) \<and> sg = mkseg 0 i (nm, idx))"
proof (cases "rt_standardize_segment key")
  case None
  then have "\<not> segment_grammar key nm idx" for nm idx
    by (simp flip: rt_standardize_segment_iff)
  with None show ?thesis by (simp add: rt_analyze_segment_def)
next
  case (Some p)
  obtain nm idx where p: "p = (nm, idx)" by fastforce
  have g: "segment_grammar key nm' idx' \<longleftrightarrow> nm' = nm \<and> idx' = idx" for nm' idx'
    using Some p by (auto simp flip: rt_standardize_segment_iff)
  then have "idx = -1 \<or> 0 \<le> idx"
    by (auto simp: segment_grammar_def dest: index_value_nonneg)
  then show ?thesis
    using Some p g by (auto simp: rt_analyze_segment_def mkseg_def seg_level_def less_2_cases_iff)
qed

lemma rt_take_segment_iff:
  "rt_take_segment key segs = Some segs' \<longleftrightarrow>
     length segs < MAX_DEPTH_REQ \<and> length key < MAX_PRE_SEG_SIZE \<and>
     \<not> (segs \<noteq> [] \<and> sjsl (last segs) = JSL_ARRAY \<and> index (last segs) = JA_SYM_ENTIRE) \<and>
     (\<exists>nm idx. segment_grammar key nm idx \<and> (length segs < 2 \<longrightarrow> idx = -1) \<and>
        segs' = segs @ [mkseg 0 (length segs) (nm, idx)])"
proof (cases "rt_analyze_segment key (length segs)")
  case None
  then show ?thesis
    using rt_analyze_segment_iff [of key "length segs"] by (auto simp: rt_take_segment_def)
next
  case (Some sg)
  then have "(\<exists>nm idx. segment_grammar key nm idx \<and> (length segs < 2 \<longrightarrow> idx = -1) \<and>
        segs' = segs @ [mkseg 0 (length segs) (nm, idx)]) \<longleftrightarrow> segs' = segs @ [sg]"
    using rt_analyze_segment_iff [of key "length segs"] by (metis option.inject)
  with Some show ?thesis by (auto simp: rt_take_segment_def)
qed

section \<open>Well-formed requests\<close>

text \<open>What every request the parser accepts satisfies: the sizes of the code's arrays, and levels.\<close>

definition wf_seg :: "nat \<Rightarrow> segment \<Rightarrow> bool" where
  "wf_seg i sg \<longleftrightarrow>
     sname sg \<noteq> [] \<and> plain (sname sg) \<and> CHR ''.'' \<notin> set (sname sg) \<and>
     length (sname sg) < MAX_PRE_SEG_SIZE \<and> valid_index (index sg) \<and> (i < 2 \<longrightarrow> index sg = -1)"

definition wf_path :: "segment list \<Rightarrow> bool" where
  "wf_path segs \<longleftrightarrow>
     1 \<le> length segs \<and> length segs \<le> MAX_DEPTH_REQ \<and>
     (\<forall>i<length segs. wf_seg i (segs ! i) \<and>
        sjsl (segs ! i) = seg_level (length segs) i (index (segs ! i)) \<and>
        (index (segs ! i) = JA_SYM_ENTIRE \<longrightarrow> i + 1 = length segs))"

definition wf_jrp :: "JRP \<Rightarrow> bool" where
  "wf_jrp j \<longleftrightarrow>
     wf_path (segm j) \<and> 0 < length (dupkey j) \<and> length (dupkey j) < MAX_KEY_SIZE \<and>
     (case valuestring j of
        None \<Rightarrow> dupvalue j = ''''
      | Some v \<Rightarrow> v = dupvalue j \<and> v \<noteq> [] \<and> length v < MAX_VALUE_SIZE)"

lemma mkseg_sel [simp]:
  "sname (mkseg n i p) = fst p" "index (mkseg n i p) = snd p" "sjsl (mkseg n i p) = seg_level n i (snd p)"
  by (simp_all add: mkseg_def)

lemma wf_seg_grammar:
  assumes "segment_grammar key nm idx" "key \<noteq> []" "CHR ''.'' \<notin> set key" "i < 2 \<longrightarrow> idx = -1"
    and "length key < MAX_PRE_SEG_SIZE"
  shows "wf_seg i (mkseg n i (nm, idx))"
proof -
  have "valid_index idx"
    using assms(1) by (auto simp: segment_grammar_def index_value_valid) (simp add: valid_index_def)
  moreover have "plain nm" using assms(1) by (simp add: segment_grammar_def)
  ultimately show ?thesis
    using assms segment_grammar_name [OF assms(1,2)] by (auto simp: wf_seg_def)
qed

lemma entire_is_array: "2 \<le> i \<Longrightarrow> seg_level n i JA_SYM_ENTIRE = JSL_ARRAY"
  by (simp add: seg_level_def ja_sym_values)

definition raw_path :: "segment list \<Rightarrow> bool" where
  "raw_path segs \<longleftrightarrow>
     length segs \<le> MAX_DEPTH_REQ \<and>
     (\<forall>i<length segs. wf_seg i (segs ! i) \<and>
        sjsl (segs ! i) = seg_level 0 i (index (segs ! i)) \<and>
        (index (segs ! i) = JA_SYM_ENTIRE \<longrightarrow> i + 1 = length segs))"

lemma raw_path_step:
  assumes "raw_path segs" "rt_take_segment key segs = Some segs'" "key \<noteq> []" "CHR ''.'' \<notin> set key"
  shows "raw_path segs'"
proof -
  from assms(2) obtain nm idx where g: "segment_grammar key nm idx" "length segs < 2 \<longrightarrow> idx = -1"
    and segs': "segs' = segs @ [mkseg 0 (length segs) (nm, idx)]"
    and len: "length segs < MAX_DEPTH_REQ" "length key < MAX_PRE_SEG_SIZE"
    and notall: "\<not> (segs \<noteq> [] \<and> sjsl (last segs) = JSL_ARRAY \<and> index (last segs) = JA_SYM_ENTIRE)"
    by (auto simp: rt_take_segment_iff)
  have new: "wf_seg (length segs) (mkseg 0 (length segs) (nm, idx))"
    by (rule wf_seg_grammar [OF g(1) assms(3,4) g(2) len(2)])
  have no_entire: "index (segs ! i) \<noteq> JA_SYM_ENTIRE" if "i < length segs" for i
  proof
    assume e: "index (segs ! i) = JA_SYM_ENTIRE"
    with assms(1) that have i: "i + 1 = length segs" and lvl: "wf_seg i (segs ! i)"
      "sjsl (segs ! i) = seg_level 0 i JA_SYM_ENTIRE" by (auto simp: raw_path_def)
    from lvl(1) e have "2 \<le> i" by (auto simp: wf_seg_def ja_sym_values)
    then have "sjsl (segs ! i) = JSL_ARRAY" using lvl(2) by (simp add: entire_is_array)
    moreover have ne: "segs \<noteq> []" and "i = length segs - 1" using i by auto
    then have "segs ! i = last segs" by (simp add: last_conv_nth)
    moreover note ne
    ultimately show False using notall e by simp
  qed
  show ?thesis
    using assms(1) len new no_entire by (auto simp: raw_path_def segs' nth_append less_Suc_eq)
qed

lemma seg_level_inner: "i + 1 < n \<Longrightarrow> seg_level n i idx = seg_level 0 i idx"
  by (simp add: seg_level_def)

lemma wf_last_to_field:
  assumes "raw_path segs" "segs \<noteq> []"
  shows "wf_path (rt_last_to_field segs)"
proof (cases segs rule: rev_cases)
  case (snoc xs x)
  have inner: "seg_level (Suc (length xs)) i idx = seg_level 0 i idx" if "i < length xs" for i idx
    using that by (simp add: seg_level_inner)
  have x: "sjsl x = seg_level 0 (length xs) (index x)" "wf_seg (length xs) x"
    using assms(1) snoc by (auto simp: raw_path_def nth_append)
  let ?x = "if 3 \<le> Suc (length xs) \<and> sjsl x = JSL_LOGIC_SCOPE then x\<lparr>sjsl := JSL_FIELD\<rparr> else x"
  have "rt_last_to_field segs = xs @ [?x]"
    by (simp add: rt_last_to_field_def snoc)
  moreover have "sjsl ?x = seg_level (Suc (length xs)) (length xs) (index ?x)"
  proof -
    have "xs = [] \<or> length xs = 1 \<or> 2 \<le> length xs" by (cases xs; cases "tl xs") auto
    with x(1) show ?thesis by (auto simp: seg_level_def split: if_splits)
  qed
  moreover have "wf_seg (length xs) ?x"
    using x(2) by (auto simp: wf_seg_def)
  ultimately show ?thesis
    using assms(1) snoc inner by (auto simp: raw_path_def wf_path_def nth_append less_Suc_eq)
qed (use assms in simp)

lemma rt_separate_segment_wf:
  assumes "rt_separate_segment key = Some segs" "key \<noteq> []"
  shows "wf_path segs"
proof -
  let ?ps = "splitc (CHR ''.'') key"
  from assms obtain raw where ne: "[] \<notin> set ?ps" and raw: "foldo rt_take_segment ?ps [] = Some raw"
    and segs: "segs = rt_last_to_field raw"
    by (auto simp: rt_separate_segment_def rt_separate_loop_pieces split: if_splits)
  have path: "raw_path raw"
  proof (rule foldo_inv [OF raw, where P = raw_path])
    show "raw_path []" by (simp add: raw_path_def)
    fix p s s' assume "p \<in> set ?ps" "raw_path s" "rt_take_segment p s = Some s'"
    then show "raw_path s'" using ne splitc_pieces [of p] by (metis raw_path_step)
  qed
  obtain p ps where "?ps = p # ps" by (cases ?ps) auto
  with raw obtain s1 where s1: "rt_take_segment p [] = Some s1" "foldo rt_take_segment ps s1 = Some raw"
    by (auto split: option.splits)
  have "raw \<noteq> []"
    by (rule foldo_inv [OF s1(2), where P = "\<lambda>s. s \<noteq> []"]) (use s1(1) in \<open>auto simp: rt_take_segment_iff\<close>)
  with path segs show ?thesis by (simp add: wf_last_to_field)
qed

lemma rt_separate_kv_field_SomeD:
  assumes "rt_separate_kv_field s = Some (key, val)"
  shows "0 < length key \<and> length key < MAX_KEY_SIZE \<and> CHR ''='' \<notin> set key \<and>
     s = key @ (case val of None \<Rightarrow> [] | Some v \<Rightarrow> CHR ''='' # v) \<and>
     (case val of None \<Rightarrow> True | Some v \<Rightarrow> v \<noteq> [] \<and> length v < MAX_VALUE_SIZE)"
proof (cases "strchr s (CHR ''='')")
  case None
  with assms show ?thesis
    by (auto simp: rt_separate_kv_field_def Let_def split: if_splits) (simp_all add: strchr_None)
next
  case (Some n)
  with assms have "key = take n s" "0 < length key" "length key < MAX_KEY_SIZE"
      "val = Some (drop (Suc n) s)" "drop (Suc n) s \<noteq> []" "length (drop (Suc n) s) < MAX_VALUE_SIZE"
    by (auto simp: rt_separate_kv_field_def Let_def split: if_splits)
  with strchr_split [OF Some] show ?thesis by simp
qed

lemma rt_create_jrp_wf:
  assumes "rt_create_jrp s = Some j"
  shows "wf_jrp j"
proof -
  from assms obtain key val sg where kv: "rt_separate_kv_field s = Some (key, val)"
    and sg: "rt_separate_segment key = Some sg"
    and j: "j = \<lparr>segm = sg, valuestring = val, dupkey = key,
                 dupvalue = (case val of None \<Rightarrow> '''' | Some v \<Rightarrow> v)\<rparr>"
    by (auto simp: rt_create_jrp_def split: option.splits)
  from rt_separate_kv_field_SomeD [OF kv] rt_separate_segment_wf [OF sg] show ?thesis
    by (auto simp: j wf_jrp_def split: option.splits)
qed

section \<open>Payloads as sequences of sections\<close>

text \<open>A reference for the sectioning: cut at every CRLF; a final empty piece does not count.\<close>

fun crlf_split :: "string \<Rightarrow> string list" where
  "crlf_split [] = [[]]"
| "crlf_split [c] = [[c]]"
| "crlf_split (c # d # s) =
     (if c = CR \<and> d = LF then [] # crlf_split s
      else (c # hd (crlf_split (d # s))) # tl (crlf_split (d # s)))"

definition payload_lines :: "string \<Rightarrow> string list" where
  "payload_lines p =
     (let ls = crlf_split p in if last ls = [] then butlast ls else ls)"

lemma crlf_split_nonempty [simp]: "crlf_split p \<noteq> []"
  by (induction p rule: crlf_split.induct) auto

lemma crlf_split_strstr:
  "crlf_split p = (case strstr p CRLF of
      None \<Rightarrow> [p] | Some n \<Rightarrow> take n p # crlf_split (drop (n + 2) p))"
proof (induction p rule: crlf_split.induct)
  case (3 c d s)
  show ?case
  proof (cases "c = CR \<and> d = LF")
    case True
    then show ?thesis by (simp add: CRLF_def)
  next
    case False
    then have "\<not> prefix CRLF (c # d # s)" by (auto simp: CRLF_def)
    with 3(2) [OF False] False show ?thesis by (auto split: option.splits)
  qed
qed (auto simp: CRLF_def)

lemma payload_lines_strstr:
  "payload_lines p = (if p = [] then [] else case strstr p CRLF of
      None \<Rightarrow> [p] | Some n \<Rightarrow> take n p # payload_lines (drop (n + 2) p))"
  using crlf_split_strstr [of p]
  by (auto simp: payload_lines_def Let_def CRLF_def split: option.splits)

lemma rt_build_loop_lines: "rt_build_loop p js = foldo rt_add_section (payload_lines p) js"
proof (induction p js rule: rt_build_loop.induct)
  case (1 p js)
  show ?case
  proof (cases "p = []")
    case False
    with 1 show ?thesis
      by (subst payload_lines_strstr, subst rt_build_loop.simps) (auto split: option.splits)
  qed (simp add: payload_lines_strstr [of "[]"] rt_build_loop.simps)
qed

section \<open>Printing requests\<close>

definition index_text :: "int \<Rightarrow> string" where
  "index_text idx =
     (if idx = JA_SYM_LAST then ''$'' else if idx = JA_SYM_QUERY_SIZE then ''?''
      else if idx = JA_SYM_ADD then ''+'' else if idx = JA_SYM_ENTIRE then ''*''
      else show_nat (nat idx))"

definition seg_text :: "segment \<Rightarrow> string" where
  "seg_text sg =
     (if index sg < 0 then sname sg else sname sg @ CHR ''['' # index_text (index sg) @ [CHR '']''])"

definition key_text :: "segment list \<Rightarrow> string" where
  "key_text segs = joins [CHR ''.''] (map seg_text segs)"

definition jrp_text :: "JRP \<Rightarrow> string" where
  "jrp_text j = dupkey j @ (case valuestring j of None \<Rightarrow> [] | Some v \<Rightarrow> CHR ''='' # v)"

text \<open>
  Requests in canonical form: well-formed, the stored key is the printed path, every printed
  segment fits its buffer, and no name or value holds a character with a syntactic role.
\<close>

definition canonical :: "JRP \<Rightarrow> bool" where
  "canonical j \<longleftrightarrow>
     wf_jrp j \<and> dupkey j = key_text (segm j) \<and>
     (\<forall>sg\<in>set (segm j). length (seg_text sg) < MAX_PRE_SEG_SIZE \<and>
        CHR ''='' \<notin> set (sname sg) \<and> CR \<notin> set (sname sg) \<and> NUL \<notin> set (sname sg)) \<and>
     CR \<notin> set (dupvalue j) \<and> NUL \<notin> set (dupvalue j)"

lemma digits_avoid:
  "list_all isdigit s \<Longrightarrow> \<not> isdigit c \<Longrightarrow> c \<notin> set s"
  by (induction s) auto

lemma not_isdigit [simp]:
  "\<not> isdigit (CHR ''['')" "\<not> isdigit (CHR '']'')" "\<not> isdigit (CHR ''.'')" "\<not> isdigit (CHR ''='')"
  "\<not> isdigit CR" "\<not> isdigit NUL" "\<not> isdigit (CHR ''$'')" "\<not> isdigit (CHR ''?'')"
  "\<not> isdigit (CHR ''+'')" "\<not> isdigit (CHR ''*'')"
  by (simp_all add: isdigit_def CR_def NUL_def)

lemma index_text_chars:
  assumes "c \<notin> {CHR ''$'', CHR ''?'', CHR ''+'', CHR ''*''}" "\<not> isdigit c"
  shows "c \<notin> set (index_text idx)"
  using assms digits_avoid [of "show_nat (nat idx)" c] by (auto simp: index_text_def)

lemma index_text_nonempty [simp]: "index_text idx \<noteq> []"
  by (simp add: index_text_def)

lemma index_text_plain: "plain (index_text idx)"
  by (simp add: plain_def index_text_chars)

lemma index_value_digits:
  assumes "list_all isdigit ds"
  shows "index_value ds =
    (if 0 \<le> atoi ds \<and> atoi ds < MAX_ARY_SIZE then Some (atoi ds) else None)"
proof -
  have "\<not> (length ds = 1 \<and> hd ds \<in> {CHR ''$'', CHR ''?'', CHR ''+'', CHR ''*''})"
    using assms by (cases ds) auto
  with assms show ?thesis by (auto simp: index_value_def)
qed

lemma index_value_text:
  assumes "valid_index idx" "0 \<le> idx"
  shows "index_value (index_text idx) = Some idx"
proof (cases "idx < MAX_ARY_SIZE")
  case True
  with assms have "index_text idx = show_nat (nat idx)" "atoi (show_nat (nat idx)) = idx"
    by (auto simp: index_text_def ja_sym_values MAX_ARY_SIZE_def atoi_show_nat)
  with True assms show ?thesis by (simp add: index_value_digits)
next
  case False
  with assms show ?thesis
    by (auto simp: valid_index_def index_value_def index_text_def ja_sym_values JA_CODE_TO_SYMBOL_def)
qed

lemma seg_text_grammar: "wf_seg i sg \<Longrightarrow> segment_grammar (seg_text sg) (sname sg) (index sg)"
  by (auto simp: segment_grammar_def seg_text_def wf_seg_def index_text_plain index_value_text
      valid_index_def ja_sym_values)

lemma seg_text_chars:
  "c \<notin> set (sname sg) \<Longrightarrow> c \<notin> {CHR ''['', CHR '']'', CHR ''$'', CHR ''?'', CHR ''+'', CHR ''*''} \<Longrightarrow>
     \<not> isdigit c \<Longrightarrow> c \<notin> set (seg_text sg)"
  using index_text_chars [of c "index sg"] by (auto simp: seg_text_def)

lemma seg_text_nonempty: "wf_seg i sg \<Longrightarrow> seg_text sg \<noteq> []"
  by (auto simp: seg_text_def wf_seg_def)

text \<open>The path as it stands before its last level is adjusted.\<close>

definition unfield :: "segment list \<Rightarrow> segment list" where
  "unfield segs = map (\<lambda>i. mkseg 0 i (sname (segs ! i), index (segs ! i))) [0..<length segs]"

lemma unfield_snoc: "unfield (segs @ [sg]) = unfield segs @ [mkseg 0 (length segs) (sname sg, index sg)]"
  by (auto simp: unfield_def nth_append)

lemma length_unfield [simp]: "length (unfield segs) = length segs"
  by (simp add: unfield_def)

lemma unfield_Nil [simp]: "unfield segs = [] \<longleftrightarrow> segs = []"
  by (simp add: unfield_def)

lemma take_segments:
  assumes "\<forall>i<length (done @ todo). wf_seg i ((done @ todo) ! i) \<and>
      length (seg_text ((done @ todo) ! i)) < MAX_PRE_SEG_SIZE \<and>
      (index ((done @ todo) ! i) = JA_SYM_ENTIRE \<longrightarrow> i + 1 = length (done @ todo))"
    and "length (done @ todo) \<le> MAX_DEPTH_REQ"
  shows "foldo rt_take_segment (map seg_text todo) (unfield done) = Some (unfield (done @ todo))"
  using assms
proof (induction todo arbitrary: "done")
  case (Cons sg todo)
  let ?n = "length done"
  from Cons.prems(1) have sg: "wf_seg ?n sg" "length (seg_text sg) < MAX_PRE_SEG_SIZE"
    by (auto dest!: spec [of _ ?n])
  have "index (last (unfield done)) \<noteq> JA_SYM_ENTIRE" if "done \<noteq> []"
  proof -
    from that obtain d x where d: "done = d @ [x]" by (metis rev_exhaust)
    with Cons.prems(1) have "index x \<noteq> JA_SYM_ENTIRE"
      by (auto dest!: spec [of _ "length d"] simp: nth_append)
    then show ?thesis by (simp add: d unfield_snoc)
  qed
  moreover have "?n < 2 \<longrightarrow> index sg = -1" using sg(1) by (simp add: wf_seg_def)
  ultimately have "rt_take_segment (seg_text sg) (unfield done) = Some (unfield (done @ [sg]))"
    using sg Cons.prems(2) seg_text_grammar [OF sg(1)]
    unfolding rt_take_segment_iff unfield_snoc by fastforce
  with Cons.IH [of "done @ [sg]"] Cons.prems show ?case by simp
qed (simp add: unfield_def)

lemma last_to_field_unfield:
  assumes "wf_path segs"
  shows "rt_last_to_field (unfield segs) = segs"
proof (cases segs rule: rev_cases)
  case Nil
  with assms show ?thesis by (simp add: wf_path_def)
next
  case (snoc xs x)
  from assms have lv: "sjsl ((xs @ [x]) ! i) = seg_level (Suc (length xs)) i (index ((xs @ [x]) ! i))"
    if "i \<le> length xs" for i
    using that snoc by (auto simp: wf_path_def)
  have "unfield xs = xs"
  proof (rule nth_equalityI)
    fix i assume "i < length (unfield xs)"
    with lv [of i] show "unfield xs ! i = xs ! i"
      by (simp add: unfield_def mkseg_def seg_level_inner nth_append)
  qed simp
  moreover have "sjsl x = seg_level (Suc (length xs)) (length xs) (index x)"
    using lv [of "length xs"] by simp
  moreover have "xs = [] \<or> length xs = 1 \<or> 2 \<le> length xs" by (cases xs; cases "tl xs") auto
  ultimately show ?thesis
    by (auto simp: snoc rt_last_to_field_def unfield_snoc mkseg_def seg_level_def)
qed

lemma joins_chars: "c \<notin> set sep \<Longrightarrow> \<forall>p\<in>set ps. c \<notin> set p \<Longrightarrow> c \<notin> set (joins sep ps)"
  by (induction sep ps rule: joins.induct) auto

lemma rt_separate_segment_text:
  assumes "wf_path segs" "\<forall>sg\<in>set segs. length (seg_text sg) < MAX_PRE_SEG_SIZE" "key_text segs \<noteq> []"
  shows "rt_separate_segment (key_text segs) = Some segs"
proof -
  have wf: "wf_seg i (segs ! i)" if "i < length segs" for i
    using assms(1) that by (simp add: wf_path_def)
  have ne: "segs \<noteq> []" using assms(1) by (auto simp: wf_path_def)
  have dots: "CHR ''.'' \<notin> set (seg_text sg) \<and> seg_text sg \<noteq> []" if sg: "sg \<in> set segs" for sg
  proof -
    obtain i where "wf_seg i sg" using sg wf by (auto simp: in_set_conv_nth)
    then show ?thesis
      using seg_text_chars [of "CHR ''.''" sg] seg_text_nonempty [of i sg] by (simp add: wf_seg_def)
  qed
  then have pieces: "splitc (CHR ''.'') (key_text segs) = map seg_text segs"
    using ne unfolding key_text_def by (intro splitc_joins) auto
  have "foldo rt_take_segment (map seg_text segs) (unfield []) = Some (unfield ([] @ segs))"
    by (rule take_segments) (use assms wf in \<open>auto simp: wf_path_def\<close>)
  then have "foldo rt_take_segment (map seg_text segs) [] = Some (unfield segs)"
    by (simp add: unfield_def)
  moreover have "[] \<notin> set (map seg_text segs)"
    using dots by (metis imageE set_map)
  ultimately show ?thesis
    using assms(1,3) last_to_field_unfield
    by (simp add: rt_separate_segment_def rt_separate_loop_pieces pieces del: set_map)
qed

lemma rt_separate_kv_field_text:
  assumes "0 < length key" "length key < MAX_KEY_SIZE" "CHR ''='' \<notin> set key"
    and "case val of None \<Rightarrow> True | Some v \<Rightarrow> v \<noteq> [] \<and> length v < MAX_VALUE_SIZE"
  shows "rt_separate_kv_field (key @ (case val of None \<Rightarrow> [] | Some v \<Rightarrow> CHR ''='' # v)) = Some (key, val)"
proof (cases val)
  case None
  then have "strchr key (CHR ''='') = None" using assms(3) by (simp add: strchr_None)
  with None assms show ?thesis by (auto simp: rt_separate_kv_field_def)
next
  case (Some v)
  have "strchr (key @ CHR ''='' # v) (CHR ''='') = Some (length key)"
    by (rule strchr_append [OF assms(3)])
  with Some assms show ?thesis by (auto simp: rt_separate_kv_field_def)
qed

lemma key_text_no_eq:
  assumes "\<forall>sg\<in>set segs. c \<notin> set (sname sg)" "\<not> isdigit c"
    "c \<notin> {CHR ''.'', CHR ''['', CHR '']'', CHR ''$'', CHR ''?'', CHR ''+'', CHR ''*''}"
  shows "c \<notin> set (key_text segs)"
  unfolding key_text_def by (rule joins_chars) (use assms seg_text_chars [of c] in auto)

lemma rt_create_jrp_text:
  assumes "canonical j"
  shows "rt_create_jrp (jrp_text j) = Some j"
proof -
  have wf: "wf_jrp j" and key: "dupkey j = key_text (segm j)" and path: "wf_path (segm j)"
    using assms by (auto simp: canonical_def wf_jrp_def)
  have eq: "CHR ''='' \<notin> set (dupkey j)"
    unfolding key by (rule key_text_no_eq) (use assms in \<open>auto simp: canonical_def\<close>)
  have val: "case valuestring j of None \<Rightarrow> True | Some v \<Rightarrow> v \<noteq> [] \<and> length v < MAX_VALUE_SIZE"
    using wf by (auto simp: wf_jrp_def split: option.splits)
  have kv: "rt_separate_kv_field (jrp_text j) = Some (dupkey j, valuestring j)"
    unfolding jrp_text_def
    by (rule rt_separate_kv_field_text) (use wf eq val in \<open>auto simp: wf_jrp_def\<close>)
  have "rt_separate_segment (dupkey j) = Some (segm j)"
    unfolding key by (rule rt_separate_segment_text)
      (use assms key in \<open>auto simp: canonical_def wf_jrp_def\<close>)
  with kv wf show ?thesis
    by (auto simp: rt_create_jrp_def wf_jrp_def split: option.splits)
qed

lemma jrp_text_size:
  assumes "canonical j"
  shows "jrp_text j \<noteq> []" "length (jrp_text j) \<le> MAX_PAYLOAD_SIZE"
    "CR \<notin> set (jrp_text j)" "NUL \<notin> set (jrp_text j)"
proof -
  have wf: "wf_jrp j" using assms by (simp add: canonical_def)
  show "jrp_text j \<noteq> []" "length (jrp_text j) \<le> MAX_PAYLOAD_SIZE"
    using wf by (auto simp: jrp_text_def wf_jrp_def limit_defs split: option.splits)
  have "CR \<notin> set (dupkey j)" "NUL \<notin> set (dupkey j)"
    using assms key_text_no_eq [of "segm j" CR] key_text_no_eq [of "segm j" NUL]
    by (auto simp: canonical_def CR_def NUL_def isdigit_def)
  with assms wf show "CR \<notin> set (jrp_text j)" "NUL \<notin> set (jrp_text j)"
    by (auto simp: jrp_text_def canonical_def wf_jrp_def CR_def NUL_def split: option.splits)
qed

lemma payload_lines_joins:
  assumes "\<forall>l\<in>set ls. l \<noteq> [] \<and> CR \<notin> set l"
  shows "payload_lines (joins CRLF ls) = ls"
  using assms
proof (induction CRLF ls rule: joins.induct)
  case 1
  show ?case by (simp add: payload_lines_strstr [of "[]"])
next
  case (2 l)
  then show ?case by (simp add: payload_lines_strstr [of l] strstr_CRLF_None)
next
  case (3 l m ls)
  have "strstr (l @ CRLF @ joins CRLF (m # ls)) CRLF = Some (length l)"
    using 3 by (simp add: strstr_CRLF_append)
  with 3 show ?case
    by (simp add: payload_lines_strstr [of "l @ CRLF @ joins CRLF (m # ls)"])
qed

lemma add_sections:
  assumes "\<forall>j\<in>set js. canonical j" "length js0 + length js \<le> MAX_REQ_SECT"
  shows "foldo rt_add_section (map jrp_text js) js0 = Some (js0 @ js)"
  using assms
proof (induction js arbitrary: js0)
  case (Cons j js)
  then have "rt_add_section (jrp_text j) js0 = Some (js0 @ [j])"
    using jrp_text_size [of j] rt_create_jrp_text [of j] by (auto simp: rt_add_section_def)
  with Cons show ?case by simp
qed simp

definition rt_section :: "string \<Rightarrow> JRP option" where
  "rt_section s = (if s = [] \<or> length s > MAX_PAYLOAD_SIZE then None else rt_create_jrp s)"

lemma add_sections_those:
  "length js0 \<le> MAX_REQ_SECT \<Longrightarrow>
     foldo rt_add_section ls js0 =
     (if length js0 + length ls \<le> MAX_REQ_SECT
      then map_option ((@) js0) (those (map rt_section ls)) else None)"
proof (induction ls arbitrary: js0)
  case (Cons l ls)
  show ?case
  proof (cases "length js0 < MAX_REQ_SECT \<and> rt_section l \<noteq> None")
    case True
    then obtain j where j: "rt_section l = Some j" by auto
    with True have "rt_add_section l js0 = Some (js0 @ [j])"
      by (auto simp: rt_add_section_def rt_section_def split: if_splits)
    with True j Cons.IH [of "js0 @ [j]"] show ?thesis
      by (cases "those (map rt_section ls)") auto
  next
    case False
    then have "rt_add_section l js0 = None"
      by (auto simp: rt_add_section_def rt_section_def split: if_splits)
    with False show ?thesis by auto
  qed
qed (simp add: those.simps(1))

section \<open>The parser's contract\<close>

text \<open>
  C21: Every request list the parser returns fits the fixed arrays of the code and is levelled as
  the configuration tree expects: at most eight sections, each with one to ten segments, names
  shorter than 192 bytes without separators, an index that is absent, below 256 or one of the four
  symbols, no index on the directory and archive segments, \<open>[*]\<close> only at the end, key and
  value within their buffers.
\<close>

theorem rt_build_jrp_wf:
  assumes "rt_build_jrp payload = Some jrplist"
  shows "length jrplist \<le> MAX_REQ_SECT \<and> (\<forall>j\<in>set jrplist. wf_jrp j)"
proof -
  have run: "foldo rt_add_section (payload_lines (cstr payload)) [] = Some jrplist"
    using assms by (simp add: rt_build_jrp_def rt_build_loop_lines)
  show ?thesis
    by (rule foldo_inv [OF run, where P = "\<lambda>js. length js \<le> MAX_REQ_SECT \<and> (\<forall>j\<in>set js. wf_jrp j)"])
      (auto simp: rt_add_section_def MAX_REQ_SECT_def split: if_splits dest: rt_create_jrp_wf)
qed

theorem rt_build_jrp_wf_witness:
  "(case rt_build_jrp (''io.dev.port[2].baud=9600'' @ CRLF @ ''io.dev.port[?]'') of
      Some js \<Rightarrow> length js \<le> MAX_REQ_SECT \<and> list_all wf_jrp js | None \<Rightarrow> False)"
proof -
  have "rt_build_jrp (''io.dev.port[2].baud=9600'' @ CRLF @ ''io.dev.port[?]'') \<noteq> None"
    by code_simp
  then show ?thesis using rt_build_jrp_wf by (auto simp: list_all_iff split: option.splits)
qed

text \<open>
  The parser equals its reference: cut the payload at every CRLF, parse each section on its
  own, and reject the whole request when there are more than eight sections or one of them is
  empty, too long or ill-formed.
\<close>

theorem rt_build_jrp_reference:
  "rt_build_jrp payload =
     (let ls = payload_lines (cstr payload) in
      if length ls \<le> MAX_REQ_SECT then those (map rt_section ls) else None)"
  by (simp add: rt_build_jrp_def rt_build_loop_lines add_sections_those Let_def option.map_ident_strong)

lemma build_printed:
  assumes "length js \<le> MAX_REQ_SECT" "\<forall>j\<in>set js. canonical j"
  shows "rt_build_jrp (joins CRLF (map jrp_text js)) = Some js"
proof -
  have "NUL \<notin> set (joins CRLF (map jrp_text js))"
    by (rule joins_chars) (use assms jrp_text_size in \<open>auto simp: CRLF_def CR_def LF_def NUL_def\<close>)
  then have "cstr (joins CRLF (map jrp_text js)) = joins CRLF (map jrp_text js)" by simp
  moreover have "payload_lines (joins CRLF (map jrp_text js)) = map jrp_text js"
    by (rule payload_lines_joins) (use assms jrp_text_size in auto)
  ultimately show ?thesis
    using add_sections [OF assms(2), of "[]"] assms(1)
    by (simp add: rt_build_jrp_def rt_build_loop_lines)
qed

text \<open>
  C22: Printing and parsing: a list of at most eight canonical requests, printed one per line, is
  parsed back to exactly that list.
\<close>

theorem rt_build_jrp_roundtrip:
  assumes "length js \<le> MAX_REQ_SECT" "\<forall>j\<in>set js. canonical j"
  shows "rt_build_jrp (joins CRLF (map jrp_text js)) = Some js"
  using build_printed [OF assms] .

definition sample_jrp :: JRP where
  "sample_jrp =
     \<lparr>segm = [\<lparr>sname = ''io'', index = -1, sjsl = JSL_DIR\<rparr>, \<lparr>sname = ''dev'', index = -1, sjsl = JSL_ARCHIVE\<rparr>,
              \<lparr>sname = ''port'', index = 2, sjsl = JSL_ARRAY\<rparr>, \<lparr>sname = ''baud'', index = -1, sjsl = JSL_FIELD\<rparr>],
      valuestring = Some ''9600'', dupkey = ''io.dev.port[2].baud'', dupvalue = ''9600''\<rparr>"

theorem rt_build_jrp_roundtrip_witness:
  "length [sample_jrp, sample_jrp] \<le> MAX_REQ_SECT \<and> canonical sample_jrp \<and>
   rt_build_jrp (joins CRLF (map jrp_text [sample_jrp, sample_jrp])) = Some [sample_jrp, sample_jrp]"
proof -
  have len: "length [sample_jrp, sample_jrp] \<le> MAX_REQ_SECT" by (simp add: MAX_REQ_SECT_def)
  have can: "canonical sample_jrp" by code_simp
  then have "\<forall>j\<in>set [sample_jrp, sample_jrp]. canonical j" by simp
  from len can rt_build_jrp_roundtrip [OF len this] show ?thesis by blast
qed

text \<open>
  The accepted segments are exactly those of the grammar: a name without brackets, or a
  non-empty name followed by one bracketed index at the end.
\<close>

theorem rt_analyze_segment_exact:
  "rt_analyze_segment key i = Some sg \<longleftrightarrow>
     (\<exists>nm idx. segment_grammar key nm idx \<and> (i < 2 \<longrightarrow> idx = -1) \<and>
        sg = \<lparr>sname = nm, index = idx,
              sjsl = (if i = 0 then JSL_DIR else if i = 1 then JSL_ARCHIVE
                      else if 0 \<le> idx then JSL_ARRAY else JSL_LOGIC_SCOPE)\<rparr>)"
  by (simp add: rt_analyze_segment_iff mkseg_def seg_level_def)

theorem rt_analyze_segment_exact_witness:
  "rt_analyze_segment ''port[2]'' 3 = Some \<lparr>sname = ''port'', index = 2, sjsl = JSL_ARRAY\<rparr>"
proof -
  have "segment_grammar ''port[2]'' ''port'' 2"
    unfolding segment_grammar_def by (intro conjI disjI2 exI [of _ "''2''"]) code_simp+
  then show ?thesis using rt_analyze_segment_exact [of "''port[2]''" 3] by simp
qed

text \<open>
  One empty section, such as a blank line, makes the whole request fail.
\<close>

theorem rt_build_jrp_blank_line:
  assumes "[] \<in> set (payload_lines (cstr payload))"
  shows "rt_build_jrp payload = None"
proof -
  have "those (map rt_section ls) = None" if "[] \<in> set ls" for ls
    using that by (induction ls) (auto simp: rt_section_def split: option.splits)
  with assms show ?thesis
    by (simp add: rt_build_jrp_def rt_build_loop_lines add_sections_those)
qed

theorem rt_build_jrp_blank_line_witness:
  "[] \<in> set (payload_lines (cstr (''a.b'' @ CRLF @ CRLF @ ''a.c''))) \<and>
   rt_build_jrp (''a.b'' @ CRLF @ CRLF @ ''a.c'') = None"
proof -
  have blank: "[] \<in> set (payload_lines (cstr (''a.b'' @ CRLF @ CRLF @ ''a.c'')))" by code_simp
  from blank rt_build_jrp_blank_line [OF blank] show ?thesis by blast
qed

text \<open>A numeral beyond 32 bits is taken modulo \<open>2 ^ 32\<close>: this one addresses item 1.\<close>

theorem index_wraps_around:
  "rt_analyze_segment ''port[4294967297]'' 2 = Some \<lparr>sname = ''port'', index = 1, sjsl = JSL_ARRAY\<rparr>"
proof -
  have digits: "list_all isdigit ''4294967297''" by (simp add: isdigit_def)
  have "digits_val 0 ''4294967297'' = 4294967297" by (simp add: isdigit_def)
  then have "strtol10 ''4294967297'' = 4294967297"
    by (subst strtol10_digits [OF _ digits]) simp_all
  then have "atoi ''4294967297'' = 1" by (simp add: atoi_def to_int32_def)
  then have "index_value ''4294967297'' = Some 1"
    by (simp add: index_value_digits [OF digits] MAX_ARY_SIZE_def)
  then have "segment_grammar ''port[4294967297]'' ''port'' 1"
    by (auto simp: segment_grammar_def plain_def intro!: exI [of _ "''4294967297''"])
  then show ?thesis by (auto simp: rt_analyze_segment_iff mkseg_def seg_level_def)
qed

end
