(* ===== verification/Virfs.thy ===== *)
theory Virfs
  imports Avltree
begin

text \<open>
  The virtual file system, \<^verbatim>\<open>fs/virfs.h\<close>, \<^verbatim>\<open>fs/inner.c\<close> and the table
  operations of \<^verbatim>\<open>fs/virfs.c\<close>: a layout of 128 directory slots and 256 archive
  slots with an occupancy bit mask, kept in memory as one packed C structure. The theory models
  the slot tables and their operations, states what they implement (two finite maps from
  names to slots), and shows that every operation keeps the layout consistent.

  A byte array is a list of its bytes. Where the code writes beyond the array it is given,
  the model says what is hit when that is inside the layout, and yields \<open>None\<close> when the write
  leaves the structure it belongs to.
\<close>

section \<open>The layout\<close>

definition FS_MAX_FILE_SIZE :: nat where "FS_MAX_FILE_SIZE = 8192"
definition FS_MAX_DIR :: nat where "FS_MAX_DIR = 128"
definition FS_MAX_ARCH :: nat where "FS_MAX_ARCH = 256"
definition FS_MAX_ITEM_MASK :: nat where "FS_MAX_ITEM_MASK = 32"

lemmas fs_limits [cdefs] = FS_MAX_DIR_def FS_MAX_ARCH_def FS_MAX_ITEM_MASK_def

text \<open>
  \<open>strcpy\<close> into \<open>name[64]\<close> runs on into \<open>unused[64]\<close>, which belongs to the same slot and is
  read back as part of the name, so a slot has room for 127 characters.
\<close>

definition FS_NAME_ROOM :: nat where "FS_NAME_ROOM = 128"

definition EEXIST :: int where "EEXIST = 17"

record fs_directory =
  did :: int
  dname :: string

record fs_archive =
  aid :: int
  aname :: string
  dirid :: int
  asize :: int
  asection :: int
  adata :: string

record layout =
  mask :: "byte list"
  dir :: "fs_directory list"
  archive :: "fs_archive list"

definition zero_dir :: fs_directory where
  "zero_dir = \<lparr>did = 0, dname = ''''\<rparr>"

definition zero_archive :: fs_archive where
  "zero_archive =
     \<lparr>aid = 0, aname = '''', dirid = 0, asize = 0, asection = 0, adata = replicate FS_MAX_FILE_SIZE NUL\<rparr>"

definition zero_layout :: layout where
  "zero_layout =
     \<lparr>mask = replicate FS_MAX_ITEM_MASK 0, dir = replicate FS_MAX_DIR zero_dir,
      archive = replicate FS_MAX_ARCH zero_archive\<rparr>"

section \<open>Slots and the bit mask\<close>

definition BIT_MASK :: "nat \<Rightarrow> byte" where
  "BIT_MASK j = push_bit j 1"

definition fs_search_free_section :: "layout \<Rightarrow> (nat \<times> layout) option" where
  "fs_search_free_section L =
     (case List.find (\<lambda>(i, j). NOT (mask L ! i) AND BIT_MASK j \<noteq> 0)
             (List.product [0..<FS_MAX_ITEM_MASK] [0..<8]) of
        None \<Rightarrow> None
      | Some (i, j) \<Rightarrow> Some (8 * i + j, L\<lparr>mask := (mask L)[i := mask L ! i OR BIT_MASK j]\<rparr>))"

definition fs_set_section_bitmask :: "int \<Rightarrow> bool \<Rightarrow> layout \<Rightarrow> layout" where
  "fs_set_section_bitmask idx used L =
     (if idx < 0 \<or> nat idx div 8 \<ge> FS_MAX_ITEM_MASK then L
      else (let i = nat idx div 8; j = nat idx mod 8 in
            L\<lparr>mask := (mask L)[i := (if used then mask L ! i OR BIT_MASK j
                                    else mask L ! i AND NOT (BIT_MASK j))]\<rparr>))"

definition fs_search_dir_byname :: "string \<Rightarrow> layout \<Rightarrow> nat option" where
  "fs_search_dir_byname name L = find_index (\<lambda>d. strcasecmp name (dname d) = 0 \<and> did d > 0) (dir L)"

definition fs_seek_free_dir_location :: "layout \<Rightarrow> nat option" where
  "fs_seek_free_dir_location L = find_index (\<lambda>d. did d \<le> 0) (dir L)"

text \<open>The mask bit is taken before the slot is looked at.\<close>

definition fs_seek_free_file_location :: "layout \<Rightarrow> nat option \<times> layout" where
  "fs_seek_free_file_location L =
     (case fs_search_free_section L of
        None \<Rightarrow> (None, L)
      | Some (n, L') \<Rightarrow> if aid (archive L' ! n) \<le> 0 then (Some n, L') else (None, L'))"

definition fs_search_file_bysect :: "int \<Rightarrow> layout \<Rightarrow> fs_archive option" where
  "fs_search_file_bysect sect L =
     (if sect < 0 \<or> sect \<ge> int FS_MAX_ARCH then None
      else let a = archive L ! nat sect in if aid a > 0 then Some a else None)"

definition fs_search_file_byname :: "string \<Rightarrow> int \<Rightarrow> layout \<Rightarrow> nat option" where
  "fs_search_file_byname name d L =
     find_index (\<lambda>a. dirid a = d \<and> strcasecmp (aname a) name = 0) (archive L)"

section \<open>Walking the tables\<close>

text \<open>
  The walk returns the slot found and the index to continue with. In \<open>fs_seek_next_dir\<close> the
  final test is on the address of the result, so the index is returned on every path.
\<close>

fun seek_from :: "('a \<Rightarrow> bool) \<Rightarrow> 'a list \<Rightarrow> nat \<Rightarrow> nat option" where
  "seek_from P xs i = map_option ((+) i) (find_index P (drop i xs))"

definition fs_seek_next_dir :: "int \<Rightarrow> layout \<Rightarrow> nat option \<times> int" where
  "fs_seek_next_dir idx L =
     (if idx < 0 \<or> idx \<ge> int FS_MAX_DIR then (None, -1)
      else case seek_from (\<lambda>d. did d > 0) (dir L) (nat idx) of
        None \<Rightarrow> (None, -1)
      | Some i \<Rightarrow> (Some i, if i + 1 \<ge> FS_MAX_DIR then -1 else int (i + 1)))"

definition fs_seek_next_file :: "int \<Rightarrow> int \<Rightarrow> layout \<Rightarrow> nat option \<times> int" where
  "fs_seek_next_file idx d L =
     (if idx < 0 \<or> idx \<ge> int FS_MAX_ARCH then (None, -1)
      else case seek_from (\<lambda>a. aid a > 0 \<and> dirid a = d) (archive L) (nat idx) of
        None \<Rightarrow> (None, -1)
      | Some i \<Rightarrow> (Some i, if i + 1 \<ge> FS_MAX_ARCH then -1 else int (i + 1)))"

section \<open>Allocation and removal\<close>

text \<open>
  The result is the code's return value and the new layout; \<open>None\<close> when the name is longer
  than the slot and \<open>strcpy\<close> runs into the next one.
\<close>

definition fs_allocate_dir :: "string \<Rightarrow> layout \<Rightarrow> (int \<times> layout) option" where
  "fs_allocate_dir name L =
     (if strcasecmp name ''proc'' = 0 then Some (- EEXIST, L)
      else if fs_search_dir_byname name L \<noteq> None then Some (- EEXIST, L)
      else case fs_seek_free_dir_location L of
        None \<Rightarrow> Some (-1, L)
      | Some dir_section \<Rightarrow>
          if length name \<ge> FS_NAME_ROOM then None
          else let newid = (1 + int dir_section) * 2 ^ 16 in
            Some (newid, L\<lparr>dir := (dir L)[dir_section := \<lparr>did = newid, dname = name\<rparr>]\<rparr>))"

definition fs_allocate_file :: "string \<Rightarrow> int \<Rightarrow> int \<Rightarrow> string option \<Rightarrow> layout \<Rightarrow> (int \<times> layout) option" where
  "fs_allocate_file name d sz bytes L =
     (if sz < 0 \<or> d \<le> 0 \<or> sz \<ge> int FS_MAX_FILE_SIZE then Some (-1, L)
      else if fs_search_file_byname name d L \<noteq> None then Some (- EEXIST, L)
      else case fs_seek_free_file_location L of
        (None, L') \<Rightarrow> Some (-1, L')
      | (Some sect, L') \<Rightarrow>
          if length name \<ge> FS_NAME_ROOM then None
          else
            (let text = (case bytes of Some b \<Rightarrow> if sz > 0 then take (nat sz) b else '''' | None \<Rightarrow> '''')
             in Some (int sect, L'\<lparr>archive := (archive L')[sect :=
                  \<lparr>aid = d + int sect + 1, aname = name, dirid = d, asize = sz, asection = int sect,
                   adata = text @ replicate (FS_MAX_FILE_SIZE - length text) NUL\<rparr>]\<rparr>)))"

text \<open>
  \<open>fs_override_file\<close> with the text that \<open>cJSON_PrintUnformatted\<close> returns (\<open>None\<close>: it failed).
  The flag says whether \<open>fs_append_sync\<close> was called.
\<close>

definition fs_override_file :: "int \<Rightarrow> string option \<Rightarrow> layout \<Rightarrow> int \<times> bool \<times> layout" where
  "fs_override_file sect jsonfiledata L =
     (case fs_search_file_bysect sect L of
        None \<Rightarrow> (-1, False, L)
      | Some a \<Rightarrow>
          (case jsonfiledata of
             None \<Rightarrow> (-1, False, L)
           | Some text \<Rightarrow>
               if length text \<le> FS_MAX_FILE_SIZE then
                 (0, True, L\<lparr>archive := (archive L)[nat sect :=
                    a\<lparr>asize := int (length text),
                      adata := text @ replicate (FS_MAX_FILE_SIZE - length text) NUL\<rparr>]\<rparr>)
               else (0, False, L)))"

definition fs_delete_file :: "int \<Rightarrow> layout \<Rightarrow> int \<times> layout" where
  "fs_delete_file sect L =
     (case fs_search_file_bysect sect L of
        None \<Rightarrow> (-1, L)
      | Some a \<Rightarrow>
          (let L' = fs_set_section_bitmask (asection a) False L
           in (0, L'\<lparr>archive := (archive L')[nat sect := zero_archive]\<rparr>)))"

text \<open>The loop of \<open>fs_delete_dir\<close> over the archive slots.\<close>

definition fs_drop_archive :: "int \<Rightarrow> nat \<Rightarrow> layout \<Rightarrow> layout" where
  "fs_drop_archive d i L =
     (let a = archive L ! i in
      if aid a > 0 \<and> dirid a = d then
        (let L' = fs_set_section_bitmask (asection a) False L
         in L'\<lparr>archive := (archive L')[i := zero_archive]\<rparr>)
      else L)"

definition fs_delete_dir :: "string \<Rightarrow> layout \<Rightarrow> int \<times> layout" where
  "fs_delete_dir name L =
     (case fs_search_dir_byname name L of
        None \<Rightarrow> (-1, L)
      | Some k \<Rightarrow>
          (let d = did (dir L ! k);
               L' = L\<lparr>dir := (dir L)[k := zero_dir]\<rparr>
           in (0, fold (fs_drop_archive d) [0..<FS_MAX_ARCH] L')))"

text \<open>
  \<open>fs_read_file_bysect\<close> terminates the data with a zero byte at \<open>data[size]\<close>. For a file of
  the full 8192 bytes that is the low byte of the next slot's \<open>id\<close>, or, in the last slot, the
  byte behind the layout (\<open>None\<close>). The value is the size and the bytes behind \<open>*dataptr\<close>.
\<close>

definition fs_read_file_bysect :: "int \<Rightarrow> layout \<Rightarrow> ((int \<times> string) \<times> layout) option" where
  "fs_read_file_bysect sect L =
     (case fs_search_file_bysect sect L of
        None \<Rightarrow> Some ((-1, ''''), L)
      | Some a \<Rightarrow>
          if nat (asize a) < FS_MAX_FILE_SIZE then
            (let a' = a\<lparr>adata := (adata a)[nat (asize a) := NUL]\<rparr>
             in Some ((asize a, adata a'), L\<lparr>archive := (archive L)[nat sect := a']\<rparr>))
          else if nat sect + 1 < FS_MAX_ARCH then
            (let b = archive L ! (nat sect + 1)
             in Some ((asize a, adata a),
                  L\<lparr>archive := (archive L)[nat sect + 1 := b\<lparr>aid := aid b AND NOT 0xFF\<rparr>]\<rparr>))
          else None)"

text \<open>\<open>fs_analyze_file\<close>, with the JSON parser as an argument: it sees the data as a C string.\<close>

definition fs_analyze_file :: "(string \<Rightarrow> 'j option) \<Rightarrow> int \<Rightarrow> layout \<Rightarrow> 'j option" where
  "fs_analyze_file cJSON_Parse sect L =
     (case fs_search_file_bysect sect L of None \<Rightarrow> None | Some a \<Rightarrow> cJSON_Parse (cstr (adata a)))"

section \<open>Tables of slots as finite maps\<close>

text \<open>
  What a table of slots stands for: the map from the key of a live slot to its position. The
  directory and the archive table are both of this kind; the facts on insertion, removal and
  update in place are proved once, for any notion of live slot, key and blank slot.
\<close>

definition slot_map :: "('a \<Rightarrow> bool) \<Rightarrow> ('a \<Rightarrow> 'k) \<Rightarrow> 'a list \<Rightarrow> 'k \<Rightarrow> nat option" where
  "slot_map live key xs k = find_index (\<lambda>x. live x \<and> key x = k) xs"

definition slots_unique :: "('a \<Rightarrow> bool) \<Rightarrow> ('a \<Rightarrow> 'k) \<Rightarrow> 'a list \<Rightarrow> bool" where
  "slots_unique live key xs \<longleftrightarrow>
     (\<forall>i<length xs. \<forall>j<length xs. live (xs ! i) \<longrightarrow> live (xs ! j) \<longrightarrow> key (xs ! i) = key (xs ! j) \<longrightarrow> i = j)"

locale slot_table =
  fixes live :: "'a \<Rightarrow> bool" and key :: "'a \<Rightarrow> 'k" and blank :: 'a
  assumes blank_dead: "\<not> live blank"
begin

lemma slot_map_Some:
  assumes "slots_unique live key xs"
  shows "slot_map live key xs k = Some i \<longleftrightarrow> i < length xs \<and> live (xs ! i) \<and> key (xs ! i) = k"
proof
  assume "slot_map live key xs k = Some i"
  then show "i < length xs \<and> live (xs ! i) \<and> key (xs ! i) = k"
    by (auto simp: slot_map_def find_index_Some)
next
  assume i: "i < length xs \<and> live (xs ! i) \<and> key (xs ! i) = k"
  then have "\<not> (live (xs ! j) \<and> key (xs ! j) = k)" if "j < i" for j
    using assms that unfolding slots_unique_def
    by (metis less_trans nat_neq_iff)
  with i show "slot_map live key xs k = Some i"
    by (simp add: slot_map_def find_index_Some)
qed

lemma slot_map_None:
  "slot_map live key xs k = None \<longleftrightarrow> (\<forall>i<length xs. live (xs ! i) \<longrightarrow> key (xs ! i) \<noteq> k)"
  by (simp add: slot_map_def find_index_None all_set_conv_all_nth imp_conjL)

lemma slot_map_eqI:
  assumes "slots_unique live key xs" "slots_unique live key ys" "length xs = length ys"
    and "\<And>i. i < length xs \<Longrightarrow> live (ys ! i) = live (xs ! i) \<and> (live (xs ! i) \<longrightarrow> key (ys ! i) = key (xs ! i))"
  shows "slot_map live key ys = slot_map live key xs"
proof
  fix k
  show "slot_map live key ys k = slot_map live key xs k"
  proof (cases "slot_map live key xs k")
    case None
    with assms have "slot_map live key ys k = None" by (simp add: slot_map_None)
    with None show ?thesis by simp
  next
    case (Some i)
    with assms have "slot_map live key ys k = Some i" by (auto simp: slot_map_Some)
    with Some show ?thesis by simp
  qed
qed

lemma insert:
  assumes "slots_unique live key xs" "i < length xs" "\<not> live (xs ! i)" "live x"
    and "slot_map live key xs (key x) = None"
  shows "slots_unique live key (xs[i := x])"
    and "slot_map live key (xs[i := x]) = (slot_map live key xs)(key x \<mapsto> i)"
proof -
  show u: "slots_unique live key (xs[i := x])"
    using assms unfolding slots_unique_def slot_map_None
    by (auto simp: nth_list_update)
  show "slot_map live key (xs[i := x]) = (slot_map live key xs)(key x \<mapsto> i)"
  proof
    fix k
    show "slot_map live key (xs[i := x]) k = ((slot_map live key xs)(key x \<mapsto> i)) k"
    proof (cases "k = key x")
      case True
      have "slot_map live key (xs[i := x]) (key x) = Some i"
        using u assms by (simp add: slot_map_Some)
      with True show ?thesis by simp
    next
      case False
      show ?thesis
      proof (cases "slot_map live key xs k")
        case None
        then have "slot_map live key (xs[i := x]) k = None"
          using False assms(2) by (auto simp: slot_map_None nth_list_update split: if_splits)
        with None False show ?thesis by simp
      next
        case (Some j)
        then have "slot_map live key (xs[i := x]) k = Some j"
          using assms u by (auto simp: slot_map_Some nth_list_update)
        with Some False show ?thesis by simp
      qed
    qed
  qed
qed

lemma update:
  assumes "slots_unique live key xs" "i < length xs" "live x = live (xs ! i)" "key x = key (xs ! i)"
  shows "slots_unique live key (xs[i := x])"
    and "slot_map live key (xs[i := x]) = slot_map live key xs"
proof -
  show u: "slots_unique live key (xs[i := x])"
    using assms unfolding slots_unique_def
    by (auto simp: nth_list_update)
  show "slot_map live key (xs[i := x]) = slot_map live key xs"
    by (rule slot_map_eqI [OF assms(1) u]) (use assms in \<open>auto simp: nth_list_update\<close>)
qed

text \<open>Blanking every live slot that a predicate selects.\<close>

lemma delete:
  assumes "slots_unique live key xs" "length ys = length xs"
    and "\<And>i. i < length xs \<Longrightarrow> ys ! i = (if live (xs ! i) \<and> P (xs ! i) then blank else xs ! i)"
  shows "slots_unique live key ys"
    and "slot_map live key ys k =
      (case slot_map live key xs k of Some i \<Rightarrow> if P (xs ! i) then None else Some i | None \<Rightarrow> None)"
proof -
  have ys: "live (ys ! i) \<longleftrightarrow> live (xs ! i) \<and> \<not> P (xs ! i)"
    "live (ys ! i) \<Longrightarrow> ys ! i = xs ! i" if "i < length xs" for i
    using assms(3) [OF that] blank_dead by (auto split: if_splits)
  show u: "slots_unique live key ys"
    using assms(1,2) ys unfolding slots_unique_def by metis
  show "slot_map live key ys k =
      (case slot_map live key xs k of Some i \<Rightarrow> if P (xs ! i) then None else Some i | None \<Rightarrow> None)"
  proof (cases "slot_map live key ys k")
    case None
    then have "\<not> live (ys ! i) \<or> key (ys ! i) \<noteq> k" if "i < length xs" for i
      using that assms(2) by (auto simp: slot_map_None)
    then have "P (xs ! i)" if "slot_map live key xs k = Some i" for i
      using that ys assms(1) by (metis slot_map_Some)
    with None show ?thesis by (auto split: option.splits)
  next
    case (Some i)
    then have i: "i < length xs" "live (ys ! i)" "key (ys ! i) = k"
      using u assms(2) by (auto simp: slot_map_Some)
    with ys have "slot_map live key xs k = Some i" "\<not> P (xs ! i)"
      using assms(1) by (auto simp: slot_map_Some)
    with Some show ?thesis by simp
  qed
qed

lemma delete_key:
  assumes "slots_unique live key xs" "length ys = length xs"
    and "\<And>i. i < length xs \<Longrightarrow> ys ! i = (if live (xs ! i) \<and> Q (key (xs ! i)) then blank else xs ! i)"
  shows "slots_unique live key ys"
    and "slot_map live key ys = (\<lambda>k. if Q k then None else slot_map live key xs k)"
proof -
  note del = delete [OF assms(1,2), of "\<lambda>x. Q (key x)", OF assms(3)]
  show "slots_unique live key ys" by (rule del(1))
  show "slot_map live key ys = (\<lambda>k. if Q k then None else slot_map live key xs k)"
  proof
    fix k
    show "slot_map live key ys k = (if Q k then None else slot_map live key xs k)"
    proof (cases "slot_map live key xs k")
      case None
      with del(2) [of k] show ?thesis by simp
    next
      case (Some i)
      then have "key (xs ! i) = k" using assms(1) by (simp add: slot_map_Some)
      with Some del(2) [of k] show ?thesis by simp
    qed
  qed
qed

end

definition dir_key :: "fs_directory \<Rightarrow> nat list" where
  "dir_key d = fold_key (dname d)"

definition file_key :: "fs_archive \<Rightarrow> int \<times> nat list" where
  "file_key a = (dirid a, fold_key (aname a))"

abbreviation dir_live :: "fs_directory \<Rightarrow> bool" where
  "dir_live d \<equiv> 0 < did d"

abbreviation file_live :: "fs_archive \<Rightarrow> bool" where
  "file_live a \<equiv> 0 < aid a"

interpretation dirs: slot_table dir_live dir_key zero_dir
  by unfold_locales (simp add: zero_dir_def)

interpretation files: slot_table file_live file_key zero_archive
  by unfold_locales (simp add: zero_archive_def)

text \<open>The abstract state of a layout: directories by name, archives by directory and name.\<close>

definition dir_table :: "layout \<Rightarrow> nat list \<Rightarrow> nat option" where
  "dir_table L = slot_map dir_live dir_key (dir L)"

definition file_table :: "layout \<Rightarrow> int \<times> nat list \<Rightarrow> nat option" where
  "file_table L = slot_map file_live file_key (archive L)"

section \<open>The occupancy mask\<close>

definition used :: "layout \<Rightarrow> nat \<Rightarrow> bool" where
  "used L s \<longleftrightarrow> bit (mask L ! (s div 8)) (s mod 8)"

lemma BIT_MASK_bit: "j < 8 \<Longrightarrow> bit (BIT_MASK j) k \<longleftrightarrow> k = j"
  by (auto simp: BIT_MASK_def push_bit_eq_mult bit_exp_iff)

lemma BIT_MASK_test: "j < 8 \<Longrightarrow> NOT m AND BIT_MASK j \<noteq> 0 \<longleftrightarrow> \<not> bit m j" for m :: byte
proof -
  assume j: "j < 8"
  have "NOT m AND BIT_MASK j = (if bit m j then 0 else BIT_MASK j)"
    by (rule bit_word_eqI) (auto simp: bit_and_iff bit_not_iff BIT_MASK_bit [OF j])
  moreover have "BIT_MASK j \<noteq> 0"
    using BIT_MASK_bit [OF j, of j] by auto
  ultimately show ?thesis by simp
qed

lemma section_pairs:
  "List.product [0..<FS_MAX_ITEM_MASK] [0..<8] = map (\<lambda>n. (n div 8, n mod 8)) [0..<FS_MAX_ARCH]"
  by code_simp

lemma find_map: "List.find P (map f xs) = map_option f (List.find (P \<circ> f) xs)"
  by (induction xs) auto

lemma used_set:
  assumes "length (mask L) = FS_MAX_ITEM_MASK" "s < FS_MAX_ARCH" "n < FS_MAX_ARCH"
  shows "used (L\<lparr>mask := (mask L)[n div 8 := mask L ! (n div 8) OR BIT_MASK (n mod 8)]\<rparr>) s \<longleftrightarrow> used L s \<or> s = n"
    and "used (L\<lparr>mask := (mask L)[n div 8 := mask L ! (n div 8) AND NOT (BIT_MASK (n mod 8))]\<rparr>) s \<longleftrightarrow> used L s \<and> s \<noteq> n"
proof -
  have n: "n div 8 < length (mask L)" using assms by (simp add: fs_limits)
  have "s = n \<longleftrightarrow> s div 8 = n div 8 \<and> s mod 8 = n mod 8"
    by (metis mult_div_mod_eq)
  with n show "used (L\<lparr>mask := (mask L)[n div 8 := mask L ! (n div 8) OR BIT_MASK (n mod 8)]\<rparr>) s \<longleftrightarrow> used L s \<or> s = n"
    "used (L\<lparr>mask := (mask L)[n div 8 := mask L ! (n div 8) AND NOT (BIT_MASK (n mod 8))]\<rparr>) s \<longleftrightarrow> used L s \<and> s \<noteq> n"
    by (auto simp: used_def nth_list_update bit_simps BIT_MASK_bit)
qed

lemma fs_search_free_section_spec:
  assumes "length (mask L) = FS_MAX_ITEM_MASK"
  shows "fs_search_free_section L = None \<Longrightarrow> s < FS_MAX_ARCH \<Longrightarrow> used L s"
    and "fs_search_free_section L = Some (n, L') \<Longrightarrow>
      n < FS_MAX_ARCH \<and> \<not> used L n \<and> dir L' = dir L \<and> archive L' = archive L \<and>
      length (mask L') = FS_MAX_ITEM_MASK \<and> (\<forall>s<FS_MAX_ARCH. used L' s \<longleftrightarrow> used L s \<or> s = n)"
proof -
  let ?P = "\<lambda>(i, j). NOT (mask L ! i) AND BIT_MASK j \<noteq> 0"
  have P: "(?P \<circ> (\<lambda>n. (n div 8, n mod 8))) m \<longleftrightarrow> \<not> used L m" for m
    by (simp add: BIT_MASK_test used_def)
  then have find: "List.find ?P (List.product [0..<FS_MAX_ITEM_MASK] [0..<8]) =
     map_option (\<lambda>n. (n div 8, n mod 8)) (List.find (\<lambda>m. \<not> used L m) [0..<FS_MAX_ARCH])"
    unfolding section_pairs find_map by presburger
  { assume "fs_search_free_section L = None" "s < FS_MAX_ARCH"
    then show "used L s"
      by (auto simp: fs_search_free_section_def find find_None_iff split: option.splits prod.splits) }
  assume "fs_search_free_section L = Some (n, L')"
  then obtain m where m: "List.find (\<lambda>m. \<not> used L m) [0..<FS_MAX_ARCH] = Some m"
    and n: "n = 8 * (m div 8) + m mod 8"
    and L': "L' = L\<lparr>mask := (mask L)[m div 8 := mask L ! (m div 8) OR BIT_MASK (m mod 8)]\<rparr>"
    by (auto simp: fs_search_free_section_def find split: option.splits)
  from m have m': "m < FS_MAX_ARCH" "\<not> used L m"
    by (auto simp: find_Some_iff)
  moreover have "n = m" using n by simp
  ultimately show "n < FS_MAX_ARCH \<and> \<not> used L n \<and> dir L' = dir L \<and> archive L' = archive L \<and>
      length (mask L') = FS_MAX_ITEM_MASK \<and> (\<forall>s<FS_MAX_ARCH. used L' s \<longleftrightarrow> used L s \<or> s = n)"
    using used_set(1) [OF assms _ m'(1)] assms by (simp add: L')
qed

lemma fs_clear_bit_spec:
  assumes "length (mask L) = FS_MAX_ITEM_MASK" "n < FS_MAX_ARCH"
  defines "L' \<equiv> fs_set_section_bitmask (int n) False L"
  shows "dir L' = dir L" "archive L' = archive L" "length (mask L') = FS_MAX_ITEM_MASK"
    and "s < FS_MAX_ARCH \<Longrightarrow> used L' s \<longleftrightarrow> used L s \<and> s \<noteq> n"
proof -
  have L': "L' = L\<lparr>mask := (mask L)[n div 8 := mask L ! (n div 8) AND NOT (BIT_MASK (n mod 8))]\<rparr>"
    using assms(2) by (simp add: L'_def fs_set_section_bitmask_def Let_def fs_limits)
  show "dir L' = dir L" "archive L' = archive L" "length (mask L') = FS_MAX_ITEM_MASK"
    using assms(1) by (simp_all add: L')
  show "used L' s \<longleftrightarrow> used L s \<and> s \<noteq> n" if "s < FS_MAX_ARCH"
    unfolding L' by (rule used_set(2) [OF assms(1) that assms(2)])
qed

section \<open>The layout invariant\<close>

text \<open>
  A live archive sits in the slot its \<open>section\<close> names, belongs to a live directory and has its
  mask bit set. Its \<open>id\<close> lies in the range of its directory; it need not be
  \<open>dirid + section + 1\<close>, since reading the file in front of it may clear the low byte.
\<close>

definition archive_ok :: "layout \<Rightarrow> nat \<Rightarrow> bool" where
  "archive_ok L s \<longleftrightarrow>
     (let a = archive L ! s in
      (used L s \<longleftrightarrow> 0 < aid a) \<and> (aid a \<le> 0 \<longrightarrow> aid a = 0 \<and> dirid a = 0) \<and>
      (0 < aid a \<longrightarrow>
         asection a = int s \<and> 0 < dirid a \<and> (\<exists>i<FS_MAX_DIR. did (dir L ! i) = dirid a) \<and>
         dirid a \<le> aid a \<and> aid a \<le> dirid a + 256 \<and>
         0 \<le> asize a \<and> asize a \<le> int FS_MAX_FILE_SIZE \<and> length (adata a) = FS_MAX_FILE_SIZE))"

definition fs_inv :: "layout \<Rightarrow> bool" where
  "fs_inv L \<longleftrightarrow>
     length (mask L) = FS_MAX_ITEM_MASK \<and> length (dir L) = FS_MAX_DIR \<and> length (archive L) = FS_MAX_ARCH \<and>
     (\<forall>i<FS_MAX_DIR. did (dir L ! i) = 0 \<or> did (dir L ! i) = (1 + int i) * 2 ^ 16) \<and>
     (\<forall>s<FS_MAX_ARCH. archive_ok L s) \<and>
     slots_unique dir_live dir_key (dir L) \<and> slots_unique file_live file_key (archive L)"

lemma fs_inv_lengths:
  "fs_inv L \<Longrightarrow> length (mask L) = FS_MAX_ITEM_MASK"
  "fs_inv L \<Longrightarrow> length (dir L) = FS_MAX_DIR"
  "fs_inv L \<Longrightarrow> length (archive L) = FS_MAX_ARCH"
  by (simp_all add: fs_inv_def)

lemma fs_inv_zero: "fs_inv zero_layout"
  by (simp add: fs_inv_def zero_layout_def archive_ok_def used_def zero_archive_def zero_dir_def
      fs_limits slots_unique_def)

text \<open>The linear searches compute the abstract lookups.\<close>

lemma fs_search_dir_byname_table: "fs_search_dir_byname name L = dir_table L (fold_key name)"
  by (auto simp: fs_search_dir_byname_def dir_table_def slot_map_def dir_key_def strcasecmp_eq_0
      intro!: arg_cong [of _ _ "\<lambda>P. find_index P (dir L)"])

lemma find_index_cong:
  "(\<And>x. x \<in> set xs \<Longrightarrow> P x = Q x) \<Longrightarrow> find_index P xs = find_index Q xs"
  by (induction xs) auto

lemma fs_search_file_byname_table:
  assumes "fs_inv L" "0 < d"
  shows "fs_search_file_byname name d L = file_table L (d, fold_key name)"
proof -
  have "aid a > 0 \<or> dirid a = 0" if "a \<in> set (archive L)" for a
    using assms(1) that by (fastforce simp: fs_inv_def archive_ok_def Let_def in_set_conv_nth)
  with assms(2) show ?thesis
    unfolding fs_search_file_byname_def file_table_def slot_map_def
    by (intro find_index_cong) (fastforce simp: file_key_def strcasecmp_eq_0)
qed

lemma fs_search_file_bysect_Some:
  "fs_search_file_bysect sect L = Some a \<longleftrightarrow>
     0 \<le> sect \<and> nat sect < FS_MAX_ARCH \<and> a = archive L ! nat sect \<and> 0 < aid a"
  by (auto simp: fs_search_file_bysect_def Let_def)

section \<open>Directories\<close>

lemma fs_inv_new_dir:
  fixes name
  assumes "fs_inv L" "i < FS_MAX_DIR" "did (dir L ! i) \<le> 0" "dir_table L (fold_key name) = None"
  defines "L' \<equiv> L\<lparr>dir := (dir L)[i := \<lparr>did = (1 + int i) * 2 ^ 16, dname = name\<rparr>]\<rparr>"
  shows "fs_inv L'" "dir_table L' = (dir_table L)(fold_key name \<mapsto> i)" "file_table L' = file_table L"
proof -
  let ?d = "\<lparr>did = (1 + int i) * 2 ^ 16, dname = name\<rparr>"
  have key: "dir_key \<lparr>did = x, dname = name\<rparr> = fold_key name" for x by (simp add: dir_key_def)
  have i: "i < length (dir L)" using assms(1,2) by (simp add: fs_inv_lengths)
  have free: "slot_map dir_live dir_key (dir L) (dir_key ?d) = None"
    using assms(4) by (simp add: dir_table_def key)
  have uniq: "slots_unique dir_live dir_key (dir L)" using assms(1) by (simp add: fs_inv_def)
  note ins = dirs.insert [OF uniq i _ _ free]
  show "dir_table L' = (dir_table L)(fold_key name \<mapsto> i)"
    using ins(2) assms(3) by (simp add: dir_table_def L'_def key)
  show "file_table L' = file_table L" by (simp add: file_table_def L'_def)
  have "archive_ok L' s" if "s < FS_MAX_ARCH" for s
  proof -
    have ok: "archive_ok L s" using assms(1) that by (simp add: fs_inv_def)
    have "did (dir L' ! k) = did (dir L ! k)" if "0 < did (dir L ! k)" for k
      using that assms(3) by (cases "k = i") (auto simp: L'_def)
    with ok show ?thesis
      by (auto simp: archive_ok_def Let_def used_def L'_def)
  qed
  moreover have "slots_unique dir_live dir_key (dir L')"
    using ins(1) assms(3) by (simp add: L'_def)
  ultimately show "fs_inv L'"
    using assms(1,2) by (auto simp: fs_inv_def L'_def nth_list_update)
qed

lemma fs_seek_free_dir_location_Some:
  "fs_inv L \<Longrightarrow> fs_seek_free_dir_location L = Some i \<Longrightarrow> i < FS_MAX_DIR \<and> did (dir L ! i) \<le> 0"
  by (auto simp: fs_seek_free_dir_location_def fs_inv_lengths dest: find_index_SomeD)

lemma fs_seek_free_dir_location_None:
  "fs_inv L \<Longrightarrow> fs_seek_free_dir_location L = None \<longleftrightarrow> (\<forall>i<FS_MAX_DIR. 0 < did (dir L ! i))"
  by (auto simp: fs_seek_free_dir_location_def find_index_None all_set_conv_all_nth fs_inv_lengths not_le)

text \<open>Dropping the archives of one directory.\<close>

definition drop_files :: "int \<Rightarrow> fs_archive list \<Rightarrow> fs_archive list" where
  "drop_files d as = map (\<lambda>a. if file_live a \<and> dirid a = d then zero_archive else a) as"

lemma fs_drop_archives:
  fixes d
  assumes "length (mask L) = FS_MAX_ITEM_MASK" "length (archive L) = FS_MAX_ARCH"
    and "\<forall>s<FS_MAX_ARCH. file_live (archive L ! s) \<longrightarrow> asection (archive L ! s) = int s"
    and "n \<le> FS_MAX_ARCH"
  defines "L' \<equiv> fold (fs_drop_archive d) [0..<n] L"
  shows "dir L' = dir L \<and> length (mask L') = FS_MAX_ITEM_MASK \<and>
    archive L' = drop_files d (take n (archive L)) @ drop n (archive L) \<and>
    (\<forall>s<FS_MAX_ARCH. used L' s \<longleftrightarrow> used L s \<and> \<not> (s < n \<and> file_live (archive L ! s) \<and> dirid (archive L ! s) = d))"
  using assms(4) unfolding L'_def
proof (induction n)
  case 0
  then show ?case using assms(1) by (simp add: drop_files_def)
next
  case (Suc n)
  let ?M = "fold (fs_drop_archive d) [0..<n] L" and ?a = "archive L ! n"
  from Suc have IH: "dir ?M = dir L" "length (mask ?M) = FS_MAX_ITEM_MASK"
    "archive ?M = drop_files d (take n (archive L)) @ drop n (archive L)"
    "\<And>s. s < FS_MAX_ARCH \<Longrightarrow> used ?M s \<longleftrightarrow> used L s \<and> \<not> (s < n \<and> file_live (archive L ! s) \<and> dirid (archive L ! s) = d)"
    by auto
  have n: "n < FS_MAX_ARCH" "n < length (archive L)" using Suc.prems assms(2) by auto
  have len: "length (drop_files d (take n (archive L))) = n" using n by (simp add: drop_files_def)
  have here: "archive ?M ! n = ?a" using IH(3) n len by (simp add: nth_append)
  have tk: "drop_files d (take (Suc n) (archive L)) =
      drop_files d (take n (archive L)) @ [if file_live ?a \<and> dirid ?a = d then zero_archive else ?a]"
    using n by (simp add: drop_files_def take_Suc_conv_app_nth)
  have dr: "drop n (archive L) = ?a # drop (Suc n) (archive L)"
    using n by (simp add: Cons_nth_drop_Suc)
  show ?case
  proof (cases "file_live ?a \<and> dirid ?a = d")
    case True
    then have "asection ?a = int n" using assms(3) n by blast
    note bit = fs_clear_bit_spec [OF IH(2) n(1)]
    have "fold (fs_drop_archive d) [0..<Suc n] L =
       (let M' = fs_set_section_bitmask (int n) False ?M in M'\<lparr>archive := (archive M')[n := zero_archive]\<rparr>)"
      using True \<open>asection ?a = int n\<close> by (simp add: fs_drop_archive_def here Let_def)
    moreover have "(archive ?M)[n := zero_archive] = drop_files d (take (Suc n) (archive L)) @ drop (Suc n) (archive L)"
      using IH(3) len dr tk True by (simp add: list_update_append)
    ultimately show ?thesis
      using IH bit True n by (auto simp: Let_def used_def less_Suc_eq)
  next
    case False
    then have "fold (fs_drop_archive d) [0..<Suc n] L = ?M"
      by (auto simp: fs_drop_archive_def here)
    with False IH dr tk show ?thesis
      by (auto simp: less_Suc_eq)
  qed
qed

lemma fs_allocate_dir_exact:
  assumes "fs_inv L" "length name < FS_NAME_ROOM"
  shows "\<exists>r L'. fs_allocate_dir name L = Some (r, L') \<and> fs_inv L' \<and> file_table L' = file_table L \<and>
    (if fold_key name = fold_key ''proc'' \<or> fold_key name \<in> dom (dir_table L) then r = - EEXIST \<and> L' = L
     else if \<forall>i<FS_MAX_DIR. dir_live (dir L ! i) then r = -1 \<and> L' = L
     else \<exists>i<FS_MAX_DIR. r = (1 + int i) * 2 ^ 16 \<and> dir_table L' = (dir_table L)(fold_key name \<mapsto> i))"
proof -
  consider (exists) "fold_key name = fold_key ''proc'' \<or> fold_key name \<in> dom (dir_table L)"
    | (full) "\<not> (fold_key name = fold_key ''proc'' \<or> fold_key name \<in> dom (dir_table L))"
      "fs_seek_free_dir_location L = None"
    | (new) i where "\<not> (fold_key name = fold_key ''proc'' \<or> fold_key name \<in> dom (dir_table L))"
      "fs_seek_free_dir_location L = Some i" by fastforce
  then show ?thesis
  proof cases
    case exists
    with assms show ?thesis
      by (auto simp: fs_allocate_dir_def strcasecmp_eq_0 fs_search_dir_byname_table)
  next
    case full
    then have "\<forall>i<FS_MAX_DIR. dir_live (dir L ! i)" using assms by (simp add: fs_seek_free_dir_location_None)
    with full assms show ?thesis
      by (auto simp: fs_allocate_dir_def strcasecmp_eq_0 fs_search_dir_byname_table)
  next
    case (new i)
    with fs_seek_free_dir_location_Some [OF assms(1) new(2)]
    have i: "i < FS_MAX_DIR" "did (dir L ! i) \<le> 0" "dir_table L (fold_key name) = None" by auto
    let ?L = "L\<lparr>dir := (dir L)[i := \<lparr>did = (1 + int i) * 2 ^ 16, dname = name\<rparr>]\<rparr>"
    have "fs_allocate_dir name L = Some ((1 + int i) * 2 ^ 16, ?L)"
      using new i(3) assms(2)
      by (simp add: fs_allocate_dir_def strcasecmp_eq_0 fs_search_dir_byname_table Let_def)
    moreover have "\<not> (\<forall>i<FS_MAX_DIR. dir_live (dir L ! i))" using i by (meson not_le)
    ultimately show ?thesis
      using fs_inv_new_dir [OF assms(1) i] new(1) i(1)
      by (intro exI [of _ "(1 + int i) * 2 ^ 16"] exI [of _ ?L]) (simp only: if_False simp_thms, blast)
  qed
qed

lemma fs_inv_live_dir_unique:
  assumes "fs_inv L" "i < FS_MAX_DIR" "j < FS_MAX_DIR" "did (dir L ! i) = did (dir L ! j)" "dir_live (dir L ! i)"
  shows "i = j"
proof -
  have "did (dir L ! i) = (1 + int i) * 2 ^ 16" "did (dir L ! j) = (1 + int j) * 2 ^ 16"
    using assms by (auto simp: fs_inv_def)
  with assms(4) show ?thesis by simp
qed

lemma drop_files_nth:
  "i < length as \<Longrightarrow> drop_files d as ! i = (if file_live (as ! i) \<and> dirid (as ! i) = d then zero_archive else as ! i)"
  by (simp add: drop_files_def)

text \<open>What the loop of \<open>fs_delete_dir\<close> leaves, in a layout that satisfies the invariant.\<close>

lemma fs_delete_dir_result:
  assumes "fs_inv L" "dir_table L (fold_key name) = Some k"
  obtains L' where "fs_delete_dir name L = (0, L')" "dir L' = (dir L)[k := zero_dir]"
    "length (mask L') = FS_MAX_ITEM_MASK" "archive L' = drop_files (did (dir L ! k)) (archive L)"
    "\<And>s. s < FS_MAX_ARCH \<Longrightarrow> used L' s \<longleftrightarrow>
       used L s \<and> \<not> (file_live (archive L ! s) \<and> dirid (archive L ! s) = did (dir L ! k))"
proof -
  let ?d = "did (dir L ! k)" and ?M = "L\<lparr>dir := (dir L)[k := zero_dir]\<rparr>"
  define L' where "L' = fold (fs_drop_archive ?d) [0..<FS_MAX_ARCH] ?M"
  have len: "length (mask L) = FS_MAX_ITEM_MASK" "length (archive L) = FS_MAX_ARCH"
    using assms(1) by (simp_all add: fs_inv_lengths)
  have ok: "archive_ok L s" if "s < FS_MAX_ARCH" for s using assms(1) that by (simp add: fs_inv_def)
  have res: "dir L' = dir ?M \<and> length (mask L') = FS_MAX_ITEM_MASK \<and>
    archive L' = drop_files ?d (take FS_MAX_ARCH (archive ?M)) @ drop FS_MAX_ARCH (archive ?M) \<and>
    (\<forall>s<FS_MAX_ARCH. used L' s \<longleftrightarrow> used ?M s \<and>
       \<not> (s < FS_MAX_ARCH \<and> file_live (archive ?M ! s) \<and> dirid (archive ?M ! s) = ?d))"
    unfolding L'_def by (rule fs_drop_archives) (use len ok in \<open>auto simp: archive_ok_def Let_def\<close>)
  have "fs_delete_dir name L = (0, L')"
    using assms(2) by (simp add: fs_delete_dir_def fs_search_dir_byname_table L'_def Let_def)
  then show ?thesis
    by (rule that) (use res len in \<open>auto simp: used_def\<close>)
qed

lemma fs_delete_dir_tables:
  assumes "fs_inv L" "dir_table L (fold_key name) = Some k"
    and "dir L' = (dir L)[k := zero_dir]" "archive L' = drop_files (did (dir L ! k)) (archive L)"
  shows "slots_unique dir_live dir_key (dir L')" "slots_unique file_live file_key (archive L')"
    and "dir_table L' = (dir_table L)(fold_key name := None)"
    and "file_table L' = (\<lambda>(d, f). if d = did (dir L ! k) then None else file_table L (d, f))"
proof -
  have ud: "slots_unique dir_live dir_key (dir L)" and uf: "slots_unique file_live file_key (archive L)"
    using assms(1) by (simp_all add: fs_inv_def)
  have k: "k < length (dir L)" "dir_live (dir L ! k)" "dir_key (dir L ! k) = fold_key name"
    using assms(2) ud by (auto simp: dir_table_def dirs.slot_map_Some)
  have nth: "dir L' ! i = (if dir_live (dir L ! i) \<and> dir_key (dir L ! i) = fold_key name then zero_dir else dir L ! i)"
    if "i < length (dir L)" for i
    using that k ud by (auto simp: assms(3) nth_list_update slots_unique_def)
  note dd = dirs.delete_key [OF ud, of "dir L'" "\<lambda>n. n = fold_key name", OF _ nth]
  show "slots_unique dir_live dir_key (dir L')" by (rule dd(1)) (simp_all add: assms(3))
  show "dir_table L' = (dir_table L)(fold_key name := None)"
    using dd(2) by (auto simp: dir_table_def assms(3) fun_upd_def)
  have nth: "archive L' ! i = (if file_live (archive L ! i) \<and> (case file_key (archive L ! i) of (d, _) \<Rightarrow> d = did (dir L ! k))
      then zero_archive else archive L ! i)" if "i < length (archive L)" for i
    using that by (simp add: assms(4) drop_files_nth file_key_def)
  note fd = files.delete_key [OF uf, of "archive L'" "\<lambda>(d, _). d = did (dir L ! k)", OF _ nth]
  show "slots_unique file_live file_key (archive L')"
    by (rule fd(1)) (simp_all add: assms(4) drop_files_def)
  show "file_table L' = (\<lambda>(d, f). if d = did (dir L ! k) then None else file_table L (d, f))"
    using fd(2) by (auto simp: file_table_def assms(4) drop_files_def fun_eq_iff)
qed

lemma fs_delete_dir_exact:
  assumes "fs_inv L" "dir_table L (fold_key name) = Some k"
  obtains L' where "fs_delete_dir name L = (0, L')" "fs_inv L'"
    "dir_table L' = (dir_table L)(fold_key name := None)"
    "file_table L' = (\<lambda>(d, f). if d = did (dir L ! k) then None else file_table L (d, f))"
proof -
  let ?d = "did (dir L ! k)"
  obtain L' where res: "fs_delete_dir name L = (0, L')" and L': "dir L' = (dir L)[k := zero_dir]"
    "length (mask L') = FS_MAX_ITEM_MASK" "archive L' = drop_files ?d (archive L)"
    "\<And>s. s < FS_MAX_ARCH \<Longrightarrow> used L' s \<longleftrightarrow> used L s \<and> \<not> (file_live (archive L ! s) \<and> dirid (archive L ! s) = ?d)"
    using fs_delete_dir_result [OF assms] by metis
  note tabs = fs_delete_dir_tables [OF assms L'(1,3)]
  have len: "length (dir L) = FS_MAX_DIR" "length (archive L) = FS_MAX_ARCH"
    using assms(1) by (simp_all add: fs_inv_lengths)
  have ok: "archive_ok L s" if "s < FS_MAX_ARCH" for s using assms(1) that by (simp add: fs_inv_def)
  have "archive_ok L' s" if s: "s < FS_MAX_ARCH" for s
  proof (cases "file_live (archive L ! s) \<and> dirid (archive L ! s) = ?d")
    case True
    with s L'(4) len show ?thesis
      by (simp add: archive_ok_def Let_def L'(3) drop_files_nth zero_archive_def)
  next
    case False
    have same: "archive L' ! s = archive L ! s" using False s len by (auto simp: L'(3) drop_files_nth)
    have "\<exists>i<FS_MAX_DIR. did (dir L' ! i) = dirid (archive L ! s)" if live: "file_live (archive L ! s)"
    proof -
      obtain i where i: "i < FS_MAX_DIR" "did (dir L ! i) = dirid (archive L ! s)"
        using ok [OF s] live by (auto simp: archive_ok_def Let_def)
      with False live have "i \<noteq> k" by auto
      with i show ?thesis by (auto simp: L'(1) intro!: exI [of _ i])
    qed
    with ok [OF s] same L'(4) [OF s] False show ?thesis by (auto simp: archive_ok_def Let_def)
  qed
  moreover have "did (dir L' ! i) = 0 \<or> did (dir L' ! i) = (1 + int i) * 2 ^ 16" if "i < FS_MAX_DIR" for i
    using assms(1) that len by (cases "i = k") (auto simp: L'(1) fs_inv_def zero_dir_def)
  ultimately have "fs_inv L'"
    using tabs(1,2) L'(2,3) len by (simp add: fs_inv_def L'(1) drop_files_def)
  then show ?thesis using res tabs(3,4) by (intro that)
qed

section \<open>Archives\<close>

definition live_dirid :: "layout \<Rightarrow> int \<Rightarrow> bool" where
  "live_dirid L d \<longleftrightarrow> 0 < d \<and> (\<exists>i<FS_MAX_DIR. did (dir L ! i) = d)"

text \<open>An update of one archive slot that keeps its key; all in-place updates are of this kind.\<close>

lemma fs_inv_update_file:
  fixes a
  assumes "fs_inv L" "s < FS_MAX_ARCH" "file_live (archive L ! s)" "file_live a"
    and "file_key a = file_key (archive L ! s)" "asection a = int s"
    and "dirid a \<le> aid a" "aid a \<le> dirid a + 256" "0 \<le> asize a" "asize a \<le> int FS_MAX_FILE_SIZE"
    and "length (adata a) = FS_MAX_FILE_SIZE"
  defines "L' \<equiv> L\<lparr>archive := (archive L)[s := a]\<rparr>"
  shows "fs_inv L'" "dir_table L' = dir_table L" "file_table L' = file_table L"
proof -
  have s: "s < length (archive L)" using assms(1,2) by (simp add: fs_inv_lengths)
  have u: "slots_unique file_live file_key (archive L)" using assms(1) by (simp add: fs_inv_def)
  note upd = files.update [OF u s, of a]
  show "dir_table L' = dir_table L" by (simp add: dir_table_def L'_def)
  show "file_table L' = file_table L" using upd(2) assms(3-5) by (simp add: file_table_def L'_def)
  have ok: "archive_ok L t" if "t < FS_MAX_ARCH" for t using assms(1) that by (simp add: fs_inv_def)
  have "archive_ok L' t" if t: "t < FS_MAX_ARCH" for t
  proof (cases "t = s")
    case True
    with ok [OF t] s assms show ?thesis
      by (auto simp: archive_ok_def Let_def used_def L'_def file_key_def)
  next
    case False
    with ok [OF t] show ?thesis by (auto simp: archive_ok_def Let_def used_def L'_def)
  qed
  with upd(1) assms show "fs_inv L'" by (simp add: fs_inv_def L'_def)
qed

lemma fs_inv_new_file:
  fixes a M
  assumes "fs_inv L" "fs_search_free_section L = Some (s, M)" "live_dirid L (dirid a)"
    and "file_table L (file_key a) = None" "aid a = dirid a + int s + 1" "asection a = int s"
    and "0 \<le> asize a" "asize a \<le> int FS_MAX_FILE_SIZE" "length (adata a) = FS_MAX_FILE_SIZE"
  defines "L' \<equiv> M\<lparr>archive := (archive M)[s := a]\<rparr>"
  shows "fs_inv L'" "dir_table L' = dir_table L" "file_table L' = (file_table L)(file_key a \<mapsto> s)"
    "\<not> file_live (archive M ! s)" "archive L' ! s = a" "s < FS_MAX_ARCH"
proof -
  have len: "length (mask L) = FS_MAX_ITEM_MASK" "length (archive L) = FS_MAX_ARCH"
    using assms(1) by (simp_all add: fs_inv_lengths)
  note free = fs_search_free_section_spec(2) [OF len(1) assms(2)]
  have ok: "archive_ok L t" if "t < FS_MAX_ARCH" for t using assms(1) that by (simp add: fs_inv_def)
  have dead: "\<not> file_live (archive L ! s)" using ok [of s] free by (auto simp: archive_ok_def Let_def)
  have s: "s < length (archive L)" using free len by simp
  have live: "file_live a" using assms(3,5) by (simp add: live_dirid_def)
  have u: "slots_unique file_live file_key (archive L)" using assms(1) by (simp add: fs_inv_def)
  note ins = files.insert [OF u s dead live assms(4) [unfolded file_table_def]]
  show "\<not> file_live (archive M ! s)" "archive L' ! s = a" "s < FS_MAX_ARCH"
    using dead free s by (simp_all add: L'_def)
  show "dir_table L' = dir_table L" using free by (simp add: dir_table_def L'_def)
  show "file_table L' = (file_table L)(file_key a \<mapsto> s)"
    using ins(2) free by (simp add: file_table_def L'_def)
  have "archive_ok L' t" if t: "t < FS_MAX_ARCH" for t
  proof (cases "t = s")
    case True
    with free s assms(3-9) live show ?thesis
      by (auto simp: archive_ok_def Let_def used_def L'_def live_dirid_def fs_limits)
  next
    case False
    with ok [OF t] free t show ?thesis by (auto simp: archive_ok_def Let_def used_def L'_def)
  qed
  with ins(1) free assms(1) show "fs_inv L'" by (simp add: fs_inv_def L'_def)
qed

lemma fs_full_mask:
  assumes "fs_inv L"
  shows "fs_search_free_section L = None \<longleftrightarrow> (\<forall>s<FS_MAX_ARCH. file_live (archive L ! s))"
proof -
  have len: "length (mask L) = FS_MAX_ITEM_MASK" using assms by (simp add: fs_inv_lengths)
  have ok: "used L s \<longleftrightarrow> file_live (archive L ! s)" if "s < FS_MAX_ARCH" for s
    using assms that by (auto simp: fs_inv_def archive_ok_def Let_def)
  show ?thesis
  proof (cases "fs_search_free_section L")
    case None
    with fs_search_free_section_spec(1) [OF len None] ok show ?thesis by auto
  next
    case (Some p)
    obtain n M where "p = (n, M)" by (cases p)
    with Some fs_search_free_section_spec(2) [OF len, of n M] ok show ?thesis by auto
  qed
qed

lemma fs_allocate_file_exact:
  assumes "fs_inv L" "live_dirid L d" "length name < FS_NAME_ROOM" "nat sz \<le> length bytes"
  shows "\<exists>r L'. fs_allocate_file name d sz (Some bytes) L = Some (r, L') \<and> fs_inv L' \<and> dir_table L' = dir_table L \<and>
    (if sz < 0 \<or> int FS_MAX_FILE_SIZE \<le> sz then r = -1 \<and> L' = L
     else if (d, fold_key name) \<in> dom (file_table L) then r = - EEXIST \<and> L' = L
     else if \<forall>s<FS_MAX_ARCH. file_live (archive L ! s) then r = -1 \<and> L' = L
     else \<exists>s<FS_MAX_ARCH. r = int s \<and> file_table L' = (file_table L)((d, fold_key name) \<mapsto> s) \<and>
        asize (archive L' ! s) = sz \<and> take (nat sz) (adata (archive L' ! s)) = take (nat sz) bytes)"
proof -
  have d: "0 < d" using assms(2) by (simp add: live_dirid_def)
  note byname = fs_search_file_byname_table [OF assms(1) d, of name]
  consider (size) "sz < 0 \<or> int FS_MAX_FILE_SIZE \<le> sz"
    | (exists) "0 \<le> sz" "sz < int FS_MAX_FILE_SIZE" "(d, fold_key name) \<in> dom (file_table L)"
    | (full) "0 \<le> sz" "sz < int FS_MAX_FILE_SIZE" "file_table L (d, fold_key name) = None"
        "fs_search_free_section L = None"
    | (new) s M where "0 \<le> sz" "sz < int FS_MAX_FILE_SIZE" "file_table L (d, fold_key name) = None"
        "fs_search_free_section L = Some (s, M)" by fastforce
  then show ?thesis
  proof cases
    case size
    with assms show ?thesis by (auto simp: fs_allocate_file_def)
  next
    case exists
    with assms d byname show ?thesis by (auto simp: fs_allocate_file_def)
  next
    case full
    then have "\<forall>s<FS_MAX_ARCH. file_live (archive L ! s)" using fs_full_mask [OF assms(1)] by simp
    with full assms d byname show ?thesis
      by (auto simp: fs_allocate_file_def fs_seek_free_file_location_def)
  next
    case (new s M)
    define a where "a = \<lparr>aid = d + int s + 1, aname = name, dirid = d, asize = sz, asection = int s,
       adata = take (nat sz) bytes @ replicate (FS_MAX_FILE_SIZE - length (take (nat sz) bytes)) NUL\<rparr>"
    have a: "dirid a = d" "file_key a = (d, fold_key name)" "asize a = sz" "asection a = int s"
      "aid a = d + int s + 1" "length (adata a) = FS_MAX_FILE_SIZE" "take (nat sz) (adata a) = take (nat sz) bytes"
      using new(1,2) assms(4) by (auto simp: a_def file_key_def)
    note ins = fs_inv_new_file [OF assms(1) new(4), of a]
    let ?L = "M\<lparr>archive := (archive M)[s := a]\<rparr>"
    have "fs_allocate_file name d sz (Some bytes) L = Some (int s, ?L)"
      using new d byname assms(3) ins(4) assms(2) a
      by (cases "sz = 0") (simp_all add: fs_allocate_file_def fs_seek_free_file_location_def a_def not_less)
    moreover have "\<not> (\<forall>s<FS_MAX_ARCH. file_live (archive L ! s))"
      using new(4) fs_full_mask [OF assms(1)] by auto
    ultimately show ?thesis
      using ins a assms(2) new by (intro exI [of _ "int s"] exI [of _ ?L]) auto
  qed
qed

lemma fs_override_file_exact:
  assumes "fs_inv L" "fs_search_file_bysect sect L = Some a" "length text \<le> FS_MAX_FILE_SIZE"
  obtains L' where "fs_override_file sect (Some text) L = (0, True, L')" "fs_inv L'"
    "dir_table L' = dir_table L" "file_table L' = file_table L"
    "fs_search_file_bysect sect L' =
       Some (a\<lparr>asize := int (length text), adata := text @ replicate (FS_MAX_FILE_SIZE - length text) NUL\<rparr>)"
proof -
  let ?a = "a\<lparr>asize := int (length text), adata := text @ replicate (FS_MAX_FILE_SIZE - length text) NUL\<rparr>"
  let ?L = "L\<lparr>archive := (archive L)[nat sect := ?a]\<rparr>"
  have s: "0 \<le> sect" "nat sect < FS_MAX_ARCH" "a = archive L ! nat sect" "file_live a"
    using assms(2) by (auto simp: fs_search_file_bysect_Some)
  have "archive_ok L (nat sect)" using assms(1) s by (simp add: fs_inv_def)
  with s assms(3) have "fs_inv ?L" "dir_table ?L = dir_table L" "file_table ?L = file_table L"
    using fs_inv_update_file [OF assms(1) s(2), of ?a]
    by (auto simp: archive_ok_def Let_def file_key_def)
  moreover have "fs_override_file sect (Some text) L = (0, True, ?L)"
    using assms by (simp add: fs_override_file_def)
  moreover have "fs_search_file_bysect sect ?L = Some ?a"
    using s assms(1) by (simp add: fs_search_file_bysect_Some fs_inv_lengths)
  ultimately show ?thesis by (intro that)
qed

lemma fs_delete_file_exact:
  assumes "fs_inv L" "fs_search_file_bysect sect L = Some a"
  obtains L' where "fs_delete_file sect L = (0, L')" "fs_inv L'" "dir_table L' = dir_table L"
    "file_table L' = (file_table L)(file_key a := None)"
proof -
  let ?s = "nat sect" and ?M = "fs_set_section_bitmask sect False L"
  let ?L = "?M\<lparr>archive := (archive ?M)[?s := zero_archive]\<rparr>"
  have s: "0 \<le> sect" "?s < FS_MAX_ARCH" "a = archive L ! ?s" "file_live a"
    using assms(2) by (auto simp: fs_search_file_bysect_Some)
  have len: "length (mask L) = FS_MAX_ITEM_MASK" "length (archive L) = FS_MAX_ARCH"
    using assms(1) by (simp_all add: fs_inv_lengths)
  have ok: "archive_ok L t" if "t < FS_MAX_ARCH" for t using assms(1) that by (simp add: fs_inv_def)
  have sec: "asection a = sect" using ok [OF s(2)] s by (simp add: archive_ok_def Let_def)
  note clr = fs_clear_bit_spec [OF len(1) s(2)] 
  have u: "slots_unique file_live file_key (archive L)" using assms(1) by (simp add: fs_inv_def)
  have nth: "(archive L)[?s := zero_archive] ! i =
      (if file_live (archive L ! i) \<and> file_key (archive L ! i) = file_key a then zero_archive else archive L ! i)"
    if "i < length (archive L)" for i
    using that u s len by (auto simp: nth_list_update slots_unique_def)
  note del = files.delete_key [OF u, of "(archive L)[?s := zero_archive]" "\<lambda>k. k = file_key a", OF _ nth]
  have "file_table ?L = (file_table L)(file_key a := None)"
    using del(2) clr(2) s(1) by (auto simp: file_table_def fun_upd_def)
  moreover have "dir_table ?L = dir_table L" using clr(1) s(1) by (simp add: dir_table_def)
  moreover have "archive_ok ?L t" if t: "t < FS_MAX_ARCH" for t
  proof (cases "t = ?s")
    case True
    with s t clr len show ?thesis by (simp add: archive_ok_def Let_def used_def zero_archive_def)
  next
    case False
    with ok [OF t] t clr s(1) show ?thesis by (simp add: archive_ok_def Let_def used_def)
  qed
  then have "fs_inv ?L" using assms(1) del(1) clr s(1) by (simp add: fs_inv_def)
  moreover have "fs_delete_file sect L = (0, ?L)"
    using assms(2) sec by (simp add: fs_delete_file_def Let_def)
  ultimately show ?thesis by (intro that)
qed

text \<open>Clearing the low byte of an id keeps it in the range of its directory.\<close>

lemma dirid_low_byte:
  fixes d x k :: int
  assumes "d = k * 2 ^ 16" "d \<le> x" "x \<le> d + 256" "0 < d"
  shows "d \<le> x AND NOT 0xFF" "x AND NOT 0xFF \<le> d + 256"
proof -
  have m: "(0xFF :: int) = Bit_Operations.mask 8" by (simp add: mask_eq_exp_minus_1)
  have "x AND NOT 0xFF = push_bit 8 (drop_bit 8 x)"
    unfolding m by (rule bit_eqI) (auto simp: bit_simps)
  then have x: "x AND NOT 0xFF = 256 * (x div 256)"
    by (simp add: push_bit_eq_mult drop_bit_eq_div)
  have d: "d = 256 * (256 * k)" using assms(1) by simp
  have "d div 256 \<le> x div 256" "x div 256 \<le> (d + 256) div 256"
    using assms(2,3) by (auto intro: zdiv_mono1)
  with d show "d \<le> x AND NOT 0xFF" "x AND NOT 0xFF \<le> d + 256"
    unfolding x by simp_all
qed

lemma fs_read_file_keeps:
  assumes "fs_inv L" "fs_read_file_bysect sect L = Some (r, L')"
  shows "fs_inv L' \<and> dir_table L' = dir_table L \<and> file_table L' = file_table L"
proof (cases "fs_search_file_bysect sect L")
  case None
  with assms show ?thesis by (simp add: fs_read_file_bysect_def)
next
  case (Some a)
  then have s: "nat sect < FS_MAX_ARCH" "a = archive L ! nat sect" "file_live a"
    by (auto simp: fs_search_file_bysect_Some)
  have ok: "archive_ok L t" if "t < FS_MAX_ARCH" for t using assms(1) that by (simp add: fs_inv_def)
  show ?thesis
  proof (cases "nat (asize a) < FS_MAX_FILE_SIZE")
    case True
    let ?a = "a\<lparr>adata := (adata a)[nat (asize a) := NUL]\<rparr>"
    have "L' = L\<lparr>archive := (archive L)[nat sect := ?a]\<rparr>"
      using assms(2) Some True by (simp add: fs_read_file_bysect_def Let_def)
    with fs_inv_update_file [OF assms(1) s(1), of ?a] ok [OF s(1)] s show ?thesis
      by (simp add: archive_ok_def Let_def file_key_def)
  next
    case False
    let ?n = "nat sect + 1" let ?b = "(archive L ! ?n)\<lparr>aid := aid (archive L ! ?n) AND NOT 0xFF\<rparr>"
    have n: "?n < FS_MAX_ARCH" and L': "L' = L\<lparr>archive := (archive L)[?n := ?b]\<rparr>"
      using assms(2) Some False by (auto simp: fs_read_file_bysect_def Let_def split: if_splits)
    show ?thesis
    proof (cases "file_live (archive L ! ?n)")
      case True
      with ok [OF n] obtain i where i: "did (dir L ! i) = dirid (archive L ! ?n)" "i < FS_MAX_DIR"
        "0 < dirid (archive L ! ?n)" by (auto simp: archive_ok_def Let_def)
      then have "dirid (archive L ! ?n) = (1 + int i) * 2 ^ 16" using assms(1) by (force simp: fs_inv_def)
      from dirid_low_byte [OF this, of "aid (archive L ! ?n)"] ok [OF n] True i(3)
      have "dirid (archive L ! ?n) \<le> aid ?b" "aid ?b \<le> dirid (archive L ! ?n) + 256"
        by (auto simp: archive_ok_def Let_def)
      then show ?thesis unfolding L'
        using fs_inv_update_file [OF assms(1) n True, of ?b] ok [OF n] True i(3)
        by (simp add: archive_ok_def Let_def file_key_def)
    next
      case False
      with ok [OF n] have "aid (archive L ! ?n) = 0" by (simp add: archive_ok_def Let_def)
      then have "?b = archive L ! ?n" by simp
      then have "L' = L" using L' by (metis (no_types, lifting) layout.surjective layout.update_convs(3) list_update_id)
      with assms(1) show ?thesis by simp
    qed
  qed
qed

section \<open>Reachable layouts\<close>

text \<open>
  The operations on a layout, as steps. The loader and the runtime create an archive only
  under a directory they hold, with a text of the stated length (\<open>live_dirid\<close>).
\<close>

inductive fs_step :: "layout \<Rightarrow> layout \<Rightarrow> bool" where
  mkdir: "length name < FS_NAME_ROOM \<Longrightarrow> fs_allocate_dir name L = Some (r, L') \<Longrightarrow> fs_step L L'"
| create: "length name < FS_NAME_ROOM \<Longrightarrow> live_dirid L d \<Longrightarrow> nat sz \<le> length bytes \<Longrightarrow>
     fs_allocate_file name d sz (Some bytes) L = Some (r, L') \<Longrightarrow> fs_step L L'"
| override: "fs_override_file sect json L = (r, sync, L') \<Longrightarrow> fs_step L L'"
| read: "fs_read_file_bysect sect L = Some (r, L') \<Longrightarrow> fs_step L L'"
| delete: "fs_delete_file sect L = (r, L') \<Longrightarrow> fs_step L L'"
| rmdir: "fs_delete_dir name L = (r, L') \<Longrightarrow> fs_step L L'"

lemma fs_override_keeps:
  assumes "fs_inv L" "fs_override_file sect json L = (r, sync, L')"
  shows "fs_inv L'"
proof (cases "fs_search_file_bysect sect L")
  case None
  with assms show ?thesis by (simp add: fs_override_file_def)
next
  case (Some a)
  show ?thesis
  proof (cases "\<exists>text. json = Some text \<and> length text \<le> FS_MAX_FILE_SIZE")
    case True
    then obtain t where "json = Some t" "length t \<le> FS_MAX_FILE_SIZE" by auto
    with fs_override_file_exact [OF assms(1) Some this(2)] assms(2) show ?thesis by auto
  next
    case False
    with Some assms show ?thesis
      by (auto simp: fs_override_file_def split: option.splits if_splits)
  qed
qed

lemma fs_step_inv: "fs_step L L' \<Longrightarrow> fs_inv L \<Longrightarrow> fs_inv L'"
proof (induction rule: fs_step.induct)
  case (mkdir name L r L')
  with fs_allocate_dir_exact [of L name] show ?case by auto
next
  case (create name L d sz bytes r L')
  with fs_allocate_file_exact [of L d name sz bytes] show ?case by auto
next
  case (override sect json L r sync L')
  then show ?case by (simp add: fs_override_keeps)
next
  case (read sect L r L')
  then show ?case using fs_read_file_keeps by blast
next
  case (delete sect L r L')
  show ?case
  proof (cases "fs_search_file_bysect sect L")
    case None
    with delete show ?thesis by (simp add: fs_delete_file_def)
  next
    case (Some a)
    from fs_delete_file_exact [OF delete(2) Some] delete(1) show ?thesis by auto
  qed
next
  case (rmdir name L r L')
  show ?case
  proof (cases "dir_table L (fold_key name)")
    case None
    with rmdir show ?thesis by (simp add: fs_delete_dir_def fs_search_dir_byname_table)
  next
    case (Some k)
    from fs_delete_dir_exact [OF rmdir(2) Some] rmdir(1) show ?thesis by auto
  qed
qed

section \<open>What the file system promises\<close>

text \<open>
  C18: Every layout reachable from the empty database by creating and removing directories and
  archives, overwriting and reading files satisfies the layout invariant: the mask marks
  exactly the live slots, directory ids are those of their slots, every archive lies in its
  section and belongs to a live directory, and names are unique (case-insensitively).
\<close>

theorem fs_reachable_inv:
  assumes "fs_step\<^sup>*\<^sup>* zero_layout L"
  shows "fs_inv L"
  using assms by (induction rule: rtranclp_induct) (simp_all add: fs_inv_zero fs_step_inv)

theorem fs_reachable_inv_witness:
  "case fs_allocate_dir ''io'' zero_layout of Some (r, L) \<Rightarrow> fs_inv L | None \<Rightarrow> False"
proof -
  obtain r L where run: "fs_allocate_dir ''io'' zero_layout = Some (r, L)"
    using fs_allocate_dir_exact [OF fs_inv_zero, of "''io''"] by (auto simp: FS_NAME_ROOM_def)
  then have "fs_step zero_layout L"
    by (rule fs_step.mkdir [rotated]) (simp add: FS_NAME_ROOM_def)
  then have "fs_step\<^sup>*\<^sup>* zero_layout L" by simp
  from fs_reachable_inv [OF this] run show ?thesis by simp
qed

text \<open>
  Creating a directory inserts its name in the abstract table of directories. An existing
  name, compared without case, and the reserved name \<open>proc\<close> are refused with \<open>-EEXIST\<close>, a full
  table with \<open>-1\<close>; a refusal changes nothing.
\<close>

theorem fs_allocate_dir_refines:
  assumes "fs_inv L" "length name < FS_NAME_ROOM"
  shows "\<exists>r L'. fs_allocate_dir name L = Some (r, L') \<and> fs_inv L' \<and> file_table L' = file_table L \<and>
    (if fold_key name = fold_key ''proc'' \<or> fold_key name \<in> dom (dir_table L) then r = - EEXIST \<and> L' = L
     else if \<forall>i<FS_MAX_DIR. dir_live (dir L ! i) then r = -1 \<and> L' = L
     else \<exists>i<FS_MAX_DIR. r = (1 + int i) * 2 ^ 16 \<and> dir_table L' = (dir_table L)(fold_key name \<mapsto> i))"
  by (rule fs_allocate_dir_exact [OF assms])

theorem fs_allocate_dir_refines_witness:
  "fs_inv zero_layout \<and> (\<exists>L'. fs_allocate_dir ''PROC'' zero_layout = Some (- EEXIST, L'))"
proof -
  have "fold_key ''PROC'' = fold_key ''proc''" by code_simp
  with fs_allocate_dir_refines [OF fs_inv_zero, of "''PROC''"] fs_inv_zero show ?thesis
    by (auto simp: FS_NAME_ROOM_def)
qed

text \<open>
  C25: Creating an archive inserts it under its directory and name with exactly the given text;
  a negative or too large size, an existing name and a full table are refused without a change.
\<close>

theorem fs_allocate_file_refines:
  assumes "fs_inv L" "live_dirid L d" "length name < FS_NAME_ROOM" "nat sz \<le> length bytes"
  shows "\<exists>r L'. fs_allocate_file name d sz (Some bytes) L = Some (r, L') \<and> fs_inv L' \<and> dir_table L' = dir_table L \<and>
    (if sz < 0 \<or> int FS_MAX_FILE_SIZE \<le> sz then r = -1 \<and> L' = L
     else if (d, fold_key name) \<in> dom (file_table L) then r = - EEXIST \<and> L' = L
     else if \<forall>s<FS_MAX_ARCH. file_live (archive L ! s) then r = -1 \<and> L' = L
     else \<exists>s<FS_MAX_ARCH. r = int s \<and> file_table L' = (file_table L)((d, fold_key name) \<mapsto> s) \<and>
        asize (archive L' ! s) = sz \<and> take (nat sz) (adata (archive L' ! s)) = take (nat sz) bytes)"
  by (rule fs_allocate_file_exact [OF assms])

definition sample_layout :: layout where
  "sample_layout = zero_layout\<lparr>dir := (dir zero_layout)[0 := \<lparr>did = (1 + int 0) * 2 ^ 16, dname = ''io''\<rparr>]\<rparr>"

lemma sample_layout_inv: "fs_inv sample_layout" "live_dirid sample_layout 65536"
proof -
  have free: "dir_table zero_layout (fold_key ''io'') = None"
    by (simp add: dir_table_def dirs.slot_map_None zero_layout_def zero_dir_def)
  show "fs_inv sample_layout"
    unfolding sample_layout_def
    by (rule fs_inv_new_dir [OF fs_inv_zero _ _ free]) (simp_all add: fs_limits zero_layout_def zero_dir_def)
  show "live_dirid sample_layout 65536"
    by (auto simp: live_dirid_def sample_layout_def zero_layout_def fs_limits intro!: exI [of _ 0])
qed

theorem fs_allocate_file_refines_witness:
  "\<exists>L'. fs_allocate_file ''dev'' 65536 8192 (Some (replicate 8192 CR)) sample_layout = Some (-1, L')"
  using fs_allocate_file_refines [OF sample_layout_inv, of "''dev''" 8192 "replicate 8192 CR"]
  by (auto simp: FS_NAME_ROOM_def FS_MAX_FILE_SIZE_def)

text \<open>
  C24: Removing a directory removes its name and exactly the archives under it; removing an
  unknown directory fails and changes nothing.
\<close>

theorem fs_delete_dir_refines:
  assumes "fs_inv L"
  shows "case dir_table L (fold_key name) of
      None \<Rightarrow> fs_delete_dir name L = (-1, L)
    | Some k \<Rightarrow> (\<exists>L'. fs_delete_dir name L = (0, L') \<and> fs_inv L' \<and>
        dir_table L' = (dir_table L)(fold_key name := None) \<and>
        file_table L' = (\<lambda>(d, f). if d = did (dir L ! k) then None else file_table L (d, f)))"
proof (cases "dir_table L (fold_key name)")
  case None
  then show ?thesis by (simp add: fs_delete_dir_def fs_search_dir_byname_table)
next
  case (Some k)
  from fs_delete_dir_exact [OF assms Some] Some show ?thesis by auto
qed

theorem fs_delete_dir_refines_witness:
  "\<exists>L'. fs_delete_dir ''IO'' sample_layout = (0, L') \<and> dir_table L' (fold_key ''io'') = None"
proof -
  have key: "fold_key ''IO'' = fold_key ''io''" by code_simp
  have "slots_unique dir_live dir_key (dir sample_layout)"
    using sample_layout_inv(1) by (simp add: fs_inv_def)
  then have "dir_table sample_layout (fold_key ''IO'') = Some 0"
    by (simp add: dir_table_def dirs.slot_map_Some key)
      (simp add: sample_layout_def zero_layout_def fs_limits dir_key_def)
  with fs_delete_dir_refines [OF sample_layout_inv(1), of "''IO''"] key show ?thesis by auto
qed

text \<open>
  C26: What is written to an archive is what is read back: after an overwrite of a live section with a
  text shorter than its 8192 bytes, reading it returns the size and a buffer that starts with the text,
  and changes nothing. A text of exactly 8192 bytes is accepted too, but each read of it writes its zero
  byte behind the slot: into the id of the next archive, or, in the last slot, behind the layout
  (\<open>None\<close>). A longer text is dropped while \<open>0\<close> is returned. The names are untouched by the write. (The
  texts come from the printer, whose buffer is shorter than 2 GiB: the cast of the length to \<open>int\<close>
  keeps it.)
\<close>

theorem fs_override_read:
  assumes "fs_inv L" "fs_search_file_bysect sect L = Some a"
  shows "\<exists>L'. fs_override_file sect (Some text) L = (0, length text \<le> FS_MAX_FILE_SIZE, L') \<and> fs_inv L' \<and>
    dir_table L' = dir_table L \<and> file_table L' = file_table L \<and>
    (if length text < FS_MAX_FILE_SIZE
     then fs_read_file_bysect sect L' =
        Some ((int (length text), text @ replicate (FS_MAX_FILE_SIZE - length text) NUL), L')
     else if length text = FS_MAX_FILE_SIZE
     then fs_read_file_bysect sect L' =
        (if nat sect + 1 < FS_MAX_ARCH
         then Some ((int FS_MAX_FILE_SIZE, text), L'\<lparr>archive := (archive L')[nat sect + 1 :=
                (archive L' ! (nat sect + 1))\<lparr>aid := aid (archive L' ! (nat sect + 1)) AND NOT 0xFF\<rparr>]\<rparr>)
         else None)
     else L' = L)"
proof (cases "length text \<le> FS_MAX_FILE_SIZE")
  case True
  let ?pad = "replicate (FS_MAX_FILE_SIZE - length text) NUL"
  from fs_override_file_exact [OF assms True] obtain L' where L':
    "fs_override_file sect (Some text) L = (0, True, L')" "fs_inv L'"
    "dir_table L' = dir_table L" "file_table L' = file_table L"
    "fs_search_file_bysect sect L' = Some (a\<lparr>asize := int (length text), adata := text @ ?pad\<rparr>)"
    by metis
  have same: "(text @ ?pad)[length text := NUL] = text @ ?pad" if "length text < FS_MAX_FILE_SIZE"
    using that by (simp add: list_update_append) (metis Suc_diff_Suc list_update_code(2) replicate_Suc)
  have "archive L' ! nat sect = a\<lparr>asize := int (length text), adata := text @ ?pad\<rparr>"
    using L'(5) by (auto simp: fs_search_file_bysect_Some)
  then have slot: "L'\<lparr>archive := (archive L')[nat sect := a\<lparr>asize := int (length text), adata := text @ ?pad\<rparr>]\<rparr> = L'"
    by (metis layout.surjective layout.update_convs(3) list_update_id)
  show ?thesis
  proof (cases "length text < FS_MAX_FILE_SIZE")
    case short: True
    then have "fs_read_file_bysect sect L' = Some ((int (length text), text @ ?pad), L')"
      using L'(5) same [OF short] slot by (simp add: fs_read_file_bysect_def Let_def)
    then show ?thesis using L' True short by auto
  next
    case False
    then have full: "length text = FS_MAX_FILE_SIZE" using True by simp
    then show ?thesis using L' by (auto simp: fs_read_file_bysect_def Let_def)
  qed
next
  case False
  with assms show ?thesis by (auto simp: fs_override_file_def)
qed

lemma sample_file:
  obtains L sect a where "fs_inv L" "fs_search_file_bysect sect L = Some a"
proof -
  have none: "file_table sample_layout f = None" for f
    by (simp add: file_table_def files.slot_map_None sample_layout_def zero_layout_def zero_archive_def)
  have "\<not> (\<forall>s<FS_MAX_ARCH. file_live (archive sample_layout ! s))"
    by (auto simp: sample_layout_def zero_layout_def zero_archive_def fs_limits intro!: exI [of _ 0])
  with none fs_allocate_file_exact [OF sample_layout_inv, of "''dev''" 2 "''{}''"]
  obtain L s where L: "fs_inv L" "file_table L (65536, fold_key ''dev'') = Some s"
    by (auto simp: FS_NAME_ROOM_def FS_MAX_FILE_SIZE_def dom_def)
  then have "s < FS_MAX_ARCH" "file_live (archive L ! s)"
    using files.slot_map_Some by (auto simp: file_table_def fs_inv_def)
  then have "fs_search_file_bysect (int s) L = Some (archive L ! s)"
    by (simp add: fs_search_file_bysect_Some)
  with L(1) show ?thesis by (rule that)
qed

theorem fs_override_read_witness:
  "\<exists>L sect L' L''. fs_override_file sect (Some ''{}'') L = (0, True, L') \<and>
     fs_read_file_bysect sect L' = Some ((2, ''{}'' @ replicate (FS_MAX_FILE_SIZE - 2) NUL), L'')"
proof -
  obtain L sect a where "fs_inv L" "fs_search_file_bysect sect L = Some a" by (rule sample_file)
  from fs_override_read [OF this, of "''{}''"] show ?thesis
    by (simp add: FS_MAX_FILE_SIZE_def) blast
qed

end
