(* ===== verification/Fsdb.thy ===== *)
theory Fsdb
  imports Virfs
begin

text \<open>
  The two caches of the file system, its disk file and its checkpoints: the rest of
  \<^verbatim>\<open>fs/virfs.c\<close> (loading, renumbering, synchronising, the periodic flush) and
  \<^verbatim>\<open>fs/checkpoint.c\<close>. The server keeps a working layout (\<open>cache\<close>), a copy
  of it (\<open>config\<close>), and the database file; \<open>sync\<close> copies the first to the second, \<open>fsync\<close> writes the
  second to a swap file and renames it over the database.

  The outcome of every operating system call is a field of the record \<open>io\<close>, so that each error
  path of the code is a branch. What the functions ask of the dispatcher (\<^verbatim>\<open>pro/order.c\<close>) is
  the list of events they return.
\<close>

section \<open>Renumbering after a load\<close>

text \<open>\<open>struct jessfs_avl_node\<close>: the id a directory had in the file and its slot.\<close>

type_synonym jessfs_avl_node = "int \<times> nat"

definition fs_inner_compare :: "jessfs_avl_node \<Rightarrow> jessfs_avl_node \<Rightarrow> int" where
  "fs_inner_compare left_node right_node = fst left_node - fst right_node"

interpretation seq: avl_compare fs_inner_compare fst
  by unfold_locales (auto simp: fs_inner_compare_def)

definition slot_id :: "nat \<Rightarrow> int" where
  "slot_id i = (1 + int i) * 2 ^ 16"

text \<open>One turn of the loop over the directories; the state is the tree, the table and the flag.\<close>

definition fs_seq_dir ::
  "nat \<Rightarrow> jessfs_avl_node avltree \<times> fs_directory list \<times> bool \<Rightarrow>
   jessfs_avl_node avltree \<times> fs_directory list \<times> bool" where
  "fs_seq_dir i st =
     (case st of (root, ds, flag) \<Rightarrow>
        if did (ds ! i) > 0 then
          (let node = (did (ds ! i), i);
               changed = (did (ds ! i) \<noteq> slot_id i)
           in (avlinsert fs_inner_compare root node,
               if changed then ds[i := (ds ! i)\<lparr>did := slot_id i\<rparr>] else ds,
               flag \<or> changed))
        else st)"

definition fs_seq_archive ::
  "jessfs_avl_node avltree \<Rightarrow> fs_directory list \<Rightarrow> nat \<Rightarrow> fs_archive list \<Rightarrow> fs_archive list" where
  "fs_seq_archive root ds i as =
     (if aid (as ! i) \<le> 0 then as
      else case avlsearch fs_inner_compare root (dirid (as ! i), 0) of
        None \<Rightarrow> as
      | Some node \<Rightarrow>
          as[i := (as ! i)\<lparr>dirid := did (ds ! snd node), aid := did (ds ! snd node) + int i + 1\<rparr>])"

text \<open>The loop that frees the tree; the value lists the freed nodes.\<close>

partial_function (option) fs_seq_free :: "jessfs_avl_node avltree \<Rightarrow> jessfs_avl_node list option" where
  "fs_seq_free root =
     (case root of ET \<Rightarrow> Some []
      | TN l x h r \<Rightarrow>
          (case avlremove fs_inner_compare root (fst x, 0) of (root', avl_node) \<Rightarrow>
             Option.bind (fs_seq_free root')
               (\<lambda>freed. Some ((case avl_node of Some n \<Rightarrow> [n] | None \<Rightarrow> []) @ freed))))"

definition fs_update_seq :: "layout \<Rightarrow> layout" where
  "fs_update_seq L =
     (case fold fs_seq_dir [0..<FS_MAX_DIR] (ET, dir L, False) of (root, ds, flag) \<Rightarrow>
        if flag \<and> root \<noteq> ET
        then L\<lparr>dir := ds, archive := fold (fs_seq_archive root ds) [0..<FS_MAX_ARCH] (archive L)\<rparr>
        else L\<lparr>dir := ds\<rparr>)"

section \<open>Server, files and calls\<close>

record fs_server =
  cache :: layout
  config :: layout
  count_overwritten :: int
  permit_override :: int

text \<open>
  A file is the image of a layout, such an image with more bytes behind it, or something else of
  some size. \<open>Snapshot\<close> files are all but the database and the swap file, by their path.
\<close>

datatype dbfile = Image layout | Padded layout nat | Other nat

datatype path = CfgDb | Swap | Snapshot string

type_synonym disk = "path \<Rightarrow> dbfile option"

definition SIZEOF_LAYOUT :: nat where
  "SIZEOF_LAYOUT = FS_MAX_ITEM_MASK + FS_MAX_DIR * 132 + FS_MAX_ARCH * (144 + FS_MAX_FILE_SIZE)"

fun file_size :: "dbfile \<Rightarrow> nat" where
  "file_size (Image L) = SIZEOF_LAYOUT"
| "file_size (Padded L n) = SIZEOF_LAYOUT + n"
| "file_size (Other n) = n"

text \<open>
  The outcomes of the calls: the file a name below the directory denotes, as the operating system
  resolves it (it may be the database or the swap file, and two names may denote one file), whether
  opening a path succeeds, how many bytes a write to it stores, whether the flush, the \<open>i\<close>th attempt
  to rename and \<open>malloc\<close> succeed, what a read returns (an error, or the number of bytes if the file
  has so many), and the layout that the buffer denotes when its bytes are not those of an image.
\<close>

record io =
  io_path :: "string \<Rightarrow> path"
  io_open :: "path \<Rightarrow> bool"
  io_write :: "path \<Rightarrow> int"
  io_flush :: bool
  io_rename :: "nat \<Rightarrow> bool"
  io_read :: int
  io_short :: layout
  io_malloc :: bool

datatype pro_event = Respond string | AppendSync | AppendFsync | CompleteFsync | AppendRecover2 | DropLink

definition JESS_OK :: string where "JESS_OK = ''ok'' @ CRLF"
definition JESS_FATAL :: string where "JESS_FATAL = ''fatal'' @ CRLF"

definition write_image :: "io \<Rightarrow> path \<Rightarrow> layout \<Rightarrow> disk \<Rightarrow> disk" where
  "write_image x p L d =
     d(p \<mapsto> if io_write x p = int SIZEOF_LAYOUT then Image L else Other (nat (io_write x p)))"

text \<open>\<open>ifos_file_read\<close> of a layout: what it returns, and what the buffer denotes afterwards.\<close>

definition read_count :: "io \<Rightarrow> dbfile \<Rightarrow> int" where
  "read_count x f = (if io_read x < 0 then io_read x else min (min (io_read x) (int SIZEOF_LAYOUT)) (int (file_size f)))"

definition read_layout :: "io \<Rightarrow> dbfile \<Rightarrow> layout" where
  "read_layout x f =
     (if read_count x f = int SIZEOF_LAYOUT
      then (case f of Image L \<Rightarrow> L | Padded L n \<Rightarrow> L | Other n \<Rightarrow> io_short x)
      else io_short x)"

section \<open>Loading\<close>

text \<open>
  \<open>fs_zerolization_range\<close> clears \<open>sizeof(size)\<close>, that is four, bytes of the buffer it writes; the
  rest is what \<open>malloc\<close> returned. The argument is the layout these bytes denote.
\<close>

definition fs_zerolization_range :: "layout \<Rightarrow> layout" where
  "fs_zerolization_range heap = heap\<lparr>mask := replicate 4 0 @ drop 4 (mask heap)\<rparr>"

text \<open>
  \<open>fs_load_config_database\<close>: the return value, whether \<open>*reorganization\<close> was set, and the new
  \<open>config\<close> and disk. A file of the wrong size, or a new one, is rebuilt first, by writing over its
  beginning. A read that ends early returns a number that is not negative, and the buffer is taken
  over with whatever stood in it.
\<close>

definition rebuilt :: "io \<Rightarrow> layout \<Rightarrow> dbfile \<Rightarrow> dbfile" where
  "rebuilt x L old =
     (if io_write x CfgDb = int SIZEOF_LAYOUT
      then (if file_size old > SIZEOF_LAYOUT then Padded L (file_size old - SIZEOF_LAYOUT) else Image L)
      else Other (max (nat (io_write x CfgDb)) (file_size old)))"

definition fs_load_config_database ::
  "io \<Rightarrow> layout \<Rightarrow> disk \<Rightarrow> fs_server \<Rightarrow> int \<times> bool \<times> disk \<times> fs_server" where
  "fs_load_config_database x heap d s =
     (if \<not> io_open x CfgDb then (-1, False, d, s)
      else
        (let old = (case d CfgDb of None \<Rightarrow> Other 0 | Some f \<Rightarrow> f);
             rebuild = (file_size old \<noteq> SIZEOF_LAYOUT)
         in if rebuild \<and> \<not> io_malloc x then (-12, False, d(CfgDb \<mapsto> old), s)
            else if rebuild \<and> io_write x CfgDb < 0 then (io_write x CfgDb, False, d(CfgDb \<mapsto> old), s)
            else
              (let f = (if rebuild then rebuilt x (fs_zerolization_range heap) old else old);
                   d' = d(CfgDb \<mapsto> f);
                   n = read_count x f
               in if n < 0 then (n, rebuild, d', s)
                  else (if n = int SIZEOF_LAYOUT then 0 else n, rebuild, d', s\<lparr>config := fs_update_seq (read_layout x f)\<rparr>))))"

definition fs_load_config_cache :: "fs_server \<Rightarrow> fs_server" where
  "fs_load_config_cache s = s\<lparr>cache := config s\<rparr>"

definition fs_clear_config :: "disk \<Rightarrow> fs_server \<Rightarrow> disk \<times> fs_server" where
  "fs_clear_config d s = (d(CfgDb := None), s\<lparr>cache := zero_layout, config := zero_layout\<rparr>)"

section \<open>Synchronising\<close>

definition fs_append_sync :: "fs_server \<Rightarrow> fs_server" where
  "fs_append_sync s = s\<lparr>count_overwritten := count_overwritten s + 1\<rparr>"

definition fs_sync :: "fs_server \<Rightarrow> fs_server \<times> pro_event list" where
  "fs_sync s =
     (if permit_override s = 0 then (s, [Respond JESS_FATAL])
      else if count_overwritten s = 0 then (s, [Respond JESS_OK])
      else (s\<lparr>config := cache s\<rparr>, [Respond JESS_OK, AppendFsync]))"

text \<open>\<open>fs_swap_database\<close>: at most three attempts to rename the swap file over the database.\<close>

fun swap_attempts :: "io \<Rightarrow> nat \<Rightarrow> nat \<Rightarrow> disk \<Rightarrow> int \<times> disk" where
  "swap_attempts x i 0 d = (-1, d)"
| "swap_attempts x i (Suc n) d =
     (if io_rename x i \<and> d Swap \<noteq> None then (0, d(CfgDb := d Swap, Swap := None))
      else swap_attempts x (Suc i) n d)"

definition fs_swap_database :: "io \<Rightarrow> disk \<Rightarrow> int \<times> disk" where
  "fs_swap_database x d = swap_attempts x 0 3 d"

definition fs_fsync :: "io \<Rightarrow> disk \<Rightarrow> fs_server \<Rightarrow> disk \<times> pro_event list" where
  "fs_fsync x d s =
     (if permit_override s = 0 then (d, [Respond JESS_FATAL])
      else if \<not> io_malloc x then (d, [])
      else if \<not> io_open x Swap then (d(Swap := None), [])
      else
        (let d' = write_image x Swap (config s) d in
         if io_write x Swap \<noteq> int SIZEOF_LAYOUT \<or> \<not> io_flush x then (d'(Swap := None), [])
         else (snd (fs_swap_database x d'), [CompleteFsync])))"

text \<open>One turn of the flush thread; \<open>seconds\<close> and \<open>writes\<close> are its local variables.\<close>

record flusher =
  seconds :: int
  writes :: int

definition fs_flush_check :: "flusher \<Rightarrow> fs_server \<Rightarrow> flusher \<times> fs_server \<times> pro_event list" where
  "fs_flush_check f s =
     (let w = writes f + count_overwritten s;
          n = seconds f + 1;
          s' = s\<lparr>count_overwritten := 0\<rparr>
      in if w = 0 \<or> n < 60 then (\<lparr>seconds = n, writes = w\<rparr>, s', [])
         else if w \<ge> 10000 \<and> n \<ge> 60 \<or> n \<ge> 900 \<or> n \<ge> 300 \<and> w \<ge> 10
         then (\<lparr>seconds = 0, writes = 0\<rparr>, s', [AppendSync])
         else (\<lparr>seconds = n, writes = w\<rparr>, s', []))"

section \<open>Checkpoints\<close>

text \<open>
  \<open>fits\<close> says that the path of the checkpoint fits its buffer. The name of a checkpoint to recover
  comes from the client.
\<close>

definition fs_create_checkpoint :: "io \<Rightarrow> bool \<Rightarrow> string \<Rightarrow> disk \<Rightarrow> fs_server \<Rightarrow> int \<times> disk" where
  "fs_create_checkpoint x fits name d s =
     (let p = io_path x name
      in if \<not> io_malloc x \<or> \<not> fits then (-1, d)
         else if \<not> io_open x p \<or> d p \<noteq> None then (-1, d)
         else (io_write x p, write_image x p (config s) d))"

definition fs_recover_checkpoint ::
  "io \<Rightarrow> string \<Rightarrow> disk \<Rightarrow> fs_server \<Rightarrow> disk \<times> fs_server \<times> pro_event list" where
  "fs_recover_checkpoint x name d s =
     (let p = io_path x name;
          denied = s\<lparr>permit_override := 0\<rparr>;
          failed = (\<lambda>d. (d(Swap := None), s\<lparr>permit_override := 1\<rparr>, []))
      in case d p of
           None \<Rightarrow> failed d
         | Some f \<Rightarrow>
             if \<not> io_open x p \<or> file_size f \<noteq> SIZEOF_LAYOUT then failed d
             else if \<not> io_malloc x \<or> \<not> io_open x Swap then failed d
             else
               (let d1 = d(Swap \<mapsto> Other 0);
                    f1 = (if p = Swap then Other 0 else f)
                in if read_count x f1 < 0 then failed d1
                   else
                     (let d2 = write_image x Swap (read_layout x f1) d1
                      in if io_write x Swap \<noteq> int SIZEOF_LAYOUT then failed d2
                         else (snd (fs_swap_database x d2), denied, [AppendRecover2, DropLink]))))"

text \<open>The file system part of \<open>pro_recover_checkpoint\<close>, which ends a recovery.\<close>

definition pro_recover_reload :: "io \<Rightarrow> layout \<Rightarrow> disk \<Rightarrow> fs_server \<Rightarrow> int \<times> disk \<times> fs_server" where
  "pro_recover_reload x heap d s =
     (case fs_load_config_database x heap d s of (r, _, d', s') \<Rightarrow>
        if r < 0 then (r, d', s'\<lparr>permit_override := 1\<rparr>)
        else (0, d', (fs_load_config_cache s')\<lparr>permit_override := 1\<rparr>))"

section \<open>The renumbering preserves the directory of every archive\<close>

lemma finite_elems [simp]: "finite (elems t)"
  by (induction t) auto

lemma fs_seq_free_total:
  "bst fst t \<Longrightarrow> \<exists>xs. fs_seq_free t = Some xs \<and> set xs = elems t \<and> distinct xs"
proof (induction "card (elems t)" arbitrary: t rule: less_induct)
  case less
  show ?case
  proof (cases t)
    case ET
    then show ?thesis by (simp add: fs_seq_free.simps)
  next
    case (TN l x h r)
    obtain t' n where rm: "avlremove fs_inner_compare t (fst x, 0) = (t', n)" by fastforce
    have t': "bst fst t'" "elems t' = {y \<in> elems t. fst y \<noteq> fst x}"
      "n = avlsearch fs_inner_compare t (fst x, 0)"
      using seq.avlremove_correct [OF less.prems, of "(fst x, 0)"] rm by auto
    have n: "n = Some x"
      using t'(3) seq.avlsearch_Some [OF less.prems, of "(fst x, 0)" x] TN by simp
    have "x \<in> elems t" using TN by simp
    moreover have "y = x" if "y \<in> elems t" "fst y = fst x" for y
      using bst_inj [OF less.prems that(1) \<open>x \<in> elems t\<close> that(2)] .
    ultimately have "elems t = insert x (elems t')" using t'(2) by blast
    moreover have "x \<notin> elems t'" using t'(2) by simp
    ultimately have "card (elems t') < card (elems t)" by simp
    from less.hyps [OF this t'(1)] obtain xs where xs: "fs_seq_free t' = Some xs" "set xs = elems t'" "distinct xs"
      by auto
    have "fs_seq_free t = Some (x # xs)"
      using rm n xs(1) by (subst fs_seq_free.simps) (simp add: TN)
    with xs \<open>elems t = insert x (elems t')\<close> \<open>x \<notin> elems t'\<close> show ?thesis by auto
  qed
qed

definition distinct_ids :: "fs_directory list \<Rightarrow> bool" where
  "distinct_ids ds \<longleftrightarrow>
     (\<forall>i<length ds. \<forall>j<length ds. dir_live (ds ! i) \<longrightarrow> did (ds ! i) = did (ds ! j) \<longrightarrow> i = j)"

definition renumber :: "fs_directory list \<Rightarrow> nat \<Rightarrow> fs_directory" where
  "renumber ds i = (if dir_live (ds ! i) then (ds ! i)\<lparr>did := slot_id i\<rparr> else ds ! i)"

lemma fs_seq_dirs:
  assumes "distinct_ids ds0" "n \<le> length ds0"
  shows "\<exists>root ds flag. fold fs_seq_dir [0..<n] (ET, ds0, False) = (root, ds, flag) \<and> bst fst root \<and>
    elems root = {(did (ds0 ! i), i) | i. i < n \<and> dir_live (ds0 ! i)} \<and> length ds = length ds0 \<and>
    (\<forall>i<length ds0. ds ! i = (if i < n then renumber ds0 i else ds0 ! i)) \<and>
    (flag \<longleftrightarrow> (\<exists>i<n. dir_live (ds0 ! i) \<and> did (ds0 ! i) \<noteq> slot_id i))"
  using assms(2)
proof (induction n)
  case (Suc n)
  then obtain root ds flag where run: "fold fs_seq_dir [0..<n] (ET, ds0, False) = (root, ds, flag)"
    and IH: "bst fst root" "elems root = {(did (ds0 ! i), i) | i. i < n \<and> dir_live (ds0 ! i)}"
      "length ds = length ds0" "\<forall>i<length ds0. ds ! i = (if i < n then renumber ds0 i else ds0 ! i)"
      "flag \<longleftrightarrow> (\<exists>i<n. dir_live (ds0 ! i) \<and> did (ds0 ! i) \<noteq> slot_id i)" by auto
  have n: "n < length ds0" "ds ! n = ds0 ! n" using Suc.prems IH(4) by auto
  show ?case
  proof (cases "dir_live (ds0 ! n)")
    case False
    then have "fold fs_seq_dir [0..<Suc n] (ET, ds0, False) = (root, ds, flag)"
      using run n by (simp add: fs_seq_dir_def)
    moreover have "renumber ds0 n = ds0 ! n" using False by (simp add: renumber_def)
    ultimately show ?thesis using IH False by (auto simp: less_Suc_eq)
  next
    case True
    let ?node = "(did (ds0 ! n), n)"
    let ?ds = "if did (ds0 ! n) \<noteq> slot_id n then ds[n := (ds0 ! n)\<lparr>did := slot_id n\<rparr>] else ds"
    have "fold fs_seq_dir [0..<Suc n] (ET, ds0, False) =
       (avlinsert fs_inner_compare root ?node, ?ds, flag \<or> did (ds0 ! n) \<noteq> slot_id n)"
      using run n True by (simp add: fs_seq_dir_def Let_def)
    moreover have "fst ?node \<notin> fst ` elems root"
    proof
      assume "fst ?node \<in> fst ` elems root"
      then obtain i where "i < n" "dir_live (ds0 ! i)" "did (ds0 ! i) = did (ds0 ! n)"
        using IH(2) by auto
      with assms(1) n(1) show False unfolding distinct_ids_def by (metis less_trans less_irrefl)
    qed
    then have "elems (avlinsert fs_inner_compare root ?node) = insert ?node (elems root)"
      using seq.elems_avlinsert [OF IH(1), of ?node] by simp
    then have "elems (avlinsert fs_inner_compare root ?node) =
        {(did (ds0 ! i), i) | i. i < Suc n \<and> dir_live (ds0 ! i)}"
      using IH(2) True by (auto simp: less_Suc_eq)
    moreover have "?ds ! i = (if i < Suc n then renumber ds0 i else ds0 ! i)" if "i < length ds0" for i
      using that IH(3,4) n True by (cases "i = n") (auto simp: renumber_def less_Suc_eq)
    moreover have "bst fst (avlinsert fs_inner_compare root ?node)" by (rule seq.bst_avlinsert [OF IH(1)])
    moreover have "length ?ds = length ds0" using IH(3) by simp
    moreover have "(flag \<or> did (ds0 ! n) \<noteq> slot_id n) \<longleftrightarrow>
        (\<exists>i<Suc n. dir_live (ds0 ! i) \<and> did (ds0 ! i) \<noteq> slot_id i)"
      using IH(5) True by (auto simp: less_Suc_eq)
    ultimately show ?thesis by blast
  qed
next
  case 0
  then show ?case by (intro exI [of _ ET] exI [of _ ds0] exI [of _ False]) simp
qed

definition reparent :: "jessfs_avl_node avltree \<Rightarrow> fs_directory list \<Rightarrow> nat \<Rightarrow> fs_archive \<Rightarrow> fs_archive" where
  "reparent root ds i a =
     (if aid a \<le> 0 then a
      else case avlsearch fs_inner_compare root (dirid a, 0) of
        None \<Rightarrow> a
      | Some node \<Rightarrow> a\<lparr>dirid := did (ds ! snd node), aid := did (ds ! snd node) + int i + 1\<rparr>)"

lemma fs_seq_archives:
  assumes "n \<le> length as"
  shows "length (fold (fs_seq_archive root ds) [0..<n] as) = length as \<and>
    (\<forall>i<length as. fold (fs_seq_archive root ds) [0..<n] as ! i =
       (if i < n then reparent root ds i (as ! i) else as ! i))"
  using assms
proof (induction n)
  case (Suc n)
  let ?as = "fold (fs_seq_archive root ds) [0..<n] as"
  have len: "length ?as = length as" and nth: "\<And>i. i < length as \<Longrightarrow> ?as ! i = (if i < n then reparent root ds i (as ! i) else as ! i)"
    using Suc by auto
  have "fs_seq_archive root ds n ?as = ?as[n := reparent root ds n (as ! n)]"
    using nth [of n] Suc.prems
    by (auto simp: fs_seq_archive_def reparent_def split: option.splits) (metis list_update_id)+
  then have "fold (fs_seq_archive root ds) [0..<Suc n] as = ?as[n := reparent root ds n (as ! n)]"
    by simp
  then show ?case using len nth Suc.prems by (auto simp: nth_list_update less_Suc_eq)
qed simp

text \<open>The outcome of the renumbering, slot by slot.\<close>

lemma fs_update_seq_slots:
  assumes "distinct_ids (dir L)" "length (dir L) = FS_MAX_DIR" "length (archive L) = FS_MAX_ARCH"
  shows "length (dir (fs_update_seq L)) = FS_MAX_DIR" "length (archive (fs_update_seq L)) = FS_MAX_ARCH"
    and "i < FS_MAX_DIR \<Longrightarrow> dir (fs_update_seq L) ! i = renumber (dir L) i"
    and "s < FS_MAX_ARCH \<Longrightarrow> file_live (archive L ! s) \<Longrightarrow> i < FS_MAX_DIR \<Longrightarrow>
      did (dir L ! i) = dirid (archive L ! s) \<Longrightarrow> dir_live (dir L ! i) \<Longrightarrow>
      dirid (archive (fs_update_seq L) ! s) = slot_id i"
    and "(\<forall>i<FS_MAX_DIR. dir_live (dir L ! i) \<longrightarrow> did (dir L ! i) = slot_id i) \<Longrightarrow> fs_update_seq L = L"
proof -
  obtain root ds flag where run: "fold fs_seq_dir [0..<FS_MAX_DIR] (ET, dir L, False) = (root, ds, flag)"
    and st: "bst fst root" "elems root = {(did (dir L ! i), i) | i. i < FS_MAX_DIR \<and> dir_live (dir L ! i)}"
      "length ds = length (dir L)"
      "\<forall>i<length (dir L). ds ! i = (if i < FS_MAX_DIR then renumber (dir L) i else dir L ! i)"
      "flag \<longleftrightarrow> (\<exists>i<FS_MAX_DIR. dir_live (dir L ! i) \<and> did (dir L ! i) \<noteq> slot_id i)"
    using fs_seq_dirs [OF assms(1), of FS_MAX_DIR] assms(2) by auto
  note arch = fs_seq_archives [of FS_MAX_ARCH "archive L" root ds]
  let ?L = "fs_update_seq L"
  have L: "?L = (if flag \<and> root \<noteq> ET
      then L\<lparr>dir := ds, archive := fold (fs_seq_archive root ds) [0..<FS_MAX_ARCH] (archive L)\<rparr>
      else L\<lparr>dir := ds\<rparr>)"
    by (simp add: fs_update_seq_def run)
  show "length (dir ?L) = FS_MAX_DIR" "length (archive ?L) = FS_MAX_ARCH"
    using L arch st(3) assms(2,3) by auto
  have ds: "ds ! i = renumber (dir L) i" if "i < FS_MAX_DIR" for i using st(4) assms(2) that by simp
  then show "dir ?L ! i = renumber (dir L) i" if "i < FS_MAX_DIR" using that L by simp
  show "dirid (archive ?L ! s) = slot_id i"
    if s: "s < FS_MAX_ARCH" "file_live (archive L ! s)" and i: "i < FS_MAX_DIR"
      "did (dir L ! i) = dirid (archive L ! s)" "dir_live (dir L ! i)"
  proof (cases "flag \<and> root \<noteq> ET")
    case True
    have "avlsearch fs_inner_compare root (dirid (archive L ! s), 0) = Some (did (dir L ! i), i)"
      using seq.avlsearch_Some [OF st(1)] st(2) i by auto
    with s i ds [of i] have "dirid (reparent root ds s (archive L ! s)) = slot_id i"
      by (simp add: reparent_def renumber_def)
    with True s arch assms(3) L show ?thesis by simp
  next
    case False
    have "(did (dir L ! i), i) \<in> elems root" using st(2) i by auto
    then have "root \<noteq> ET" by auto
    with False st(5) i show ?thesis by (auto simp: L)
  qed
  show "?L = L" if same: "\<forall>i<FS_MAX_DIR. dir_live (dir L ! i) \<longrightarrow> did (dir L ! i) = slot_id i"
  proof -
    have "renumber (dir L) i = dir L ! i" if "i < FS_MAX_DIR" for i
      using same that by (auto simp: renumber_def)
    then have "ds = dir L" using ds st(3) assms(2) by (intro nth_equalityI) auto
    moreover have "\<not> flag" using st(5) same by auto
    ultimately show ?thesis by (simp add: L)
  qed
qed

lemma fs_inv_update_seq: "fs_inv L \<Longrightarrow> fs_update_seq L = L"
proof -
  assume inv: "fs_inv L"
  have id: "dir_live (dir L ! i) \<longrightarrow> did (dir L ! i) = slot_id i" if "i < FS_MAX_DIR" for i
    using inv that by (auto simp: fs_inv_def slot_id_def)
  then have "distinct_ids (dir L)"
    using fs_inv_live_dir_unique [OF inv] fs_inv_lengths(2) [OF inv] by (auto simp: distinct_ids_def)
  with fs_update_seq_slots(5) id show ?thesis using fs_inv_lengths [OF inv] by blast
qed

section \<open>What loading and synchronising promise\<close>

text \<open>
  The renumbering after a load keeps every archive in its directory: if the ids of the live
  directories in the file are distinct, then afterwards each live directory has the id of its
  slot and each archive that belonged to the directory in slot \<open>i\<close> carries the new id of
  slot \<open>i\<close>, whatever permutation or reuse of numbers the old file had.
\<close>

theorem fs_update_seq_parents:
  assumes "distinct_ids (dir L)" "length (dir L) = FS_MAX_DIR" "length (archive L) = FS_MAX_ARCH"
    and "s < FS_MAX_ARCH" "file_live (archive L ! s)" "i < FS_MAX_DIR" "dir_live (dir L ! i)"
    and "dirid (archive L ! s) = did (dir L ! i)"
  shows "did (dir (fs_update_seq L) ! i) = slot_id i \<and>
    dirid (archive (fs_update_seq L) ! s) = did (dir (fs_update_seq L) ! i)"
  using fs_update_seq_slots [OF assms(1-3)] assms(4-8) by (simp add: renumber_def)

definition moved_layout :: layout where
  "moved_layout = zero_layout\<lparr>dir := (dir zero_layout)[3 := \<lparr>did = 7, dname = ''io''\<rparr>],
     archive := (archive zero_layout)[5 := zero_archive\<lparr>aid := 8, dirid := 7, aname := ''dev''\<rparr>]\<rparr>"

theorem fs_update_seq_parents_witness:
  "dirid (archive (fs_update_seq moved_layout) ! 5) = slot_id 3"
proof -
  have "distinct_ids (dir moved_layout)"
    by (auto simp: distinct_ids_def moved_layout_def zero_layout_def zero_dir_def fs_limits nth_list_update)
  moreover have "length (dir moved_layout) = FS_MAX_DIR" "length (archive moved_layout) = FS_MAX_ARCH"
    "(5::nat) < FS_MAX_ARCH" "file_live (archive moved_layout ! 5)" "(3::nat) < FS_MAX_DIR"
    "dir_live (dir moved_layout ! 3)" "dirid (archive moved_layout ! 5) = did (dir moved_layout ! 3)"
    by (simp_all add: moved_layout_def zero_layout_def fs_limits)
  ultimately show ?thesis using fs_update_seq_parents [of moved_layout 5 3] by simp
qed

text \<open>
  C27: The loop that frees the index of the renumbering terminates and frees every node of the
  tree exactly once.
\<close>

theorem fs_seq_free_terminates:
  assumes "bst fst root"
  shows "\<exists>freed. fs_seq_free root = Some freed \<and> set freed = elems root \<and> distinct freed"
  by (rule fs_seq_free_total [OF assms])

theorem fs_seq_free_terminates_witness:
  "\<exists>freed. fs_seq_free (TN (TN ET (1, 0) 0 ET) (2, 1) 1 ET) = Some freed \<and> set freed = {(1, 0), (2, 1)}"
  using fs_seq_free_terminates [of "TN (TN ET (1, 0) 0 ET) (2, 1) 1 ET"] by auto

lemma swap_attempts_disk:
  "snd (swap_attempts x i n d) = d \<or>
   d Swap \<noteq> None \<and> snd (swap_attempts x i n d) = d(CfgDb := d Swap, Swap := None)"
  by (induction n arbitrary: i) auto

text \<open>
  C20: A database write is atomic: whatever the operating system calls answer, the database
  file afterwards is the old one or the complete image of \<open>config\<close>, and no checkpoint is touched.
\<close>

theorem fs_fsync_atomic:
  "fst (fs_fsync x d s) CfgDb \<in> {d CfgDb, Some (Image (config s))} \<and>
   fst (fs_fsync x d s) (Snapshot name) = d (Snapshot name)"
proof -
  let ?d = "write_image x Swap (config s) d"
  have "snd (fs_swap_database x ?d) = ?d \<or> snd (fs_swap_database x ?d) = ?d(CfgDb := ?d Swap, Swap := None)"
    using swap_attempts_disk [of x 0 3 ?d] by (auto simp: fs_swap_database_def)
  then show ?thesis
    by (auto simp: fs_fsync_def Let_def write_image_def)
qed

text \<open>The calls that a synchronisation needs all succeed; one of three renames suffices.\<close>

definition io_good :: "io \<Rightarrow> bool" where
  "io_good x \<longleftrightarrow> (\<forall>p. io_open x p \<and> io_write x p = int SIZEOF_LAYOUT) \<and> io_flush x \<and> int SIZEOF_LAYOUT \<le> io_read x \<and>
     io_malloc x \<and> (\<exists>i<3. io_rename x i)"

lemma swap_attempts_good:
  "\<exists>j<n. io_rename x (i + j) \<Longrightarrow> d Swap = Some f \<Longrightarrow>
     swap_attempts x i n d = (0, d(CfgDb \<mapsto> f, Swap := None))"
proof (induction n arbitrary: i)
  case (Suc n)
  from Suc.prems(1) obtain j where j: "j < Suc n" "io_rename x (i + j)" by auto
  show ?case
  proof (cases "io_rename x i")
    case False
    with j have "j \<noteq> 0" by (metis add.right_neutral)
    then obtain k where "j = Suc k" by (cases j) auto
    with j have "\<exists>j<n. io_rename x (Suc i + j)" by auto
    with Suc False show ?thesis by simp
  qed (use Suc.prems in auto)
qed simp

lemma fs_swap_database_good:
  "io_good x \<Longrightarrow> d Swap = Some f \<Longrightarrow> fs_swap_database x d = (0, d(CfgDb \<mapsto> f, Swap := None))"
  using swap_attempts_good [of 3 x 0 d f] by (auto simp: fs_swap_database_def io_good_def)

text \<open>
  C28: An update reaches the disk: with an update counted since the last flush tick and no recovery
  under way, a sync takes over the working layout and asks for a file sync, and that file sync,
  when its calls succeed, leaves the database as the image of the working layout.
\<close>

theorem sync_fsync_durable:
  assumes "count_overwritten s \<noteq> 0" "permit_override s \<noteq> 0" "io_good x" "fs_sync s = (s', ev)"
  shows "AppendFsync \<in> set ev \<and> fst (fs_fsync x d s') CfgDb = Some (Image (cache s)) \<and>
    fst (fs_fsync x d s') Swap = None \<and> snd (fs_fsync x d s') = [CompleteFsync]"
proof -
  have s': "s' = s\<lparr>config := cache s\<rparr>" "ev = [Respond JESS_OK, AppendFsync]"
    using assms by (auto simp: fs_sync_def)
  have "write_image x Swap (cache s) d Swap = Some (Image (cache s))"
    using assms(3) by (simp add: write_image_def io_good_def)
  from fs_swap_database_good [where d = "write_image x Swap (cache s) d", OF assms(3) this] s' assms
  show ?thesis by (simp add: fs_fsync_def Let_def io_good_def)
qed

definition good_calls :: io where
  "good_calls = \<lparr>io_path = Snapshot, io_open = \<lambda>p. True, io_write = \<lambda>p. int SIZEOF_LAYOUT, io_flush = True,
     io_rename = \<lambda>i. i = 2, io_read = int SIZEOF_LAYOUT, io_short = zero_layout, io_malloc = True\<rparr>"

lemma io_good_calls: "io_good good_calls"
  by (auto simp: io_good_def good_calls_def)

definition dirty_server :: fs_server where
  "dirty_server = \<lparr>cache = sample_layout, config = zero_layout, count_overwritten = 1, permit_override = 1\<rparr>"

theorem sync_fsync_durable_witness:
  "fst (fs_fsync good_calls (\<lambda>p. None) (fst (fs_sync dirty_server))) CfgDb = Some (Image sample_layout)"
  using sync_fsync_durable [of dirty_server good_calls "fst (fs_sync dirty_server)" "snd (fs_sync dirty_server)"
      "\<lambda>p. None"] io_good_calls
  by (simp add: dirty_server_def)

text \<open>
  The flush thread resets the update counter that the sync it requests looks at: a sync that
  runs after a tick with no update in between copies nothing and asks for no file sync.
\<close>

theorem flush_disables_sync:
  "case fs_flush_check f s of (f', s', ev) \<Rightarrow>
     config (fst (fs_sync s')) = config s \<and> AppendFsync \<notin> set (snd (fs_sync s'))"
  by (simp add: fs_flush_check_def fs_sync_def Let_def)

fun flush_run :: "int list \<Rightarrow> flusher \<Rightarrow> fs_server \<Rightarrow> pro_event list" where
  "flush_run [] f s = []"
| "flush_run (w # ws) f s =
     (case fs_flush_check f (s\<lparr>count_overwritten := w\<rparr>) of (f', s', ev) \<Rightarrow> ev @ flush_run ws f' s')"

text \<open>The rules of the flush thread, as the comment of the code states them: updates and ticks since the last request.\<close>

definition sync_due :: "int \<Rightarrow> int \<Rightarrow> bool" where
  "sync_due n w \<longleftrightarrow> w \<ge> 10000 \<and> n \<ge> 60 \<or> w \<ge> 10 \<and> n \<ge> 300 \<or> w \<ge> 1 \<and> n \<ge> 900"

lemma flush_check_due:
  assumes "0 \<le> writes f" "0 \<le> w"
  shows "fs_flush_check f (s\<lparr>count_overwritten := w\<rparr>) =
    (if sync_due (seconds f + 1) (writes f + w) then (\<lparr>seconds = 0, writes = 0\<rparr>, s\<lparr>count_overwritten := 0\<rparr>, [AppendSync])
     else (\<lparr>seconds = seconds f + 1, writes = writes f + w\<rparr>, s\<lparr>count_overwritten := 0\<rparr>, []))"
  using assms by (auto simp: fs_flush_check_def sync_due_def Let_def)

lemma flush_run_due:
  "list_all (\<lambda>w. 0 \<le> w) ws \<Longrightarrow> 0 \<le> writes f \<Longrightarrow>
   AppendSync \<in> set (flush_run ws f s) \<longleftrightarrow>
     (\<exists>n<length ws. sync_due (seconds f + 1 + int n) (writes f + sum_list (take (Suc n) ws)))"
proof (induction ws arbitrary: f s)
  case (Cons w ws)
  let ?f = "\<lparr>seconds = seconds f + 1, writes = writes f + w\<rparr>" and ?s = "s\<lparr>count_overwritten := 0\<rparr>"
  have w: "0 \<le> w" "list_all (\<lambda>w. 0 \<le> w) ws" using Cons.prems(1) by simp_all
  note tick = flush_check_due [OF Cons.prems(2) w(1), of s]
  show ?case
  proof (cases "sync_due (seconds f + 1) (writes f + w)")
    case True
    then show ?thesis using tick by (auto intro!: exI [of _ 0])
  next
    case False
    have "AppendSync \<in> set (flush_run ws ?f ?s) \<longleftrightarrow>
        (\<exists>n<length ws. sync_due (seconds f + 1 + 1 + int n) (writes f + w + sum_list (take (Suc n) ws)))"
      using Cons.IH [OF w(2), of ?f ?s] Cons.prems(2) w(1) by simp
    also have "\<dots> \<longleftrightarrow> (\<exists>n<length (w # ws). sync_due (seconds f + 1 + int n) (writes f + sum_list (take (Suc n) (w # ws))))"
      using False Ex_less_Suc2 [of "length ws" "\<lambda>n. sync_due (seconds f + 1 + int n) (writes f + sum_list (take (Suc n) (w # ws)))"]
      by (simp add: ac_simps)
    finally show ?thesis using False tick by simp
  qed
qed simp



text \<open>
  C19: A checkpoint restores the configuration of the last sync before it: creating a checkpoint under
  a new name, which denotes neither the database nor the swap file, and recovering it later, from any
  server state and any disk that still has the file, ends with both caches and the database equal to
  what \<open>config\<close> was when the checkpoint was taken, and with writing permitted again. Changes in the
  working layout that no sync had taken over by then are not in the checkpoint, as the example shows.
\<close>

theorem checkpoint_recover:
  assumes "io_good x" "io_path x name = Snapshot f" "fs_inv (config s)" "d (Snapshot f) = None"
    and "fs_create_checkpoint x True name d s = (r, d1)" "d2 (Snapshot f) = d1 (Snapshot f)"
    and "fs_recover_checkpoint x name d2 s2 = (d3, s3, ev)" "pro_recover_reload x heap d3 s3 = (r4, d4, s4)"
  shows "0 \<le> r \<and> ev = [AppendRecover2, DropLink] \<and> r4 = 0 \<and> cache s4 = config s \<and> config s4 = config s \<and>
    permit_override s4 = 1 \<and> d4 CfgDb = Some (Image (config s))"
proof -
  have snap: "d2 (Snapshot f) = Some (Image (config s))" and r: "0 \<le> r"
    using assms(1,2,4-6) by (auto simp: fs_create_checkpoint_def io_good_def write_image_def SIZEOF_LAYOUT_def)
  have whole: "read_count x (Image L) = int SIZEOF_LAYOUT" "read_layout x (Image L) = L" for L
    using assms(1) by (simp_all add: read_layout_def read_count_def io_good_def)
  let ?d = "write_image x Swap (config s) (d2(Swap \<mapsto> Other 0))"
  have sw: "?d Swap = Some (Image (config s))" using assms(1) by (simp add: write_image_def io_good_def)
  have rec: "d3 = ?d(CfgDb \<mapsto> Image (config s), Swap := None)" "s3 = s2\<lparr>permit_override := 0\<rparr>"
      "ev = [AppendRecover2, DropLink]"
    using assms(1,2,7) snap whole fs_swap_database_good [of x ?d, OF assms(1) sw]
    by (auto simp: fs_recover_checkpoint_def Let_def io_good_def)
  with assms(1,3,8) whole fs_inv_update_seq [OF assms(3)] r show ?thesis
    by (auto simp: pro_recover_reload_def fs_load_config_database_def fs_load_config_cache_def io_good_def Let_def)
qed

theorem checkpoint_recover_witness:
  "\<exists>d1 d3 s3 d4 s4 heap. fs_create_checkpoint good_calls True ''cp'' (\<lambda>p. None) dirty_server = (int SIZEOF_LAYOUT, d1) \<and>
     fs_recover_checkpoint good_calls ''cp'' d1 dirty_server = (d3, s3, [AppendRecover2, DropLink]) \<and>
     pro_recover_reload good_calls heap d3 s3 = (0, d4, s4) \<and> cache s4 = config dirty_server \<and> cache s4 \<noteq> cache dirty_server"
proof -
  obtain d1 where d1: "fs_create_checkpoint good_calls True ''cp'' (\<lambda>p. None) dirty_server = (int SIZEOF_LAYOUT, d1)"
    by (simp add: fs_create_checkpoint_def good_calls_def)
  obtain d3 s3 ev where rec: "fs_recover_checkpoint good_calls ''cp'' d1 dirty_server = (d3, s3, ev)"
    by (metis prod_cases3)
  obtain r4 d4 s4 where rel: "pro_recover_reload good_calls zero_layout d3 s3 = (r4, d4, s4)"
    by (metis prod_cases3)
  have inv: "fs_inv (config dirty_server)" by (simp add: dirty_server_def fs_inv_zero)
  have named: "io_path good_calls ''cp'' = Snapshot ''cp''" by (simp add: good_calls_def)
  have "dir sample_layout ! 0 \<noteq> dir zero_layout ! 0"
    by (simp add: sample_layout_def zero_layout_def zero_dir_def fs_limits)
  then have "config dirty_server \<noteq> cache dirty_server" by (auto simp: dirty_server_def)
  with checkpoint_recover [OF io_good_calls named inv _ d1 refl rec rel] d1 rec rel show ?thesis
    by (intro exI [of _ d1] exI [of _ d3] exI [of _ s3] exI [of _ d4] exI [of _ s4] exI [of _ zero_layout]) simp
qed

text \<open>
  A failed recovery is harmless: if the checkpoint is missing or of the wrong size, or a call
  fails before the swap file is complete, the database, the caches and the checkpoints stay as they
  were and writing is permitted again; but nothing is sent to the requester either.
\<close>

theorem recover_failure:
  assumes "\<not> io_open x (io_path x name) \<or> (\<forall>f. d (io_path x name) = Some f \<longrightarrow> file_size f \<noteq> SIZEOF_LAYOUT) \<or>
      \<not> io_malloc x \<or> \<not> io_open x Swap \<or> io_read x < 0 \<or> io_write x Swap \<noteq> int SIZEOF_LAYOUT"
    and "fs_recover_checkpoint x name d s = (d', s', ev)"
  shows "d' CfgDb = d CfgDb \<and> d' (Snapshot n) = d (Snapshot n) \<and> cache s' = cache s \<and> config s' = config s \<and>
    permit_override s' = 1 \<and> ev = []"
  using assms
  by (auto simp: fs_recover_checkpoint_def Let_def write_image_def read_count_def split: if_splits option.splits)

theorem recover_failure_witness:
  "(case fs_recover_checkpoint good_calls ''none'' (\<lambda>p. None) dirty_server of (d', s', ev) \<Rightarrow>
      permit_override s' = 1 \<and> ev = [])"
proof -
  obtain d' s' ev where run: "fs_recover_checkpoint good_calls ''none'' (\<lambda>p. None) dirty_server = (d', s', ev)"
    by (metis prod_cases3)
  from recover_failure [OF _ run] run show ?thesis by simp
qed

text \<open>
  What the error tests of the two reads miss. A read of the database that ends early is a success: the
  buffer, whatever it holds, becomes the configuration. A recovery of a name that denotes the swap
  file empties it before it is read, and renames what was in the buffer over the database.
\<close>

lemma short_read_is_loaded:
  assumes "io_open x CfgDb" "d CfgDb = Some (Image L)" "0 \<le> io_read x" "io_read x < int SIZEOF_LAYOUT"
  shows "fs_load_config_database x heap d s = (io_read x, False, d, s\<lparr>config := fs_update_seq (io_short x)\<rparr>)"
  using assms by (auto simp: fs_load_config_database_def read_count_def read_layout_def Let_def)

lemma recover_swap_file:
  assumes "io_good x" "io_path x name = Swap" "d Swap = Some (Image L)"
  shows "fst (fs_recover_checkpoint x name d s) CfgDb = Some (Image (io_short x))"
proof -
  let ?d = "write_image x Swap (io_short x) (d(Swap \<mapsto> Other 0))"
  have "?d Swap = Some (Image (io_short x))" using assms(1) by (simp add: write_image_def io_good_def)
  note sw = fs_swap_database_good [where d = ?d, OF assms(1) this]
  have "0 < SIZEOF_LAYOUT" by (simp add: SIZEOF_LAYOUT_def FS_MAX_ITEM_MASK_def)
  then have "read_count x (Other 0) = 0" "read_layout x (Other 0) = io_short x"
    using assms(1) by (auto simp: read_layout_def read_count_def io_good_def)
  then show ?thesis using assms sw by (simp add: fs_recover_checkpoint_def Let_def io_good_def)
qed

end
