(* ===== verification/Binary.thy ===== *)
theory Binary
  imports Request
begin

text \<open>
  The binary storage region, \<open>fs_map_binary_region\<close>, \<open>fs_read_binary\<close> and \<open>fs_write_binary\<close> of
  \<^verbatim>\<open>fs/virfs.c\<close>, and the two commands on it in \<^verbatim>\<open>pro/binary.c\<close>. The mapped
  file is the list of its bytes, a 1024 byte header followed by the user area.
\<close>

section \<open>The region\<close>

definition FS_MAX_BIN_SIZE :: nat where "FS_MAX_BIN_SIZE = 2 ^ 20"
definition SIZEOF_HEAD :: nat where "SIZEOF_HEAD = 1024"

definition ENOMEM :: int where "ENOMEM = 12"
definition EINVAL :: int where "EINVAL = 22"

text \<open>
  \<open>fs_map_binary_region\<close> on the content of the file (\<open>None\<close>: it could not be opened), with the
  outcomes of the write and of \<open>mmap\<close> and the bytes \<open>malloc\<close> returned for the new file, of which
  only the first four are cleared.
\<close>

definition fs_map_binary_region :: "string option \<Rightarrow> bool \<Rightarrow> bool \<Rightarrow> string \<Rightarrow> int \<times> string option" where
  "fs_map_binary_region file wrote mapped heap =
     (case file of None \<Rightarrow> (-1, None)
      | Some bytes \<Rightarrow>
          if length bytes < FS_MAX_BIN_SIZE \<and> \<not> wrote then (-1, None)
          else if \<not> mapped then (-1, None)
          else
            (let view = (if length bytes < FS_MAX_BIN_SIZE then replicate 4 NUL @ drop 4 heap
                         else take FS_MAX_BIN_SIZE bytes)
             in if cstr view \<noteq> ''fs'' then (0, Some (''fs'' @ replicate (FS_MAX_BIN_SIZE - 2) NUL))
                else (0, Some view)))"

text \<open>
  The range check common to both accesses. The sum is an \<open>int\<close> that is compared as an unsigned
  number, so a negative sum is refused, but a negative offset alone is not.
\<close>

definition bin_range_ok :: "int \<Rightarrow> int \<Rightarrow> bool" where
  "bin_range_ok offset sz \<longleftrightarrow>
     (let sum = to_int32 (offset + sz) in 0 \<le> sum \<and> sum \<le> int (FS_MAX_BIN_SIZE - SIZEOF_HEAD))"

datatype bin_result = BinErr int | BinData string | BinOutside

definition fs_read_binary :: "string option \<Rightarrow> int \<Rightarrow> int \<Rightarrow> bin_result" where
  "fs_read_binary region offset sz =
     (case region of None \<Rightarrow> BinErr (- ENOMEM)
      | Some r \<Rightarrow>
          if sz \<le> 0 then BinErr (- EINVAL)
          else if \<not> bin_range_ok offset sz then BinErr (- EINVAL)
          else (let a = int SIZEOF_HEAD + offset in
                if a < 0 then BinOutside else BinData (take (nat sz) (drop (nat a) r))))"

text \<open>\<open>fs_write_binary\<close>: the return value and the new region, \<open>None\<close> for a write outside it.\<close>

definition fs_write_binary :: "string option \<Rightarrow> int \<Rightarrow> int \<Rightarrow> string \<Rightarrow> (int \<times> string option) option" where
  "fs_write_binary region offset sz bytes =
     (case region of None \<Rightarrow> Some (- ENOMEM, region)
      | Some r \<Rightarrow>
          if sz \<le> 0 then Some (- EINVAL, region)
          else if \<not> bin_range_ok offset sz then Some (- EINVAL, region)
          else (let a = int SIZEOF_HEAD + offset in
                if a < 0 then None
                else Some (sz, Some (take (nat a) r @ take (nat sz) bytes @ drop (nat a + nat sz) r))))"

section \<open>The commands rbin and wbin\<close>

text \<open>The loop over the options: the last \<open>size\<close> and the last \<open>offset\<close> of depth one count.\<close>

fun pro_bin_range :: "JRP list \<Rightarrow> int \<times> int \<Rightarrow> int \<times> int" where
  "pro_bin_range [] r = r"
| "pro_bin_range (optjrp # rest) (offset, sz) =
     pro_bin_range rest
       (if depth optjrp = 1 then
          (if sname (hd (segm optjrp)) = ''offset'' then atoi (dupvalue optjrp) else offset,
           if sname (hd (segm optjrp)) = ''size'' then atoi (dupvalue optjrp) else sz)
        else (offset, sz))"

datatype reply = Ok | Fatal | Bytes string

definition pro_binary_read :: "JRP list \<Rightarrow> string option \<Rightarrow> reply list option" where
  "pro_binary_read options region =
     (if options = [] then Some [Fatal]
      else case pro_bin_range options (0, -1) of (offset, sz) \<Rightarrow>
        if sz < 0 then Some [Fatal]
        else (case fs_read_binary region offset sz of
            BinErr e \<Rightarrow> Some [Fatal]
          | BinData bytes \<Rightarrow> Some [Ok, Bytes bytes]
          | BinOutside \<Rightarrow> None))"

definition pro_binary_write :: "JRP list \<Rightarrow> string \<Rightarrow> string option \<Rightarrow> (reply list \<times> string option) option" where
  "pro_binary_write options payload region =
     (if options = [] then Some ([Fatal], region)
      else case pro_bin_range options (0, -1) of (offset, sz) \<Rightarrow>
        if sz < 0 \<or> sz \<noteq> int (length payload) then Some ([Fatal], region)
        else (case fs_write_binary region offset sz payload of
            None \<Rightarrow> None
          | Some (r, region') \<Rightarrow> Some ([if r < 0 then Fatal else Ok], region')))"

section \<open>Access within the user area\<close>

lemma bin_range_nonneg:
  assumes "0 \<le> offset" "0 < sz" "offset < 2 ^ 31" "sz < 2 ^ 31"
  shows "bin_range_ok offset sz \<longleftrightarrow> offset + sz \<le> int (FS_MAX_BIN_SIZE - SIZEOF_HEAD)"
proof (cases "offset + sz < 2 ^ 31")
  case True
  with assms show ?thesis by (simp add: bin_range_ok_def Let_def)
next
  case False
  with assms have "to_int32 (offset + sz) = offset + sz - 2 ^ 32" by (intro to_int32_wrap) auto
  with assms have "to_int32 (offset + sz) < 0" by simp
  with False show ?thesis by (simp add: bin_range_ok_def Let_def FS_MAX_BIN_SIZE_def SIZEOF_HEAD_def)
qed

text \<open>
  C30: Within the user area the region is a byte array: a write of at least one byte at a non-negative
  offset succeeds exactly when it fits, a read at the same place returns what was written, and the
  header and all other bytes keep their values.
\<close>

theorem binary_write_read:
  assumes "length r = FS_MAX_BIN_SIZE" "0 \<le> offset" "bytes \<noteq> []" "offset < 2 ^ 31" "length bytes < 2 ^ 31"
  shows "if offset + int (length bytes) \<le> int (FS_MAX_BIN_SIZE - SIZEOF_HEAD)
    then \<exists>r'. fs_write_binary (Some r) offset (int (length bytes)) bytes = Some (int (length bytes), Some r') \<and>
      length r' = FS_MAX_BIN_SIZE \<and> fs_read_binary (Some r') offset (int (length bytes)) = BinData bytes \<and>
      (\<forall>i<FS_MAX_BIN_SIZE. int i < int SIZEOF_HEAD + offset \<or> int SIZEOF_HEAD + offset + int (length bytes) \<le> int i \<longrightarrow>
         r' ! i = r ! i)
    else fs_write_binary (Some r) offset (int (length bytes)) bytes = Some (- EINVAL, Some r) \<and>
      fs_read_binary (Some r) offset (int (length bytes)) = BinErr (- EINVAL)"
proof -
  let ?n = "length bytes" and ?a = "SIZEOF_HEAD + nat offset"
  have ok: "bin_range_ok offset (int ?n) \<longleftrightarrow> offset + int ?n \<le> int (FS_MAX_BIN_SIZE - SIZEOF_HEAD)"
    using assms by (intro bin_range_nonneg) auto
  have a: "nat (int SIZEOF_HEAD + offset) = ?a" "\<not> int SIZEOF_HEAD + offset < 0" using assms(2) by auto
  show ?thesis
  proof (cases "offset + int ?n \<le> int (FS_MAX_BIN_SIZE - SIZEOF_HEAD)")
    case True
    then have fit: "?a + ?n \<le> length r"
      using assms(1,2) by (simp add: FS_MAX_BIN_SIZE_def SIZEOF_HEAD_def)
    define r' where "r' = take ?a r @ bytes @ drop (?a + ?n) r"
    have len: "length (take ?a r) = ?a" using fit by simp
    have "r' ! i = r ! i" if "int i < int SIZEOF_HEAD + offset \<or> int SIZEOF_HEAD + offset + int ?n \<le> int i"
      "i < FS_MAX_BIN_SIZE" for i
    proof -
      have "i < ?a \<or> ?a + ?n \<le> i" using that(1) assms(2) by linarith
      then show ?thesis using that(2) assms(1) fit by (auto simp: r'_def nth_append)
    qed
    moreover have "fs_read_binary (Some r') offset (int ?n) = BinData bytes"
      using ok True a assms(3) len by (simp add: fs_read_binary_def r'_def Let_def)
    moreover have "fs_write_binary (Some r) offset (int ?n) bytes = Some (int ?n, Some r')"
      using ok True a assms(3) by (simp add: fs_write_binary_def r'_def Let_def)
    moreover have "length r' = FS_MAX_BIN_SIZE" using fit assms(1) by (simp add: r'_def)
    ultimately show ?thesis using True assms(1,2) by auto
  next
    case False
    with ok assms(3) show ?thesis by (simp add: fs_read_binary_def fs_write_binary_def)
  qed
qed

theorem binary_write_read_witness:
  "\<exists>r'. fs_write_binary (Some (replicate FS_MAX_BIN_SIZE NUL)) 5 3 ''abc'' = Some (3, Some r') \<and>
     fs_read_binary (Some r') 5 3 = BinData ''abc''"
  using binary_write_read [of "replicate FS_MAX_BIN_SIZE NUL" 5 "''abc''"]
  by (auto simp: FS_MAX_BIN_SIZE_def SIZEOF_HEAD_def)

text \<open>
  The commands refuse what they must: without a size option, with a negative size, or with a
  payload whose length is not the stated size, \<open>wbin\<close> answers fatal and the region is unchanged.
\<close>

theorem wbin_refuses:
  assumes "\<not> (snd (pro_bin_range options (0, -1)) = int (length payload))"
  shows "pro_binary_write options payload region = Some ([Fatal], region)"
  using assms by (auto simp: pro_binary_write_def split: prod.splits)

theorem wbin_refuses_witness:
  "pro_binary_write [sample_jrp] ''abc'' (Some ''fs'') = Some ([Fatal], Some ''fs'')"
  by (rule wbin_refuses) (simp add: sample_jrp_def)

text \<open>
  A negative offset is accepted when offset and size add up to zero or more: such a write
  replaces the header, and at the next start the region no longer carries its version mark and
  is cleared.
\<close>

theorem binary_negative_offset:
  assumes "length r = FS_MAX_BIN_SIZE" "length bytes = SIZEOF_HEAD" "hd bytes = NUL"
  shows "\<exists>r'. fs_write_binary (Some r) (- int SIZEOF_HEAD) (int SIZEOF_HEAD) bytes = Some (int SIZEOF_HEAD, Some r') \<and>
    take SIZEOF_HEAD r' = bytes \<and>
    fs_map_binary_region (Some r') wrote True heap = (0, Some (''fs'' @ replicate (FS_MAX_BIN_SIZE - 2) NUL))"
proof -
  define r' where "r' = bytes @ drop SIZEOF_HEAD r"
  have "bin_range_ok (- int SIZEOF_HEAD) (int SIZEOF_HEAD)" by (simp add: bin_range_ok_def Let_def)
  then have "fs_write_binary (Some r) (- int SIZEOF_HEAD) (int SIZEOF_HEAD) bytes = Some (int SIZEOF_HEAD, Some r')"
    using assms(2) by (simp add: fs_write_binary_def r'_def Let_def) (simp add: SIZEOF_HEAD_def)
  moreover have len: "length r' = FS_MAX_BIN_SIZE"
    using assms(1,2) by (simp add: r'_def FS_MAX_BIN_SIZE_def SIZEOF_HEAD_def)
  moreover obtain c cs where "bytes = c # cs" using assms(2) by (cases bytes) (auto simp: SIZEOF_HEAD_def)
  then have "cstr r' = []" using assms(3) by (simp add: r'_def)
  then have "fs_map_binary_region (Some r') wrote True heap = (0, Some (''fs'' @ replicate (FS_MAX_BIN_SIZE - 2) NUL))"
    using len by (simp add: fs_map_binary_region_def Let_def)
  ultimately show ?thesis using assms(2) by (auto simp: r'_def)
qed

theorem binary_negative_offset_witness:
  "\<exists>r'. fs_write_binary (Some (''fs'' @ replicate (FS_MAX_BIN_SIZE - 2) CR)) (- int SIZEOF_HEAD) (int SIZEOF_HEAD)
      (replicate SIZEOF_HEAD NUL) = Some (int SIZEOF_HEAD, Some r')"
  using binary_negative_offset [of "''fs'' @ replicate (FS_MAX_BIN_SIZE - 2) CR" "replicate SIZEOF_HEAD NUL" True "[]"]
  by (auto simp: FS_MAX_BIN_SIZE_def SIZEOF_HEAD_def)

end
