(* ===== verification/Cjson.thy ===== *)
theory Cjson
  imports Prelude
begin

text \<open>
  The part of \<^verbatim>\<open>ldr/cJSON.c\<close> that the daemon calls to edit a document in memory. An
  item is a cell of a heap; the \<open>next\<close>/\<open>prev\<close>/\<open>child\<close> links of the C structure are the list of
  the addresses of its children. Numbers are of an arbitrary type \<open>'d\<close>: the daemon only passes
  them on. Printing and parsing are arguments of the definitions that call them.
\<close>

section \<open>Items and the heap\<close>

type_synonym addr = nat

datatype 'd jval =
    cJSON_Invalid | cJSON_False | cJSON_True | cJSON_NULL | cJSON_Number (valuedouble: 'd)
  | cJSON_String string | cJSON_Array | cJSON_Object | cJSON_Raw string

record 'd cjson =
  jval :: "'d jval"
  jstring :: "string option"
  jchild :: "addr list"

text \<open>A memory: the live cells and the next unused address. Addresses are not reused.\<close>

record 'd jmem =
  items :: "addr \<Rightarrow> 'd cjson option"
  jnext :: addr

definition jnew :: "'d jval \<Rightarrow> 'd jmem \<Rightarrow> addr \<times> 'd jmem" where
  "jnew v m = (jnext m, m\<lparr>items := (items m)(jnext m \<mapsto> \<lparr>jval = v, jstring = None, jchild = []\<rparr>),
                        jnext := Suc (jnext m)\<rparr>)"

definition cJSON_CreateObject :: "'d jmem \<Rightarrow> addr \<times> 'd jmem" where
  "cJSON_CreateObject m = jnew cJSON_Object m"

definition cJSON_CreateArray :: "'d jmem \<Rightarrow> addr \<times> 'd jmem" where
  "cJSON_CreateArray m = jnew cJSON_Array m"

definition cJSON_CreateString :: "string \<Rightarrow> 'd jmem \<Rightarrow> addr \<times> 'd jmem" where
  "cJSON_CreateString s m = jnew (cJSON_String s) m"

definition cJSON_CreateNumber :: "'d \<Rightarrow> 'd jmem \<Rightarrow> addr \<times> 'd jmem" where
  "cJSON_CreateNumber d m = jnew (cJSON_Number d) m"

definition jput :: "addr \<Rightarrow> 'd cjson \<Rightarrow> 'd jmem \<Rightarrow> 'd jmem" where
  "jput a it m = m\<lparr>items := (items m)(a \<mapsto> it)\<rparr>"

section \<open>Editing\<close>

text \<open>
  A null pointer is \<open>None\<close>; the library returns without effect on it. Access to a cell that is
  not live yields \<open>None\<close> as the result.
\<close>

definition cJSON_AddItemToArray :: "addr option \<Rightarrow> addr \<Rightarrow> 'd jmem \<Rightarrow> 'd jmem option" where
  "cJSON_AddItemToArray arr item m =
     (case arr of None \<Rightarrow> Some m
      | Some a \<Rightarrow> map_option (\<lambda>it. jput a (it\<lparr>jchild := jchild it @ [item]\<rparr>) m) (items m a))"

definition cJSON_AddItemToObject :: "addr option \<Rightarrow> string \<Rightarrow> addr \<Rightarrow> 'd jmem \<Rightarrow> 'd jmem option" where
  "cJSON_AddItemToObject obj name item m =
     (case obj of None \<Rightarrow> Some m
      | Some a \<Rightarrow>
          (case items m item of None \<Rightarrow> None
           | Some it \<Rightarrow> cJSON_AddItemToArray (Some a) item (jput item (it\<lparr>jstring := Some name\<rparr>) m)))"

text \<open>\<open>get_object_item\<close> without regard to case: the first child with that name.\<close>

definition name_matches :: "'d jmem \<Rightarrow> string \<Rightarrow> addr \<Rightarrow> bool" where
  "name_matches m name c =
     (case items m c of Some it \<Rightarrow> (case jstring it of Some s \<Rightarrow> strcasecmp name s = 0 | None \<Rightarrow> False)
      | None \<Rightarrow> False)"

definition cJSON_GetObjectItem :: "addr option \<Rightarrow> string \<Rightarrow> 'd jmem \<Rightarrow> addr option" where
  "cJSON_GetObjectItem obj name m =
     (case obj of None \<Rightarrow> None
      | Some a \<Rightarrow> (case items m a of None \<Rightarrow> None | Some it \<Rightarrow> List.find (name_matches m name) (jchild it)))"

definition cJSON_GetArraySize :: "addr \<Rightarrow> 'd jmem \<Rightarrow> nat" where
  "cJSON_GetArraySize a m = (case items m a of None \<Rightarrow> 0 | Some it \<Rightarrow> length (jchild it))"

definition cJSON_GetArrayItem :: "addr \<Rightarrow> nat \<Rightarrow> 'd jmem \<Rightarrow> addr option" where
  "cJSON_GetArrayItem a i m =
     (case items m a of None \<Rightarrow> None | Some it \<Rightarrow> if i < length (jchild it) then Some (jchild it ! i) else None)"

definition cJSON_DetachItemViaPointer :: "addr option \<Rightarrow> addr option \<Rightarrow> 'd jmem \<Rightarrow> 'd jmem" where
  "cJSON_DetachItemViaPointer parent item m =
     (case (parent, item) of
        (Some p, Some c) \<Rightarrow>
          (case items m p of None \<Rightarrow> m | Some it \<Rightarrow> jput p (it\<lparr>jchild := remove1 c (jchild it)\<rparr>) m)
      | _ \<Rightarrow> m)"

text \<open>
  \<open>cJSON_Delete\<close> frees an item with everything below it. The recursion follows child links;
  the number of addresses ever used bounds its depth and is the fuel.
\<close>

fun jfree :: "nat \<Rightarrow> addr \<Rightarrow> (addr \<Rightarrow> 'd cjson option) \<Rightarrow> (addr \<Rightarrow> 'd cjson option)" where
  "jfree 0 a h = h"
| "jfree (Suc n) a h =
     (case h a of None \<Rightarrow> h | Some it \<Rightarrow> fold (jfree n) (jchild it) (h(a := None)))"

definition cJSON_Delete :: "addr option \<Rightarrow> 'd jmem \<Rightarrow> 'd jmem" where
  "cJSON_Delete item m =
     (case item of None \<Rightarrow> m | Some a \<Rightarrow> m\<lparr>items := jfree (jnext m) a (items m)\<rparr>)"

definition cJSON_DeleteItemFromObject :: "addr option \<Rightarrow> string \<Rightarrow> 'd jmem \<Rightarrow> 'd jmem" where
  "cJSON_DeleteItemFromObject obj name m =
     (let item = cJSON_GetObjectItem obj name m
      in cJSON_Delete item (cJSON_DetachItemViaPointer obj item m))"

definition cJSON_ReplaceItemViaPointer :: "addr option \<Rightarrow> addr option \<Rightarrow> addr \<Rightarrow> 'd jmem \<Rightarrow> 'd jmem" where
  "cJSON_ReplaceItemViaPointer parent item new m =
     (case (parent, item) of
        (Some p, Some c) \<Rightarrow>
          (case items m p of None \<Rightarrow> m
           | Some it \<Rightarrow>
               cJSON_Delete (Some c) (jput p (it\<lparr>jchild := map (\<lambda>x. if x = c then new else x) (jchild it)\<rparr>) m))
      | _ \<Rightarrow> m)"

definition cJSON_ReplaceItemInObject :: "addr option \<Rightarrow> string \<Rightarrow> addr \<Rightarrow> 'd jmem \<Rightarrow> 'd jmem" where
  "cJSON_ReplaceItemInObject obj name new m =
     (case items m new of None \<Rightarrow> m
      | Some it \<Rightarrow>
          (let m' = jput new (it\<lparr>jstring := Some name\<rparr>) m
           in cJSON_ReplaceItemViaPointer obj (cJSON_GetObjectItem obj name m') new m'))"

definition cJSON_ReplaceItemInArray :: "addr option \<Rightarrow> nat \<Rightarrow> addr \<Rightarrow> 'd jmem \<Rightarrow> 'd jmem" where
  "cJSON_ReplaceItemInArray arr which new m =
     (case arr of None \<Rightarrow> m
      | Some a \<Rightarrow> cJSON_ReplaceItemViaPointer arr (cJSON_GetArrayItem a which m) new m)"

section \<open>Freshness\<close>

definition jmem_ok :: "'d jmem \<Rightarrow> bool" where
  "jmem_ok m \<longleftrightarrow> (\<forall>a it. items m a = Some it \<longrightarrow> a < jnext m)"

lemma jnew_ok: "jmem_ok m \<Longrightarrow> jmem_ok (snd (jnew v m))"
  by (auto simp: jmem_ok_def jnew_def less_Suc_eq split: if_splits)

lemma jfree_subset: "jfree n a h b = Some it \<Longrightarrow> h b = Some it"
proof (induction n a h arbitrary: b rule: jfree.induct)
  case (2 n a h)
  show ?case
  proof (cases "h a")
    case None
    with 2 show ?thesis by simp
  next
    case (Some x)
    have "fold (jfree n) cs g b = Some it \<Longrightarrow> set cs \<subseteq> set (jchild x) \<Longrightarrow> g b = Some it" for cs g
    proof (induction cs arbitrary: g)
      case (Cons c cs)
      then have "jfree n c g b = Some it" by simp
      with "2.IH" [OF Some] Cons.prems show ?case by auto
    qed simp
    from this [of "jchild x" "h(a := None)"] 2(2) Some show ?thesis
      by (auto split: if_splits)
  qed
qed simp

end
