(* ===== verification/Ldr.thy ===== *)
theory Ldr
  imports Request Fsdb Cjson "HOL-Library.Monad_Syntax"
begin

text \<open>
  The configuration tree: its nodes (\<open>struct jessrt_configure_node\<close> of
  \<^verbatim>\<open>runtime/runtime.h\<close>) and the operations of \<^verbatim>\<open>ldr/ldr.c\<close> on its first two
  levels, the directories and archives.

  Nodes live in a store, a map from addresses to records, because the code links them in several
  ways at once: the children of a node are in its AVL tree \<open>next_scope\<close>, the items of an array
  node in its list \<open>array\<close>, and every node points to its parent and to its JSON item. A
  tree entry holds the name it is ordered by, which is never changed while the entry is in a
  tree, and the address of its node. Reading a cell that is not live gives \<open>None\<close> as the result
  of the whole operation: the code would read freed memory.
\<close>

section \<open>Nodes and the runtime state\<close>

type_synonym scope_index = "string \<times> addr"

record node =
  scope_name :: string
  scope_value :: string
  njsl :: JSL
  next_scope :: "scope_index avltree"
  next_scope_size :: int
  arraysize :: int
  array :: "addr list"
  jsonptr :: "addr option"
  jsonparentptr :: "addr option"
  parentnode :: "addr option"
  nsection :: int

text \<open>A cell after \<open>memset\<close> and the two \<open>INIT_LIST_HEAD\<close>.\<close>

definition blank_node :: node where
  "blank_node = \<lparr>scope_name = '''', scope_value = '''', njsl = JSL_DIR, next_scope = ET, next_scope_size = 0,
     arraysize = 0, array = [], jsonptr = None, jsonparentptr = None, parentnode = None, nsection = 0\<rparr>"

text \<open>The whole state: node store, JSON memory, root of the tree, file system.\<close>

record 'd rt =
  nmem :: "addr \<Rightarrow> node option"
  nnext :: addr
  jm :: "'d jmem"
  root :: "scope_index avltree"
  fsv :: fs_server

definition nput :: "addr \<Rightarrow> node \<Rightarrow> 'd rt \<Rightarrow> 'd rt" where
  "nput a n s = s\<lparr>nmem := (nmem s)(a \<mapsto> n)\<rparr>"

definition nfree :: "addr \<Rightarrow> 'd rt \<Rightarrow> 'd rt" where
  "nfree a s = s\<lparr>nmem := (nmem s)(a := None)\<rparr>"

definition nnew :: "node \<Rightarrow> 'd rt \<Rightarrow> addr \<times> 'd rt" where
  "nnew n s = (nnext s, s\<lparr>nmem := (nmem s)(nnext s \<mapsto> n), nnext := Suc (nnext s)\<rparr>)"

definition on_cache :: "(layout \<Rightarrow> layout) \<Rightarrow> 'd rt \<Rightarrow> 'd rt" where
  "on_cache f s = s\<lparr>fsv := (fsv s)\<lparr>cache := f (cache (fsv s))\<rparr>\<rparr>"

section \<open>The order of the tree\<close>

definition ldr_compare_scope :: "scope_index \<Rightarrow> scope_index \<Rightarrow> int" where
  "ldr_compare_scope left_node right_node = strcasecmp (fst left_node) (fst right_node)"

definition scope_key :: "scope_index \<Rightarrow> nat list" where
  "scope_key i = fold_key (fst i)"

interpretation scope: avl_compare ldr_compare_scope scope_key
  by unfold_locales (simp_all add: ldr_compare_scope_def scope_key_def strcasecmp_less strcasecmp_greater)

text \<open>Search and insertion by name, as the code does with a searcher on the stack.\<close>

definition scope_search :: "scope_index avltree \<Rightarrow> string \<Rightarrow> addr option" where
  "scope_search t name = map_option snd (avlsearch ldr_compare_scope t (name, 0))"

definition scope_insert :: "scope_index avltree \<Rightarrow> string \<Rightarrow> addr \<Rightarrow> scope_index avltree" where
  "scope_insert t name a = avlinsert ldr_compare_scope t (name, a)"

definition scope_remove :: "scope_index avltree \<Rightarrow> string \<Rightarrow> scope_index avltree" where
  "scope_remove t name = fst (avlremove ldr_compare_scope t (name, 0))"

definition ldr_search_scope :: "string \<Rightarrow> 'd rt \<Rightarrow> addr option" where
  "ldr_search_scope name s = scope_search (root s) name"

definition ldr_remove_scope :: "string \<Rightarrow> 'd rt \<Rightarrow> 'd rt" where
  "ldr_remove_scope name s = s\<lparr>root := scope_remove (root s) name\<rparr>"

section \<open>Names\<close>

definition invalid_scope_chars :: string where
  "invalid_scope_chars = ''.[]$?,%#+=''"

definition SCOPE_SAVELEN_OUTOF_LIMIT :: nat where "SCOPE_SAVELEN_OUTOF_LIMIT = 24"

text \<open>\<open>ldr_organize_scope_name\<close> with a buffer: the stored name, or \<open>None\<close> for \<open>-1\<close>.\<close>

definition ldr_organize_scope_name :: "string \<Rightarrow> bool \<Rightarrow> string option" where
  "ldr_organize_scope_name origin success_on_overflow =
     (if length origin \<ge> MAX_PRE_SEG_SIZE then
        (if list_ex (\<lambda>c. c \<in> set invalid_scope_chars) (take (MAX_PRE_SEG_SIZE - 1) origin) then None
         else if \<not> success_on_overflow then None
         else Some (take SCOPE_SAVELEN_OUTOF_LIMIT origin @ ''(jessldr:out-of-limit)''))
      else if list_ex (\<lambda>c. c \<in> set invalid_scope_chars) origin then None
      else if origin = [] then None
      else Some origin)"

text \<open>The same with a null buffer: only the length is checked.\<close>

definition ldr_scope_name_fits :: "string \<Rightarrow> bool" where
  "ldr_scope_name_fits origin \<longleftrightarrow> origin \<noteq> [] \<and> length origin < MAX_PRE_SEG_SIZE"

section \<open>Directories and archives\<close>

definition ldr_create_dir :: "string \<Rightarrow> 'd rt \<Rightarrow> addr \<times> 'd rt" where
  "ldr_create_dir name s =
     (let newdir_path = ''jessfs/'' @ name @ (if name \<noteq> [] \<and> last name = CHR ''/'' then [] else ''/'');
          (a, s1) = nnew (blank_node\<lparr>scope_name := name, scope_value := newdir_path, njsl := JSL_DIR, nsection := -1\<rparr>) s
      in (a, s1\<lparr>root := scope_insert (root s1) name a\<rparr>))"

text \<open>The name of an archive without its \<open>.json\<close>; a name with another extension is lost.\<close>

definition archive_scope_name :: "string \<Rightarrow> string" where
  "archive_scope_name name =
     (case strchr (rev name) (CHR ''.'') of
        None \<Rightarrow> name
      | Some k \<Rightarrow>
          if strcasecmp ''.json'' (drop (length name - k - 1) name) = 0 then take (length name - k - 1) name else '''')"

text \<open>
  \<open>ldr_create_archive\<close>: the result is \<open>Some (None, s)\<close> where the code returns a null pointer.
\<close>

definition ldr_create_archive :: "addr \<Rightarrow> string \<Rightarrow> addr option \<Rightarrow> 'd rt \<Rightarrow> (addr option \<times> 'd rt) option" where
  "ldr_create_archive parent name json s =
     do {
       p \<leftarrow> nmem s parent;
       if njsl p \<noteq> JSL_DIR then Some (None, s)
       else
         (let sn = archive_scope_name name;
              sv = scope_value p @ sn @ ''.json''
          in if length sv \<ge> MAX_VALUE_SIZE then Some (None, s)
             else
               (let (j, m) = (case json of Some j \<Rightarrow> (j, jm s) | None \<Rightarrow> cJSON_CreateObject (jm s));
                    (a, s1) = nnew (blank_node\<lparr>scope_name := sn, scope_value := sv, njsl := JSL_ARCHIVE,
                        jsonptr := Some j, parentnode := Some parent, nsection := -1\<rparr>) (s\<lparr>jm := m\<rparr>)
                in Some (Some a, nput parent (p\<lparr>next_scope := scope_insert (next_scope p) sn a,
                     next_scope_size := next_scope_size p + 1\<rparr>) s1)))
     }"

section \<open>The index of a level as a map from names to nodes\<close>

text \<open>
  What the runtime relies on when it indexes a level by name, up to case: the laws of a finite
  map. The facts its clients use are proved from the laws alone.
\<close>

locale name_index =
  fixes inv :: "'t \<Rightarrow> bool"
    and empty :: 't
    and search :: "'t \<Rightarrow> string \<Rightarrow> 'a option"
    and insert :: "'t \<Rightarrow> string \<Rightarrow> 'a \<Rightarrow> 't"
    and remove :: "'t \<Rightarrow> string \<Rightarrow> 't"
  assumes inv_empty: "inv empty"
    and search_empty: "search empty n = None"
    and search_case: "inv t \<Longrightarrow> fold_key k = fold_key n \<Longrightarrow> search t k = search t n"
    and inv_insert: "inv t \<Longrightarrow> inv (insert t n a)"
    and search_insert: "inv t \<Longrightarrow> search t n = None \<Longrightarrow>
      search (insert t n a) k = (if fold_key k = fold_key n then Some a else search t k)"
    and insert_present: "inv t \<Longrightarrow> search t n = Some b \<Longrightarrow> search (insert t n a) k = search t k"
    and inv_remove: "inv t \<Longrightarrow> inv (remove t n)"
    and search_remove: "inv t \<Longrightarrow> search (remove t n) k = (if fold_key k = fold_key n then None else search t k)"
begin

lemma search_insert_same: "inv t \<Longrightarrow> search t n = None \<Longrightarrow> search (insert t n a) n = Some a"
  by (simp add: search_insert)

lemma search_insert_mono: "inv t \<Longrightarrow> search t k = Some b \<Longrightarrow> search (insert t n a) k = Some b"
  using search_case [of t k n] by (cases "search t n") (auto simp: search_insert insert_present)

lemma insert_remove: "inv t \<Longrightarrow> search t n = None \<Longrightarrow> search (remove (insert t n a) n) k = search t k"
  using search_case [of t k n] by (simp add: search_remove inv_insert search_insert)

lemma insert_commute:
  assumes "inv t" "fold_key n \<noteq> fold_key m" "search t n = None" "search t m = None"
  shows "search (insert (insert t n a) m b) k = search (insert (insert t m b) n a) k"
  using assms by (simp add: search_insert inv_insert)

end

definition wf_index :: "scope_index avltree \<Rightarrow> bool" where
  "wf_index t \<longleftrightarrow> avl t \<and> bst scope_key t"

lemma scope_search_Some:
  assumes "bst scope_key t"
  shows "scope_search t name = Some a \<longleftrightarrow> (\<exists>nm. (nm, a) \<in> elems t \<and> fold_key nm = fold_key name)"
  using scope.avlsearch_Some [OF assms, of "(name, 0)"]
  by (auto simp: scope_search_def scope_key_def)

lemma scope_search_None:
  assumes "bst scope_key t"
  shows "scope_search t name = None \<longleftrightarrow> (\<forall>x\<in>elems t. scope_key x \<noteq> fold_key name)"
  using scope.avlsearch_None [OF assms, of "(name, 0)"]
  by (auto simp: scope_search_def scope_key_def image_iff)

lemma elems_scope_insert:
  "bst scope_key t \<Longrightarrow> elems (scope_insert t name a) =
     (if scope_search t name = None then Set.insert (name, a) (elems t) else elems t)"
  using scope.elems_avlinsert [of t "(name, a)"]
  by (auto simp: scope_insert_def scope_search_None scope_key_def image_iff)

lemma elems_scope_remove:
  "bst scope_key t \<Longrightarrow> elems (scope_remove t name) = {x \<in> elems t. scope_key x \<noteq> fold_key name}"
  using scope.avlremove_correct [of t "(name, 0)"] by (simp add: scope_remove_def scope_key_def)

lemma wf_scope_insert: "wf_index t \<Longrightarrow> wf_index (scope_insert t name a)"
  by (simp add: wf_index_def scope_insert_def scope.bst_avlinsert avlinsert_balanced)

lemma wf_scope_remove: "wf_index t \<Longrightarrow> wf_index (scope_remove t name)"
  using scope.avlremove_correct [of t "(name, 0)"] avlremove_balanced [of t]
  by (auto simp: wf_index_def scope_remove_def)

lemma scope_search_eqI:
  assumes "bst scope_key t" "bst scope_key u"
    and "\<And>nm a. fold_key nm = fold_key name \<Longrightarrow> (nm, a) \<in> elems t \<longleftrightarrow> (nm, a) \<in> elems u"
  shows "scope_search t name = scope_search u name"
proof (cases "scope_search u name")
  case None
  with assms have "scope_search t name = None"
    by (fastforce simp: scope_search_None scope_key_def)
  with None show ?thesis by simp
next
  case (Some a)
  with assms have "scope_search t name = Some a" by (auto simp: scope_search_Some)
  with Some show ?thesis by simp
qed

interpretation names: name_index wf_index ET scope_search scope_insert scope_remove
proof unfold_locales
  fix t :: "scope_index avltree" and n k :: string and a b :: addr
  show "wf_index ET" by (simp add: wf_index_def)
  show "scope_search ET n = None" by (simp add: scope_search_def)
  show "wf_index t \<Longrightarrow> wf_index (scope_insert t n a)" by (rule wf_scope_insert)
  show "wf_index t \<Longrightarrow> wf_index (scope_remove t n)" by (rule wf_scope_remove)
  assume t: "wf_index t"
  then have b: "bst scope_key t" by (simp add: wf_index_def)
  have bi: "bst scope_key (scope_insert t n a)" and br: "bst scope_key (scope_remove t n)"
    using t wf_scope_insert [of t n a] wf_scope_remove [of t n] by (auto simp: wf_index_def)
  show "scope_search t k = scope_search t n" if "fold_key k = fold_key n"
    using b that scope_search_Some [OF b] by (metis option.exhaust)
  show "scope_search (scope_insert t n a) k = (if fold_key k = fold_key n then Some a else scope_search t k)"
    if new: "scope_search t n = None"
  proof (cases "fold_key k = fold_key n")
    case True
    then show ?thesis using new b bi by (auto simp: scope_search_Some elems_scope_insert)
  next
    case False
    then show ?thesis using new b bi by (auto simp: elems_scope_insert intro!: scope_search_eqI)
  qed
  show "scope_search (scope_insert t n a) k = scope_search t k" if "scope_search t n = Some b"
    using that b bi by (intro scope_search_eqI) (auto simp: elems_scope_insert)
  show "scope_search (scope_remove t n) k = (if fold_key k = fold_key n then None else scope_search t k)"
  proof (cases "fold_key k = fold_key n")
    case True
    then show ?thesis using b br by (auto simp: scope_search_None elems_scope_remove)
  next
    case False
    then show ?thesis
      using b br by (auto simp: elems_scope_remove scope_key_def intro!: scope_search_eqI)
  qed
qed

text \<open>
  C23: The index of a level is a map from names, up to case, to nodes, and it stays balanced:
  after inserting a new name it is found and all others are found as before, inserting a
  present name changes nothing, and removing a name removes only that name.
\<close>

theorem scope_index_map:
  assumes "wf_index t"
  shows "wf_index (scope_insert t n a) \<and> wf_index (scope_remove t n) \<and>
    scope_search (scope_insert t n a) k =
      (case scope_search t n of
         None \<Rightarrow> if fold_key k = fold_key n then Some a else scope_search t k
       | Some b \<Rightarrow> scope_search t k) \<and>
    scope_search (scope_remove t n) k = (if fold_key k = fold_key n then None else scope_search t k)"
  using names.inv_insert [OF assms] names.inv_remove [OF assms] names.search_insert [OF assms]
    names.insert_present [OF assms] names.search_remove [OF assms]
  by (auto split: option.splits)

theorem scope_index_map_witness:
  "scope_search (scope_insert (TN ET (''io'', 1) 0 ET) ''Dev'' 7) ''DEV'' = Some 7"
proof -
  have t: "wf_index (TN ET (''io'', 1) 0 ET)" by (simp add: wf_index_def)
  have "scope_search (TN ET (''io'', 1) 0 ET) ''Dev'' = None" by code_simp
  moreover have "fold_key ''DEV'' = fold_key ''Dev''" by code_simp
  ultimately show ?thesis using scope_index_map [OF t, of "''Dev''" 7 "''DEV''"] by simp
qed

end
