(* ===== verification/Runtime.thy ===== *)
theory Runtime
  imports Ldr
begin

text \<open>
  The configuration tree at run time, \<^verbatim>\<open>runtime/runtime.c\<close>: searching a key, updating and
  appending fields, scopes, arrays and archives, deleting ranges, creating and removing
  directories. Every operation updates the nodes, the JSON document of the archive and,
  where the code does, the file system, in the order of the code. The result is \<open>None\<close>
  where the code would use a freed node, and for a deletion that does not end.

  \<open>atof\<close> of the C library is an argument. A field read of a freed node, which the code does in
  two places, is an argument too: what the freed memory reads as.
\<close>

section \<open>Request head\<close>

text \<open>
  \<open>rt_analyze_req_head\<close>: title, option (\<open>None\<close> when absent) and the remaining text. Leading
  empty lines are skipped.
\<close>

function skip_blank_lines :: "string \<Rightarrow> string" where
  "skip_blank_lines cursor = (if strstr cursor CRLF = Some 0 then skip_blank_lines (drop 2 cursor) else cursor)"
  by pat_completeness auto
termination
  by (relation "measure length") (auto dest: strstr_le)

declare skip_blank_lines.simps [simp del]

definition rt_analyze_req_head :: "string \<Rightarrow> (string \<times> string option \<times> string) option" where
  "rt_analyze_req_head request =
     (let cursor = skip_blank_lines request in
      case strstr cursor CRLF of
        None \<Rightarrow> None
      | Some n \<Rightarrow>
          if n \<ge> MAX_TITLE_SIZE then None
          else
            (let title = take n cursor; rest = drop (n + 2) cursor in
             case strstr rest (CRLF @ CRLF) of
               None \<Rightarrow> Some (title, None, rest)
             | Some k \<Rightarrow>
                 if k \<ge> MAX_OPT_SIZE then None
                 else Some (title, Some (take k rest), drop (k + 4) rest)))"

section \<open>Arrays\<close>

definition rt_seek_array_node :: "node \<Rightarrow> int \<Rightarrow> addr option" where
  "rt_seek_array_node arraynode which =
     (if 0 \<le> which \<and> nat which < length (array arraynode) then Some (array arraynode ! nat which) else None)"

text \<open>The decrement of the names of the items behind a removed one.\<close>

fun decrement_names :: "addr list \<Rightarrow> 'd rt \<Rightarrow> 'd rt option" where
  "decrement_names [] s = Some s"
| "decrement_names (a # as) s =
     do { n \<leftarrow> nmem s a;
          decrement_names as (nput a (n\<lparr>scope_name := show_int (atoi (scope_name n) - 1)\<rparr>) s) }"

text \<open>
  \<open>rt_safe_delete_array_item\<close> (with the JSON item) and \<open>rt_suface_delete_array_item\<close> (without).
\<close>

definition rt_delete_array_item :: "bool \<Rightarrow> addr \<Rightarrow> 'd rt \<Rightarrow> 'd rt option" where
  "rt_delete_array_item deep a s =
     do {
       n \<leftarrow> nmem s a;
       case parentnode n of
         None \<Rightarrow> Some s
       | Some pa \<Rightarrow>
           do {
             p \<leftarrow> nmem s pa;
             let behind = tl (dropWhile (\<lambda>b. b \<noteq> a) (array p));
             s1 \<leftarrow> decrement_names behind (nput pa (p\<lparr>array := remove1 a (array p)\<rparr>) s);
             p1 \<leftarrow> nmem s1 pa;
             let s2 = nput pa (p1\<lparr>arraysize := arraysize p1 - 1\<rparr>) s1;
             let s3 = (if deep \<and> jsonparentptr n \<noteq> None
                       then s2\<lparr>jm := cJSON_Delete (jsonptr n)
                               (cJSON_DetachItemViaPointer (jsonparentptr n) (jsonptr n) (jm s2))\<rparr>
                       else s2);
             Some (nfree a s3)
           }
     }"

section \<open>Allocation\<close>

text \<open>Link a new node under its parent: into the JSON object and into the tree.\<close>

definition rt_link_scope :: "addr \<Rightarrow> node \<Rightarrow> addr \<Rightarrow> string \<Rightarrow> addr \<Rightarrow> node \<Rightarrow> 'd jmem \<Rightarrow> 'd rt \<Rightarrow> (addr \<times> 'd rt) option" where
  "rt_link_scope parent p a name j new m s =
     do {
       m1 \<leftarrow> cJSON_AddItemToObject (jsonptr p) name j m;
       Some (a, s\<lparr>nmem := (nmem s)(a \<mapsto> new, parent \<mapsto> p\<lparr>next_scope := scope_insert (next_scope p) name a,
                    next_scope_size := next_scope_size p + 1\<rparr>),
                  nnext := Suc a, jm := m1\<rparr>)
     }"

definition rt_allocate_logic_scope :: "addr \<Rightarrow> string \<Rightarrow> 'd rt \<Rightarrow> (addr \<times> 'd rt) option" where
  "rt_allocate_logic_scope parent name s =
     do {
       p \<leftarrow> nmem s parent;
       let (j, m) = cJSON_CreateObject (jm s);
       rt_link_scope parent p (nnext s) name j
         (blank_node\<lparr>scope_name := name, njsl := JSL_LOGIC_SCOPE, jsonptr := Some j,
            jsonparentptr := jsonptr p, parentnode := Some parent\<rparr>) m s
     }"

definition rt_allocate_field :: "addr \<Rightarrow> string \<Rightarrow> string \<Rightarrow> 'd rt \<Rightarrow> (addr \<times> 'd rt) option" where
  "rt_allocate_field parent name val s =
     do {
       p \<leftarrow> nmem s parent;
       let (j, m) = cJSON_CreateString val (jm s);
       rt_link_scope parent p (nnext s) name j
         (blank_node\<lparr>scope_name := name, scope_value := val, njsl := JSL_FIELD, jsonptr := Some j,
            jsonparentptr := jsonptr p, parentnode := Some parent\<rparr>) m s
     }"

definition rt_allocate_array :: "addr \<Rightarrow> string \<Rightarrow> 'd rt \<Rightarrow> (addr \<times> 'd rt) option" where
  "rt_allocate_array parent name s =
     do {
       p \<leftarrow> nmem s parent;
       let (j, m) = cJSON_CreateArray (jm s);
       rt_link_scope parent p (nnext s) name j
         (blank_node\<lparr>scope_name := name, njsl := JSL_ARRAY, jsonptr := Some j,
            jsonparentptr := jsonptr p, parentnode := Some parent\<rparr>) m s
     }"

text \<open>Append a new item to an array node and to its JSON array.\<close>

definition rt_link_item :: "addr \<Rightarrow> node \<Rightarrow> addr \<Rightarrow> addr \<Rightarrow> node \<Rightarrow> 'd jmem \<Rightarrow> 'd rt \<Rightarrow> (addr \<times> 'd rt) option" where
  "rt_link_item arr p a j new m s =
     do {
       m1 \<leftarrow> cJSON_AddItemToArray (jsonptr p) j m;
       Some (a, s\<lparr>nmem := (nmem s)(a \<mapsto> new, arr \<mapsto> p\<lparr>array := array p @ [a], arraysize := arraysize p + 1\<rparr>),
                  nnext := Suc a, jm := m1\<rparr>)
     }"

definition rt_allocate_array_item :: "addr \<Rightarrow> 'd rt \<Rightarrow> (addr \<times> 'd rt) option" where
  "rt_allocate_array_item arr s =
     do {
       p \<leftarrow> nmem s arr;
       let (j, m) = cJSON_CreateObject (jm s);
       rt_link_item arr p (nnext s) j
         (blank_node\<lparr>scope_name := show_int (arraysize p),
            scope_value := scope_name p @ ''['' @ show_int (arraysize p) @ '']'', njsl := JSL_ARRAY_ITEM,
            jsonptr := Some j, jsonparentptr := jsonptr p, parentnode := Some arr\<rparr>) m s
     }"

definition rt_allocate_array_field :: "addr \<Rightarrow> string \<Rightarrow> 'd rt \<Rightarrow> (addr \<times> 'd rt) option" where
  "rt_allocate_array_field arr val s =
     do {
       p \<leftarrow> nmem s arr;
       let (j, m) = cJSON_CreateString val (jm s);
       rt_link_item arr p (nnext s) j
         (blank_node\<lparr>scope_name := show_int (arraysize p), scope_value := val, njsl := JSL_ARRAY_ITEM_AS_FIELD,
            jsonptr := Some j, jsonparentptr := jsonptr p, parentnode := Some arr\<rparr>) m s
     }"

section \<open>Update in place\<close>

text \<open>The new JSON item for a changed value keeps the type of the old one.\<close>

definition rt_new_value :: "(string \<Rightarrow> 'd) \<Rightarrow> 'd jval \<Rightarrow> string \<Rightarrow> 'd jmem \<Rightarrow> (addr \<times> 'd jmem) option" where
  "rt_new_value atof old val m =
     (case old of
        cJSON_String _ \<Rightarrow> Some (cJSON_CreateString val m)
      | cJSON_Number _ \<Rightarrow> Some (cJSON_CreateNumber (atof val) m)
      | _ \<Rightarrow> None)"

text \<open>\<open>1\<close>: no change; \<open>0\<close>: updated.\<close>

definition rt_field_update :: "(string \<Rightarrow> 'd) \<Rightarrow> addr \<Rightarrow> string \<Rightarrow> 'd rt \<Rightarrow> (int \<times> 'd rt) option" where
  "rt_field_update atof a val s =
     do {
       n \<leftarrow> nmem s a;
       if njsl n \<noteq> JSL_FIELD \<or> jsonptr n = None \<or> jsonparentptr n = None then Some (-1, s)
       else if scope_value n = val then Some (1, s)
       else do {
         it \<leftarrow> items (jm s) (the (jsonptr n));
         case rt_new_value atof (jval it) val (jm s) of
           None \<Rightarrow> Some (-1, s)
         | Some (newone, m) \<Rightarrow>
             Some (0, nput a (n\<lparr>scope_value := val, jsonptr := Some newone\<rparr>)
                        (s\<lparr>jm := cJSON_ReplaceItemInObject (jsonparentptr n) (scope_name n) newone m\<rparr>))
       }
     }"

definition rt_array_field_update :: "(string \<Rightarrow> 'd) \<Rightarrow> addr \<Rightarrow> int \<Rightarrow> string \<Rightarrow> 'd rt \<Rightarrow> (int \<times> 'd rt) option" where
  "rt_array_field_update atof arr which val s =
     do {
       p \<leftarrow> nmem s arr;
       if njsl p \<noteq> JSL_ARRAY \<or> jsonptr p = None \<or> which < 0 then Some (-1, s)
       else if which \<ge> arraysize p \<and> which \<noteq> JA_SYM_LAST then Some (-1, s)
       else
         (let offset = (if which \<ge> arraysize p then arraysize p - 1 else which) in
          case rt_seek_array_node p offset of
            None \<Rightarrow> Some (-1, s)
          | Some a \<Rightarrow>
              do {
                n \<leftarrow> nmem s a;
                if scope_value n = val then Some (1, s)
                else do {
                  j \<leftarrow> jsonptr n;
                  it \<leftarrow> items (jm s) j;
                  case rt_new_value atof (jval it) val (jm s) of
                    None \<Rightarrow> Some (-1, s)
                  | Some (newone, m) \<Rightarrow>
                      Some (0, nput a (n\<lparr>scope_value := val, jsonptr := Some newone\<rparr>)
                                 (s\<lparr>jm := cJSON_ReplaceItemInArray (jsonptr p) (nat offset) newone m\<rparr>))
                }
              })
     }"

section \<open>Deleting a range\<close>

text \<open>
  \<open>rt_deep_delete_range\<close> and \<open>rt_suface_delete_range\<close> in one function (\<open>deep\<close> says which): they differ
  only in the JSON operations. The recursion and the two loops of the code are the three kinds
  of work: delete a node below a parent, delete all scopes of a node, delete all items of an array.
  The value is the tree the code returns.
\<close>

datatype delete_work = Range "addr option" "addr option" | Scopes addr | Items addr

definition tree_top :: "scope_index avltree \<Rightarrow> addr option" where
  "tree_top t = (case t of ET \<Rightarrow> None | TN l x h r \<Rightarrow> Some (snd x))"

text \<open>What happens to the node itself once nothing is left below it.\<close>

definition rt_unlink :: "bool \<Rightarrow> addr \<Rightarrow> addr option \<Rightarrow> 'd rt \<Rightarrow> (scope_index avltree \<times> 'd rt) option" where
  "rt_unlink deep c parent s =
     do {
       n \<leftarrow> nmem s c;
       if njsl n = JSL_ARRAY_ITEM \<or> njsl n = JSL_ARRAY_ITEM_AS_FIELD then
         do { s1 \<leftarrow> rt_delete_array_item deep c s; Some (ET, s1) }
       else (case parent of
         Some pa \<Rightarrow>
           do {
             p \<leftarrow> nmem s pa;
             let t = scope_remove (next_scope p) (scope_name n);
             let m = (if \<not> deep then jm s
                      else if jsonparentptr n \<noteq> None
                      then cJSON_DeleteItemFromObject (jsonparentptr n) (scope_name n) (jm s)
                      else cJSON_Delete (jsonptr n) (jm s));
             Some (t, nfree c (nput pa (p\<lparr>next_scope := t, next_scope_size := next_scope_size p - 1\<rparr>) (s\<lparr>jm := m\<rparr>)))
           }
       | None \<Rightarrow>
           (let s1 = ldr_remove_scope (scope_name n) s in Some (root s1, nfree c s1)))
     }"

text \<open>The same for an array node whose items have all been deleted.\<close>

definition rt_unlink_array :: "bool \<Rightarrow> addr \<Rightarrow> addr \<Rightarrow> 'd rt \<Rightarrow> (scope_index avltree \<times> 'd rt) option" where
  "rt_unlink_array deep c pa s =
     do {
       n \<leftarrow> nmem s c;
       p \<leftarrow> nmem s pa;
       let t = scope_remove (next_scope p) (scope_name n);
       let m = (if deep then cJSON_DeleteItemFromObject (jsonptr p) (scope_name n) (jm s) else jm s);
       Some (t, nfree c (nput pa (p\<lparr>next_scope := t\<rparr>) (s\<lparr>jm := m\<rparr>)))
     }"

partial_function (option) rt_delete_range ::
  "bool \<Rightarrow> delete_work \<Rightarrow> 'd rt \<Rightarrow> (scope_index avltree \<times> 'd rt) option" where
  "rt_delete_range deep w s =
     (case w of
        Range cur parent \<Rightarrow>
          (case cur of None \<Rightarrow> Some (ET, s)
           | Some c \<Rightarrow>
               do {
                 (_, s1) \<leftarrow> rt_delete_range deep (Scopes c) s;
                 n \<leftarrow> nmem s1 c;
                 if njsl n = JSL_ARRAY \<and> array n \<noteq> [] \<and> arraysize n > 0 \<and> parent \<noteq> None then
                   do {
                     (_, s2) \<leftarrow> rt_delete_range deep (Items c) s1;
                     rt_unlink_array deep c (the parent) s2
                   }
                 else rt_unlink deep c parent s1
               })
      | Scopes c \<Rightarrow>
          do {
            n \<leftarrow> nmem s c;
            (t, s1) \<leftarrow> rt_delete_range deep (Range (tree_top (next_scope n)) (Some c)) s;
            n1 \<leftarrow> nmem s1 c;
            let s2 = nput c (n1\<lparr>next_scope := t\<rparr>) s1;
            if t \<noteq> ET then rt_delete_range deep (Scopes c) s2 else Some (ET, s2)
          }
      | Items c \<Rightarrow>
          do {
            n \<leftarrow> nmem s c;
            if array n = [] then Some (ET, s)
            else do {
              (_, s1) \<leftarrow> rt_delete_range deep (Range (Some (hd (array n))) (Some c)) s;
              rt_delete_range deep (Items c) s1
            }
          })"

definition rt_deep_delete_range :: "addr \<Rightarrow> addr option \<Rightarrow> 'd rt \<Rightarrow> (scope_index avltree \<times> 'd rt) option" where
  "rt_deep_delete_range cur parent s = rt_delete_range True (Range (Some cur) parent) s"

definition rt_suface_delete_range :: "addr \<Rightarrow> addr option \<Rightarrow> 'd rt \<Rightarrow> (scope_index avltree \<times> 'd rt) option" where
  "rt_suface_delete_range cur parent s = rt_delete_range False (Range (Some cur) parent) s"

definition rt_delete_any :: "addr \<Rightarrow> JSL \<Rightarrow> 'd rt \<Rightarrow> (int \<times> 'd rt) option" where
  "rt_delete_any a force s =
     do {
       n \<leftarrow> nmem s a;
       if force \<noteq> njsl n then Some (-22, s)
       else do { (_, s1) \<leftarrow> rt_deep_delete_range a (parentnode n) s; Some (0, s1) }
     }"

definition rt_delete_archive :: "addr \<Rightarrow> 'd rt \<Rightarrow> 'd rt option" where
  "rt_delete_archive a s =
     do {
       n \<leftarrow> nmem s a;
       if njsl n \<noteq> JSL_ARCHIVE then Some s
       else do {
         (_, s1) \<leftarrow> rt_deep_delete_range a (parentnode n) (on_cache (snd \<circ> fs_delete_file (nsection n)) s);
         Some s1
       }
     }"

text \<open>The value is the new root, as the loops over all directories need it.\<close>

definition rt_delete_dir :: "addr \<Rightarrow> 'd rt \<Rightarrow> (scope_index avltree \<times> 'd rt) option" where
  "rt_delete_dir a s =
     do {
       n \<leftarrow> nmem s a;
       if njsl n \<noteq> JSL_DIR then Some (ET, s)
       else rt_deep_delete_range a (parentnode n) (on_cache (snd \<circ> fs_delete_dir (scope_name n)) s)
     }"

definition rt_suface_delete_dir :: "addr \<Rightarrow> 'd rt \<Rightarrow> (scope_index avltree \<times> 'd rt) option" where
  "rt_suface_delete_dir a s =
     do {
       n \<leftarrow> nmem s a;
       if njsl n \<noteq> JSL_DIR then Some (ET, s) else rt_suface_delete_range a (parentnode n) s
     }"

section \<open>Reaching a node\<close>

text \<open>
  \<open>rt_reach_last_scope\<close>: the segments left, the tree to search, the node reached so far and the flag
  \<open>reach_array_node\<close>. \<open>Some None\<close> is the code's \<open>-1\<close>.
\<close>

fun rt_reach_loop :: "segment list \<Rightarrow> scope_index avltree \<Rightarrow> addr option \<Rightarrow> bool \<Rightarrow> 'd rt \<Rightarrow> addr option option" where
  "rt_reach_loop [] tree cur stop s = Some cur"
| "rt_reach_loop (sg # rest) tree cur stop s =
     (if stop then Some None
      else case scope_search tree (sname sg) of
        None \<Rightarrow> Some None
      | Some a \<Rightarrow>
          do {
            n \<leftarrow> nmem s a;
            if njsl n \<noteq> JSL_ARRAY then rt_reach_loop rest (next_scope n) (Some a) False s
            else if index sg < 0 then rt_reach_loop rest tree (Some a) True s
            else if index sg \<ge> arraysize n then Some None
            else (case rt_seek_array_node n (index sg) of
              None \<Rightarrow> Some None
            | Some b \<Rightarrow> do { it \<leftarrow> nmem s b; rt_reach_loop rest (next_scope it) (Some b) False s })
          })"

definition rt_reach_last_scope :: "JRP \<Rightarrow> 'd rt \<Rightarrow> addr option option" where
  "rt_reach_last_scope jrp s = rt_reach_loop (segm jrp) (root s) None False s"

text \<open>
  \<open>rt_search\<close>: the text that is in \<open>dupvalue\<close> afterwards. \<open>Some None\<close> is the code's \<open>-1\<close>. An array
  item that is neither an object nor a value leaves \<open>dupvalue\<close> as it was (\<open>dv\<close>) and succeeds.
\<close>

fun rt_search_loop :: "string \<Rightarrow> segment list \<Rightarrow> scope_index avltree \<Rightarrow> 'd rt \<Rightarrow> string option option" where
  "rt_search_loop dv [] tree s = Some (Some dv)"
| "rt_search_loop dv (sg # rest) tree s =
     (case scope_search tree (sname sg) of
        None \<Rightarrow> Some None
      | Some a \<Rightarrow>
          do {
            n \<leftarrow> nmem s a;
            (case njsl n of
               JSL_LOGIC_SCOPE \<Rightarrow>
                 if sjsl sg \<noteq> JSL_LOGIC_SCOPE \<or> rest = [] then Some None
                 else rt_search_loop dv rest (next_scope n) s
             | JSL_DIR \<Rightarrow> if rest = [] then Some (Some (scope_value n)) else rt_search_loop dv rest (next_scope n) s
             | JSL_ARCHIVE \<Rightarrow> if rest = [] then Some (Some (scope_value n)) else rt_search_loop dv rest (next_scope n) s
             | JSL_FIELD \<Rightarrow> if rest = [] \<and> sjsl sg = JSL_FIELD then Some (Some (scope_value n)) else Some None
             | JSL_ARRAY \<Rightarrow>
                 if sjsl sg \<noteq> JSL_ARRAY \<or> array n = [] \<or> arraysize n \<le> 0 then Some None
                 else if index sg = JA_SYM_QUERY_SIZE then
                   Some (if rest = [] then Some (show_int (arraysize n)) else None)
                 else if index sg = JA_SYM_ADD \<or> index sg = JA_SYM_ENTIRE then Some None
                 else
                   (let item = (if index sg = JA_SYM_LAST then rt_seek_array_node n (arraysize n - 1)
                                else if index sg < arraysize n \<and> 0 \<le> index sg then rt_seek_array_node n (index sg)
                                else None)
                    in case item of
                         None \<Rightarrow> Some None
                       | Some b \<Rightarrow>
                           do {
                             it \<leftarrow> nmem s b;
                             (case njsl it of
                                JSL_ARRAY_ITEM \<Rightarrow> if rest = [] then Some None else rt_search_loop dv rest (next_scope it) s
                              | JSL_ARRAY_ITEM_AS_FIELD \<Rightarrow>
                                  Some (if rest = [] then Some (scope_value it) else None)
                              | _ \<Rightarrow> Some (Some dv))
                           })
             | _ \<Rightarrow> Some None)
          })"

definition rt_search :: "JRP \<Rightarrow> 'd rt \<Rightarrow> string option option" where
  "rt_search jrp s = rt_search_loop (dupvalue jrp) (segm jrp) (root s) s"

section \<open>Appending and deleting\<close>

text \<open>
  \<open>rt_append\<close> on the segments that are still missing. The value is the return code, and the
  archive node when one was created (\<open>*archiveptr\<close>).
\<close>

fun rt_append :: "string \<Rightarrow> segment list \<Rightarrow> addr \<Rightarrow> 'd rt \<Rightarrow> (int \<times> addr option \<times> 'd rt) option" where
  "rt_append val [] a s = Some (0, None, s)"
| "rt_append val (sg # rest) a s =
     (case sjsl sg of
        JSL_FIELD \<Rightarrow> do { (_, s1) \<leftarrow> rt_allocate_field a (sname sg) val s; Some (0, None, s1) }
      | JSL_LOGIC_SCOPE \<Rightarrow>
          do { (b, s1) \<leftarrow> rt_allocate_logic_scope a (sname sg) s; rt_append val rest b s1 }
      | JSL_ARCHIVE \<Rightarrow>
          do {
            n \<leftarrow> nmem s a;
            (sect, L) \<leftarrow> (case fs_search_dir_byname (scope_name n) (cache (fsv s)) of
                 Some k \<Rightarrow>
                   (let d = did (dir (cache (fsv s)) ! k) in
                    if d > 0 then map_option (map_prod Some id) (fs_allocate_file (sname sg) d 0 None (cache (fsv s)))
                    else Some (None, cache (fsv s)))
               | None \<Rightarrow> Some (None, cache (fsv s)));
            let s1 = on_cache (\<lambda>_. L) s;
            if (case sect of Some i \<Rightarrow> i < 0 | None \<Rightarrow> False) then Some (-1, None, s1)
            else do {
              (new, s2) \<leftarrow> ldr_create_archive a (sname sg) None s1;
              case new of
                None \<Rightarrow>
                  Some (-1, None, case sect of Some i \<Rightarrow> on_cache (snd \<circ> fs_delete_file i) s2 | None \<Rightarrow> s2)
              | Some b \<Rightarrow>
                  do {
                    nb \<leftarrow> nmem s2 b;
                    (r, ar, s3) \<leftarrow> rt_append val rest b
                       (nput b (nb\<lparr>nsection := (case sect of Some i \<Rightarrow> i | None \<Rightarrow> -1)\<rparr>) s2);
                    Some (r, Some (case ar of Some x \<Rightarrow> x | None \<Rightarrow> b), s3)
                  }
            }
          }
      | JSL_ARRAY \<Rightarrow>
          do {
            n \<leftarrow> nmem s a;
            if arraysize n < 0 \<or> (index sg \<noteq> arraysize n \<and> index sg \<noteq> JA_SYM_ADD) then Some (-1, None, s)
            else if arraysize n \<ge> MAX_ARY_SIZE then Some (-1, None, s)
            else do {
              (arr, s1) \<leftarrow> (if njsl n \<noteq> JSL_ARRAY then rt_allocate_array a (sname sg) s else Some (a, s));
              p \<leftarrow> nmem s1 arr;
              if arraysize p < 0 \<or> (index sg \<noteq> arraysize p \<and> index sg \<noteq> JA_SYM_ADD) then Some (-1, None, s1)
              else if arraysize p \<ge> MAX_ARY_SIZE then Some (-1, None, s1)
              else if rest = [] then
                do { (_, s2) \<leftarrow> rt_allocate_array_field arr val s1; Some (0, None, s2) }
              else do { (b, s2) \<leftarrow> rt_allocate_array_item arr s1; rt_append val rest b s2 }
            }
          }
      | _ \<Rightarrow> Some (0, None, s))"

text \<open>The loop that removes the items of an array from the end, for \<open>[*]\<close>.\<close>

partial_function (option) rt_delete_items :: "addr \<Rightarrow> 'd rt \<Rightarrow> 'd rt option" where
  "rt_delete_items a s =
     do {
       n \<leftarrow> nmem s a;
       if arraysize n > 0 then
         do {
           b \<leftarrow> rt_seek_array_node n (arraysize n - 1);
           it \<leftarrow> nmem s b;
           (_, s1) \<leftarrow> rt_delete_any b (njsl it) s;
           rt_delete_items a s1
         }
       else Some s
     }"

text \<open>\<open>rt_delete\<close>: return code, whether \<open>*archiveptr\<close> is cleared, the old value.\<close>

definition rt_delete :: "addr \<Rightarrow> JRP \<Rightarrow> 'd rt \<Rightarrow> (int \<times> bool \<times> string \<times> 'd rt) option" where
  "rt_delete a jrp s =
     do {
       n \<leftarrow> nmem s a;
       (case njsl n of
          JSL_FIELD \<Rightarrow> do { (r, s1) \<leftarrow> rt_delete_any a JSL_FIELD s; Some (r, False, scope_value n, s1) }
        | JSL_LOGIC_SCOPE \<Rightarrow> do { (r, s1) \<leftarrow> rt_delete_any a JSL_LOGIC_SCOPE s; Some (r, False, '''', s1) }
        | JSL_ARRAY \<Rightarrow>
            (let idx = index (last (segm jrp)) in
             if arraysize n \<le> 0 \<or> array n = [] then Some (-1, False, '''', s)
             else if idx < 0 then
               do { (r, s1) \<leftarrow> rt_delete_any a JSL_ARRAY s; Some (r, False, '''', s1) }
             else if idx < arraysize n \<or> idx = JA_SYM_LAST then
               do {
                 b \<leftarrow> rt_seek_array_node n (if idx < arraysize n then idx else arraysize n - 1);
                 it \<leftarrow> nmem s b;
                 (r, s1) \<leftarrow> rt_delete_any b (njsl it) s;
                 Some (r, False, scope_value it, s1)
               }
             else if idx = JA_SYM_ENTIRE then
               do {
                 s1 \<leftarrow> rt_delete_items a s;
                 n1 \<leftarrow> nmem s1 a;
                 (r, s2) \<leftarrow> rt_delete_any a (njsl n1) s1;
                 Some (r, False, '''', s2)
               }
             else Some (-1, False, '''', s))
        | JSL_ARCHIVE \<Rightarrow> do { s1 \<leftarrow> rt_delete_archive a s; Some (0, True, '''', s1) }
        | _ \<Rightarrow> Some (-1, False, '''', s))
     }"

section \<open>Updating the configuration\<close>

text \<open>
  \<open>rt_reach_last_match_scope\<close>: \<open>last\<close>, \<open>previous\<close> and \<open>archiveptr\<close> of the code, and the segments behind
  the ones it passed. The code writes the level of each node it finds into the segment; the
  list of levels is the fourth component. \<open>Some None\<close> is the code's \<open>-1\<close>.
\<close>

record reach =
  r_last :: "addr option"
  r_prev :: "addr option"
  r_archive :: "addr option"
  r_rest :: "segment list"
  r_segm :: "segment list"

fun rt_match_loop ::
  "segment list \<Rightarrow> segment list \<Rightarrow> scope_index avltree \<Rightarrow> addr option \<Rightarrow> addr option \<Rightarrow> addr option \<Rightarrow>
   'd rt \<Rightarrow> reach option option" where
  "rt_match_loop passed [] tree node prev arch s =
     Some (Some \<lparr>r_last = node, r_prev = prev, r_archive = arch, r_rest = [], r_segm = passed\<rparr>)"
| "rt_match_loop passed (sg # rest) tree node prev arch s =
     (case scope_search tree (sname sg) of
        None \<Rightarrow> Some (Some \<lparr>r_last = None, r_prev = prev, r_archive = arch, r_rest = sg # rest, r_segm = passed @ sg # rest\<rparr>)
      | Some a \<Rightarrow>
          do {
            n \<leftarrow> nmem s a;
            let arch' = (if njsl n = JSL_ARCHIVE then Some a else arch);
            if (njsl n = JSL_ARRAY \<or> sjsl sg = JSL_ARRAY) \<and> njsl n \<noteq> sjsl sg then Some None
            else
              (let sg' = sg\<lparr>sjsl := njsl n\<rparr>;
                   stop = (\<lambda>l p. Some (Some \<lparr>r_last = l, r_prev = p, r_archive = arch', r_rest = sg' # rest,
                                             r_segm = passed @ sg' # rest\<rparr>))
               in if njsl n = JSL_ARRAY then
                 (if arraysize n \<ge> 0 \<and> index sg = arraysize n then stop None (Some a)
                  else if arraysize n \<le> 0 \<or> array n = [] then
                    (if index sg = JA_SYM_ADD then stop None (Some a) else Some None)
                  else if (index sg \<ge> 0 \<and> index sg < arraysize n) \<or> index sg = JA_SYM_LAST then
                    (let item = rt_seek_array_node n (if index sg \<ge> 0 \<and> index sg < arraysize n then index sg else arraysize n - 1)
                     in case item of
                          None \<Rightarrow> rt_match_loop (passed @ [sg']) rest tree (Some a) None arch' s
                        | Some b \<Rightarrow>
                            do { it \<leftarrow> nmem s b;
                                 rt_match_loop (passed @ [sg']) rest (next_scope it) (Some a) (Some b) arch' s })
                  else if index sg = JA_SYM_QUERY_SIZE then Some None
                  else if index sg = JA_SYM_ADD then stop None (Some a)
                  else if index sg = JA_SYM_ENTIRE then stop (Some a) (Some a)
                  else Some None)
               else rt_match_loop (passed @ [sg']) rest (next_scope n) (Some a) (Some a) arch' s)
          })"

definition rt_reach_last_match_scope :: "JRP \<Rightarrow> 'd rt \<Rightarrow> reach option option" where
  "rt_reach_last_match_scope jrp s = rt_match_loop [] (segm jrp) (root s) None None None s"

definition KEYWORD_DELETED :: string where "KEYWORD_DELETED = ''deleted''"

text \<open>
  \<open>rt_config_update\<close>: return code, \<open>*archiveptr\<close>, the checkpoint file that is removed from the disk
  (\<open>None\<close> for none), the state. \<open>stale_section\<close> is what \<open>node->section\<close> reads as after the node
  has been freed.
\<close>

definition rt_config_update ::
  "(string \<Rightarrow> 'd) \<Rightarrow> int \<Rightarrow> JRP \<Rightarrow> 'd rt \<Rightarrow> (int \<times> addr option \<times> string option \<times> 'd rt) option" where
  "rt_config_update atof stale_section jrp s =
     (case valuestring jrp of
        None \<Rightarrow> Some (-1, None, None, s)
      | Some val \<Rightarrow>
          if dupvalue jrp = [] then Some (-1, None, None, s)
          else do {
            reached \<leftarrow> rt_reach_last_match_scope jrp s;
            case reached of
              None \<Rightarrow> Some (-1, None, None, s)
            | Some r \<Rightarrow>
                (let jrp' = jrp\<lparr>segm := r_segm r\<rparr>; lastseg = last (r_segm r) in
                 case r_last r of
                   Some a \<Rightarrow>
                     do {
                       n \<leftarrow> nmem s a;
                       if val = KEYWORD_DELETED then
                         do {
                           (ret, cleared, old, s1) \<leftarrow> rt_delete a jrp' s;
                           Some (ret, if cleared then None else r_archive r,
                             if ret \<ge> 0 \<and> (case nmem s1 a of Some n1 \<Rightarrow> nsection n1 | None \<Rightarrow> stale_section) \<le> 0 \<and>
                                prefix ''proc.jess.checkpoint'' (dupkey jrp) \<and> old \<noteq> []
                             then Some old else None, s1)
                         }
                       else if njsl n = JSL_FIELD \<and> sjsl lastseg = JSL_FIELD then
                         do { (ret, s1) \<leftarrow> rt_field_update atof a val s; Some (ret, r_archive r, None, s1) }
                       else if njsl n = JSL_ARRAY then
                         do { (ret, s1) \<leftarrow> rt_array_field_update atof a (index lastseg) val s;
                              Some (ret, r_archive r, None, s1) }
                       else Some (-1, r_archive r, None, s)
                     }
                 | None \<Rightarrow>
                     (case r_prev r of
                        None \<Rightarrow> Some (-1, r_archive r, None, s)
                      | Some b \<Rightarrow>
                          do {
                            p \<leftarrow> nmem s b;
                            if njsl p = JSL_FIELD \<or> njsl p = JSL_ARRAY_ITEM_AS_FIELD then Some (-1, r_archive r, None, s)
                            else if njsl p = JSL_DIR \<and> depth jrp \<le> 2 then Some (-1, r_archive r, None, s)
                            else if val = KEYWORD_DELETED then Some (-1, r_archive r, None, s)
                            else do {
                              (ret, new, s1) \<leftarrow> rt_append val (r_rest r) b s;
                              Some (ret, case new of Some x \<Rightarrow> Some x | None \<Rightarrow> r_archive r, None, s1)
                            }
                          }))
          })"

section \<open>Directories\<close>

definition rt_create_dir :: "JRP \<Rightarrow> 'd rt \<Rightarrow> (int \<times> 'd rt) option" where
  "rt_create_dir jrp s =
     (if depth jrp \<noteq> 1 \<or> valuestring jrp \<noteq> None then Some (-1, s)
      else do {
        (r, L) \<leftarrow> fs_allocate_dir (sname (hd (segm jrp))) (cache (fsv s));
        if r < 0 then Some (-1, on_cache (\<lambda>_. L) s)
        else Some (0, snd (ldr_create_dir (sname (hd (segm jrp))) (on_cache (\<lambda>_. L) s)))
      })"

text \<open>The loop over all directories of \<open>rmdir /\<close>, with the deletion of one directory as argument.\<close>

partial_function (option) rt_remove_all :: "bool \<Rightarrow> scope_index avltree \<Rightarrow> 'd rt \<Rightarrow> 'd rt option" where
  "rt_remove_all deep t s =
     (case tree_top t of None \<Rightarrow> Some s
      | Some a \<Rightarrow>
          do {
            (t', s1) \<leftarrow> (if deep then rt_delete_dir a s else rt_suface_delete_dir a s);
            if t' = ET then Some s1 else rt_remove_all deep t' s1
          })"

text \<open>
  \<open>rt_remove_dir\<close>: after the removal of a single directory the code passes the freed node's section
  and JSON pointer to \<open>fs_override_file\<close>; \<open>stale\<close> is what they read as, the JSON text already
  printed. The database file is removed with \<open>rmdir /\<close>, which the disk argument shows.
\<close>

definition rt_remove_dir ::
  "int \<times> string option \<Rightarrow> JRP \<Rightarrow> disk \<Rightarrow> 'd rt \<Rightarrow> (int \<times> disk \<times> 'd rt) option" where
  "rt_remove_dir stale jrp d s =
     (if valuestring jrp \<noteq> None then Some (-1, d, s)
      else if dupkey jrp = ''/'' then
        do {
          s1 \<leftarrow> rt_remove_all True (root s) s;
          let (d', f) = fs_clear_config d (fsv s1);
          Some (0, d', s1\<lparr>fsv := f\<rparr>)
        }
      else if depth jrp \<noteq> 1 then Some (-1, d, s)
      else do {
        reached \<leftarrow> rt_reach_last_scope jrp s;
        case reached of
          None \<Rightarrow> Some (-1, d, s)
        | Some a \<Rightarrow>
            do {
              (_, s1) \<leftarrow> rt_delete_dir a s;
              let (r, sync, L) = fs_override_file (fst stale) (snd stale) (cache (fsv s1));
              let s2 = on_cache (\<lambda>_. L) s1;
              Some (0, d, if sync then s2\<lparr>fsv := fs_append_sync (fsv s2)\<rparr> else s2)
            }
      })"

definition rt_suface_remove_dir :: "JRP \<Rightarrow> 'd rt \<Rightarrow> (int \<times> 'd rt) option" where
  "rt_suface_remove_dir jrp s =
     (if dupkey jrp = ''/'' then do { s1 \<leftarrow> rt_remove_all False (root s) s; Some (0, s1) }
      else if depth jrp \<noteq> 1 then Some (-1, s)
      else do {
        reached \<leftarrow> rt_reach_last_scope jrp s;
        case reached of
          None \<Rightarrow> Some (-1, s)
        | Some a \<Rightarrow> do { (_, s1) \<leftarrow> rt_suface_delete_dir a s; Some (0, s1) }
      })"

end
