(* ===== verification/Config.thy ===== *)
theory Config
  imports Runtime
begin

text \<open>
  The contract of the configuration store: the invariant of the node store, that the operations
  which add and change entries keep it, and that a value written under a key is the value read
  under that key. A separate theory holds the model (\<open>Runtime\<close>); this one holds its proofs.
\<close>

section \<open>The invariant of the node store\<close>

definition child_levels :: "JSL \<Rightarrow> JSL set" where
  "child_levels l =
     (case l of JSL_DIR \<Rightarrow> {JSL_ARCHIVE}
      | JSL_ARCHIVE \<Rightarrow> {JSL_LOGIC_SCOPE, JSL_FIELD, JSL_ARRAY}
      | JSL_LOGIC_SCOPE \<Rightarrow> {JSL_LOGIC_SCOPE, JSL_FIELD, JSL_ARRAY}
      | JSL_ARRAY_ITEM \<Rightarrow> {JSL_LOGIC_SCOPE, JSL_FIELD, JSL_ARRAY}
      | _ \<Rightarrow> {})"

text \<open>
  A live node: its index is a balanced search tree over the names of live children that point
  back to it and have a level allowed below it; only array nodes have items, and these are live,
  distinct, counted, point back and are objects or values.
\<close>

definition child_ok :: "'d rt \<Rightarrow> addr option \<Rightarrow> JSL set \<Rightarrow> scope_index \<Rightarrow> bool" where
  "child_ok s pa ls x \<longleftrightarrow>
     (\<exists>m. nmem s (snd x) = Some m \<and> scope_name m = fst x \<and> parentnode m = pa \<and> njsl m \<in> ls)"

definition item_ok :: "'d rt \<Rightarrow> addr \<Rightarrow> addr \<Rightarrow> bool" where
  "item_ok s pa b \<longleftrightarrow>
     (\<exists>m. nmem s b = Some m \<and> parentnode m = Some pa \<and> njsl m \<in> {JSL_ARRAY_ITEM, JSL_ARRAY_ITEM_AS_FIELD})"

definition node_ok :: "'d rt \<Rightarrow> addr \<Rightarrow> node \<Rightarrow> bool" where
  "node_ok s a n \<longleftrightarrow>
     a < nnext s \<and> wf_index (next_scope n) \<and>
     (\<forall>x\<in>elems (next_scope n). child_ok s (Some a) (child_levels (njsl n)) x) \<and>
     arraysize n = int (length (array n)) \<and> distinct (array n) \<and> (njsl n \<noteq> JSL_ARRAY \<longrightarrow> array n = []) \<and>
     (\<forall>b\<in>set (array n). item_ok s a b)"

definition rt_ok :: "'d rt \<Rightarrow> bool" where
  "rt_ok s \<longleftrightarrow>
     wf_index (root s) \<and> (\<forall>x\<in>elems (root s). child_ok s None {JSL_DIR} x) \<and>
     (\<forall>a n. nmem s a = Some n \<longrightarrow> node_ok s a n)"

lemma rt_ok_node: "rt_ok s \<Longrightarrow> nmem s a = Some n \<Longrightarrow> node_ok s a n"
  by (simp add: rt_ok_def)

lemma rt_ok_fresh: "rt_ok s \<Longrightarrow> nmem s (nnext s) = None"
  using rt_ok_node [of s "nnext s"] by (cases "nmem s (nnext s)") (auto simp: node_ok_def)

lemma wf_index_bst [simp]: "wf_index t \<Longrightarrow> bst scope_key t"
  by (simp add: wf_index_def)

lemma search_child:
  assumes "rt_ok s" "nmem s a = Some n" "scope_search (next_scope n) name = Some c"
  obtains m where "nmem s c = Some m" "fold_key (scope_name m) = fold_key name" "parentnode m = Some a"
    "njsl m \<in> child_levels (njsl n)"
proof -
  have "node_ok s a n" using assms by (simp add: rt_ok_node)
  with assms(3) obtain nm where "(nm, c) \<in> elems (next_scope n)" "fold_key nm = fold_key name"
    by (auto simp: node_ok_def scope_search_Some)
  with \<open>node_ok s a n\<close> that show ?thesis by (fastforce simp: node_ok_def child_ok_def)
qed

lemma search_root:
  assumes "rt_ok s" "scope_search (root s) name = Some c"
  obtains m where "nmem s c = Some m" "fold_key (scope_name m) = fold_key name" "parentnode m = None" "njsl m = JSL_DIR"
proof -
  have "wf_index (root s)" using assms by (simp add: rt_ok_def)
  with assms(2) obtain nm where "(nm, c) \<in> elems (root s)" "fold_key nm = fold_key name"
    by (auto simp: scope_search_Some)
  with assms(1) that show ?thesis by (fastforce simp: rt_ok_def child_ok_def)
qed

section \<open>Adding a node\<close>

text \<open>The node store after linking a new node into the index of its parent.\<close>

definition link_child :: "addr \<Rightarrow> node \<Rightarrow> string \<Rightarrow> node \<Rightarrow> 'd rt \<Rightarrow> 'd rt" where
  "link_child pa p name new s =
     s\<lparr>nmem := (nmem s)(nnext s \<mapsto> new, pa \<mapsto> p\<lparr>next_scope := scope_insert (next_scope p) name (nnext s),
         next_scope_size := next_scope_size p + 1\<rparr>), nnext := Suc (nnext s)\<rparr>"

definition link_item :: "addr \<Rightarrow> node \<Rightarrow> node \<Rightarrow> 'd rt \<Rightarrow> 'd rt" where
  "link_item pa p new s =
     s\<lparr>nmem := (nmem s)(nnext s \<mapsto> new, pa \<mapsto> p\<lparr>array := array p @ [nnext s], arraysize := arraysize p + 1\<rparr>),
       nnext := Suc (nnext s)\<rparr>"

lemma child_ok_mono:
  assumes "child_ok s pa ls x"
    and "\<And>a n. nmem s a = Some n \<Longrightarrow> \<exists>n'. nmem s' a = Some n' \<and> scope_name n' = scope_name n \<and>
      parentnode n' = parentnode n \<and> njsl n' = njsl n"
  shows "child_ok s' pa ls x"
proof -
  from assms(1) obtain m where m: "nmem s (snd x) = Some m" "scope_name m = fst x" "parentnode m = pa" "njsl m \<in> ls"
    by (auto simp: child_ok_def)
  from assms(2) [OF m(1)] m show ?thesis by (auto simp: child_ok_def)
qed

lemma item_ok_mono:
  assumes "item_ok s pa b"
    and "\<And>a n. nmem s a = Some n \<Longrightarrow> \<exists>n'. nmem s' a = Some n' \<and> parentnode n' = parentnode n \<and> njsl n' = njsl n"
  shows "item_ok s' pa b"
proof -
  from assms(1) obtain m where m: "nmem s b = Some m" "parentnode m = Some pa"
    "njsl m \<in> {JSL_ARRAY_ITEM, JSL_ARRAY_ITEM_AS_FIELD}" by (auto simp: item_ok_def)
  from assms(2) [OF m(1)] m show ?thesis by (auto simp: item_ok_def)
qed

lemma fresh_neq: "rt_ok s \<Longrightarrow> nmem s a = Some n \<Longrightarrow> a \<noteq> nnext s"
  using rt_ok_fresh by fastforce

lemma link_child_ok:
  assumes "rt_ok s" "nmem s pa = Some p" "scope_search (next_scope p) name = None"
    and "scope_name new = name" "parentnode new = Some pa" "njsl new \<in> child_levels (njsl p)"
    and "next_scope new = ET" "array new = []" "arraysize new = 0"
  shows "rt_ok (link_child pa p name new s)"
proof -
  let ?c = "nnext s" and ?s = "link_child pa p name new s"
  let ?p = "p\<lparr>next_scope := scope_insert (next_scope p) name ?c, next_scope_size := next_scope_size p + 1\<rparr>"
  have pc: "pa \<noteq> ?c" using fresh_neq [OF assms(1,2)] .
  have mem: "nmem ?s pa = Some ?p" "nmem ?s ?c = Some new" "\<And>a. a \<noteq> pa \<Longrightarrow> a \<noteq> ?c \<Longrightarrow> nmem ?s a = nmem s a"
    using pc by (auto simp: link_child_def)
  have keep: "\<exists>n'. nmem ?s a = Some n' \<and> scope_name n' = scope_name n \<and> parentnode n' = parentnode n \<and> njsl n' = njsl n"
    if "nmem s a = Some n" for a n
    using that mem assms(2) fresh_neq [OF assms(1) that] by (cases "a = pa") auto
  have keep': "\<exists>n'. nmem ?s a = Some n' \<and> parentnode n' = parentnode n \<and> njsl n' = njsl n"
    if "nmem s a = Some n" for a n using keep [OF that] by auto
  have up: "child_ok s q ls x \<Longrightarrow> child_ok ?s q ls x" "item_ok s pb b \<Longrightarrow> item_ok ?s pb b" for q ls x pb b
    by (erule child_ok_mono, erule keep) (erule item_ok_mono, erule keep')
  have pok: "node_ok s pa p" using assms by (simp add: rt_ok_node)
  have "node_ok ?s a n" if a: "nmem ?s a = Some n" for a n
  proof -
    consider "a = pa" | "a = ?c" | "a \<noteq> pa" "a \<noteq> ?c" by auto
    then show ?thesis
    proof cases
      case 1
      then have n: "n = ?p" using a mem by simp
      have "child_ok ?s (Some pa) (child_levels (njsl p)) (name, ?c)"
        using mem assms by (simp add: child_ok_def)
      moreover have "\<forall>b\<in>set (array p). item_ok ?s pa b" using pok up(2) by (simp add: node_ok_def)
      moreover have "\<forall>x\<in>elems (next_scope p). child_ok ?s (Some pa) (child_levels (njsl p)) x"
        using pok up(1) by (simp add: node_ok_def)
      moreover have "pa < nnext ?s" using pok by (simp add: node_ok_def link_child_def)
      ultimately show ?thesis
        using pok assms(3) unfolding 1 n by (simp add: node_ok_def elems_scope_insert wf_scope_insert)
    next
      case 2
      then show ?thesis using a mem assms by (auto simp: node_ok_def wf_index_def link_child_def)
    next
      case 3
      then have "node_ok s a n" using a mem assms(1) by (simp add: rt_ok_node)
      moreover have "nnext s \<le> nnext ?s" by (simp add: link_child_def)
      ultimately show ?thesis using up by (simp add: node_ok_def)
    qed
  qed
  moreover have "root ?s = root s" by (simp add: link_child_def)
  ultimately show ?thesis using assms(1) up by (auto simp: rt_ok_def)
qed

lemma link_item_ok:
  assumes "rt_ok s" "nmem s pa = Some p" "njsl p = JSL_ARRAY"
    and "parentnode new = Some pa" "njsl new \<in> {JSL_ARRAY_ITEM, JSL_ARRAY_ITEM_AS_FIELD}"
    and "next_scope new = ET" "array new = []" "arraysize new = 0"
  shows "rt_ok (link_item pa p new s)"
proof -
  let ?c = "nnext s" and ?s = "link_item pa p new s"
  let ?p = "p\<lparr>array := array p @ [?c], arraysize := arraysize p + 1\<rparr>"
  have pc: "pa \<noteq> ?c" using fresh_neq [OF assms(1,2)] .
  have mem: "nmem ?s pa = Some ?p" "nmem ?s ?c = Some new" "\<And>a. a \<noteq> pa \<Longrightarrow> a \<noteq> ?c \<Longrightarrow> nmem ?s a = nmem s a"
    using pc by (auto simp: link_item_def)
  have keep: "\<exists>n'. nmem ?s a = Some n' \<and> scope_name n' = scope_name n \<and> parentnode n' = parentnode n \<and> njsl n' = njsl n"
    if "nmem s a = Some n" for a n
    using that mem assms(2) fresh_neq [OF assms(1) that] by (cases "a = pa") auto
  have keep': "\<exists>n'. nmem ?s a = Some n' \<and> parentnode n' = parentnode n \<and> njsl n' = njsl n"
    if "nmem s a = Some n" for a n using keep [OF that] by auto
  have up: "child_ok s q ls x \<Longrightarrow> child_ok ?s q ls x" "item_ok s pb b \<Longrightarrow> item_ok ?s pb b" for q ls x pb b
    by (erule child_ok_mono, erule keep) (erule item_ok_mono, erule keep')
  have pok: "node_ok s pa p" using assms by (simp add: rt_ok_node)
  have old: "?c \<notin> set (array p)"
    using pok rt_ok_fresh [OF assms(1)] by (auto simp: node_ok_def item_ok_def)
  have "node_ok ?s a n" if a: "nmem ?s a = Some n" for a n
  proof -
    consider "a = pa" | "a = ?c" | "a \<noteq> pa" "a \<noteq> ?c" by auto
    then show ?thesis
    proof cases
      case 1
      then have n: "n = ?p" using a mem by simp
      have "item_ok ?s pa ?c" using mem assms by (simp add: item_ok_def)
      moreover have "\<forall>b\<in>set (array p). item_ok ?s pa b" using pok up(2) by (simp add: node_ok_def)
      moreover have "\<forall>x\<in>elems (next_scope p). child_ok ?s (Some pa) (child_levels (njsl p)) x"
        using pok up(1) by (simp add: node_ok_def)
      moreover have "pa < nnext ?s" using pok by (simp add: node_ok_def link_item_def)
      ultimately show ?thesis using pok old assms(3) unfolding 1 n by (simp add: node_ok_def)
    next
      case 2
      then show ?thesis using a mem assms by (auto simp: node_ok_def wf_index_def link_item_def)
    next
      case 3
      then have "node_ok s a n" using a mem assms(1) by (simp add: rt_ok_node)
      moreover have "nnext s \<le> nnext ?s" by (simp add: link_item_def)
      ultimately show ?thesis using up by (simp add: node_ok_def)
    qed
  qed
  moreover have "root ?s = root s" by (simp add: link_item_def)
  ultimately show ?thesis using assms(1) up by (auto simp: rt_ok_def)
qed

section \<open>Extension of the node store\<close>

text \<open>
  \<open>ext V s s'\<close>: every entry that could be reached in \<open>s\<close> is reached in the same way in \<open>s'\<close>, and the
  values of the nodes outside \<open>V\<close> are unchanged.
\<close>

definition node_ext :: "addr set \<Rightarrow> addr \<Rightarrow> node \<Rightarrow> node \<Rightarrow> bool" where
  "node_ext V a n n' \<longleftrightarrow>
     njsl n' = njsl n \<and> (\<forall>nm c. scope_search (next_scope n) nm = Some c \<longrightarrow> scope_search (next_scope n') nm = Some c) \<and>
     prefix (array n) (array n') \<and> arraysize n \<le> arraysize n' \<and> (a \<notin> V \<longrightarrow> scope_value n' = scope_value n)"

definition ext :: "addr set \<Rightarrow> 'd rt \<Rightarrow> 'd rt \<Rightarrow> bool" where
  "ext V s s' \<longleftrightarrow>
     root s' = root s \<and> (\<forall>a n. nmem s a = Some n \<longrightarrow> (\<exists>n'. nmem s' a = Some n' \<and> node_ext V a n n'))"

lemma node_ext_refl [simp]: "node_ext V a n n"
  by (simp add: node_ext_def)

lemma node_ext_trans: "node_ext V a n n' \<Longrightarrow> node_ext V a n' n'' \<Longrightarrow> node_ext V a n n''"
  unfolding node_ext_def by (auto intro: prefix_order.trans)

lemma ext_refl [simp]: "ext V s s"
  by (simp add: ext_def)

lemma ext_trans: "ext V s s' \<Longrightarrow> ext V s' s'' \<Longrightarrow> ext V s s''"
  unfolding ext_def by (metis node_ext_trans)

lemma ext_node:
  assumes "ext V s s'" "nmem s a = Some n"
  obtains n' where "nmem s' a = Some n'" "node_ext V a n n'"
  using assms by (auto simp: ext_def)

lemma rt_ok_unfold_cong:
  assumes "nmem s' = nmem s" "nnext s' = nnext s" "root s' = root s"
  shows "rt_ok s' = rt_ok s"
  using assms by (simp add: rt_ok_def node_ok_def child_ok_def item_ok_def)

lemma rt_ok_other [simp]: "rt_ok (s\<lparr>jm := m\<rparr>) = rt_ok s" "rt_ok (s\<lparr>fsv := f\<rparr>) = rt_ok s" "rt_ok (on_cache g s) = rt_ok s"
  by (rule rt_ok_unfold_cong; simp add: on_cache_def)+

lemma ext_other [simp]:
  "ext V s (s'\<lparr>jm := m\<rparr>) = ext V s s'" "ext V (s\<lparr>jm := m\<rparr>) s' = ext V s s'"
  "ext V s (s'\<lparr>fsv := f\<rparr>) = ext V s s'" "ext V (s\<lparr>fsv := f\<rparr>) s' = ext V s s'"
  "ext V s (on_cache g s') = ext V s s'" "ext V (on_cache g s) s' = ext V s s'"
  by (simp_all add: ext_def on_cache_def)

lemma link_child_ext:
  assumes "rt_ok s" "nmem s pa = Some p"
  shows "ext V s (link_child pa p name new s)"
proof -
  have "wf_index (next_scope p)" using assms by (auto dest: rt_ok_node simp: node_ok_def)
  then have "node_ext V pa p (p\<lparr>next_scope := scope_insert (next_scope p) name (nnext s),
      next_scope_size := next_scope_size p + 1\<rparr>)"
    by (simp add: node_ext_def names.search_insert_mono)
  with assms show ?thesis
    by (auto simp: ext_def link_child_def dest: fresh_neq)
qed

lemma link_item_ext:
  assumes "rt_ok s" "nmem s pa = Some p"
  shows "ext V s (link_item pa p new s)"
  using assms by (auto simp: ext_def link_item_def node_ext_def dest: fresh_neq)

section \<open>Allocation in terms of linking\<close>

lemma rt_link_scope_link:
  assumes "rt_link_scope pa p (nnext s) name j new m s = Some (b, s')"
  shows "b = nnext s" "\<exists>m1. s' = (link_child pa p name new s)\<lparr>jm := m1\<rparr>"
  using assms by (auto simp: rt_link_scope_def link_child_def split: bind_splits)

lemma rt_link_item_link:
  assumes "rt_link_item pa p (nnext s) j new m s = Some (b, s')"
  shows "b = nnext s" "\<exists>m1. s' = (link_item pa p new s)\<lparr>jm := m1\<rparr>"
  using assms by (auto simp: rt_link_item_def link_item_def split: bind_splits)

lemma link_child_nodes:
  assumes "rt_ok s" "nmem s pa = Some p"
  shows "nmem (link_child pa p name new s) (nnext s) = Some new"
    "nmem (link_child pa p name new s) pa = Some (p\<lparr>next_scope := scope_insert (next_scope p) name (nnext s),
      next_scope_size := next_scope_size p + 1\<rparr>)"
  using fresh_neq [OF assms] by (auto simp: link_child_def)

lemma link_item_nodes:
  assumes "rt_ok s" "nmem s pa = Some p"
  shows "nmem (link_item pa p new s) (nnext s) = Some new"
    "nmem (link_item pa p new s) pa = Some (p\<lparr>array := array p @ [nnext s], arraysize := arraysize p + 1\<rparr>)"
  using fresh_neq [OF assms] by (auto simp: link_item_def)

text \<open>What the caller sees of a child that was just linked.\<close>

definition fresh_child :: "'d rt \<Rightarrow> addr \<Rightarrow> string \<Rightarrow> addr \<Rightarrow> node \<Rightarrow> 'd rt \<Rightarrow> bool" where
  "fresh_child s pa name b new s' \<longleftrightarrow>
     rt_ok s' \<and> ext {} s s' \<and> nmem s' b = Some new \<and>
     (\<exists>p'. nmem s' pa = Some p' \<and> scope_search (next_scope p') name = Some b)"

lemma fresh_child_link:
  assumes "rt_ok s" "nmem s pa = Some p" "scope_search (next_scope p) name = None"
    and "scope_name new = name" "parentnode new = Some pa" "njsl new \<in> child_levels (njsl p)"
    and "next_scope new = ET" "array new = []" "arraysize new = 0"
  shows "fresh_child s pa name (nnext s) new ((link_child pa p name new s)\<lparr>jm := m\<rparr>)"
proof -
  have "wf_index (next_scope p)" using assms by (auto dest: rt_ok_node simp: node_ok_def)
  then have "scope_search (scope_insert (next_scope p) name (nnext s)) name = Some (nnext s)"
    using assms(3) by (rule names.search_insert_same)
  with link_child_ok [OF assms] link_child_ext [OF assms(1,2)] link_child_nodes [OF assms(1,2)]
  show ?thesis by (simp add: fresh_child_def)
qed

text \<open>An item that was just appended to an array.\<close>

definition fresh_item :: "'d rt \<Rightarrow> addr \<Rightarrow> node \<Rightarrow> addr \<Rightarrow> node \<Rightarrow> 'd rt \<Rightarrow> bool" where
  "fresh_item s pa p b new s' \<longleftrightarrow>
     rt_ok s' \<and> ext {} s s' \<and> nmem s' b = Some new \<and>
     (\<exists>p'. nmem s' pa = Some p' \<and> njsl p' = JSL_ARRAY \<and> array p' = array p @ [b] \<and> arraysize p' = arraysize p + 1)"

lemma fresh_item_link:
  assumes "rt_ok s" "nmem s pa = Some p" "njsl p = JSL_ARRAY"
    and "parentnode new = Some pa" "njsl new \<in> {JSL_ARRAY_ITEM, JSL_ARRAY_ITEM_AS_FIELD}"
    and "next_scope new = ET" "array new = []" "arraysize new = 0"
  shows "fresh_item s pa p (nnext s) new ((link_item pa p new s)\<lparr>jm := m\<rparr>)"
  using link_item_ok [OF assms] link_item_ext [OF assms(1,2)] link_item_nodes [OF assms(1,2)] assms(3)
  by (simp add: fresh_item_def)

text \<open>The nodes below which scopes, fields and arrays may be added.\<close>

definition holder :: "node \<Rightarrow> bool" where
  "holder p \<longleftrightarrow> njsl p \<in> {JSL_ARCHIVE, JSL_LOGIC_SCOPE, JSL_ARRAY_ITEM}"

lemma holder_levels: "holder p \<Longrightarrow> child_levels (njsl p) = {JSL_LOGIC_SCOPE, JSL_FIELD, JSL_ARRAY}"
  by (auto simp: holder_def child_levels_def)

lemma fresh_child_scope:
  assumes "rt_link_scope pa p (nnext s) name j new m s = Some (b, s')"
    and "rt_ok s" "nmem s pa = Some p" "scope_search (next_scope p) name = None"
    and "scope_name new = name" "parentnode new = Some pa" "njsl new \<in> child_levels (njsl p)"
    and "next_scope new = ET" "array new = []" "arraysize new = 0"
  shows "fresh_child s pa name b new s'"
  using rt_link_scope_link [OF assms(1)] fresh_child_link [OF assms(2-)] by auto

lemma fresh_item_array:
  assumes "rt_link_item pa p (nnext s) j new m s = Some (b, s')"
    and "rt_ok s" "nmem s pa = Some p" "njsl p = JSL_ARRAY"
    and "parentnode new = Some pa" "njsl new \<in> {JSL_ARRAY_ITEM, JSL_ARRAY_ITEM_AS_FIELD}"
    and "next_scope new = ET" "array new = []" "arraysize new = 0"
  shows "fresh_item s pa p b new s'"
  using rt_link_item_link [OF assms(1)] fresh_item_link [OF assms(2-)] by auto

lemma allocate_logic_scope:
  assumes "rt_allocate_logic_scope pa name s = Some (b, s')"
    and "rt_ok s" "nmem s pa = Some p" "scope_search (next_scope p) name = None" "holder p"
  obtains new where "fresh_child s pa name b new s'" "njsl new = JSL_LOGIC_SCOPE" "next_scope new = ET"
  using assms(1,3)
  by (clarsimp simp: rt_allocate_logic_scope_def split: prod.splits)
    (rule that, erule fresh_child_scope, use assms in \<open>simp_all add: blank_node_def holder_levels\<close>)

lemma allocate_field:
  assumes "rt_allocate_field pa name val s = Some (b, s')"
    and "rt_ok s" "nmem s pa = Some p" "scope_search (next_scope p) name = None" "holder p"
  obtains new where "fresh_child s pa name b new s'" "njsl new = JSL_FIELD" "scope_value new = val"
  using assms(1,3)
  by (clarsimp simp: rt_allocate_field_def split: prod.splits)
    (rule that, erule fresh_child_scope, use assms in \<open>simp_all add: blank_node_def holder_levels\<close>)

lemma allocate_array:
  assumes "rt_allocate_array pa name s = Some (b, s')"
    and "rt_ok s" "nmem s pa = Some p" "scope_search (next_scope p) name = None" "holder p"
  obtains new where "fresh_child s pa name b new s'" "njsl new = JSL_ARRAY" "array new = []" "arraysize new = 0"
  using assms(1,3)
  by (clarsimp simp: rt_allocate_array_def split: prod.splits)
    (rule that, erule fresh_child_scope, use assms in \<open>simp_all add: blank_node_def holder_levels\<close>)

lemma allocate_array_item:
  assumes "rt_allocate_array_item pa s = Some (b, s')"
    and "rt_ok s" "nmem s pa = Some p" "njsl p = JSL_ARRAY"
  obtains new where "fresh_item s pa p b new s'" "njsl new = JSL_ARRAY_ITEM" "next_scope new = ET"
  using assms(1,3)
  by (clarsimp simp: rt_allocate_array_item_def split: prod.splits)
    (rule that, erule fresh_item_array, use assms in \<open>simp_all add: blank_node_def holder_levels\<close>)

lemma allocate_array_field:
  assumes "rt_allocate_array_field pa val s = Some (b, s')"
    and "rt_ok s" "nmem s pa = Some p" "njsl p = JSL_ARRAY"
  obtains new where "fresh_item s pa p b new s'" "njsl new = JSL_ARRAY_ITEM_AS_FIELD" "scope_value new = val"
  using assms(1,3)
  by (clarsimp simp: rt_allocate_array_field_def split: prod.splits)
    (rule that, erule fresh_item_array, use assms in \<open>simp_all add: blank_node_def holder_levels\<close>)

lemma create_archive:
  assumes "ldr_create_archive pa name json s = Some (Some b, s')"
    and "rt_ok s" "nmem s pa = Some p" "scope_search (next_scope p) name = None" "CHR ''.'' \<notin> set name"
  obtains new where "njsl new = JSL_ARCHIVE" "next_scope new = ET" "nmem s' b = Some new"
    "\<And>k. fresh_child s pa name b (new\<lparr>nsection := k\<rparr>) (nput b (new\<lparr>nsection := k\<rparr>) s')"
proof -
  have sn: "archive_scope_name name = name"
    using assms(5) strchr_None [of "rev name" "CHR ''.''"] by (simp add: archive_scope_name_def)
  have dir: "njsl p = JSL_DIR" using assms(1,3) by (auto split: if_splits simp: ldr_create_archive_def)
  let ?new = "\<lambda>j. blank_node\<lparr>scope_name := name, scope_value := scope_value p @ name @ ''.json'', njsl := JSL_ARCHIVE,
                        jsonptr := Some j, parentnode := Some pa, nsection := -1\<rparr>"
  obtain j m where jm: "(case json of Some j \<Rightarrow> (j, jm s) | None \<Rightarrow> cJSON_CreateObject (jm s)) = (j, m)"
    by (meson surj_pair)
  have b: "b = nnext s" and s': "s' = (link_child pa p name (?new j) s)\<lparr>jm := m\<rparr>"
    using assms(1,3) dir jm
    by (auto simp: ldr_create_archive_def sn nnew_def nput_def link_child_def Let_def split: if_splits)
  have "fresh_child s pa name (nnext s) ((?new j)\<lparr>nsection := k\<rparr>)
      ((link_child pa p name ((?new j)\<lparr>nsection := k\<rparr>) s)\<lparr>jm := m\<rparr>)" for k
    by (rule fresh_child_link) (use assms dir in \<open>simp_all add: blank_node_def child_levels_def\<close>)
  moreover have "nput b ((?new j)\<lparr>nsection := k\<rparr>) s' = (link_child pa p name ((?new j)\<lparr>nsection := k\<rparr>) s)\<lparr>jm := m\<rparr>" for k
    using fresh_neq [OF assms(2,3)] by (auto simp: b s' nput_def link_child_def fun_eq_iff)
  ultimately show ?thesis
    using link_child_nodes [OF assms(2,3)] b s' by (intro that [of "?new j"]) (simp_all add: blank_node_def)
qed

section \<open>Reading below a node\<close>

text \<open>The step of the search at the node found for a segment.\<close>

definition search_at :: "string \<Rightarrow> segment \<Rightarrow> segment list \<Rightarrow> addr \<Rightarrow> 'd rt \<Rightarrow> string option option" where
  "search_at dv sg rest a s =
     rt_search_loop dv (sg # rest) (TN ET (sname sg, a) 0 ET) s"

lemma search_single: "scope_search (TN ET (name, a) 0 ET) name = Some a"
  using names.search_insert_same [of ET name a] by (simp add: scope_insert_def wf_index_def scope_search_def)

lemma search_step:
  "scope_search t (sname sg) = Some a \<Longrightarrow> rt_search_loop dv (sg # rest) t s = search_at dv sg rest a s"
  by (simp add: search_at_def search_single)

lemmas search_at_simps = search_at_def search_single

lemma search_at_field:
  "nmem s a = Some n \<Longrightarrow> njsl n = JSL_FIELD \<Longrightarrow> sjsl sg = JSL_FIELD \<Longrightarrow>
   search_at dv sg [] a s = Some (Some (scope_value n))"
  by (simp add: search_at_simps)

lemma search_at_logic:
  "nmem s a = Some n \<Longrightarrow> njsl n = JSL_LOGIC_SCOPE \<Longrightarrow> sjsl sg = JSL_LOGIC_SCOPE \<Longrightarrow> rest \<noteq> [] \<Longrightarrow>
   search_at dv sg rest a s = rt_search_loop dv rest (next_scope n) s"
  by (simp add: search_at_simps)

lemma search_at_upper:
  "nmem s a = Some n \<Longrightarrow> njsl n = JSL_DIR \<or> njsl n = JSL_ARCHIVE \<Longrightarrow> rest \<noteq> [] \<Longrightarrow>
   search_at dv sg rest a s = rt_search_loop dv rest (next_scope n) s"
  by (auto simp: search_at_simps)

text \<open>A plain index: none, or a number.\<close>

definition plain_index :: "segment \<Rightarrow> bool" where
  "plain_index sg \<longleftrightarrow> -1 \<le> index sg \<and> index sg < MAX_ARY_SIZE"

lemma plain_index_sym:
  "plain_index sg \<Longrightarrow> index sg \<noteq> JA_SYM_LAST \<and> index sg \<noteq> JA_SYM_ADD \<and> index sg \<noteq> JA_SYM_ENTIRE \<and> index sg \<noteq> JA_SYM_QUERY_SIZE"
  by (simp add: plain_index_def MAX_ARY_SIZE_def ja_sym_values)

lemma search_at_array:
  assumes "nmem s a = Some n" "njsl n = JSL_ARRAY" "sjsl sg = JSL_ARRAY" "plain_index sg"
    and "0 \<le> index sg" "nat (index sg) < length (array n)" "arraysize n = int (length (array n))"
    and "array n ! nat (index sg) = b" "nmem s b = Some it"
  shows "njsl it = JSL_ARRAY_ITEM_AS_FIELD \<Longrightarrow> search_at dv sg [] a s = Some (Some (scope_value it))"
    and "njsl it = JSL_ARRAY_ITEM \<Longrightarrow> rest \<noteq> [] \<Longrightarrow>
      search_at dv sg rest a s = rt_search_loop dv rest (next_scope it) s"
proof -
  have ne: "array n \<noteq> []" "arraysize n > 0" "index sg < arraysize n" using assms(5-7) by auto
  show "njsl it = JSL_ARRAY_ITEM_AS_FIELD \<Longrightarrow> search_at dv sg [] a s = Some (Some (scope_value it))"
    and "njsl it = JSL_ARRAY_ITEM \<Longrightarrow> rest \<noteq> [] \<Longrightarrow>
      search_at dv sg rest a s = rt_search_loop dv rest (next_scope it) s"
    using assms ne plain_index_sym [OF assms(4)] by (simp_all add: search_at_simps rt_seek_array_node_def)
qed

text \<open>
  The segments of a key from level \<open>k\<close> on, as the parser produces them, with plain indices.
\<close>

fun path_ok :: "nat \<Rightarrow> segment list \<Rightarrow> bool" where
  "path_ok k [] \<longleftrightarrow> True"
| "path_ok k (sg # rest) \<longleftrightarrow>
     plain_index sg \<and> CHR ''.'' \<notin> set (sname sg) \<and>
     sjsl sg = (if k = 0 then JSL_DIR else if k = 1 then JSL_ARCHIVE
                else if 0 \<le> index sg then JSL_ARRAY else if rest = [] then JSL_FIELD else JSL_LOGIC_SCOPE) \<and>
     path_ok (Suc k) rest"

lemma path_ok_drop:
  assumes "wf_path segs" "\<forall>sg\<in>set segs. plain_index sg" "k \<le> length segs"
  shows "path_ok k (drop k segs)"
  using assms(3)
proof (induction "length segs - k" arbitrary: k)
  case (Suc x)
  then have k: "k < length segs" by simp
  then have "wf_seg k (segs ! k)" "sjsl (segs ! k) = seg_level (length segs) k (index (segs ! k))"
    using assms(1) by (auto simp: wf_path_def)
  moreover have "path_ok (Suc k) (drop (Suc k) segs)" using Suc k by simp
  ultimately show ?case
    using k assms(2) by (auto simp: Cons_nth_drop_Suc [symmetric] wf_seg_def seg_level_def)
qed simp

lemma path_ok_wf: "wf_path segs \<Longrightarrow> \<forall>sg\<in>set segs. plain_index sg \<Longrightarrow> path_ok 0 segs"
  using path_ok_drop [of segs 0] by simp

declare rt_search_loop.simps(2) [simp del]

section \<open>Reading what was appended\<close>

lemma fresh_child_later:
  assumes "fresh_child s pa name b new s1" "ext {} s1 s'"
  obtains p' new' where "nmem s' pa = Some p'" "scope_search (next_scope p') name = Some b"
    "nmem s' b = Some new'" "node_ext {} b new new'"
proof -
  obtain q where q: "nmem s1 pa = Some q" "scope_search (next_scope q) name = Some b" and b: "nmem s1 b = Some new"
    using assms(1) by (auto simp: fresh_child_def)
  obtain p' where p': "nmem s' pa = Some p'" "node_ext {} pa q p'" using ext_node [OF assms(2) q(1)] .
  obtain new' where new': "nmem s' b = Some new'" "node_ext {} b new new'" using ext_node [OF assms(2) b] .
  have "scope_search (next_scope p') name = Some b" using p'(2) q(2) by (simp add: node_ext_def)
  with p' new' show ?thesis using that by blast
qed

lemma fresh_item_later:
  assumes "fresh_item s pa p b new s1" "ext {} s1 s'" "rt_ok s'" "arraysize p = int (length (array p))"
  obtains p' new' where "nmem s' pa = Some p'" "njsl p' = JSL_ARRAY" "length (array p) < length (array p')"
    "array p' ! length (array p) = b" "arraysize p' = int (length (array p'))"
    "nmem s' b = Some new'" "node_ext {} b new new'"
proof -
  obtain q where q: "nmem s1 pa = Some q" "njsl q = JSL_ARRAY" "array q = array p @ [b]" and b: "nmem s1 b = Some new"
    using assms(1) by (auto simp: fresh_item_def)
  obtain p' where p': "nmem s' pa = Some p'" "node_ext {} pa q p'" using ext_node [OF assms(2) q(1)] .
  obtain new' where new': "nmem s' b = Some new'" "node_ext {} b new new'" using ext_node [OF assms(2) b] .
  have "arraysize p' = int (length (array p'))" using assms(3) p'(1) by (auto dest: rt_ok_node simp: node_ok_def)
  moreover have "length (array p) < length (array p')" "array p' ! length (array p) = b" "njsl p' = JSL_ARRAY"
    using p'(2) q by (auto simp: node_ext_def prefix_def nth_append)
  ultimately show ?thesis using that p'(1) new' by blast
qed

text \<open>Add an item to an existing array, with what follows it.\<close>

definition append_item :: "string \<Rightarrow> segment list \<Rightarrow> addr \<Rightarrow> 'd rt \<Rightarrow> (int \<times> addr option \<times> 'd rt) option" where
  "append_item val rest arr s =
     (if rest = [] then do { (_, s2) \<leftarrow> rt_allocate_array_field arr val s; Some (0, None, s2) }
      else do { (b, s2) \<leftarrow> rt_allocate_array_item arr s; rt_append val rest b s2 })"

text \<open>
  The claim about an append below \<open>b\<close>: the state stays well formed, nothing that was there is
  lost, and the new key reads the value.
\<close>

definition append_goal :: "string \<Rightarrow> segment list \<Rightarrow> addr \<Rightarrow> 'd rt \<Rightarrow> 'd rt \<Rightarrow> bool" where
  "append_goal val segs b s s' \<longleftrightarrow>
     rt_ok s' \<and> ext {} s s' \<and> (\<forall>dv. rt_search_loop dv segs (next_scope (the (nmem s' b))) s' = Some (Some val))"

lemma append_item_reads:
  assumes "append_item val rest arr s = Some (ret, ar, s')" "0 \<le> ret"
    and "rt_ok s" "nmem s arr = Some p" "njsl p = JSL_ARRAY" "index sg = arraysize p" "plain_index sg" "sjsl sg = JSL_ARRAY"
    and IH: "\<And>b nb s1 ar. rest \<noteq> [] \<Longrightarrow> rt_append val rest b s1 = Some (ret, ar, s') \<Longrightarrow> rt_ok s1 \<Longrightarrow> nmem s1 b = Some nb \<Longrightarrow>
        njsl nb = JSL_ARRAY_ITEM \<Longrightarrow> next_scope nb = ET \<Longrightarrow> append_goal val rest b s1 s'"
  shows "rt_ok s' \<and> ext {} s s' \<and> search_at dv sg rest arr s' = Some (Some val)"
proof -
  have size: "arraysize p = int (length (array p))" using assms(3,4) by (auto dest: rt_ok_node simp: node_ok_def)
  have idx: "0 \<le> index sg" "nat (index sg) = length (array p)" using assms(6) size by auto
  show ?thesis
  proof (cases "rest = []")
    case True
    then obtain b where "rt_allocate_array_field arr val s = Some (b, s')"
      using assms(1) by (auto simp: append_item_def split: bind_splits)
    then obtain new where f: "fresh_item s arr p b new s'" "njsl new = JSL_ARRAY_ITEM_AS_FIELD" "scope_value new = val"
      using assms(3-5) by (rule allocate_array_field)
    then have ok: "rt_ok s'" "ext {} s s'" by (auto simp: fresh_item_def)
    from f(1) ext_refl ok(1) size obtain p' new' where l: "nmem s' arr = Some p'" "njsl p' = JSL_ARRAY"
      "length (array p) < length (array p')" "array p' ! length (array p) = b"
      "arraysize p' = int (length (array p'))" "nmem s' b = Some new'" "node_ext {} b new new'"
      by (rule fresh_item_later)
    have "search_at dv sg [] arr s' = Some (Some (scope_value new'))"
      by (rule search_at_array(1)) (use l f assms idx in \<open>auto simp: node_ext_def\<close>)
    with l(7) f ok True show ?thesis by (simp add: node_ext_def)
  next
    case False
    then obtain b s1 where a: "rt_allocate_array_item arr s = Some (b, s1)" "rt_append val rest b s1 = Some (ret, ar, s')"
      using assms(1) by (auto simp: append_item_def split: bind_splits)
    from a(1) assms(3-5) obtain new where f: "fresh_item s arr p b new s1" "njsl new = JSL_ARRAY_ITEM" "next_scope new = ET"
      by (rule allocate_array_item)
    then have g: "append_goal val rest b s1 s'"
      by (intro IH [OF False a(2)]) (auto simp: fresh_item_def)
    then have ok: "rt_ok s'" "ext {} s1 s'" by (auto simp: append_goal_def)
    from f(1) ok(2,1) size obtain p' new' where l: "nmem s' arr = Some p'" "njsl p' = JSL_ARRAY"
      "length (array p) < length (array p')" "array p' ! length (array p) = b"
      "arraysize p' = int (length (array p'))" "nmem s' b = Some new'" "node_ext {} b new new'"
      by (rule fresh_item_later)
    have "search_at dv sg rest arr s' = rt_search_loop dv rest (next_scope new') s'"
      by (rule search_at_array(2)) (use l f assms idx False in \<open>auto simp: node_ext_def\<close>)
    moreover have "ext {} s s1" using f(1) by (simp add: fresh_item_def)
    ultimately show ?thesis using g ok l(6) by (auto simp: append_goal_def intro: ext_trans)
  qed
qed

text \<open>The path level of a node: what kind of segment may follow it.\<close>

definition rank_ok :: "nat \<Rightarrow> node \<Rightarrow> bool" where
  "rank_ok k n \<longleftrightarrow> (k = 1 \<and> njsl n = JSL_DIR) \<or> (2 \<le> k \<and> holder n)"

lemma append_goalI:
  assumes "fresh_child s pa (sname sg) b new s1" "rt_ok s'" "ext {} s1 s'"
    and "\<And>dv new'. nmem s' b = Some new' \<Longrightarrow> node_ext {} b new new' \<Longrightarrow> search_at dv sg rest b s' = Some (Some val)"
  shows "append_goal val (sg # rest) pa s s'"
proof -
  from assms(1,3) obtain p' new' where l: "nmem s' pa = Some p'" "scope_search (next_scope p') (sname sg) = Some b"
    "nmem s' b = Some new'" "node_ext {} b new new'" by (rule fresh_child_later)
  have "ext {} s s1" using assms(1) by (simp add: fresh_child_def)
  then have "ext {} s s'" using assms(3) by (rule ext_trans)
  with assms(2) assms(4) [OF l(3,4)] show ?thesis
    using l(1) by (simp add: append_goal_def search_step [OF l(2)])
qed

lemma append_archive_cases:
  assumes "rt_append val (sg # rest) a s = Some (ret, ar, s')" "sjsl sg = JSL_ARCHIVE" "0 \<le> ret" "nmem s a = Some n"
  obtains b nb k L ar' s2 where "ldr_create_archive a (sname sg) None (on_cache (\<lambda>_. L) s) = Some (Some b, s2)"
    "nmem s2 b = Some nb" "rt_append val rest b (nput b (nb\<lparr>nsection := k\<rparr>) s2) = Some (ret, ar', s')"
  using assms
  by (auto split: bind_splits option.splits if_splits prod.splits simp: Let_def)

lemma rt_append_reads:
  assumes "rt_append val segs b s = Some (ret, ar, s')" "0 \<le> ret"
    and "rt_ok s" "nmem s b = Some p" "path_ok k segs" "rank_ok k p"
    and "segs \<noteq> []" "scope_search (next_scope p) (sname (hd segs)) = None" "k = 1 \<Longrightarrow> tl segs \<noteq> []"
  shows "append_goal val segs b s s'"
  using assms
proof (induction segs arbitrary: b s ar p k)
  case Nil
  then show ?case by simp
next
  case (Cons sg rest)
  note ok = Cons.prems(3) and p = Cons.prems(4) and k = Cons.prems(6)
  have no: "scope_search (next_scope p) (sname sg) = None" using Cons.prems(8) by simp
  have next_ok: "append_goal val rest b' s1 s'"
    if "rt_append val rest b' s1 = Some (ret, ar', s')" "rt_ok s1" "nmem s1 b' = Some n" "next_scope n = ET"
      "rank_ok (Suc k) n" "rest \<noteq> []" for b' s1 ar' n
    using that Cons.prems(2,5,6)
    by (intro Cons.IH [OF that(1) _ that(2,3) _ that(5)]) (auto simp: names.search_empty rank_ok_def)
  consider "k = 1" "njsl p = JSL_DIR" "sjsl sg = JSL_ARCHIVE" "rest \<noteq> []"
    | "2 \<le> k" "holder p" "sjsl sg = JSL_FIELD" "rest = []" | "2 \<le> k" "holder p" "sjsl sg = JSL_LOGIC_SCOPE" "rest \<noteq> []"
    | "2 \<le> k" "holder p" "sjsl sg = JSL_ARRAY" "0 \<le> index sg"
    using k Cons.prems(5,9) by (auto simp: rank_ok_def split: if_splits)
  then show ?case
  proof cases
    case 1
    from Cons.prems(1) 1(3) Cons.prems(2) p obtain c nb kk L ar' s2
      where c: "ldr_create_archive b (sname sg) None (on_cache (\<lambda>_. L) s) = Some (Some c, s2)"
        "nmem s2 c = Some nb" "rt_append val rest c (nput c (nb\<lparr>nsection := kk\<rparr>) s2) = Some (ret, ar', s')"
      by (rule append_archive_cases)
    have "rt_ok (on_cache (\<lambda>_. L) s)" "nmem (on_cache (\<lambda>_. L) s) b = Some p" using ok p by (simp_all add: on_cache_def)
    with c(1) obtain new where new: "njsl new = JSL_ARCHIVE" "next_scope new = ET" "nmem s2 c = Some new"
      "\<And>k. fresh_child (on_cache (\<lambda>_. L) s) b (sname sg) c (new\<lparr>nsection := k\<rparr>) (nput c (new\<lparr>nsection := k\<rparr>) s2)"
      using no Cons.prems(5) by (elim create_archive) auto
    have nb: "nb = new" using c(2) new(3) by simp
    have f: "fresh_child s b (sname sg) c (nb\<lparr>nsection := kk\<rparr>) (nput c (nb\<lparr>nsection := kk\<rparr>) s2)"
      using new(4) [of kk] unfolding nb fresh_child_def by simp
    have g: "append_goal val rest c (nput c (nb\<lparr>nsection := kk\<rparr>) s2) s'"
      by (rule next_ok [OF c(3), of "nb\<lparr>nsection := kk\<rparr>"]) (use f 1 new nb in \<open>auto simp: fresh_child_def rank_ok_def holder_def\<close>)
    then have g': "rt_ok s'" "ext {} (nput c (nb\<lparr>nsection := kk\<rparr>) s2) s'" by (auto simp: append_goal_def)
    from f g' show ?thesis
    proof (rule append_goalI)
      fix dv new' assume n': "nmem s' c = Some new'" "node_ext {} c (nb\<lparr>nsection := kk\<rparr>) new'"
      then have "njsl new' = JSL_ARCHIVE" using new nb by (simp add: node_ext_def)
      with search_at_upper [OF n'(1) _ 1(4)] g n'(1) show "search_at dv sg rest c s' = Some (Some val)"
        by (simp add: append_goal_def)
    qed
  next
    case 2
    then obtain c where c: "rt_allocate_field b (sname sg) val s = Some (c, s')"
      using Cons.prems(1) by (auto split: bind_splits)
    from c ok p no 2(2) obtain new where f: "fresh_child s b (sname sg) c new s'" "njsl new = JSL_FIELD" "scope_value new = val"
      by (rule allocate_field)
    from f(1) show ?thesis
    proof (rule append_goalI)
      show "rt_ok s'" "ext {} s' s'" using f(1) by (auto simp: fresh_child_def)
    next
      fix dv new' assume "nmem s' c = Some new'" "node_ext {} c new new'"
      with f 2 show "search_at dv sg rest c s' = Some (Some val)"
        using search_at_field [of s' c new' sg dv] by (simp add: node_ext_def)
    qed
  next
    case 3
    then obtain c s1 where c: "rt_allocate_logic_scope b (sname sg) s = Some (c, s1)" "rt_append val rest c s1 = Some (ret, ar, s')"
      using Cons.prems(1) by (auto split: bind_splits)
    from c(1) ok p no 3(2) obtain new where f: "fresh_child s b (sname sg) c new s1" "njsl new = JSL_LOGIC_SCOPE" "next_scope new = ET"
      by (rule allocate_logic_scope)
    have g: "append_goal val rest c s1 s'"
      by (rule next_ok [OF c(2), of new]) (use f 3 in \<open>auto simp: fresh_child_def rank_ok_def holder_def\<close>)
    then have g': "rt_ok s'" "ext {} s1 s'" by (auto simp: append_goal_def)
    from f(1) g' show ?thesis
    proof (rule append_goalI)
      fix dv new' assume n': "nmem s' c = Some new'" "node_ext {} c new new'"
      then have "njsl new' = JSL_LOGIC_SCOPE" using f by (simp add: node_ext_def)
      with search_at_logic [OF n'(1) _ 3(3,4)] g n'(1) show "search_at dv sg rest c s' = Some (Some val)"
        by (simp add: append_goal_def)
    qed
  next
    case 4
    have np: "njsl p \<noteq> JSL_ARRAY" using 4(2) by (auto simp: holder_def)
    obtain c s1 q where c: "rt_allocate_array b (sname sg) s = Some (c, s1)" "nmem s1 c = Some q"
      "index sg = arraysize q \<or> index sg = JA_SYM_ADD" "append_item val rest c s1 = Some (ret, ar, s')"
      using Cons.prems(1,2) p np 4(3) by (auto simp: append_item_def split: bind_splits if_splits)
    from c(1) ok p no 4(2) obtain new where f: "fresh_child s b (sname sg) c new s1" "njsl new = JSL_ARRAY"
      "array new = []" "arraysize new = 0" by (rule allocate_array)
    have plain: "plain_index sg" using Cons.prems(5) by simp
    have q: "q = new" "rt_ok s1" using f(1) c(2) by (auto simp: fresh_child_def)
    have i: "index sg = arraysize q" using c(3) plain_index_sym [OF plain] by simp
    have g: "rt_ok s' \<and> ext {} s1 s' \<and> search_at dv sg rest c s' = Some (Some val)" for dv
    proof (rule append_item_reads [OF c(4) Cons.prems(2) q(2) c(2) _ i plain 4(3)])
      show "njsl q = JSL_ARRAY" using q f by simp
      show "append_goal val rest b' s2 s'"
        if "rest \<noteq> []" "rt_append val rest b' s2 = Some (ret, ar', s')" "rt_ok s2" "nmem s2 b' = Some nb"
          "njsl nb = JSL_ARRAY_ITEM" "next_scope nb = ET" for b' nb s2 ar'
        using that 4(1) by (intro next_ok [OF that(2-4)]) (auto simp: rank_ok_def holder_def)
    qed
    from f(1) show ?thesis by (rule append_goalI) (use g in auto)
  qed
qed

section \<open>The update reaches the node the search reads\<close>

definition tree_of :: "'d rt \<Rightarrow> addr option \<Rightarrow> scope_index avltree" where
  "tree_of s prev = (case prev of None \<Rightarrow> root s | Some b \<Rightarrow> (case nmem s b of Some n \<Rightarrow> next_scope n | None \<Rightarrow> ET))"

lemma tree_of_None [simp]: "tree_of s None = root s"
  by (simp add: tree_of_def)

lemma tree_of_Some: "nmem s b = Some n \<Longrightarrow> tree_of s (Some b) = next_scope n"
  by (simp add: tree_of_def)

definition prev_at :: "nat \<Rightarrow> addr option \<Rightarrow> 'd rt \<Rightarrow> bool" where
  "prev_at k prev s \<longleftrightarrow> (case prev of None \<Rightarrow> k = 0 | Some b \<Rightarrow> (\<exists>p. nmem s b = Some p \<and> rank_ok k p))"

lemma found_node:
  assumes "prev_at k prev s" "rt_ok s" "scope_search (tree_of s prev) nm = Some a"
  obtains n where "nmem s a = Some n"
    "(k = 0 \<and> njsl n = JSL_DIR) \<or> (k = 1 \<and> njsl n = JSL_ARCHIVE) \<or>
     (2 \<le> k \<and> njsl n \<in> {JSL_LOGIC_SCOPE, JSL_FIELD, JSL_ARRAY})"
proof (cases prev)
  case None
  with assms have "scope_search (root s) nm = Some a" "k = 0" by (auto simp: prev_at_def)
  with search_root [OF assms(2)] that show ?thesis by metis
next
  case (Some b)
  with assms obtain p where p: "nmem s b = Some p" "rank_ok k p" by (auto simp: prev_at_def)
  with assms Some have "scope_search (next_scope p) nm = Some a" by (simp add: tree_of_Some)
  from search_child [OF assms(2) p(1) this] obtain m where "nmem s a = Some m" "njsl m \<in> child_levels (njsl p)" by metis
  with p(2) that [of m] show ?thesis by (auto simp: rank_ok_def holder_def child_levels_def)
qed

lemma found_later:
  assumes "ext V s s'" "scope_search (tree_of s prev) nm = Some a" "prev_at k prev s"
  shows "scope_search (tree_of s' prev) nm = Some a"
proof (cases prev)
  case None
  with assms show ?thesis by (simp add: ext_def)
next
  case (Some b)
  with assms obtain p where p: "nmem s b = Some p" by (auto simp: prev_at_def)
  from ext_node [OF assms(1) this] obtain p' where "nmem s' b = Some p'" "node_ext V b p p'" .
  with assms p Some show ?thesis by (simp add: tree_of_Some node_ext_def)
qed

lemma no_children:
  assumes "rt_ok s" "nmem s a = Some n" "child_levels (njsl n) = {}"
  shows "scope_search (next_scope n) nm = None"
proof (rule ccontr)
  assume "scope_search (next_scope n) nm \<noteq> None"
  then obtain c where "scope_search (next_scope n) nm = Some c" by blast
  from search_child [OF assms(1,2) this] assms(3) show False by auto
qed

text \<open>In every later state, searching \<open>segs\<close> from \<open>prev\<close> comes down to searching from the node.\<close>

definition reads_at :: "'d rt \<Rightarrow> segment list \<Rightarrow> addr option \<Rightarrow> segment \<Rightarrow> segment list \<Rightarrow> addr \<Rightarrow> bool" where
  "reads_at s segs prev sg rest a \<longleftrightarrow>
     (\<forall>V s' dv. ext V s s' \<longrightarrow> rt_ok s' \<longrightarrow> rt_search_loop dv segs (tree_of s' prev) s' = search_at dv sg rest a s')"

definition reads_below :: "'d rt \<Rightarrow> segment list \<Rightarrow> addr option \<Rightarrow> segment list \<Rightarrow> addr \<Rightarrow> bool" where
  "reads_below s segs prev rest b \<longleftrightarrow>
     (\<forall>V s' dv. ext V s s' \<longrightarrow> rt_ok s' \<longrightarrow>
        rt_search_loop dv segs (tree_of s' prev) s' = rt_search_loop dv rest (tree_of s' (Some b)) s')"

definition reach_ok :: "nat \<Rightarrow> segment list \<Rightarrow> addr option \<Rightarrow> 'd rt \<Rightarrow> reach \<Rightarrow> bool" where
  "reach_ok k segs prev s r \<longleftrightarrow>
     (case r_last r of
        Some a \<Rightarrow> reads_at s segs prev (last segs) [] a \<and> index (last (r_segm r)) = index (last segs) \<and>
          (\<exists>n. nmem s a = Some n \<and> (njsl n = JSL_FIELD \<longrightarrow> sjsl (last segs) = JSL_FIELD) \<and>
            (njsl n = JSL_ARRAY \<longrightarrow> sjsl (last segs) = JSL_ARRAY \<and> plain_index (last segs) \<and>
               0 \<le> index (last segs) \<and> index (last segs) < arraysize n))
      | None \<Rightarrow>
         (case r_prev r of None \<Rightarrow> True
          | Some b \<Rightarrow> \<exists>p k'. nmem s b = Some p \<and> r_rest r \<noteq> [] \<and> path_ok k' (r_rest r) \<and>
              k' + length (r_rest r) = k + length segs \<and>
              (if njsl p = JSL_ARRAY
               then 2 \<le> k' \<and> sjsl (hd (r_rest r)) = JSL_ARRAY \<and> index (hd (r_rest r)) = arraysize p \<and>
                 reads_at s segs prev (hd (r_rest r)) (tl (r_rest r)) b
               else holder p \<or> njsl p = JSL_DIR \<longrightarrow>
                 rank_ok k' p \<and> scope_search (next_scope p) (sname (hd (r_rest r))) = None \<and>
                 reads_below s segs prev (r_rest r) b)))"

lemma reach_ok_lift:
  assumes "reach_ok (Suc k) rest (Some a) s r" "reads_below s (sg # rest) prev rest a" "rest \<noteq> []"
  shows "reach_ok k (sg # rest) prev s r"
proof -
  have at: "reads_at s rest (Some a) sg' rest' b \<Longrightarrow> reads_at s (sg # rest) prev sg' rest' b" for sg' rest' b
    using assms(2) by (simp add: reads_at_def reads_below_def)
  have below: "reads_below s rest (Some a) rest' b \<Longrightarrow> reads_below s (sg # rest) prev rest' b" for rest' b
    using assms(2) by (simp add: reads_below_def)
  show ?thesis
    using assms(1,3) at below unfolding reach_ok_def by (fastforce split: option.splits if_splits)
qed

lemma reads_below_node:
  assumes "rt_ok s" "prev_at k prev s" "path_ok k (sg # rest)" "rest \<noteq> []"
    and "scope_search (tree_of s prev) (sname sg) = Some a" "nmem s a = Some n"
    and "njsl n \<in> {JSL_DIR, JSL_ARCHIVE, JSL_LOGIC_SCOPE}" "2 \<le> k \<longrightarrow> index sg < 0 \<and> njsl n = JSL_LOGIC_SCOPE"
    and "k < 2 \<longrightarrow> njsl n \<noteq> JSL_LOGIC_SCOPE"
  shows "reads_below s (sg # rest) prev rest a"
  unfolding reads_below_def
proof (intro allI impI)
  fix V s' dv assume e: "ext V s s'" "rt_ok s'"
  obtain n' where n': "nmem s' a = Some n'" "node_ext V a n n'" using ext_node [OF e(1) assms(6)] .
  have "rt_search_loop dv (sg # rest) (tree_of s' prev) s' = search_at dv sg rest a s'"
    by (rule search_step, rule found_later [OF e(1) assms(5,2)])
  also have "\<dots> = rt_search_loop dv rest (next_scope n') s'"
  proof (cases "2 \<le> k")
    case True
    with assms n' show ?thesis by (intro search_at_logic) (auto simp: node_ext_def)
  next
    case False
    with assms n' show ?thesis by (intro search_at_upper) (auto simp: node_ext_def)
  qed
  finally show "rt_search_loop dv (sg # rest) (tree_of s' prev) s' = rt_search_loop dv rest (tree_of s' (Some a)) s'"
    using n' by (simp add: tree_of_Some)
qed

lemma reads_at_node:
  assumes "prev_at k prev s" "scope_search (tree_of s prev) (sname sg) = Some a"
  shows "reads_at s (sg # rest) prev sg rest a"
  unfolding reads_at_def by (auto intro!: search_step found_later [OF _ assms(2,1)])

lemma reads_below_item:
  assumes "rt_ok s" "prev_at k prev s" "path_ok k (sg # rest)" "2 \<le> k" "rest \<noteq> []"
    and "scope_search (tree_of s prev) (sname sg) = Some a" "nmem s a = Some n" "njsl n = JSL_ARRAY"
    and "0 \<le> index sg" "index sg < arraysize n" "array n ! nat (index sg) = b" "nmem s b = Some it" "njsl it = JSL_ARRAY_ITEM"
  shows "reads_below s (sg # rest) prev rest b"
  unfolding reads_below_def
proof (intro allI impI)
  fix V s' dv assume e: "ext V s s'" "rt_ok s'"
  obtain n' where n': "nmem s' a = Some n'" "node_ext V a n n'" using ext_node [OF e(1) assms(7)] .
  obtain it' where it': "nmem s' b = Some it'" "node_ext V b it it'" using ext_node [OF e(1) assms(12)] .
  have len: "arraysize n = int (length (array n))" "arraysize n' = int (length (array n'))"
    using assms(1,7) e(2) n'(1) by (auto dest!: rt_ok_node simp: node_ok_def)
  have "nat (index sg) < length (array n)" using assms(9,10) len by linarith
  then have item: "array n' ! nat (index sg) = b" "nat (index sg) < length (array n')"
    using assms(11) n'(2) by (auto simp: node_ext_def prefix_def nth_append)
  have "rt_search_loop dv (sg # rest) (tree_of s' prev) s' = search_at dv sg rest a s'"
    by (rule search_step, rule found_later [OF e(1) assms(6,2)])
  also have "\<dots> = rt_search_loop dv rest (next_scope it') s'"
    using item assms len n' it' by (intro search_at_array(2)) (auto simp: node_ext_def)
  finally show "rt_search_loop dv (sg # rest) (tree_of s' prev) s' = rt_search_loop dv rest (tree_of s' (Some b)) s'"
    using it' by (simp add: tree_of_Some)
qed

lemma match_dead_end:
  "scope_search tree (sname (hd rest)) = None \<Longrightarrow> rest \<noteq> [] \<Longrightarrow>
   rt_match_loop passed rest tree node prev arch s =
     Some (Some \<lparr>r_last = None, r_prev = prev, r_archive = arch, r_rest = rest, r_segm = passed @ rest\<rparr>)"
  by (cases rest) auto

lemma seg_level_same [simp]: "sjsl sg = l \<Longrightarrow> sg\<lparr>sjsl := l\<rparr> = sg"
  by (cases sg) simp

lemma match_mismatch:
  "scope_search tree (sname sg) = Some a \<Longrightarrow> nmem s a = Some n \<Longrightarrow> njsl n = JSL_ARRAY \<longleftrightarrow> sjsl sg \<noteq> JSL_ARRAY \<Longrightarrow>
   rt_match_loop passed (sg # rest) tree node prev arch s = Some None"
  by (auto simp: Let_def)

lemma match_node:
  "scope_search tree (sname sg) = Some a \<Longrightarrow> nmem s a = Some n \<Longrightarrow> njsl n \<noteq> JSL_ARRAY \<Longrightarrow> sjsl sg \<noteq> JSL_ARRAY \<Longrightarrow>
   rt_match_loop passed (sg # rest) tree node prev arch s =
     rt_match_loop (passed @ [sg\<lparr>sjsl := njsl n\<rparr>]) rest (next_scope n) (Some a) (Some a)
       (if njsl n = JSL_ARCHIVE then Some a else arch) s"
  by (simp add: Let_def)

lemma match_append:
  "scope_search tree (sname sg) = Some a \<Longrightarrow> nmem s a = Some n \<Longrightarrow> njsl n = JSL_ARRAY \<Longrightarrow> sjsl sg = JSL_ARRAY \<Longrightarrow>
   0 \<le> arraysize n \<Longrightarrow> index sg = arraysize n \<Longrightarrow>
   rt_match_loop passed (sg # rest) tree node prev arch s =
     Some (Some \<lparr>r_last = None, r_prev = Some a, r_archive = arch, r_rest = sg # rest, r_segm = passed @ sg # rest\<rparr>)"
  by (simp add: Let_def)

lemma match_item:
  "scope_search tree (sname sg) = Some a \<Longrightarrow> nmem s a = Some n \<Longrightarrow> njsl n = JSL_ARRAY \<Longrightarrow> sjsl sg = JSL_ARRAY \<Longrightarrow>
   0 \<le> index sg \<Longrightarrow> index sg < arraysize n \<Longrightarrow> rt_seek_array_node n (index sg) = Some b \<Longrightarrow> nmem s b = Some it \<Longrightarrow>
   rt_match_loop passed (sg # rest) tree node prev arch s =
     rt_match_loop (passed @ [sg]) rest (next_scope it) (Some a) (Some b) arch s"
  by (auto simp: Let_def rt_seek_array_node_def split: if_splits)

lemma match_out_of_range:
  "scope_search tree (sname sg) = Some a \<Longrightarrow> nmem s a = Some n \<Longrightarrow> njsl n = JSL_ARRAY \<Longrightarrow> sjsl sg = JSL_ARRAY \<Longrightarrow>
   plain_index sg \<Longrightarrow> arraysize n < index sg \<Longrightarrow>
   rt_match_loop passed (sg # rest) tree node prev arch s = Some None"
  by (auto simp: Let_def dest: plain_index_sym)

text \<open>A field, or an item that is a value, in the middle of the key: the update stops there.\<close>

lemma reach_ok_dead_end:
  assumes "rt_match_loop passed rest (next_scope m) node (Some b) arch s = Some (Some r)" "rest \<noteq> []"
    and "rt_ok s" "nmem s b = Some m" "njsl m \<in> {JSL_FIELD, JSL_ARRAY_ITEM_AS_FIELD}" "path_ok (Suc k) rest"
  shows "reach_ok k (sg # rest) prev s r"
proof -
  have "child_levels (njsl m) = {}" using assms(5) by (auto simp: child_levels_def)
  then have "scope_search (next_scope m) (sname (hd rest)) = None" by (rule no_children [OF assms(3,4)])
  with assms(1,2) have "r_last r = None" "r_prev r = Some b" "r_rest r = rest" by (auto simp: match_dead_end)
  then show ?thesis using assms(2,4-6) by (auto simp: reach_ok_def holder_def)
qed

lemma reach_ok_end:
  assumes "rt_match_loop passed [] tree (Some a) prev' arch s = Some (Some r)" "passed \<noteq> []" "index (last passed) = index sg"
    and "prev_at k prev s" "scope_search (tree_of s prev) (sname sg) = Some a" "nmem s a = Some n"
    and "njsl n = JSL_FIELD \<Longrightarrow> sjsl sg = JSL_FIELD"
    and "njsl n = JSL_ARRAY \<Longrightarrow> sjsl sg = JSL_ARRAY \<and> plain_index sg \<and> 0 \<le> index sg \<and> index sg < arraysize n"
  shows "reach_ok k [sg] prev s r"
  using assms reads_at_node [OF assms(4,5), of "[]"] by (auto simp: reach_ok_def)

lemma rt_match_reach:
  assumes "rt_match_loop passed segs (tree_of s prev) node prev arch s = Some (Some r)"
    and "rt_ok s" "path_ok k segs" "prev_at k prev s" "segs \<noteq> []"
  shows "reach_ok k segs prev s r"
  using assms
proof (induction segs arbitrary: passed prev node arch k)
  case Nil
  then show ?case by simp
next
  case (Cons sg rest)
  note ok = Cons.prems(2) and at = Cons.prems(4)
  have plain: "plain_index sg" and rest: "path_ok (Suc k) rest" using Cons.prems(3) by auto
  show ?case
  proof (cases "scope_search (tree_of s prev) (sname sg)")
    case None
    with Cons.prems(1) have r: "r_last r = None" "r_prev r = prev" "r_rest r = sg # rest" by auto
    show ?thesis
    proof (cases prev)
      case (Some b)
      with at obtain p where p: "nmem s b = Some p" "rank_ok k p" by (auto simp: prev_at_def)
      then have "njsl p \<noteq> JSL_ARRAY" by (auto simp: rank_ok_def holder_def)
      with r p Some None Cons.prems(3) show ?thesis
        by (auto simp: reach_ok_def reads_below_def tree_of_Some)
    qed (use r in \<open>simp add: reach_ok_def\<close>)
  next
    case (Some a)
    from at ok Some obtain n where n: "nmem s a = Some n" and lv: "(k = 0 \<and> njsl n = JSL_DIR) \<or>
      (k = 1 \<and> njsl n = JSL_ARCHIVE) \<or> (2 \<le> k \<and> njsl n \<in> {JSL_LOGIC_SCOPE, JSL_FIELD, JSL_ARRAY})"
      by (rule found_node)
    let ?sg = "sg\<lparr>sjsl := njsl n\<rparr>" and ?arch = "if njsl n = JSL_ARCHIVE then Some a else arch"
    have lvl: "njsl n = JSL_ARRAY \<longleftrightarrow> sjsl sg = JSL_ARRAY"
      using Cons.prems(1) match_mismatch [OF Some n] by fastforce
    show ?thesis
    proof (cases "njsl n = JSL_ARRAY")
      case False
      then have run: "rt_match_loop (passed @ [?sg]) rest (next_scope n) (Some a) (Some a) ?arch s = Some (Some r)"
        using Cons.prems(1) match_node [OF Some n False] lvl by metis
      show ?thesis
      proof (cases "rest = []")
        case True
        have "njsl n = JSL_FIELD \<Longrightarrow> sjsl sg = JSL_FIELD"
          using lv lvl False Cons.prems(3) True by (auto split: if_splits)
        with run True at Some n False show ?thesis by (auto intro!: reach_ok_end)
      next
        case more: False
        show ?thesis
        proof (cases "njsl n = JSL_FIELD")
          case True
          with run more ok n rest show ?thesis by (intro reach_ok_dead_end [of _ _ n]) auto
        next
          case nofield: False
          have "reads_below s (sg # rest) prev rest a"
            by (rule reads_below_node [OF ok at Cons.prems(3) more Some n])
              (use lv lvl False nofield Cons.prems(3) in \<open>auto split: if_splits\<close>)
          moreover have "prev_at (Suc k) (Some a) s"
            using n lv False nofield by (auto simp: prev_at_def rank_ok_def holder_def)
          then have "reach_ok (Suc k) rest (Some a) s r"
            using run rest more n ok by (intro Cons.IH) (simp_all add: tree_of_Some)
          ultimately show ?thesis using more by (intro reach_ok_lift)
        qed
      qed
    next
      case True
      have k: "2 \<le> k" using lv True by auto
      have idx: "0 \<le> index sg" using Cons.prems(3) k lvl True by (auto split: if_splits)
      have nok: "node_ok s a n" using ok n by (rule rt_ok_node)
      have size: "arraysize n = int (length (array n))" using nok by (simp add: node_ok_def)
      show ?thesis
      proof (cases "index sg = arraysize n")
        case at_end: True
        then have "r_last r = None" "r_prev r = Some a" "r_rest r = sg # rest"
          using Cons.prems(1) match_append [OF Some n True _ _ at_end] lvl True size by auto
        then show ?thesis
          using n True k at_end lvl Cons.prems(3) reads_at_node [OF at Some, of rest] by (auto simp: reach_ok_def)
      next
        case False
        then have lt: "index sg < arraysize n"
          using Cons.prems(1) match_out_of_range [OF Some n True _ plain] lvl True by fastforce
        let ?b = "array n ! nat (index sg)"
        have seek: "rt_seek_array_node n (index sg) = Some ?b" using lt idx size by (auto simp: rt_seek_array_node_def)
        have "?b \<in> set (array n)" using lt idx size by auto
        then obtain it where it: "nmem s ?b = Some it" "njsl it \<in> {JSL_ARRAY_ITEM, JSL_ARRAY_ITEM_AS_FIELD}"
          using nok by (auto simp: node_ok_def item_ok_def)
        have run: "rt_match_loop (passed @ [sg]) rest (next_scope it) (Some a) (Some ?b) arch s = Some (Some r)"
          using Cons.prems(1) match_item [OF Some n True _ idx lt seek it(1)] lvl True by metis
        show ?thesis
        proof (cases "rest = []")
          case at_end: True
          with run at Some n True lvl plain idx lt show ?thesis by (auto intro!: reach_ok_end)
        next
          case more: False
          show ?thesis
          proof (cases "njsl it = JSL_ARRAY_ITEM")
            case item: True
            have "reads_below s (sg # rest) prev rest ?b"
              by (rule reads_below_item [OF ok at Cons.prems(3) k more Some n True idx lt refl it(1) item])
            moreover have "prev_at (Suc k) (Some ?b) s"
              using it(1) item k by (auto simp: prev_at_def rank_ok_def holder_def)
            then have "reach_ok (Suc k) rest (Some ?b) s r"
              using run rest more it(1) ok by (intro Cons.IH) (simp_all add: tree_of_Some)
            ultimately show ?thesis using more by (intro reach_ok_lift)
          next
            case False
            with run more ok it rest show ?thesis by (intro reach_ok_dead_end [of _ _ it]) auto
          qed
        qed
      qed
    qed
  qed
qed

section \<open>Writing and reading a key\<close>

lemma nput_value_ok:
  assumes "rt_ok s" "nmem s a = Some n"
  shows "rt_ok (nput a (n\<lparr>scope_value := v, jsonptr := j\<rparr>) s)" "ext {a} s (nput a (n\<lparr>scope_value := v, jsonptr := j\<rparr>) s)"
proof -
  let ?n = "n\<lparr>scope_value := v, jsonptr := j\<rparr>"
  let ?s = "nput a ?n s"
  have c: "child_ok ?s q ls x = child_ok s q ls x" "item_ok ?s pa b = item_ok s pa b" for q ls x pa b
    using assms(2) by (auto simp: child_ok_def item_ok_def nput_def)
  have "node_ok ?s b m" if m: "nmem ?s b = Some m" for b m
  proof (cases "b = a")
    case True
    then have "m = ?n" using m by (simp add: nput_def)
    with True rt_ok_node [OF assms] c show ?thesis by (simp add: node_ok_def) (simp add: nput_def)
  next
    case False
    then have "node_ok s b m" using m assms(1) by (simp add: nput_def rt_ok_node)
    with c show ?thesis by (simp add: node_ok_def) (simp add: nput_def)
  qed
  then show "rt_ok ?s" using assms(1) c by (simp add: rt_ok_def nput_def)
  show "ext {a} s ?s" using assms(2) by (auto simp: ext_def nput_def node_ext_def)
qed

lemma rt_field_update_value:
  assumes "rt_field_update atof a v s = Some (ret, s')" "0 \<le> ret" "rt_ok s"
  shows "rt_ok s' \<and> ext {a} s s' \<and> (\<exists>n'. nmem s' a = Some n' \<and> njsl n' = JSL_FIELD \<and> scope_value n' = v)"
proof -
  obtain n where n: "nmem s a = Some n" "njsl n = JSL_FIELD"
    using assms(1,2) by (auto simp: rt_field_update_def split: bind_splits if_splits)
  show ?thesis
  proof (cases "scope_value n = v")
    case True
    with assms n show ?thesis by (auto simp: rt_field_update_def split: if_splits)
  next
    case False
    then obtain j m where "s' = nput a (n\<lparr>scope_value := v, jsonptr := j\<rparr>) (s\<lparr>jm := m\<rparr>)"
      using assms(1,2) n by (auto simp: rt_field_update_def split: bind_splits if_splits option.splits)
    moreover have "rt_ok (s\<lparr>jm := m\<rparr>)" "nmem (s\<lparr>jm := m\<rparr>) a = Some n" using assms(3) n by auto
    ultimately show ?thesis using nput_value_ok [of "s\<lparr>jm := m\<rparr>" a n j v] n by (simp add: nput_def)
  qed
qed

lemma rt_array_field_update_value:
  assumes "rt_array_field_update atof arr i v s = Some (ret, s')" "0 \<le> ret" "rt_ok s" "nmem s arr = Some p"
    and "0 \<le> i" "i < arraysize p"
  shows "rt_ok s' \<and> ext {array p ! nat i} s s' \<and>
    (\<exists>it'. nmem s' (array p ! nat i) = Some it' \<and> scope_value it' = v)"
proof -
  let ?a = "array p ! nat i"
  have "arraysize p = int (length (array p))" using assms(3,4) by (auto dest: rt_ok_node simp: node_ok_def)
  then have seek: "rt_seek_array_node p i = Some ?a" using assms(5,6) by (auto simp: rt_seek_array_node_def)
  obtain n where n: "nmem s ?a = Some n"
    using assms(1,2,4-6) seek by (auto simp: rt_array_field_update_def split: bind_splits if_splits)
  show ?thesis
  proof (cases "scope_value n = v")
    case True
    with assms n seek show ?thesis by (auto simp: rt_array_field_update_def split: if_splits)
  next
    case False
    then obtain j m where "s' = nput ?a (n\<lparr>scope_value := v, jsonptr := j\<rparr>) (s\<lparr>jm := m\<rparr>)"
      using assms(1,2,4-6) n seek
      by (auto simp: rt_array_field_update_def Let_def split: bind_splits if_splits option.splits)
    moreover have "rt_ok (s\<lparr>jm := m\<rparr>)" "nmem (s\<lparr>jm := m\<rparr>) ?a = Some n" using assms(3) n by auto
    ultimately show ?thesis using nput_value_ok [of "s\<lparr>jm := m\<rparr>" ?a n j v] by (simp add: nput_def)
  qed
qed

text \<open>
  The key names a field: it is well formed, has plain indices and does not end in an index.
\<close>

definition field_key :: "JRP \<Rightarrow> bool" where
  "field_key j \<longleftrightarrow> wf_path (segm j) \<and> list_all plain_index (segm j) \<and> index (last (segm j)) = -1"

lemma field_key_path: "field_key j \<Longrightarrow> path_ok 0 (segm j) \<and> segm j \<noteq> []"
  by (auto simp: field_key_def list_all_iff wf_path_def intro: path_ok_wf)

lemma reads_at_now:
  "reads_at s segs prev sg rest a \<Longrightarrow> ext V s s' \<Longrightarrow> rt_ok s' \<Longrightarrow>
   rt_search_loop dv segs (tree_of s' prev) s' = search_at dv sg rest a s'"
  by (auto simp: reads_at_def)

text \<open>The two ways in which a write succeeds: a new entry, or a new value of an existing field.\<close>

definition write_new :: "JRP \<Rightarrow> string \<Rightarrow> 'd rt \<Rightarrow> 'd rt \<Rightarrow> bool" where
  "write_new j v s s' \<longleftrightarrow> rt_ok s' \<and> ext {} s s' \<and> (\<forall>dv. rt_search (j\<lparr>dupvalue := dv\<rparr>) s' = Some (Some v))"

definition write_old :: "JRP \<Rightarrow> string \<Rightarrow> 'd rt \<Rightarrow> 'd rt \<Rightarrow> bool" where
  "write_old j v s s' \<longleftrightarrow>
     (\<exists>a n n'. nmem s a = Some n \<and> njsl n = JSL_FIELD \<and> sjsl (last (segm j)) = JSL_FIELD \<and>
        reads_at s (segm j) None (last (segm j)) [] a \<and> rt_ok s' \<and> ext {a} s s' \<and>
        nmem s' a = Some n' \<and> njsl n' = JSL_FIELD \<and> scope_value n' = v)"

lemma append_is_write_new:
  assumes "reach_ok 0 (segm j) None s r" "r_last r = None" "r_prev r = Some b" "nmem s b = Some p"
    and "njsl p \<noteq> JSL_FIELD" "njsl p \<noteq> JSL_ARRAY_ITEM_AS_FIELD" "\<not> (njsl p = JSL_DIR \<and> depth j \<le> 2)"
    and "rt_append v (r_rest r) b s = Some (ret, ar, s')" "0 \<le> ret" "rt_ok s"
  shows "write_new j v s s'"
proof -
  obtain k sg rest where r: "r_rest r = sg # rest" "path_ok k (sg # rest)" "k + length (sg # rest) = length (segm j)"
    and br: "if njsl p = JSL_ARRAY
       then 2 \<le> k \<and> sjsl sg = JSL_ARRAY \<and> index sg = arraysize p \<and> reads_at s (segm j) None sg rest b
       else holder p \<or> njsl p = JSL_DIR \<longrightarrow> rank_ok k p \<and> scope_search (next_scope p) (sname sg) = None \<and>
         reads_below s (segm j) None (sg # rest) b"
  proof -
    from assms(1-4) obtain k where k: "r_rest r \<noteq> []" "path_ok k (r_rest r)" "k + length (r_rest r) = length (segm j)"
      "if njsl p = JSL_ARRAY
       then 2 \<le> k \<and> sjsl (hd (r_rest r)) = JSL_ARRAY \<and> index (hd (r_rest r)) = arraysize p \<and>
         reads_at s (segm j) None (hd (r_rest r)) (tl (r_rest r)) b
       else holder p \<or> njsl p = JSL_DIR \<longrightarrow> rank_ok k p \<and> scope_search (next_scope p) (sname (hd (r_rest r))) = None \<and>
         reads_below s (segm j) None (r_rest r) b"
      unfolding reach_ok_def by (simp del: split_paired_Ex) blast
    from k(1) obtain sg rest where "r_rest r = sg # rest" by (cases "r_rest r") auto
    with k that show ?thesis by (metis list.sel(1,3))
  qed
  show ?thesis
  proof (cases "njsl p = JSL_ARRAY")
    case True
    have plain: "plain_index sg" using r(2) by simp
    have run: "append_item v rest b s = Some (ret, ar, s')"
      using assms(4,8,9) r(1) br True by (auto simp: append_item_def split: if_splits)
    have g: "rt_ok s' \<and> ext {} s s' \<and> search_at dv sg rest b s' = Some (Some v)" for dv
    proof (rule append_item_reads [OF run assms(9,10,4) True _ plain])
      show "index sg = arraysize p" "sjsl sg = JSL_ARRAY" using br True by auto
      show "append_goal v rest b' s1 s'"
        if "rest \<noteq> []" "rt_append v rest b' s1 = Some (ret, ar', s')" "rt_ok s1" "nmem s1 b' = Some nb"
          "njsl nb = JSL_ARRAY_ITEM" "next_scope nb = ET" for b' nb s1 ar'
        using that br True r(2) assms(9)
        by (intro rt_append_reads [OF that(2) _ that(3,4), of "Suc k"])
          (auto simp: rank_ok_def holder_def names.search_empty)
    qed
    then have "rt_search_loop dv (segm j) (tree_of s' None) s' = Some (Some v)" for dv
      using reads_at_now [of s "segm j" None sg rest b "{}" s' dv] br True by simp
    with g show ?thesis by (simp add: write_new_def rt_search_def)
  next
    case False
    have "njsl p = JSL_ARRAY_ITEM \<or> holder p \<or> njsl p = JSL_DIR"
      using assms(5,6) False by (cases "njsl p") (auto simp: holder_def)
    then have br': "rank_ok k p" "scope_search (next_scope p) (sname sg) = None" "reads_below s (segm j) None (sg # rest) b"
      using br False by (auto simp: holder_def)
    have "append_goal v (sg # rest) b s s'"
      by (rule rt_append_reads [OF assms(8) [unfolded r(1)] assms(9,10,4) r(2) br'(1)])
        (use br'(1,2) r(3) assms(7) in \<open>auto simp: rank_ok_def holder_def Suc_le_eq\<close>)
    then have g: "rt_ok s'" "ext {} s s'" "\<And>dv. rt_search_loop dv (sg # rest) (next_scope (the (nmem s' b))) s' = Some (Some v)"
      by (auto simp: append_goal_def)
    obtain p' where p': "nmem s' b = Some p'" using ext_node [OF g(2) assms(4)] .
    have "rt_search_loop dv (segm j) (tree_of s' None) s' = Some (Some v)" for dv
      using br'(3) g p' by (auto simp: reads_below_def tree_of_Some)
    with g show ?thesis by (simp add: write_new_def rt_search_def)
  qed
qed

lemma config_update_cases:
  assumes "rt_ok s" "field_key j" "valuestring j = Some v" "v \<noteq> KEYWORD_DELETED"
    and "rt_config_update atof stale j s = Some (ret, ar, cp, s')" "0 \<le> ret"
  shows "write_new j v s s' \<or> write_old j v s s'"
proof -
  obtain r where run: "rt_match_loop [] (segm j) (root s) None None None s = Some (Some r)"
    using assms(3,5,6)
    by (auto simp: rt_config_update_def rt_reach_last_match_scope_def split: if_splits bind_splits option.splits)
  have key: "path_ok 0 (segm j)" "segm j \<noteq> []" using field_key_path [OF assms(2)] by auto
  have reach: "reach_ok 0 (segm j) None s r"
    by (rule rt_match_reach [of "[]" _ _ _ None None]) (use run assms(1) key in \<open>simp_all add: prev_at_def\<close>)
  have no_index: "\<not> 0 \<le> index (last (segm j))" using assms(2) by (simp add: field_key_def)
  show ?thesis
  proof (cases "r_last r")
    case (Some a)
    with reach obtain n where n: "nmem s a = Some n" "njsl n = JSL_FIELD \<longrightarrow> sjsl (last (segm j)) = JSL_FIELD"
      "njsl n \<noteq> JSL_ARRAY" "reads_at s (segm j) None (last (segm j)) [] a"
      using no_index by (auto simp: reach_ok_def)
    then have f: "njsl n = JSL_FIELD" "rt_field_update atof a v s = Some (ret, s')"
      using assms(3-6) run Some
      by (auto simp: rt_config_update_def rt_reach_last_match_scope_def Let_def split: if_splits bind_splits)
    with n rt_field_update_value [OF f(2) assms(6,1)] show ?thesis unfolding write_old_def by blast
  next
    case None
    then obtain b p where "r_prev r = Some b" "nmem s b = Some p" "njsl p \<noteq> JSL_FIELD" "njsl p \<noteq> JSL_ARRAY_ITEM_AS_FIELD"
      "\<not> (njsl p = JSL_DIR \<and> depth j \<le> 2)" "\<exists>ar'. rt_append v (r_rest r) b s = Some (ret, ar', s')"
      using assms(3-6) run
      by (auto simp: rt_config_update_def rt_reach_last_match_scope_def Let_def split: if_splits bind_splits option.splits)
    with append_is_write_new [OF reach None] assms(1,6) show ?thesis by blast
  qed
qed

text \<open>
  A key that reads a value names a node, and reads the same in every later state in which the
  value of that node is unchanged.
\<close>

lemma search_end:
  assumes "nmem s a = Some n" "search_at dv sg [] a s = Some (Some w)" "njsl n \<noteq> JSL_ARRAY" "ext V s s'"
  shows "w = scope_value n \<and> (a \<notin> V \<longrightarrow> search_at dv sg [] a s' = Some (Some w))"
proof -
  obtain n' where "nmem s' a = Some n'" "node_ext V a n n'" using ext_node [OF assms(4,1)] .
  with assms show ?thesis
    by (auto simp: search_at_simps rt_search_loop.simps(2) node_ext_def split: JSL.splits if_splits)
qed

lemma search_through:
  assumes "nmem s a = Some n" "search_at dv sg rest a s = Some (Some w)" "njsl n \<noteq> JSL_ARRAY" "rest \<noteq> []" "ext V s s'"
  obtains n' where "nmem s' a = Some n'" "node_ext V a n n'" "rt_search_loop dv rest (next_scope n) s = Some (Some w)"
    "search_at dv sg rest a s' = rt_search_loop dv rest (next_scope n') s'"
proof -
  obtain n' where n': "nmem s' a = Some n'" "node_ext V a n n'" using ext_node [OF assms(5,1)] .
  have "rt_search_loop dv rest (next_scope n) s = Some (Some w)"
    "search_at dv sg rest a s' = rt_search_loop dv rest (next_scope n') s'"
    using assms n' by (auto simp: search_at_simps rt_search_loop.simps(2) node_ext_def split: JSL.splits if_splits)
  with n' that show ?thesis by blast
qed

lemma search_item:
  assumes "nmem s a = Some n" "search_at dv sg rest a s = Some (Some w)" "njsl n = JSL_ARRAY" "plain_index sg" "rt_ok s"
  obtains b it where "sjsl sg = JSL_ARRAY" "0 \<le> index sg" "index sg < arraysize n" "rt_seek_array_node n (index sg) = Some b"
    "b = array n ! nat (index sg)" "nmem s b = Some it"
    "(njsl it = JSL_ARRAY_ITEM \<and> rest \<noteq> [] \<and> rt_search_loop dv rest (next_scope it) s = Some (Some w)) \<or>
     (njsl it = JSL_ARRAY_ITEM_AS_FIELD \<and> rest = [] \<and> w = scope_value it)"
proof -
  have sym: "index sg \<noteq> JA_SYM_LAST" "index sg \<noteq> JA_SYM_ADD" "index sg \<noteq> JA_SYM_ENTIRE" "index sg \<noteq> JA_SYM_QUERY_SIZE"
    using plain_index_sym [OF assms(4)] by auto
  have lv: "sjsl sg = JSL_ARRAY" using assms(1-3) by (auto simp: search_at_simps rt_search_loop.simps(2) split: if_splits)
  have idx: "0 \<le> index sg" "index sg < arraysize n"
    using assms(1-3) lv sym by (auto simp: search_at_simps rt_search_loop.simps(2) split: if_splits)
  have nok: "node_ok s a n" using assms(5,1) by (rule rt_ok_node)
  then have size: "arraysize n = int (length (array n))" by (simp add: node_ok_def)
  let ?b = "array n ! nat (index sg)"
  have "?b \<in> set (array n)" using idx size by auto
  then obtain it where it: "nmem s ?b = Some it" "njsl it = JSL_ARRAY_ITEM \<or> njsl it = JSL_ARRAY_ITEM_AS_FIELD"
    using nok by (auto simp: node_ok_def item_ok_def)
  have seek: "rt_seek_array_node n (index sg) = Some ?b" using idx size by (auto simp: rt_seek_array_node_def)
  have "(njsl it = JSL_ARRAY_ITEM \<and> rest \<noteq> [] \<and> rt_search_loop dv rest (next_scope it) s = Some (Some w)) \<or>
     (njsl it = JSL_ARRAY_ITEM_AS_FIELD \<and> rest = [] \<and> w = scope_value it)"
    using assms(1-3) sym it idx seek by (auto simp: search_at_simps rt_search_loop.simps(2) split: if_splits)
  with that lv idx seek it(1) show ?thesis by blast
qed

lemma search_frame:
  assumes "rt_search_loop dv segs (tree_of s prev) s = Some (Some w)" "segs \<noteq> []" "path_ok k segs" "prev_at k prev s"
    and "rt_ok s" "rt_ok s'" "ext V s s'"
  shows "\<exists>b m. rt_reach_loop segs (tree_of s prev) cur False s = Some (Some b) \<and> nmem s b = Some m \<and>
    (b \<notin> V \<longrightarrow> rt_search_loop dv segs (tree_of s' prev) s' = Some (Some w))"
  using assms(1-4)
proof (induction segs arbitrary: prev k cur)
  case (Cons sg rest)
  note ok = assms(5) and e = assms(7)
  obtain a where a: "scope_search (tree_of s prev) (sname sg) = Some a"
    using Cons.prems(1) by (cases "scope_search (tree_of s prev) (sname sg)") (auto simp: rt_search_loop.simps(2))
  from Cons.prems(4) ok a obtain n where n: "nmem s a = Some n" and lv: "(k = 0 \<and> njsl n = JSL_DIR) \<or>
      (k = 1 \<and> njsl n = JSL_ARCHIVE) \<or> (2 \<le> k \<and> njsl n \<in> {JSL_LOGIC_SCOPE, JSL_FIELD, JSL_ARRAY})"
    by (rule found_node)
  have now: "search_at dv sg rest a s = Some (Some w)" using Cons.prems(1) by (simp add: search_step [OF a])
  have later: "rt_search_loop dv (sg # rest) (tree_of s' prev) s' = search_at dv sg rest a s'"
    by (rule search_step, rule found_later [OF e a Cons.prems(4)])
  have path: "path_ok (Suc k) rest" "plain_index sg" using Cons.prems(3) by auto
  show ?case
  proof (cases "njsl n = JSL_ARRAY")
    case False
    show ?thesis
    proof (cases "rest = []")
      case True
      with search_end [OF n _ False e] now a n False later show ?thesis by auto
    next
      case more: False
      from n now False more e obtain n' where n': "nmem s' a = Some n'" "rt_search_loop dv rest (next_scope n) s = Some (Some w)"
        "search_at dv sg rest a s' = rt_search_loop dv rest (next_scope n') s'" by (rule search_through)
      have "njsl n \<noteq> JSL_FIELD" using now n more by (auto simp: search_at_simps rt_search_loop.simps(2))
      then have "prev_at (Suc k) (Some a) s" using lv n False by (auto simp: prev_at_def rank_ok_def holder_def)
      from Cons.IH [OF _ more path(1) this, of "Some a"] n' a n False later show ?thesis
        by (auto simp: tree_of_Some)
    qed
  next
    case True
    from n now True path(2) ok obtain b it where it: "sjsl sg = JSL_ARRAY" "0 \<le> index sg" "index sg < arraysize n"
      "rt_seek_array_node n (index sg) = Some b" "b = array n ! nat (index sg)" "nmem s b = Some it"
      "(njsl it = JSL_ARRAY_ITEM \<and> rest \<noteq> [] \<and> rt_search_loop dv rest (next_scope it) s = Some (Some w)) \<or>
       (njsl it = JSL_ARRAY_ITEM_AS_FIELD \<and> rest = [] \<and> w = scope_value it)"
      by (rule search_item)
    have k: "2 \<le> k" using lv True by auto
    obtain n' where n': "nmem s' a = Some n'" "node_ext V a n n'" using ext_node [OF e n] .
    obtain it' where it': "nmem s' b = Some it'" "node_ext V b it it'" using ext_node [OF e it(6)] .
    have size: "arraysize n' = int (length (array n'))" "arraysize n = int (length (array n))"
      using ok assms(6) n n'(1) by (auto dest!: rt_ok_node simp: node_ok_def)
    have item: "array n' ! nat (index sg) = b" "nat (index sg) < length (array n')" "njsl n' = JSL_ARRAY"
      using it(2,3,5) size n'(2) True by (auto simp: node_ext_def prefix_def nth_append nat_less_iff)
    show ?thesis
    proof (cases "rest = []")
      case at_end: True
      have "search_at dv sg [] a s' = Some (Some (scope_value it'))"
        by (rule search_at_array(1) [OF n'(1) item(3) it(1) path(2) it(2) item(2) size(1) item(1) it'(1)])
          (use it(7) it'(2) at_end in \<open>auto simp: node_ext_def\<close>)
      with a n True it at_end later it'(2) show ?thesis by (auto simp: node_ext_def)
    next
      case more: False
      have "search_at dv sg rest a s' = rt_search_loop dv rest (next_scope it') s'"
        by (rule search_at_array(2) [OF n'(1) item(3) it(1) path(2) it(2) item(2) size(1) item(1) it'(1)])
          (use it(7) it'(2) more in \<open>auto simp: node_ext_def\<close>)
      moreover have "prev_at (Suc k) (Some b) s" using it(6,7) more k by (auto simp: prev_at_def rank_ok_def holder_def)
      ultimately show ?thesis
        using Cons.IH [OF _ more path(1), of "Some b" "Some b"] it it' a n True later more by (auto simp: tree_of_Some)
    qed
  qed
qed simp

lemma write_new_reads: "write_new j v s s' \<Longrightarrow> rt_ok s' \<and> rt_search (j\<lparr>dupvalue := dv\<rparr>) s' = Some (Some v)"
  by (simp add: write_new_def)

lemma write_old_reads:
  assumes "write_old j v s s'"
  shows "rt_ok s' \<and> rt_search (j\<lparr>dupvalue := dv\<rparr>) s' = Some (Some v)"
proof -
  obtain a n' where a: "reads_at s (segm j) None (last (segm j)) [] a" "sjsl (last (segm j)) = JSL_FIELD"
    "rt_ok s'" "ext {a} s s'" "nmem s' a = Some n'" "njsl n' = JSL_FIELD" "scope_value n' = v"
    using assms unfolding write_old_def by blast
  show ?thesis
    using reads_at_now [OF a(1,4,3), of dv] search_at_field [OF a(5,6,2), of dv] a(3,7)
    by (simp add: rt_search_def)
qed

lemma field_key_frame:
  assumes "rt_search k s = Some (Some w)" "path_ok 0 (segm k)" "segm k \<noteq> []" "rt_ok s" "rt_ok s'" "ext V s s'"
  obtains b where "rt_reach_last_scope k s = Some (Some b)" "b \<notin> V \<longrightarrow> rt_search k s' = Some (Some w)"
  using search_frame [of "dupvalue k" "segm k" s None w 0 s' V None] assms
  by (auto simp: rt_search_def rt_reach_last_scope_def prev_at_def)

text \<open>The node an update changes is the one the key names.\<close>

lemma reads_at_reach:
  assumes "reads_at s (segm j) None (last (segm j)) [] a" "nmem s a = Some n" "njsl n = JSL_FIELD"
    "sjsl (last (segm j)) = JSL_FIELD" "path_ok 0 (segm j)" "segm j \<noteq> []" "rt_ok s"
  shows "rt_reach_last_scope j s = Some (Some a)"
proof -
  let ?n = "n\<lparr>scope_value := CHR ''x'' # scope_value n, jsonptr := None\<rparr>"
  let ?s = "nput a ?n s"
  have s: "rt_ok ?s" "ext {a} s ?s" using nput_value_ok [OF assms(7,2)] by auto
  have now: "rt_search j s = Some (Some (scope_value n))"
    using reads_at_now [OF assms(1) ext_refl assms(7)] search_at_field [OF assms(2-4)] by (simp add: rt_search_def)
  have "rt_search j ?s = Some (Some (scope_value ?n))"
    using reads_at_now [OF assms(1) s(2,1)] search_at_field [of ?s a ?n "last (segm j)"] assms(3,4)
    by (simp add: rt_search_def nput_def)
  moreover obtain b where "rt_reach_last_scope j s = Some (Some b)" "b \<notin> {a} \<longrightarrow> rt_search j ?s = Some (Some (scope_value n))"
    using field_key_frame [OF now assms(5-7) s] .
  ultimately show ?thesis by (cases "b = a") auto
qed

section \<open>The contract of the store\<close>

lemma update_reads:
  assumes "rt_ok s" "field_key j" "valuestring j = Some v" "v \<noteq> KEYWORD_DELETED"
    and "rt_config_update atof stale j s = Some (ret, ar, cp, s')" "0 \<le> ret"
  shows "rt_ok s' \<and> rt_search (j\<lparr>dupvalue := dv\<rparr>) s' = Some (Some v)"
  using config_update_cases [OF assms] write_new_reads write_old_reads by metis

text \<open>
  C2: Write, then read: after a successful update of a key that names a field, whether the field
  existed or had to be created together with its archive, scopes and array items, reading the key
  returns the value written, and the store is still well formed.
\<close>

theorem config_write_read:
  assumes "rt_ok s" "field_key j" "valuestring j = Some v" "v \<noteq> KEYWORD_DELETED"
    and "rt_config_update atof stale j s = Some (ret, ar, cp, s')" "0 \<le> ret"
  shows "rt_ok s' \<and> rt_search (j\<lparr>dupvalue := dv\<rparr>) s' = Some (Some v)"
  using update_reads [OF assms] .

text \<open>
  C3: A write of a value changes nothing else: every key with plain indices that could be read reads the same
  value afterwards, unless it names the same node. Keys with the indices \<open>[?]\<close> and \<open>[$]\<close>, the number of
  items and the last item, are left out: a write that appends an item changes what they read.
\<close>

theorem config_write_frame:
  assumes "rt_ok s" "field_key j" "valuestring j = Some v" "v \<noteq> KEYWORD_DELETED"
    and "rt_config_update atof stale j s = Some (ret, ar, cp, s')" "0 \<le> ret"
    and "wf_path (segm k)" "list_all plain_index (segm k)" "rt_search k s = Some (Some w)"
    and "rt_reach_last_scope k s \<noteq> rt_reach_last_scope j s"
  shows "rt_search k s' = Some (Some w)"
proof -
  have k: "path_ok 0 (segm k)" "segm k \<noteq> []"
    using assms(7,8) by (auto simp: list_all_iff wf_path_def intro: path_ok_wf)
  from config_update_cases [OF assms(1-6)] show ?thesis
  proof
    assume "write_new j v s s'"
    then have "rt_ok s'" "ext {} s s'" by (auto simp: write_new_def)
    with assms(9) k assms(1) show ?thesis by (elim field_key_frame) auto
  next
    assume "write_old j v s s'"
    then obtain a n where a: "nmem s a = Some n" "njsl n = JSL_FIELD" "sjsl (last (segm j)) = JSL_FIELD"
      "reads_at s (segm j) None (last (segm j)) [] a" "rt_ok s'" "ext {a} s s'" unfolding write_old_def by blast
    have j: "path_ok 0 (segm j)" "segm j \<noteq> []" using field_key_path [OF assms(2)] by auto
    have "rt_reach_last_scope j s = Some (Some a)" by (rule reads_at_reach [OF a(4,1-3) j assms(1)])
    with field_key_frame [OF assms(9) k assms(1) a(5,6)] assms(10) show ?thesis by auto
  qed
qed

text \<open>A store with one directory, and two requests, for the examples.\<close>

definition sample_rt :: "int rt" where
  "sample_rt = snd (ldr_create_dir ''io''
     \<lparr>nmem = (\<lambda>_. None), nnext = 0, jm = \<lparr>items = (\<lambda>_. None), jnext = 0\<rparr>, root = ET,
      fsv = \<lparr>cache = \<lparr>mask = [], dir = [], archive = []\<rparr>, config = \<lparr>mask = [], dir = [], archive = []\<rparr>,
             count_overwritten = 0, permit_override = 1\<rparr>\<rparr>)"

definition baud_jrp :: JRP where
  "baud_jrp = sample_jrp\<lparr>segm := (segm sample_jrp)[2 := \<lparr>sname = ''port'', index = 0, sjsl = JSL_ARRAY\<rparr>],
     dupkey := ''io.dev.port[0].baud''\<rparr>"

definition io_jrp :: JRP where
  "io_jrp = \<lparr>segm = [\<lparr>sname = ''IO'', index = -1, sjsl = JSL_DIR\<rparr>], valuestring = None, dupkey = ''IO'', dupvalue = ''''\<rparr>"

lemma sample_rt_ok: "rt_ok sample_rt"
  by (auto simp: sample_rt_def ldr_create_dir_def nnew_def rt_ok_def node_ok_def child_ok_def blank_node_def
      scope_insert_def wf_index_def)

lemma sample_write:
  "\<exists>ar cp s'. rt_config_update atoi 0 baud_jrp sample_rt = Some (0, ar, cp, s')"
proof -
  have "map_option fst (rt_config_update atoi 0 baud_jrp sample_rt) = Some 0" by code_simp
  then show ?thesis by (cases "rt_config_update atoi 0 baud_jrp sample_rt") auto
qed

theorem config_write_read_witness:
  "\<exists>ar cp s'. rt_config_update atoi 0 baud_jrp sample_rt = Some (0, ar, cp, s') \<and> rt_ok s' \<and>
     rt_search (baud_jrp\<lparr>dupvalue := ''''\<rparr>) s' = Some (Some ''9600'')"
proof -
  obtain ar cp s' where run: "rt_config_update atoi 0 baud_jrp sample_rt = Some (0, ar, cp, s')"
    using sample_write by blast
  have "field_key baud_jrp" "valuestring baud_jrp = Some ''9600''" "''9600'' \<noteq> KEYWORD_DELETED" by code_simp+
  from config_write_read [OF sample_rt_ok this run] run show ?thesis by blast
qed

theorem config_write_frame_witness:
  "\<exists>ar cp s'. rt_config_update atoi 0 baud_jrp sample_rt = Some (0, ar, cp, s') \<and>
     rt_search io_jrp s' = Some (Some ''jessfs/io/'')"
proof -
  obtain ar cp s' where run: "rt_config_update atoi 0 baud_jrp sample_rt = Some (0, ar, cp, s')"
    using sample_write by blast
  have j: "field_key baud_jrp" "valuestring baud_jrp = Some ''9600''" "''9600'' \<noteq> KEYWORD_DELETED" by code_simp+
  have k: "wf_path (segm io_jrp)" "list_all plain_index (segm io_jrp)" "rt_search io_jrp sample_rt = Some (Some ''jessfs/io/'')"
    "rt_reach_last_scope io_jrp sample_rt \<noteq> rt_reach_last_scope baud_jrp sample_rt" by code_simp+
  from config_write_frame [OF sample_rt_ok j run _ k] run show ?thesis by auto
qed

end
