(* ===== verification/Net.thy ===== *)
theory Net
  imports Request
begin

text \<open>
  The clients of the daemon, \<^verbatim>\<open>ldr/interact.c\<close>: the context of a connection with its window
  of pending requests and its subscriptions, publishing of changes, the framing of packets
  (\<^verbatim>\<open>ldr/tst.h\<close>) and the check of idle links. The network framework is below this level: a
  link is a number, the context of a link is found by it, and every \<open>tcp_write\<close> is recorded on
  the wire. Locks are not modelled: each operation is one step.
\<close>

section \<open>Clients\<close>

definition INVALID_HTCPLINK :: int where "INVALID_HTCPLINK = -1"
definition MAX_LINK_WINDOW :: int where "MAX_LINK_WINDOW = 20"
definition MAX_REQ_SIZE :: nat where
  "MAX_REQ_SIZE = MAX_TITLE_SIZE + MAX_OPT_SIZE + MAX_PAYLOAD_SIZE * MAX_REQ_SECT"

record client =
  clink :: int
  subcribes :: "JRP list"
  last_access :: nat
  window :: int

record jnet =
  clients :: "client list"
  qps :: int
  wire :: "(int \<times> string) list"
  closing :: "int list"

definition tcp_write :: "int \<Rightarrow> string \<Rightarrow> jnet \<Rightarrow> jnet" where
  "tcp_write l packet n = n\<lparr>wire := wire n @ [(l, packet)]\<rparr>"

text \<open>\<open>tcp_destroy\<close> is asynchronous: the framework calls \<open>jnet_on_preclose\<close> later.\<close>

definition tcp_destroy :: "int \<Rightarrow> jnet \<Rightarrow> jnet" where
  "tcp_destroy l n = n\<lparr>closing := closing n @ [l]\<rparr>"

definition jnet_link_context_get :: "int \<Rightarrow> jnet \<Rightarrow> client option" where
  "jnet_link_context_get l n = List.find (\<lambda>c. clink c = l) (clients n)"

text \<open>Change the context of a link in place.\<close>

definition upd_client :: "int \<Rightarrow> (client \<Rightarrow> client) \<Rightarrow> jnet \<Rightarrow> jnet" where
  "upd_client l f n = n\<lparr>clients := map (\<lambda>c. if clink c = l then f c else c) (clients n)\<rparr>"

definition jnet_on_accepted :: "nat \<Rightarrow> int \<Rightarrow> jnet \<Rightarrow> jnet" where
  "jnet_on_accepted now l n =
     n\<lparr>clients := clients n @ [\<lparr>clink = l, subcribes = [], last_access = now, window = 0\<rparr>]\<rparr>"

definition jnet_on_preclose :: "int \<Rightarrow> jnet \<Rightarrow> jnet" where
  "jnet_on_preclose l n = n\<lparr>clients := filter (\<lambda>c. clink c \<noteq> l) (clients n), closing := removeAll l (closing n)\<rparr>"

section \<open>Responses\<close>

text \<open>The response \<open>title CRLF [option CRLF CRLF] status CRLF\<close>, when it fits the buffer.\<close>

definition status_packet :: "string \<Rightarrow> string option \<Rightarrow> string \<Rightarrow> string option" where
  "status_packet title option status =
     (let a = title @ CRLF;
          b = a @ (case option of None \<Rightarrow> [] | Some opt \<Rightarrow> opt @ CRLF @ CRLF);
          c = b @ status @ CRLF
      in if length a \<ge> MAX_REP_SIZE \<or> length b \<ge> MAX_REP_SIZE \<or> length c \<ge> MAX_REP_SIZE then None else Some c)"

definition jnet_simple_complete_request :: "int \<Rightarrow> string \<Rightarrow> string option \<Rightarrow> string \<Rightarrow> jnet \<Rightarrow> int \<times> jnet" where
  "jnet_simple_complete_request l title option status n =
     (case status_packet title option status of
        None \<Rightarrow> (-1, n)
      | Some packet \<Rightarrow> (0, tcp_write l packet n))"

definition jnet_write_response :: "int \<Rightarrow> string \<Rightarrow> jnet \<Rightarrow> int \<times> jnet" where
  "jnet_write_response l packet n =
     (case jnet_link_context_get l n of
        None \<Rightarrow> (-1, n)
      | Some c \<Rightarrow> (0, tcp_write l packet (upd_client l (\<lambda>c. c\<lparr>window := window c - 1\<rparr>) n)))"

section \<open>Subscriptions\<close>

text \<open>The boolean says whether the answer is \<open>ok\<close>.\<close>

definition jnet_subscribe :: "int \<Rightarrow> JRP \<Rightarrow> jnet \<Rightarrow> bool \<times> jnet" where
  "jnet_subscribe l jrp n =
     (if valuestring jrp \<noteq> None then (False, n)
      else case jnet_link_context_get l n of
        None \<Rightarrow> (False, n)
      | Some c \<Rightarrow>
          if list_ex (\<lambda>s. strcasecmp (dupkey s) (dupkey jrp) = 0) (subcribes c) then (False, n)
          else (True, upd_client l (\<lambda>c. c\<lparr>subcribes := subcribes c @ [jrp]\<rparr>) n))"

definition jnet_unsubscribe :: "int \<Rightarrow> JRP \<Rightarrow> jnet \<Rightarrow> bool \<times> jnet" where
  "jnet_unsubscribe l jrp n =
     (case jnet_link_context_get l n of
        None \<Rightarrow> (False, n)
      | Some c \<Rightarrow>
          (let gone = (\<lambda>s. strcasecmp (dupkey jrp) ''*'' = 0 \<or> strcasecmp (dupkey s) (dupkey jrp) = 0)
           in (list_ex gone (subcribes c),
               upd_client l (\<lambda>c. c\<lparr>subcribes := filter (\<lambda>s. \<not> gone s) (subcribes c)\<rparr>) n)))"

text \<open>Whether a change of the key \<open>key\<close> concerns the subscription of \<open>sub\<close>.\<close>

definition publish_match :: "string \<Rightarrow> string \<Rightarrow> bool" where
  "publish_match key sub \<longleftrightarrow>
     sub = ''/'' \<or>
     (strncasecmp key sub (length sub) = 0 \<and> (length sub < length key \<longrightarrow> key ! length sub = CHR ''.''))"

definition publish_packet :: "JRP \<Rightarrow> string" where
  "publish_packet jrp = ''publish'' @ CRLF @ (''ok'' @ CRLF) @ dupkey jrp @ ''='' @ dupvalue jrp @ CRLF"

definition jnet_publish :: "JRP \<Rightarrow> jnet \<Rightarrow> jnet" where
  "jnet_publish jrp n =
     fold (\<lambda>c m. if list_ex (\<lambda>s. publish_match (dupkey jrp) (dupkey s)) (subcribes c) \<and>
                    length (publish_packet jrp) < MAX_REQ_SIZE
                 then tcp_write (clink c) (publish_packet jrp) m else m) (clients n) n"

section \<open>Idle links\<close>

text \<open>In ticks of \<open>clock_monotonic\<close> (100 nanoseconds), so six seconds.\<close>

definition JNET_TIMEOUT_ELAPSE :: nat where "JNET_TIMEOUT_ELAPSE = 6 * 1000 * 1000 * 10"

definition jnet_keepalive_check :: "nat \<Rightarrow> jnet \<Rightarrow> jnet" where
  "jnet_keepalive_check now n =
     fold (\<lambda>c m. if now > last_access c \<and> now - last_access c > JNET_TIMEOUT_ELAPSE
                 then tcp_destroy (clink c) m else m) (clients n) n"

section \<open>Framing\<close>

text \<open>
  A packet starts with four magic bytes and its length in little-endian order. The parser reads
  the length as the \<open>int\<close> the framework expects.
\<close>

definition NSPDEF_OPCODE :: "byte list" where "NSPDEF_OPCODE = [78, 115, 112, 100]"

definition le32 :: "int \<Rightarrow> byte list" where
  "le32 n = map (\<lambda>i. word_of_int (n div 2 ^ (8 * i))) [0..<4]"

definition un_le32 :: "byte list \<Rightarrow> int" where
  "un_le32 bs = (\<Sum>i<4. uint (bs ! i) * 2 ^ (8 * i))"

definition nsp__tst_builder :: "byte list \<Rightarrow> int \<Rightarrow> byte list option" where
  "nsp__tst_builder dat cb = (if cb \<le> 0 then None else Some (NSPDEF_OPCODE @ le32 cb @ drop 8 dat))"

definition nsp__tst_parser :: "byte list \<Rightarrow> int option" where
  "nsp__tst_parser dat =
     (if take 4 dat \<noteq> NSPDEF_OPCODE then None else Some (to_int32 (un_le32 (drop 4 dat))))"


section \<open>Framing: every packet is read back with its length\<close>

lemma word8_digit: "uint (word_of_int (n div 2 ^ (8 * i)) :: byte) * 2 ^ (8 * i) = n mod 2 ^ (8 * i + 8) - n mod 2 ^ (8 * i)"
proof -
  have "n mod (2 ^ (8 * i) * 2 ^ 8) = 2 ^ (8 * i) * (n div 2 ^ (8 * i) mod 2 ^ 8) + n mod 2 ^ (8 * i)"
    by (rule zmod_zmult2_eq) simp
  then show ?thesis by (simp add: unsigned_of_int take_bit_eq_mod power_add algebra_simps)
qed

lemma un_le32_le32: "un_le32 (le32 n @ bs) = n mod 2 ^ 32"
proof -
  have "un_le32 (le32 n @ bs) = (\<Sum>i<4. n mod 2 ^ (8 * i + 8) - n mod 2 ^ (8 * i))"
    unfolding un_le32_def by (rule sum.cong) (simp_all add: le32_def nth_append flip: word8_digit)
  also have "\<dots> = n mod 2 ^ 32" by (simp add: eval_nat_numeral lessThan_Suc)
  finally show ?thesis .
qed

text \<open>
  Framing round trip: a packet of any length the builder accepts, up to the largest \<open>int\<close>, is
  recognised by the parser, which reads back exactly the length, and the bytes behind the head
  are those of the caller.
\<close>

theorem tst_roundtrip:
  assumes "nsp__tst_builder dat cb = Some packet" "cb < 2 ^ 31" "8 \<le> length dat"
  shows "nsp__tst_parser packet = Some cb \<and> drop 8 packet = drop 8 dat \<and> length packet = length dat"
proof -
  have cb: "0 < cb" and p: "packet = NSPDEF_OPCODE @ le32 cb @ drop 8 dat"
    using assms(1) by (auto simp: nsp__tst_builder_def split: if_splits)
  have len: "length NSPDEF_OPCODE = 4" "length (le32 cb) = 4" by (simp_all add: NSPDEF_OPCODE_def le32_def)
  have "drop 4 packet = le32 cb @ drop 8 dat" "take 4 packet = NSPDEF_OPCODE" using len by (simp_all add: p)
  moreover have "cb mod 2 ^ 32 = cb" using cb assms(2) by simp
  ultimately have "nsp__tst_parser packet = Some (to_int32 cb)" by (simp add: nsp__tst_parser_def un_le32_le32)
  with cb assms(2,3) show ?thesis using len by (simp add: p)
qed

theorem tst_roundtrip_witness:
  "nsp__tst_parser ([78, 115, 112, 100] @ le32 300 @ [7]) = Some 300"
  using tst_roundtrip [of "[0, 0, 0, 0, 0, 0, 0, 0, 7]" 300 "[78, 115, 112, 100] @ le32 300 @ [7]"]
  by (simp add: nsp__tst_builder_def NSPDEF_OPCODE_def)

section \<open>Publishing: exactly the subscribers of the key and its ancestors\<close>

text \<open>The subscription is the key or, up to case, one of its dotted ancestors, or everything.\<close>

definition covers :: "string \<Rightarrow> string \<Rightarrow> bool" where
  "covers sub key \<longleftrightarrow>
     sub = ''/'' \<or> fold_key sub = fold_key key \<or> prefix (fold_key (sub @ ''.'')) (fold_key key)"

lemma fold_key_clean: "NUL \<notin> set s \<Longrightarrow> fold_key s = map lower s"
  by (simp add: fold_key_def)

lemma lower_dot: "lower c = lower (CHR ''.'') \<longleftrightarrow> c = CHR ''.''"
proof -
  have "of_char c = (of_char (CHR ''.'') :: nat) \<longleftrightarrow> c = CHR ''.''" by (rule of_char_eq_iff)
  then show ?thesis by (auto simp: lower_def Let_def)
qed

lemma publish_match_covers:
  assumes "NUL \<notin> set key" "NUL \<notin> set sub"
  shows "publish_match key sub \<longleftrightarrow> covers sub key"
proof (cases "sub = ''/''")
  case False
  let ?n = "length sub" and ?k = "map lower key" and ?s = "map lower sub"
  have clean: "NUL \<notin> set (take ?n key)" using assms(1) by (auto dest: in_set_takeD)
  have m: "publish_match key sub \<longleftrightarrow> ?n \<le> length key \<and> take ?n ?k = ?s \<and> (?n < length key \<longrightarrow> ?k ! ?n = lower (CHR ''.''))"
    using False strncasecmp_eq_0 [OF assms order_refl] assms clean
    by (auto simp: publish_match_def fold_key_clean lower_dot take_map)
  have "prefix (?s @ [lower (CHR ''.'')]) ?k \<longleftrightarrow> ?n < length key \<and> take ?n ?k = ?s \<and> ?k ! ?n = lower (CHR ''.'')"
  proof
    assume "prefix (?s @ [lower (CHR ''.'')]) ?k"
    then obtain t where t: "?k = ?s @ lower (CHR ''.'') # t" by (auto simp: prefix_def)
    from arg_cong [OF t, of length] have "?n < length key" by simp
    moreover have "take ?n ?k = ?s" "?k ! ?n = lower (CHR ''.'')" unfolding t by (simp_all add: nth_append)
    ultimately show "?n < length key \<and> take ?n ?k = ?s \<and> ?k ! ?n = lower (CHR ''.'')" by blast
  next
    assume r: "?n < length key \<and> take ?n ?k = ?s \<and> ?k ! ?n = lower (CHR ''.'')"
    then have "take (Suc ?n) ?k = ?s @ [lower (CHR ''.'')]" by (simp add: take_Suc_conv_app_nth)
    then show "prefix (?s @ [lower (CHR ''.'')]) ?k" by (metis take_is_prefix)
  qed
  moreover have "?s = ?k \<longleftrightarrow> ?n = length key \<and> take ?n ?k = ?s" by (metis length_map take_all order_refl)
  moreover have "covers sub key \<longleftrightarrow> ?s = ?k \<or> prefix (?s @ [lower (CHR ''.'')]) ?k"
    using False assms fold_key_clean [of "sub @ ''.''"] by (simp add: covers_def fold_key_clean NUL_def)
  moreover have "?n \<le> length key \<longleftrightarrow> ?n < length key \<or> ?n = length key" "\<not> (?n < length key \<and> ?n = length key)"
    by (simp_all add: le_less)
  ultimately show ?thesis using m by argo
qed (simp add: publish_match_def covers_def)

lemma publish_packet_fits:
  assumes "wf_jrp j"
  shows "length (publish_packet j) < MAX_REQ_SIZE"
proof -
  have k: "length (dupkey j) < MAX_KEY_SIZE" using assms by (simp add: wf_jrp_def)
  have v: "length (dupvalue j) < MAX_VALUE_SIZE"
    using assms by (auto simp: wf_jrp_def limit_defs split: option.splits)
  show ?thesis using k v by (simp add: publish_packet_def MAX_REQ_SIZE_def limit_defs)
qed

lemma wire_fold:
  "wire (fold (\<lambda>c m. if P c then tcp_write (clink c) p m else m) cs m) = wire m @ map (\<lambda>c. (clink c, p)) (filter P cs)"
  by (induction cs arbitrary: m) (auto simp: tcp_write_def)



text \<open>Three clients: one follows \<open>net.ip\<close>, one \<open>net.ipv6\<close>, one everything.\<close>

definition watcher :: "int \<Rightarrow> string \<Rightarrow> client" where
  "watcher l key = \<lparr>clink = l, subcribes = [\<lparr>segm = [], valuestring = None, dupkey = key, dupvalue = ''''\<rparr>],
     last_access = 0, window = 0\<rparr>"

definition watched :: jnet where
  "watched = \<lparr>clients = [watcher 1 ''NET.ip'', watcher 2 ''net.ipv'', watcher 3 ''/''], qps = 0, wire = [], closing = []\<rparr>"

definition mask_jrp :: JRP where
  "mask_jrp = \<lparr>segm = [mkseg 3 0 (''net'', -1), mkseg 3 1 (''ip'', -1), mkseg 3 2 (''mask'', -1)],
     valuestring = Some ''24'', dupkey = ''net.ip.mask'', dupvalue = ''24''\<rparr>"


section \<open>Subscriptions are a set of keys\<close>

text \<open>
  The subscriptions of a client as a set of keys, letter case aside. No key is subscribed to twice.
\<close>

definition sub_keys :: "int \<Rightarrow> jnet \<Rightarrow> nat list set" where
  "sub_keys l n = (case jnet_link_context_get l n of None \<Rightarrow> {} | Some c \<Rightarrow> set (map (fold_key \<circ> dupkey) (subcribes c)))"

definition subs_distinct :: "jnet \<Rightarrow> bool" where
  "subs_distinct n \<longleftrightarrow> list_all (\<lambda>c. distinct (map (fold_key \<circ> dupkey) (subcribes c))) (clients n)"

lemma upd_client_get:
  assumes "\<And>c. clink (f c) = clink c"
  shows "jnet_link_context_get k (upd_client l f n) =
    (if k = l then map_option f (jnet_link_context_get k n) else jnet_link_context_get k n)"
proof -
  have "List.find (\<lambda>c. clink c = k) (map (\<lambda>c. if clink c = l then f c else c) cs) =
     (if k = l then map_option f (List.find (\<lambda>c. clink c = k) cs) else List.find (\<lambda>c. clink c = k) cs)" for cs
    using assms by (induction cs) auto
  then show ?thesis by (simp add: jnet_link_context_get_def upd_client_def)
qed

lemma subs_distinct_upd:
  assumes "subs_distinct n" "\<And>c. distinct (map (fold_key \<circ> dupkey) (subcribes c)) \<Longrightarrow>
      clink c = l \<Longrightarrow> c \<in> set (clients n) \<Longrightarrow> distinct (map (fold_key \<circ> dupkey) (subcribes (f c)))"
  shows "subs_distinct (upd_client l f n)"
  using assms by (auto simp: subs_distinct_def upd_client_def list_all_iff)

lemma context_unique:
  assumes "distinct (map clink (clients n))" "jnet_link_context_get l n = Some c" "d \<in> set (clients n)" "clink d = l"
  shows "d = c"
proof -
  have "c \<in> set (clients n)" "clink c = l"
    using assms(2) by (auto simp: jnet_link_context_get_def find_Some_iff)
  with assms(3,4) inj_onD [of clink "set (clients n)" d c] show ?thesis using assms(1) by (simp add: distinct_map)
qed

lemma subscribe_keys:
  assumes "valuestring jrp = None" "jnet_link_context_get l n = Some c"
  shows "fst (jnet_subscribe l jrp n) \<longleftrightarrow> fold_key (dupkey jrp) \<notin> sub_keys l n"
    and "sub_keys k (snd (jnet_subscribe l jrp n)) = sub_keys k n \<union> (if k = l then {fold_key (dupkey jrp)} else {})"
proof -
  have ex: "list_ex (\<lambda>s. strcasecmp (dupkey s) (dupkey jrp) = 0) (subcribes c) \<longleftrightarrow> fold_key (dupkey jrp) \<in> sub_keys l n"
    using assms(2) by (auto simp: list_ex_iff strcasecmp_eq_0 sub_keys_def image_iff) (metis)
  show "fst (jnet_subscribe l jrp n) \<longleftrightarrow> fold_key (dupkey jrp) \<notin> sub_keys l n"
    using assms ex by (simp add: jnet_subscribe_def)
  show "sub_keys k (snd (jnet_subscribe l jrp n)) = sub_keys k n \<union> (if k = l then {fold_key (dupkey jrp)} else {})"
  proof (cases "fold_key (dupkey jrp) \<in> sub_keys l n")
    case True
    then show ?thesis using assms ex by (auto simp: jnet_subscribe_def)
  next
    case False
    then show ?thesis using assms ex by (auto simp: jnet_subscribe_def sub_keys_def upd_client_get)
  qed
qed

lemma unsubscribe_keys:
  assumes "jnet_link_context_get l n = Some c"
  shows "sub_keys k (snd (jnet_unsubscribe l jrp n)) =
      (if k \<noteq> l then sub_keys k n else if fold_key (dupkey jrp) = fold_key ''*'' then {} else sub_keys k n - {fold_key (dupkey jrp)})"
    and "fst (jnet_unsubscribe l jrp n) \<longleftrightarrow> sub_keys l (snd (jnet_unsubscribe l jrp n)) \<noteq> sub_keys l n"
proof -
  have l: "sub_keys l n = (fold_key \<circ> dupkey) ` set (subcribes c)" using assms by (simp add: sub_keys_def)
  show keys: "sub_keys k (snd (jnet_unsubscribe l jrp n)) =
      (if k \<noteq> l then sub_keys k n else if fold_key (dupkey jrp) = fold_key ''*'' then {} else sub_keys k n - {fold_key (dupkey jrp)})" for k
    using assms by (auto simp: jnet_unsubscribe_def sub_keys_def upd_client_get Let_def strcasecmp_eq_0)
  have "fst (jnet_unsubscribe l jrp n) \<longleftrightarrow>
      (\<exists>s\<in>set (subcribes c). fold_key (dupkey jrp) = fold_key ''*'' \<or> fold_key (dupkey s) = fold_key (dupkey jrp))"
    using assms by (simp add: jnet_unsubscribe_def Let_def list_ex_iff strcasecmp_eq_0)
  then show "fst (jnet_unsubscribe l jrp n) \<longleftrightarrow> sub_keys l (snd (jnet_unsubscribe l jrp n)) \<noteq> sub_keys l n"
    using keys [of l] l by auto
qed

lemma subscribe_distinct:
  assumes "distinct (map clink (clients n))" "subs_distinct n"
  shows "subs_distinct (snd (jnet_subscribe l jrp n))" "subs_distinct (snd (jnet_unsubscribe l jrp n))"
proof -
  show "subs_distinct (snd (jnet_subscribe l jrp n))"
  proof (cases "jnet_link_context_get l n")
    case (Some c)
    have "distinct (map (fold_key \<circ> dupkey) (subcribes d @ [jrp]))"
      if "\<not> list_ex (\<lambda>s. strcasecmp (dupkey s) (dupkey jrp) = 0) (subcribes c)"
        "distinct (map (fold_key \<circ> dupkey) (subcribes d))" "clink d = l" "d \<in> set (clients n)" for d
      using that context_unique [OF assms(1) Some that(4,3)] by (auto simp: list_ex_iff strcasecmp_eq_0)
    then show ?thesis using assms(2) Some by (auto simp: jnet_subscribe_def intro!: subs_distinct_upd)
  qed (use assms(2) in \<open>simp add: jnet_subscribe_def\<close>)
  show "subs_distinct (snd (jnet_unsubscribe l jrp n))"
    using assms(2) by (auto simp: jnet_unsubscribe_def Let_def distinct_map_filter split: option.splits intro!: subs_distinct_upd)
qed

text \<open>
  C16: \<open>subscribe\<close> and \<open>unsubscribe\<close> keep, for each client, a set of keys without repetition, letter
  case aside: subscribing is accepted exactly for a connected client that does not have the key yet
  and then adds it; unsubscribing removes the key, or with \<open>*\<close> all keys, and is accepted exactly
  when that removes something; no other client is concerned.
\<close>

theorem subscription_set:
  assumes "valuestring jrp = None" "distinct (map clink (clients n))" "subs_distinct n"
    and "jnet_link_context_get l n = Some c"
  shows "(fst (jnet_subscribe l jrp n) \<longleftrightarrow> fold_key (dupkey jrp) \<notin> sub_keys l n) \<and>
    sub_keys k (snd (jnet_subscribe l jrp n)) = sub_keys k n \<union> (if k = l then {fold_key (dupkey jrp)} else {}) \<and>
    subs_distinct (snd (jnet_subscribe l jrp n)) \<and>
    (fst (jnet_unsubscribe l jrp n) \<longleftrightarrow> sub_keys l (snd (jnet_unsubscribe l jrp n)) \<noteq> sub_keys l n) \<and>
    sub_keys k (snd (jnet_unsubscribe l jrp n)) =
      (if k \<noteq> l then sub_keys k n else if fold_key (dupkey jrp) = fold_key ''*'' then {} else sub_keys k n - {fold_key (dupkey jrp)}) \<and>
    subs_distinct (snd (jnet_unsubscribe l jrp n))"
  using subscribe_keys [OF assms(1,4)] unsubscribe_keys [OF assms(4)] subscribe_distinct [OF assms(2,3)] by blast

definition follow_jrp :: JRP where
  "follow_jrp = \<lparr>segm = [], valuestring = None, dupkey = ''net.IP'', dupvalue = ''''\<rparr>"

theorem subscription_set_witness:
  "\<not> fst (jnet_subscribe 1 follow_jrp watched) \<and> fst (jnet_subscribe 2 follow_jrp watched) \<and>
   sub_keys 1 (snd (jnet_unsubscribe 1 follow_jrp watched)) = {}"
proof -
  have v: "valuestring follow_jrp = None" "distinct (map clink (clients watched))" "subs_distinct watched" by code_simp+
  have c: "jnet_link_context_get 1 watched = Some (watcher 1 ''NET.ip'')"
    "jnet_link_context_get 2 watched = Some (watcher 2 ''net.ipv'')" by code_simp+
  have k: "fold_key (dupkey follow_jrp) = fold_key ''NET.ip''" "fold_key (dupkey follow_jrp) \<noteq> fold_key ''net.ipv''"
    "fold_key (dupkey follow_jrp) \<noteq> fold_key ''*''" by code_simp+
  have "sub_keys 1 watched = {fold_key ''NET.ip''}" "sub_keys 2 watched = {fold_key ''net.ipv''}"
    using c by (simp_all add: sub_keys_def watcher_def)
  with subscription_set [OF v c(1), of 1] subscription_set [OF v c(2), of 2] k show ?thesis by simp
qed


end
