(* ===== verification/Order.thy ===== *)
theory Order
  imports Net Runtime
begin

text \<open>
  The task machinery of \<^verbatim>\<open>pro/order.c\<close>: two worker threads (PRO and DPC) with a queue of tasks
  and a response buffer each, the choice of a handler for a request, the execution of a task and
  its response. What a handler does to the rest of the daemon is an argument: a function from
  the handler, its task, one request section and the rest of the state to the new rest and the
  list of calls back into this component, in their order.
\<close>

section \<open>Tasks and worker threads\<close>

definition RESP_BUFF_SIZE :: nat where "RESP_BUFF_SIZE = 5 * 2 ^ 20"
definition MAX_PENDING_TASK :: int where "MAX_PENDING_TASK = 100"

datatype worker = PRO | DPC

datatype handler =
    variable_contain | create_checkpoint | variable_read_file | do_fsync | mkdir | binary_read
  | variable_read | recover_checkpoint | recover_checkpoint2 | rmdir | variable_scope | subscribe
  | do_sync | unsubscribe | query_version | binary_write | variable_write

text \<open>\<open>task_handler\<close> is \<open>None\<close> for the null pointer of \<open>keepalive\<close>.\<close>

record task =
  tlink :: int
  title :: string
  dupopt :: string
  jrp_option :: "JRP list"
  jrp_payload :: "JRP list"
  task_handler :: "handler option"
  tthread :: worker

text \<open>
  A worker thread: \<open>offset\<close> is the count of the code, which may pass the buffer when a text was
  cut; \<open>response\<close> holds the bytes written so far.
\<close>

record work_thread =
  task_head :: "task list"
  task_pending :: int
  offset :: nat
  response :: string

text \<open>The server: both threads, the fsync counter, the network and the rest \<open>'w\<close> of the daemon.\<close>

record 'w server =
  pro :: work_thread
  dpc :: work_thread
  pending_fsync :: int
  net :: jnet
  world :: 'w

definition thread_of :: "worker \<Rightarrow> 'w server \<Rightarrow> work_thread" where
  "thread_of w s = (case w of PRO \<Rightarrow> pro s | DPC \<Rightarrow> dpc s)"

definition set_thread :: "worker \<Rightarrow> work_thread \<Rightarrow> 'w server \<Rightarrow> 'w server" where
  "set_thread w t s = (case w of PRO \<Rightarrow> s\<lparr>pro := t\<rparr> | DPC \<Rightarrow> s\<lparr>dpc := t\<rparr>)"

section \<open>The response buffer\<close>

text \<open>
  \<open>vsnprintf\<close> into the rest of the buffer: a text that does not fit is cut and terminated by a
  zero byte in the last place, but counted with its full length.
\<close>

definition pro_append_response :: "string \<Rightarrow> work_thread \<Rightarrow> work_thread" where
  "pro_append_response txt t =
     (if offset t \<ge> RESP_BUFF_SIZE then t
      else
        (let room = RESP_BUFF_SIZE - offset t in
         t\<lparr>response := take (offset t) (response t) @
              (if length txt < room then txt else take (room - 1) txt @ [NUL]),
           offset := offset t + length txt\<rparr>))"

definition pro_append_binary_response :: "string \<Rightarrow> work_thread \<Rightarrow> work_thread" where
  "pro_append_binary_response bytes t =
     (if bytes = [] \<or> offset t + length bytes \<ge> RESP_BUFF_SIZE then t
      else t\<lparr>response := take (offset t) (response t) @ bytes, offset := offset t + length bytes\<rparr>)"

text \<open>\<open>pro_send_response\<close>: what is sent, if anything; the buffer is empty afterwards.\<close>

definition pro_send_response :: "task \<Rightarrow> worker \<Rightarrow> 'w server \<Rightarrow> 'w server" where
  "pro_send_response tk w s =
     (let t = thread_of w s;
          n = (if offset t > 0 \<and> tlink tk > 0
               then snd (jnet_write_response (tlink tk) (take (min (offset t) RESP_BUFF_SIZE) (response t)) (net s))
               else net s)
      in set_thread w (t\<lparr>offset := 0, response := []\<rparr>) (s\<lparr>net := n\<rparr>))"

section \<open>Refusing a task\<close>

definition pro_complete_task :: "task \<Rightarrow> string \<Rightarrow> 'w server \<Rightarrow> 'w server" where
  "pro_complete_task tk status s =
     (if tlink tk > 0
      then (case status_packet (title tk) (if dupopt tk = [] then None else Some (dupopt tk)) status of
              None \<Rightarrow> s
            | Some packet \<Rightarrow> s\<lparr>net := snd (jnet_write_response (tlink tk) packet (net s))\<rparr>)
      else s)"

definition pro_complete_task_as_fault :: "task \<Rightarrow> 'w server \<Rightarrow> 'w server" where
  "pro_complete_task_as_fault tk s = pro_complete_task tk ''fatal'' s"

section \<open>Choosing the handler\<close>

text \<open>
  \<open>pro_set_handler\<close>: the task with handler and thread, or \<open>None\<close> for \<open>-1\<close>, and the fsync counter.
  \<open>run\<close> sets both fields.
\<close>

definition run :: "handler option \<Rightarrow> worker \<Rightarrow> task \<Rightarrow> task option" where
  "run h w tk = Some (tk\<lparr>task_handler := h, tthread := w\<rparr>)"

definition pro_set_handler :: "task \<Rightarrow> int \<Rightarrow> task option \<times> int" where
  "pro_set_handler tk pending =
     (let t = title tk; size = length (jrp_payload tk) in
      if length t < 3 then (None, pending)
      else if hd t = CHR ''c'' then
        (if t = ''contain'' then (if size = 0 then None else run (Some variable_contain) PRO tk, pending)
         else if t = ''checkpoint'' then (if size \<noteq> 0 then None else run (Some create_checkpoint) DPC tk, pending)
         else (None, pending))
      else if hd t = CHR ''f'' then
        (if t = ''file'' then (if size = 0 then None else run (Some variable_read_file) PRO tk, pending)
         else if t = ''fsync'' then
           (if size \<noteq> 0 then (None, pending)
            else if tlink tk \<noteq> INVALID_HTCPLINK then (None, pending)
            else if pending + 1 > 1 then (None, pending)
            else (run (Some do_fsync) DPC tk, pending + 1))
         else (None, pending))
      else if hd t = CHR ''k'' then
        (if t = ''keepalive'' then run None PRO tk else None, pending)
      else if hd t = CHR ''m'' then
        (if t = ''mkdir'' then (if size = 0 then None else run (Some mkdir) PRO tk) else None, pending)
      else if hd t = CHR ''r'' then
        (if t = ''rbin'' then (if size \<noteq> 0 then None else run (Some binary_read) DPC tk)
         else if t = ''read'' then (if size = 0 then None else run (Some variable_read) PRO tk)
         else if t = ''recover'' then (if size \<noteq> 1 then None else run (Some recover_checkpoint) DPC tk)
         else if t = ''recover2'' then run (Some recover_checkpoint2) PRO (tk\<lparr>title := ''recover''\<rparr>)
         else if t = ''rmdir'' then (if size = 0 then None else run (Some rmdir) PRO tk)
         else None, pending)
      else if hd t = CHR ''s'' then
        (if t = ''scope'' then (if size = 0 then None else run (Some variable_scope) PRO tk)
         else if t = ''subscribe'' then (if size = 0 then None else run (Some subscribe) PRO tk)
         else if t = ''sync'' then (if size \<noteq> 0 then None else run (Some do_sync) PRO tk)
         else None, pending)
      else if hd t = CHR ''u'' then
        (if t = ''unsubscribe'' then (if size = 0 then None else run (Some unsubscribe) PRO tk) else None, pending)
      else if hd t = CHR ''v'' then
        (if t = ''version'' then (if size \<noteq> 0 then None else run (Some query_version) PRO tk) else None, pending)
      else if hd t = CHR ''w'' then
        (if t = ''wbin'' then (if size \<noteq> 1 then None else run (Some binary_write) DPC tk)
         else if t = ''write'' then (if size = 0 then None else run (Some variable_write) PRO tk)
         else None, pending)
      else (None, pending))"

section \<open>Receiving a request\<close>

text \<open>An empty request section, and the section that carries the raw payload of \<open>wbin\<close>.\<close>

definition rt_init_jrp :: JRP where
  "rt_init_jrp = \<lparr>segm = [], valuestring = None, dupkey = '''', dupvalue = ''''\<rparr>"

definition pro_build_binary_jrp :: "string \<Rightarrow> JRP" where
  "pro_build_binary_jrp payload = rt_init_jrp\<lparr>valuestring := Some payload\<rparr>"

text \<open>
  \<open>pro_allocate_task\<close>: the task that is left for the fault response, whether it is accepted, and
  the fsync counter. Option and payload are \<open>None\<close> for a null pointer.
\<close>

definition pro_allocate_task ::
  "int \<Rightarrow> string \<Rightarrow> string option \<Rightarrow> string option \<Rightarrow> int \<Rightarrow> task \<times> bool \<times> int" where
  "pro_allocate_task l ttl opt payload pending =
     (let effective = (\<lambda>p. case p of None \<Rightarrow> False | Some x \<Rightarrow> x \<noteq> []);
          tk0 = \<lparr>tlink = l, title = ttl, dupopt = '''', jrp_option = [], jrp_payload = [],
                 task_handler = None, tthread = PRO\<rparr>;
          tk1 = (if effective opt then tk0\<lparr>dupopt := cstr (the opt)\<rparr> else tk0)
      in case (if effective opt then rt_build_jrp (the opt) else Some []) of
           None \<Rightarrow> (tk1, False, pending)
         | Some os \<Rightarrow>
             (let tk2 = tk1\<lparr>jrp_option := os\<rparr> in
              case (if ttl = ''wbin'' then map_option (\<lambda>p. [pro_build_binary_jrp p]) payload
                    else if effective payload then rt_build_jrp (the payload) else Some []) of
                None \<Rightarrow> (tk2, False, pending)
              | Some ps \<Rightarrow>
                  (let tk3 = tk2\<lparr>jrp_payload := ps\<rparr> in
                   case pro_set_handler tk3 pending of
                     (None, pending') \<Rightarrow> (tk3, False, pending')
                   | (Some tk4, pending') \<Rightarrow> (tk4, True, pending'))))"

definition pro_receive_data :: "int \<Rightarrow> string \<Rightarrow> string option \<Rightarrow> string option \<Rightarrow> 'w server \<Rightarrow> int \<times> 'w server" where
  "pro_receive_data l ttl opt payload s =
     (case pro_allocate_task l ttl opt payload (pending_fsync s) of (tk, accepted, pending) \<Rightarrow>
        (let s1 = s\<lparr>pending_fsync := pending\<rparr> in
         if \<not> accepted then (-1, pro_complete_task_as_fault tk s1)
         else
           (let w = tthread tk; t = thread_of w s1 in
            if task_pending t < MAX_PENDING_TASK
            then (0, set_thread w (t\<lparr>task_head := task_head t @ [tk], task_pending := task_pending t + 1\<rparr>) s1)
            else (-1, pro_complete_task_as_fault tk s1))))"

text \<open>
  \<open>pro_append_request\<close>: a request of the daemon to itself. With a section of a running task the
  new task takes over link and options.
\<close>

definition pro_append_request :: "string \<Rightarrow> task option \<Rightarrow> string option \<Rightarrow> 'w server \<Rightarrow> int \<times> 'w server" where
  "pro_append_request ttl from payload s =
     (if length ttl \<ge> MAX_TITLE_SIZE then (-1, s)
      else if (case from of Some tk \<Rightarrow> length (dupopt tk) \<ge> MAX_OPT_SIZE | None \<Rightarrow> False) then (-1, s)
      else if (case payload of Some p \<Rightarrow> length p \<ge> MAX_PAYLOAD_SIZE | None \<Rightarrow> False) then (-1, s)
      else pro_receive_data (case from of Some tk \<Rightarrow> tlink tk | None \<Rightarrow> INVALID_HTCPLINK) ttl
             (map_option dupopt from) payload s)"

definition pro_complete_fsync :: "'w server \<Rightarrow> 'w server" where
  "pro_complete_fsync s = s\<lparr>pending_fsync := pending_fsync s - 1\<rparr>"

section \<open>Executing a task\<close>

text \<open>The calls a handler makes into this component and into the network.\<close>

datatype effect =
    Append string | AppendBinary string | AppendRequest string bool "string option"
  | FsyncComplete | LinkDropped | Publish JRP

fun apply_effect :: "worker \<Rightarrow> effect \<Rightarrow> task \<times> 'w server \<Rightarrow> task \<times> 'w server" where
  "apply_effect w (Append txt) (tk, s) = (tk, set_thread w (pro_append_response txt (thread_of w s)) s)"
| "apply_effect w (AppendBinary bytes) (tk, s) = (tk, set_thread w (pro_append_binary_response bytes (thread_of w s)) s)"
| "apply_effect w (AppendRequest ttl own payload) (tk, s) =
     (tk, snd (pro_append_request ttl (if own then Some tk else None) payload s))"
| "apply_effect w FsyncComplete (tk, s) = (tk, pro_complete_fsync s)"
| "apply_effect w LinkDropped (tk, s) = (tk\<lparr>tlink := INVALID_HTCPLINK\<rparr>, s)"
| "apply_effect w (Publish jrp) (tk, s) = (tk, s\<lparr>net := jnet_publish jrp (net s)\<rparr>)"

type_synonym 'w exec = "handler \<Rightarrow> task \<Rightarrow> JRP \<Rightarrow> 'w \<Rightarrow> 'w \<times> effect list"

text \<open>One call of the task's handler. The two handlers of the network component are modelled here.\<close>

definition status_text :: "bool \<Rightarrow> string" where
  "status_text ok = (if ok then JESS_OK else JESS_FATAL)"

definition call_handler :: "'w exec \<Rightarrow> worker \<Rightarrow> handler \<Rightarrow> JRP \<Rightarrow> task \<times> 'w server \<Rightarrow> task \<times> 'w server" where
  "call_handler exec w h jrp ts =
     (case ts of (tk, s) \<Rightarrow>
        if h = subscribe then
          (case jnet_subscribe (tlink tk) jrp (net s) of (ok, n) \<Rightarrow>
             apply_effect w (Append (status_text ok)) (tk, s\<lparr>net := n\<rparr>))
        else if h = unsubscribe then
          (case jnet_unsubscribe (tlink tk) jrp (net s) of (ok, n) \<Rightarrow>
             apply_effect w (Append (status_text ok)) (tk, s\<lparr>net := n\<rparr>))
        else (case exec h tk jrp (world s) of (w', es) \<Rightarrow> fold (apply_effect w) es (tk, s\<lparr>world := w'\<rparr>)))"

definition pro_execute_task :: "'w exec \<Rightarrow> worker \<Rightarrow> task \<Rightarrow> 'w server \<Rightarrow> 'w server" where
  "pro_execute_task exec w tk s =
     (let t0 = (thread_of w s)\<lparr>offset := 0, response := []\<rparr>;
          t1 = pro_append_response (title tk @ CRLF) t0;
          t2 = (if dupopt tk \<noteq> [] then pro_append_response (dupopt tk @ CRLF @ CRLF) t1 else t1);
          s1 = set_thread w t2 s;
          (tk', s2) =
            (if jrp_payload tk = [] then
               (case task_handler tk of
                  Some h \<Rightarrow> call_handler exec w h rt_init_jrp (tk, s1)
                | None \<Rightarrow> apply_effect w (Append JESS_OK) (tk, s1))
             else
               (case task_handler tk of
                  Some h \<Rightarrow> fold (call_handler exec w h) (jrp_payload tk) (tk, s1)
                | None \<Rightarrow> apply_effect w (Append JESS_FATAL) (tk, s1)))
      in pro_send_response tk' w s2)"

text \<open>One round of the loop of \<open>pro_rotate_task\<close>; \<open>None\<close> when the queue is empty.\<close>

definition pro_rotate_one :: "'w exec \<Rightarrow> worker \<Rightarrow> 'w server \<Rightarrow> 'w server option" where
  "pro_rotate_one exec w s =
     (case task_head (thread_of w s) of
        [] \<Rightarrow> None
      | tk # rest \<Rightarrow>
          (let t = thread_of w s in
           Some (pro_execute_task exec w tk
             (set_thread w (t\<lparr>task_head := rest, task_pending := task_pending t - 1\<rparr>) s))))"

section \<open>Receiving from the network\<close>

text \<open>
  \<open>jnet_on_receive_data\<close>: the head is read as a C string, the payload by its length. A request
  whose head cannot be read is dropped without an answer (\<open>0\<close>); on \<open>-1\<close> the caller closes the
  link.
\<close>

definition on_net :: "(jnet \<Rightarrow> jnet) \<Rightarrow> 'w server \<Rightarrow> 'w server" where
  "on_net f s = s\<lparr>net := f (net s)\<rparr>"

definition jnet_on_receive_data :: "nat \<Rightarrow> int \<Rightarrow> string \<Rightarrow> 'w server \<Rightarrow> int \<times> 'w server" where
  "jnet_on_receive_data now l data s =
     (let s0 = on_net (\<lambda>n. n\<lparr>qps := qps n + 1\<rparr>) s in
      if data = [] \<or> length data > MAX_REQ_SIZE then (-1, s0)
      else case rt_analyze_req_head (cstr data) of
        None \<Rightarrow> (0, s0)
      | Some (ttl, opt, rest) \<Rightarrow>
          (let raw = drop (length (cstr data) - length rest) data;
               payload = (if raw = [] then None else Some raw)
           in case jnet_link_context_get l (net s0) of
                None \<Rightarrow> (-1, s0)
              | Some c \<Rightarrow>
                  (let s1 = on_net (upd_client l (\<lambda>c. c\<lparr>last_access := now\<rparr>)) s0 in
                   if window c \<ge> MAX_LINK_WINDOW then
                     (case jnet_simple_complete_request l ttl opt ''fatal'' (net s1) of (r, n) \<Rightarrow> (r, s1\<lparr>net := n\<rparr>))
                   else
                     (0, snd (pro_receive_data l ttl opt payload
                           (on_net (upd_client l (\<lambda>c. c\<lparr>window := window c + 1\<rparr>)) s1))))))"

text \<open>The callback of the TCP links.\<close>

datatype tcp_event = ACCEPTED int | RECEIVEDATA int string | PRE_CLOSE int

definition jnet_tcp_callback :: "nat \<Rightarrow> tcp_event \<Rightarrow> 'w server \<Rightarrow> 'w server" where
  "jnet_tcp_callback now ev s =
     (case ev of
        ACCEPTED l \<Rightarrow> on_net (jnet_on_accepted now l) s
      | RECEIVEDATA l data \<Rightarrow>
          (case jnet_on_receive_data now l data s of (r, s') \<Rightarrow> if r < 0 then on_net (tcp_destroy l) s' else s')
      | PRE_CLOSE l \<Rightarrow> on_net (jnet_on_preclose l) s)"

text \<open>One turn of the keepalive thread: it reports the request rate and closes idle links.\<close>

definition procfs_set_property :: "string \<Rightarrow> int \<Rightarrow> 'w server \<Rightarrow> 'w server" where
  "procfs_set_property field n s =
     snd (pro_append_request ''write'' None
       (Some (take (MAX_PAYLOAD_SIZE - 1) (''proc.jess.'' @ field @ ''='' @ show_int n))) s)"

definition jnet_keepalive :: "nat \<Rightarrow> 'w server \<Rightarrow> 'w server" where
  "jnet_keepalive now s =
     on_net (jnet_keepalive_check now) (procfs_set_property ''qps'' (qps (net s)) (on_net (\<lambda>n. n\<lparr>qps := 0\<rparr>) s))"

section \<open>The server as a transition system\<close>

text \<open>
  The events that interleave: callbacks of the network, a task executed by a worker, a turn of
  the keepalive thread, a request of the flush thread. A new link has a number that no client
  and no pending task has.
\<close>

definition pending_tasks :: "'w server \<Rightarrow> task list" where
  "pending_tasks s = task_head (pro s) @ task_head (dpc s)"

inductive jess_step :: "'w exec \<Rightarrow> 'w server \<Rightarrow> 'w server \<Rightarrow> bool" for exec where
  accept: "0 < l \<Longrightarrow> l \<notin> clink ` set (clients (net s)) \<Longrightarrow> l \<notin> tlink ` set (pending_tasks s) \<Longrightarrow>
    jess_step exec s (jnet_tcp_callback now (ACCEPTED l) s)"
| receive: "jess_step exec s (jnet_tcp_callback now (RECEIVEDATA l data) s)"
| close: "jess_step exec s (jnet_tcp_callback now (PRE_CLOSE l) s)"
| execute: "pro_rotate_one exec w s = Some s' \<Longrightarrow> jess_step exec s s'"
| keepalive: "jess_step exec s (jnet_keepalive now s)"
| flush: "jess_step exec s (snd (pro_append_request ''sync'' None None s))"

inductive_cases jess_stepE: "jess_step exec s s'"

text \<open>The state after \<open>pro_create\<close> and the start of the network.\<close>

definition idle_thread :: work_thread where
  "idle_thread = \<lparr>task_head = [], task_pending = 0, offset = 0, response = []\<rparr>"

definition initial_server :: "'w \<Rightarrow> 'w server" where
  "initial_server w0 = \<lparr>pro = idle_thread, dpc = idle_thread, pending_fsync = 0,
     net = \<lparr>clients = [], qps = 0, wire = [], closing = []\<rparr>, world = w0\<rparr>"

end
