(* ===== verification/Server.thy ===== *)
theory Server
  imports Order
begin

text \<open>
  The contract of the task machinery and of the network side: the accounting of pending requests
  per link, the bounds of the queues, the fsync counter, and what a response contains. The model
  is in \<open>Net\<close> and \<open>Order\<close>.
\<close>

section \<open>Windows\<close>

definition wins :: "jnet \<Rightarrow> int \<Rightarrow> int option" where
  "wins n l = map_option window (jnet_link_context_get l n)"

lemma wins_cong [simp]:
  "wins (n\<lparr>qps := q\<rparr>) = wins n" "wins (n\<lparr>closing := x\<rparr>) = wins n" "wins (n\<lparr>wire := y\<rparr>) = wins n"
  "wins (tcp_write l p n) = wins n" "wins (tcp_destroy l n) = wins n"
  by (simp_all add: wins_def jnet_link_context_get_def tcp_write_def tcp_destroy_def fun_eq_iff)

lemma clients_cong [simp]:
  "clients (tcp_write l p n) = clients n" "clients (tcp_destroy l n) = clients n"
  by (simp_all add: tcp_write_def tcp_destroy_def)

lemma wins_upd_client:
  "(\<And>c. clink (f c) = clink c) \<Longrightarrow> (\<And>c. window (f c) = g (window c)) \<Longrightarrow>
   wins (upd_client l f n) k = (if k = l then map_option g (wins n k) else wins n k)"
  by (simp add: wins_def upd_client_get option.map_comp comp_def)

lemma links_upd_client [simp]:
  "(\<And>c. clink (f c) = clink c) \<Longrightarrow> map clink (clients (upd_client l f n)) = map clink (clients n)"
  by (auto simp: upd_client_def)

lemma wins_write_response:
  "wins (snd (jnet_write_response l p n)) k = (if k = l then map_option (\<lambda>w. w - 1) (wins n k) else wins n k)"
proof (cases "jnet_link_context_get l n")
  case None
  then show ?thesis by (auto simp: jnet_write_response_def wins_def)
next
  case (Some c)
  then show ?thesis by (simp add: jnet_write_response_def wins_upd_client [where g = "\<lambda>w. w - 1"])
qed

lemma links_write_response [simp]: "map clink (clients (snd (jnet_write_response l p n))) = map clink (clients n)"
  by (simp add: jnet_write_response_def split: option.splits)

lemma clients_publish [simp]: "clients (jnet_publish j n) = clients n"
proof -
  have "clients (fold (\<lambda>c m. if P c then tcp_write (clink c) p m else m) cs m) = clients m" for P p cs m
    by (induction cs arbitrary: m) auto
  then show ?thesis by (simp add: jnet_publish_def)
qed

lemma wins_clients: "clients n = clients m \<Longrightarrow> wins n = wins m"
  by (simp add: wins_def jnet_link_context_get_def fun_eq_iff)

lemma wins_publish [simp]: "wins (jnet_publish j n) = wins n"
  by (rule wins_clients) simp

lemma clients_keepalive [simp]: "clients (jnet_keepalive_check now n) = clients n"
proof -
  have "clients (fold (\<lambda>c m. if P c then tcp_destroy (clink c) m else m) cs m) = clients m" for P cs m
    by (induction cs arbitrary: m) auto
  then show ?thesis by (simp add: jnet_keepalive_check_def)
qed

lemma wins_keepalive [simp]: "wins (jnet_keepalive_check now n) = wins n"
  by (rule wins_clients) simp

lemma subscribe_keeps:
  "wins (snd (jnet_subscribe l j n)) = wins n" "map clink (clients (snd (jnet_subscribe l j n))) = map clink (clients n)"
  "wins (snd (jnet_unsubscribe l j n)) = wins n" "map clink (clients (snd (jnet_unsubscribe l j n))) = map clink (clients n)"
  by (auto simp: jnet_subscribe_def jnet_unsubscribe_def wins_upd_client [where g = id] fun_eq_iff option.map_id
      split: option.splits)

section \<open>Threads\<close>

lemma thread_simps [simp]:
  "thread_of w (set_thread w t s) = t"
  "w \<noteq> w' \<Longrightarrow> thread_of w (set_thread w' t s) = thread_of w s"
  "net (set_thread w t s) = net s" "pending_fsync (set_thread w t s) = pending_fsync s" "world (set_thread w t s) = world s"
  "thread_of w (s\<lparr>net := n\<rparr>) = thread_of w s" "thread_of w (s\<lparr>pending_fsync := p\<rparr>) = thread_of w s"
  "thread_of w (s\<lparr>world := x\<rparr>) = thread_of w s" "thread_of w (on_net f s) = thread_of w s"
  "net (on_net f s) = f (net s)" "pending_fsync (on_net f s) = pending_fsync s"
  by (cases w; cases w'; simp add: thread_of_def set_thread_def on_net_def)+

text \<open>The number of pending tasks of a link.\<close>

definition pend :: "int \<Rightarrow> 'w server \<Rightarrow> int" where
  "pend l s = int (length (filter (\<lambda>tk. tlink tk = l) (pending_tasks s)))"

definition count_link :: "int \<Rightarrow> task list \<Rightarrow> int" where
  "count_link l tks = int (length (filter (\<lambda>tk. tlink tk = l) tks))"

lemma count_link_simps [simp]:
  "count_link l [] = 0" "count_link l (tks @ us) = count_link l tks + count_link l us"
  "count_link l (tk # tks) = (if tlink tk = l then 1 else 0) + count_link l tks"
  by (simp_all add: count_link_def)

lemma count_link_nonneg [simp]: "0 \<le> count_link l tks"
  by (simp add: count_link_def)

lemma pend_alt: "pend l s = count_link l (task_head (thread_of PRO s)) + count_link l (task_head (thread_of DPC s))"
  by (simp add: pend_def pending_tasks_def count_link_def thread_of_def)

lemma pend_set_thread:
  "pend l (set_thread w t s) = pend l s - count_link l (task_head (thread_of w s)) + count_link l (task_head t)"
  by (cases w) (simp_all add: pend_alt)

lemma pend_cong [simp]: "pend l (s\<lparr>net := n\<rparr>) = pend l s" "pend l (s\<lparr>pending_fsync := p\<rparr>) = pend l s"
  "pend l (s\<lparr>world := x\<rparr>) = pend l s" "pend l (on_net f s) = pend l s"
  by (simp_all add: pend_alt)

section \<open>The invariant\<close>

text \<open>
  A task as the queue of worker \<open>w\<close> holds it: its title and options fit the response, it is routed
  to \<open>w\<close>, and only a task without a client runs fsync.
\<close>

definition task_ok :: "worker \<Rightarrow> task \<Rightarrow> bool" where
  "task_ok w tk \<longleftrightarrow> tthread tk = w \<and> length (title tk) < MAX_TITLE_SIZE \<and> length (dupopt tk) < MAX_OPT_SIZE \<and>
     (task_handler tk = Some do_fsync \<longrightarrow> w = DPC \<and> tlink tk = INVALID_HTCPLINK \<and> jrp_payload tk = [])"

definition queue_ok :: "worker \<Rightarrow> work_thread \<Rightarrow> bool" where
  "queue_ok w t \<longleftrightarrow> task_pending t = int (length (task_head t)) \<and> task_pending t \<le> MAX_PENDING_TASK \<and>
     list_all (task_ok w) (task_head t)"

text \<open>
  The books of the windows: for every client the window is the number of its pending tasks, plus
  one for the task that is executed right now (\<open>e\<close> is its link).
\<close>

definition books :: "int \<Rightarrow> 'w server \<Rightarrow> bool" where
  "books e s \<longleftrightarrow> (\<forall>l w. wins (net s) l = Some w \<longrightarrow>
     0 < l \<and> w = pend l s + (if l = e then 1 else 0) \<and> w \<le> MAX_LINK_WINDOW)"

definition jess_inv :: "int \<Rightarrow> 'w server \<Rightarrow> bool" where
  "jess_inv e s \<longleftrightarrow> (\<forall>w. queue_ok w (thread_of w s)) \<and> distinct (map clink (clients (net s))) \<and> books e s"

lemma jess_inv_net:
  assumes "jess_inv e s" "wins n = wins (net s)" "map clink (clients n) = map clink (clients (net s))"
  shows "jess_inv e (s\<lparr>net := n\<rparr>)"
  using assms by (simp add: jess_inv_def books_def)

lemma jess_inv_other [simp]:
  "jess_inv e (s\<lparr>pending_fsync := p\<rparr>) = jess_inv e s" "jess_inv e (s\<lparr>world := x\<rparr>) = jess_inv e s"
  by (simp_all add: jess_inv_def books_def)

lemma jess_inv_buffer:
  "task_head t = task_head (thread_of w s) \<Longrightarrow> task_pending t = task_pending (thread_of w s) \<Longrightarrow>
   jess_inv e s \<Longrightarrow> jess_inv e (set_thread w t s)"
proof -
  assume t: "task_head t = task_head (thread_of w s)" "task_pending t = task_pending (thread_of w s)" and inv: "jess_inv e s"
  have "queue_ok v (thread_of v (set_thread w t s)) = queue_ok v (thread_of v s)" for v
    using t by (cases "v = w") (simp_all add: queue_ok_def)
  moreover have "pend l (set_thread w t s) = pend l s" for l using t by (simp add: pend_set_thread)
  ultimately show ?thesis using inv by (simp add: jess_inv_def books_def)
qed

text \<open>A link that is not that of a client needs no entry.\<close>

lemma jess_inv_no_link: "e \<le> 0 \<Longrightarrow> e' \<le> 0 \<Longrightarrow> jess_inv e s = jess_inv e' s"
proof -
  assume "e \<le> 0" "e' \<le> 0"
  then have "(0 < l \<and> w = pend l s + (if l = e then 1 else 0) \<and> w \<le> MAX_LINK_WINDOW) =
      (0 < l \<and> w = pend l s + (if l = e' then 1 else 0) \<and> w \<le> MAX_LINK_WINDOW)" for l w
    by (cases "0 < l") auto
  then have "books e s = books e' s" by (simp only: books_def)
  then show ?thesis by (simp only: jess_inv_def)
qed

lemma status_packet_fits:
  assumes "length ttl < MAX_TITLE_SIZE" "length opt < MAX_OPT_SIZE"
  shows "status_packet ttl (if opt = [] then None else Some opt) ''fatal'' \<noteq> None"
proof -
  define a where "a = ttl @ CRLF"
  define b where "b = a @ (case if opt = [] then None else Some opt of None \<Rightarrow> [] | Some x \<Rightarrow> x @ CRLF @ CRLF)"
  define c where "c = b @ ''fatal'' @ CRLF"
  have "length a \<le> 17" using assms(1) by (simp add: a_def MAX_TITLE_SIZE_def)
  moreover have "length b \<le> length a + 131" using assms(2) by (simp add: b_def MAX_OPT_SIZE_def)
  moreover have "length c = length b + 7" by (simp add: c_def)
  ultimately have "\<not> (length a \<ge> 164 \<or> length b \<ge> 164 \<or> length c \<ge> 164)" by linarith
  moreover have "status_packet ttl (if opt = [] then None else Some opt) ''fatal'' =
      (if length a \<ge> 164 \<or> length b \<ge> 164 \<or> length c \<ge> 164 then None else Some c)"
    by (simp only: status_packet_def Let_def a_def b_def c_def limit_defs) simp
  ultimately show ?thesis by simp
qed

lemma answer_inv:
  assumes "jess_inv e s" "0 < e"
  shows "jess_inv INVALID_HTCPLINK (s\<lparr>net := snd (jnet_write_response e p (net s))\<rparr>)"
proof -
  let ?s = "s\<lparr>net := snd (jnet_write_response e p (net s))\<rparr>"
  have "0 < l \<and> w = pend l ?s + (if l = INVALID_HTCPLINK then 1 else 0) \<and> w \<le> MAX_LINK_WINDOW"
    if lw: "wins (net ?s) l = Some w" for l w
  proof (cases "l = e")
    case True
    then obtain v where "wins (net s) l = Some v" "w = v - 1" using lw by (auto simp: wins_write_response)
    with assms True show ?thesis by (fastforce simp: jess_inv_def books_def INVALID_HTCPLINK_def)
  next
    case False
    then have "wins (net s) l = Some w" using lw by (simp add: wins_write_response)
    with assms False show ?thesis by (fastforce simp: jess_inv_def books_def INVALID_HTCPLINK_def)
  qed
  then show ?thesis using assms(1) by (simp add: jess_inv_def books_def)
qed

lemma fault_inv:
  assumes "jess_inv (tlink tk) s" "length (title tk) < MAX_TITLE_SIZE" "length (dupopt tk) < MAX_OPT_SIZE"
  shows "jess_inv INVALID_HTCPLINK (pro_complete_task_as_fault tk s)"
proof (cases "0 < tlink tk")
  case True
  with status_packet_fits [OF assms(2,3)] answer_inv [OF assms(1)] show ?thesis
    by (auto simp: pro_complete_task_as_fault_def pro_complete_task_def)
next
  case False
  with assms(1) jess_inv_no_link [of "tlink tk" INVALID_HTCPLINK s] show ?thesis
    by (simp add: pro_complete_task_as_fault_def pro_complete_task_def INVALID_HTCPLINK_def)
qed

section \<open>The command table\<close>

text \<open>
  The commands as a table: title, handler, thread and the accepted numbers of payload sections.
\<close>

definition commands :: "(string \<times> handler option \<times> worker \<times> (nat \<Rightarrow> bool)) list" where
  "commands =
     [(''contain'', Some variable_contain, PRO, (\<lambda>n. n > 0)), (''checkpoint'', Some create_checkpoint, DPC, (\<lambda>n. n = 0)),
      (''file'', Some variable_read_file, PRO, (\<lambda>n. n > 0)), (''fsync'', Some do_fsync, DPC, (\<lambda>n. n = 0)),
      (''keepalive'', None, PRO, (\<lambda>n. True)), (''mkdir'', Some mkdir, PRO, (\<lambda>n. n > 0)),
      (''rbin'', Some binary_read, DPC, (\<lambda>n. n = 0)), (''read'', Some variable_read, PRO, (\<lambda>n. n > 0)),
      (''recover'', Some recover_checkpoint, DPC, (\<lambda>n. n = 1)), (''recover2'', Some recover_checkpoint2, PRO, (\<lambda>n. True)),
      (''rmdir'', Some rmdir, PRO, (\<lambda>n. n > 0)), (''scope'', Some variable_scope, PRO, (\<lambda>n. n > 0)),
      (''subscribe'', Some subscribe, PRO, (\<lambda>n. n > 0)), (''sync'', Some do_sync, PRO, (\<lambda>n. n = 0)),
      (''unsubscribe'', Some unsubscribe, PRO, (\<lambda>n. n > 0)), (''version'', Some query_version, PRO, (\<lambda>n. n = 0)),
      (''wbin'', Some binary_write, DPC, (\<lambda>n. n = 1)), (''write'', Some variable_write, PRO, (\<lambda>n. n > 0))]"

definition dispatch :: "task \<Rightarrow> int \<Rightarrow> task option \<times> int" where
  "dispatch tk pending =
     (case map_of commands (title tk) of
        None \<Rightarrow> (None, pending)
      | Some (h, w, ok) \<Rightarrow>
          if \<not> ok (length (jrp_payload tk)) then (None, pending)
          else if h = Some do_fsync then
            (if tlink tk = INVALID_HTCPLINK \<and> pending \<le> 0 then (run h w tk, pending + 1) else (None, pending))
          else if h = Some recover_checkpoint2 then (run h w (tk\<lparr>title := ''recover''\<rparr>), pending)
          else (run h w tk, pending))"

lemma dispatch_unknown:
  "title tk \<notin> set (map fst commands) \<Longrightarrow> pro_set_handler tk pending = (None, pending)"
  by (simp add: pro_set_handler_def Let_def commands_def)

text \<open>
  The matching on the first letter and then on the word chooses exactly what the table of
  commands says, with its number of payload sections, its thread, the rule for fsync (internal
  and not already pending) and the renaming of \<open>recover2\<close>.
\<close>

theorem pro_set_handler_table: "pro_set_handler tk pending = dispatch tk pending"
proof (cases "title tk \<in> set (map fst commands)")
  case True
  then show ?thesis
    unfolding commands_def list.map set_simps fst_conv
    by (elim insertE emptyE) (simp_all add: pro_set_handler_def dispatch_def commands_def Let_def)
next
  case False
  then have "map_of commands (title tk) = None" by (simp add: map_of_eq_None_iff)
  with dispatch_unknown [OF False] show ?thesis by (simp add: dispatch_def)
qed

section \<open>Requests keep the invariant\<close>

lemma commands_fsync: "map_of commands t = Some (Some do_fsync, w, ok) \<Longrightarrow> w = DPC \<and> (ok n \<longrightarrow> n = 0) \<and> t = ''fsync''"
  by (drule map_of_SomeD) (auto simp: commands_def)

lemma commands_title: "map_of commands t = Some (h, w, ok) \<Longrightarrow> length t < MAX_TITLE_SIZE"
  by (drule map_of_SomeD) (auto simp: commands_def MAX_TITLE_SIZE_def)

lemma dispatch_Some:
  assumes "dispatch tk p = (Some tk', p')"
  shows "tlink tk' = tlink tk" "dupopt tk' = dupopt tk" "jrp_payload tk' = jrp_payload tk"
    and "length (title tk') < MAX_TITLE_SIZE"
    and "task_handler tk' = Some do_fsync \<Longrightarrow> tthread tk' = DPC \<and> tlink tk' = INVALID_HTCPLINK \<and> jrp_payload tk' = [] \<and>
      p \<le> 0 \<and> p' = p + 1"
    and "task_handler tk' \<noteq> Some do_fsync \<Longrightarrow> p' = p"
proof -
  obtain h w ok where c: "map_of commands (title tk) = Some (h, w, ok)" "ok (length (jrp_payload tk))"
    using assms by (auto simp: dispatch_def split: option.splits prod.splits if_splits)
  have short: "length ''recover'' < MAX_TITLE_SIZE" by (simp add: MAX_TITLE_SIZE_def)
  show "tlink tk' = tlink tk" "dupopt tk' = dupopt tk" "jrp_payload tk' = jrp_payload tk"
    and "length (title tk') < MAX_TITLE_SIZE"
    using assms c short commands_title [OF c(1)] by (auto simp: dispatch_def run_def split: if_splits)
  show "task_handler tk' = Some do_fsync \<Longrightarrow> tthread tk' = DPC \<and> tlink tk' = INVALID_HTCPLINK \<and> jrp_payload tk' = [] \<and>
      p \<le> 0 \<and> p' = p + 1"
    using assms c commands_fsync [of "title tk" w ok "length (jrp_payload tk)"]
    by (auto simp: dispatch_def run_def split: if_splits)
  show "task_handler tk' \<noteq> Some do_fsync \<Longrightarrow> p' = p"
    using assms c by (auto simp: dispatch_def run_def split: if_splits)
qed

lemma dispatch_None: "dispatch tk p = (None, p') \<Longrightarrow> p' = p"
  by (auto simp: dispatch_def run_def split: option.splits prod.splits if_splits)

text \<open>What is left of a request when it has been turned into a task.\<close>

lemma pro_allocate_task_cases:
  assumes "pro_allocate_task l ttl opt payload p = (tk, acc, p')"
    and "length ttl < MAX_TITLE_SIZE" "case opt of Some x \<Rightarrow> length x < MAX_OPT_SIZE | None \<Rightarrow> True"
  obtains (refused) "\<not> acc" "p' = p" "tlink tk = l" "title tk = ttl" "length (dupopt tk) < MAX_OPT_SIZE"
  | (accepted) tk0 where "acc" "dispatch tk0 p = (Some tk, p')" "tlink tk0 = l" "length (dupopt tk0) < MAX_OPT_SIZE"
proof -
  have optl: "length (cstr (the opt)) < MAX_OPT_SIZE" if "opt \<noteq> None"
    using assms(3) that length_takeWhile_le [of "\<lambda>c. c \<noteq> NUL" "the opt"]
    by (auto simp: cstr_def split: option.splits)
  have zero: "0 < MAX_OPT_SIZE" by (simp add: MAX_OPT_SIZE_def)
  show ?thesis
    using assms(1) optl zero refused accepted
    by (auto simp: pro_allocate_task_def Let_def pro_set_handler_table dest: dispatch_None
        split: option.splits if_splits prod.splits)
qed

lemma pro_allocate_task_facts:
  assumes "pro_allocate_task l ttl opt payload p = (tk, acc, p')"
    and "length ttl < MAX_TITLE_SIZE" "case opt of Some x \<Rightarrow> length x < MAX_OPT_SIZE | None \<Rightarrow> True"
  shows "tlink tk = l \<and> length (title tk) < MAX_TITLE_SIZE \<and> length (dupopt tk) < MAX_OPT_SIZE \<and>
    (acc \<longrightarrow> task_ok (tthread tk) tk) \<and>
    (if acc \<and> task_handler tk = Some do_fsync then p \<le> 0 \<and> p' = p + 1 else p' = p)"
  using assms
proof (cases rule: pro_allocate_task_cases)
  case refused
  then show ?thesis using assms(2) by simp
next
  case (accepted tk0)
  note d = dispatch_Some [OF accepted(2)]
  have "task_ok (tthread tk) tk" using d accepted by (auto simp: task_ok_def)
  moreover have "if task_handler tk = Some do_fsync then p \<le> 0 \<and> p' = p + 1 else p' = p" using d(5,6) by auto
  ultimately show ?thesis using d(1,2,4) accepted by simp
qed

text \<open>The entry of the books that a task stands for.\<close>

lemma enqueue_inv:
  assumes "jess_inv e s" "task_ok w tk" "task_pending (thread_of w s) < MAX_PENDING_TASK"
    and "e' = (if 0 < tlink tk then INVALID_HTCPLINK else e)" "0 < tlink tk \<Longrightarrow> tlink tk = e"
  shows "jess_inv e' (set_thread w ((thread_of w s)\<lparr>task_head := task_head (thread_of w s) @ [tk],
    task_pending := task_pending (thread_of w s) + 1\<rparr>) s)"
proof -
  let ?t = "(thread_of w s)\<lparr>task_head := task_head (thread_of w s) @ [tk], task_pending := task_pending (thread_of w s) + 1\<rparr>"
  have q: "queue_ok v (thread_of v s)" for v using assms(1) by (simp add: jess_inv_def)
  have "queue_ok v (thread_of v (set_thread w ?t s))" for v
    using q [of v] assms(2,3) by (cases "v = w") (auto simp: queue_ok_def)
  moreover have "books e' (set_thread w ?t s)"
    unfolding books_def
  proof (intro allI impI)
    fix l v assume "wins (net (set_thread w ?t s)) l = Some v"
    then have "0 < l \<and> v = pend l s + (if l = e then 1 else 0) \<and> v \<le> MAX_LINK_WINDOW"
      using assms(1) by (simp add: jess_inv_def books_def)
    then show "0 < l \<and> v = pend l (set_thread w ?t s) + (if l = e' then 1 else 0) \<and> v \<le> MAX_LINK_WINDOW"
      using assms(4,5) by (auto simp: pend_set_thread INVALID_HTCPLINK_def split: if_splits)
  qed
  ultimately show ?thesis using assms(1) by (simp add: jess_inv_def)
qed

lemma fault_unlinked [simp]: "tlink tk \<le> 0 \<Longrightarrow> pro_complete_task_as_fault tk s = s"
  by (simp add: pro_complete_task_as_fault_def pro_complete_task_def)

text \<open>
  A request takes over the entry of its link: it is queued, or answered at once. A request
  without a link leaves the books alone.
\<close>

lemma pro_receive_data_inv:
  assumes "jess_inv e s" "length ttl < MAX_TITLE_SIZE" "case opt of Some x \<Rightarrow> length x < MAX_OPT_SIZE | None \<Rightarrow> True"
    and "e' = (if 0 < l then INVALID_HTCPLINK else e)" "0 < l \<Longrightarrow> l = e"
  shows "jess_inv e' (snd (pro_receive_data l ttl opt payload s))"
proof -
  obtain tk acc p where a: "pro_allocate_task l ttl opt payload (pending_fsync s) = (tk, acc, p)"
    using prod_cases3 by blast
  note f = pro_allocate_task_facts [OF a assms(2,3)]
  let ?s = "s\<lparr>pending_fsync := p\<rparr>"
  have i: "jess_inv e ?s" using assms(1) by simp
  have fault: "jess_inv e' (pro_complete_task_as_fault tk ?s)"
  proof (cases "0 < l")
    case True
    then have "jess_inv (tlink tk) ?s" using i f assms(5) by simp
    from fault_inv [OF this] f True assms(4) show ?thesis by simp
  next
    case False
    then show ?thesis using i f assms(4) by simp
  qed
  show ?thesis
  proof (cases "acc \<and> task_pending (thread_of (tthread tk) ?s) < MAX_PENDING_TASK")
    case True
    then show ?thesis using enqueue_inv [OF i, of "tthread tk" tk e'] f a assms(4,5) by (simp add: pro_receive_data_def Let_def)
  next
    case False
    then show ?thesis using fault a by (auto simp: pro_receive_data_def Let_def)
  qed
qed

lemma pro_append_request_inv:
  assumes "jess_inv e s"
  shows "jess_inv e (snd (pro_append_request ttl None payload s))"
  using assms pro_receive_data_inv [OF assms, of ttl None e INVALID_HTCPLINK payload]
  by (simp add: pro_append_request_def INVALID_HTCPLINK_def split: option.splits)

text \<open>What the code relies on when a handler passes its link on.\<close>

definition request_fits :: "string \<Rightarrow> string option \<Rightarrow> bool" where
  "request_fits ttl payload \<longleftrightarrow> length ttl < MAX_TITLE_SIZE \<and>
     (case payload of Some p \<Rightarrow> length p < MAX_PAYLOAD_SIZE | None \<Rightarrow> True)"

lemma pro_append_own_request_inv:
  assumes "jess_inv (tlink tk) s" "request_fits ttl payload" "length (dupopt tk) < MAX_OPT_SIZE"
  shows "jess_inv INVALID_HTCPLINK (snd (pro_append_request ttl (Some tk) payload s))"
proof (cases "0 < tlink tk")
  case True
  with assms pro_receive_data_inv [OF assms(1), of ttl "Some (dupopt tk)" INVALID_HTCPLINK "tlink tk" payload]
  show ?thesis by (simp add: pro_append_request_def request_fits_def split: option.splits)
next
  case False
  then have "jess_inv INVALID_HTCPLINK s" using assms(1) jess_inv_no_link [of "tlink tk" INVALID_HTCPLINK s]
    by (simp add: INVALID_HTCPLINK_def)
  with False assms pro_receive_data_inv [of INVALID_HTCPLINK s ttl "Some (dupopt tk)" INVALID_HTCPLINK "tlink tk" payload]
  show ?thesis by (simp add: pro_append_request_def request_fits_def split: option.splits)
qed

section \<open>Handlers keep the invariant\<close>

text \<open>
  The discipline of the handlers: a request on behalf of the own link is followed by giving the
  link up, and neither happens otherwise.
\<close>

fun handover_ok :: "effect list \<Rightarrow> bool" where
  "handover_ok [] = True"
| "handover_ok (AppendRequest ttl True payload # LinkDropped # es) \<longleftrightarrow> request_fits ttl payload \<and> handover_ok es"
| "handover_ok (AppendRequest ttl True payload # es) = False"
| "handover_ok (LinkDropped # es) = False"
| "handover_ok (e # es) = handover_ok es"

definition exec_ok :: "'w exec \<Rightarrow> bool" where
  "exec_ok exec \<longleftrightarrow> (\<forall>h tk jrp w. handover_ok (snd (exec h tk jrp w)))"

text \<open>
  The running task \<open>tk\<close> of worker \<open>w\<close>: its link has the open entry, its options fit, and the
  response has been started.
\<close>

definition running :: "worker \<Rightarrow> task \<times> 'w server \<Rightarrow> bool" where
  "running w ts \<longleftrightarrow> (case ts of (tk, s) \<Rightarrow>
     jess_inv (tlink tk) s \<and> length (dupopt tk) < MAX_OPT_SIZE \<and> 0 < offset (thread_of w s))"

lemma append_response_keeps [simp]:
  "task_head (pro_append_response x t) = task_head t" "task_pending (pro_append_response x t) = task_pending t"
  "task_head (pro_append_binary_response x t) = task_head t" "task_pending (pro_append_binary_response x t) = task_pending t"
  by (simp_all add: pro_append_response_def pro_append_binary_response_def Let_def)

lemma append_response_offset: "offset t \<le> offset (pro_append_response x t)" "offset t \<le> offset (pro_append_binary_response x t)"
  by (simp_all add: pro_append_response_def pro_append_binary_response_def Let_def)

lemma request_keeps_buffer: "offset (thread_of w (snd (pro_append_request ttl from payload s))) = offset (thread_of w s)"
proof -
  have "offset (thread_of w (pro_complete_task_as_fault tk s)) = offset (thread_of w s)" for tk and s :: "'a server"
    by (simp add: pro_complete_task_as_fault_def pro_complete_task_def split: option.splits)
  moreover have "offset t = offset (thread_of v s) \<Longrightarrow> offset (thread_of w (set_thread v t s)) = offset (thread_of w s)"
    for v t and s :: "'a server" by (cases "v = w") auto
  ultimately show ?thesis
    by (simp add: pro_append_request_def pro_receive_data_def Let_def split: prod.splits)
qed

lemma apply_effect_running:
  assumes "running w ts" "e \<noteq> LinkDropped" "\<And>ttl p. e \<noteq> AppendRequest ttl True p"
  shows "running w (apply_effect w e ts)"
proof -
  obtain tk s where ts: "ts = (tk, s)" by fastforce
  have inv: "jess_inv (tlink tk) s" and o: "0 < offset (thread_of w s)" and d: "length (dupopt tk) < MAX_OPT_SIZE"
    using assms(1) by (auto simp: running_def ts)
  show ?thesis
  proof (cases e)
    case (Append x)
    with inv o d append_response_offset(1) [of "thread_of w s" x] show ?thesis
      by (simp add: ts running_def jess_inv_buffer)
  next
    case (AppendBinary x)
    with inv o d append_response_offset(2) [of "thread_of w s" x] show ?thesis
      by (simp add: ts running_def jess_inv_buffer)
  next
    case (AppendRequest ttl own payload)
    with assms(3) have "own = False" by (cases own) auto
    with AppendRequest inv o d show ?thesis
      by (simp add: ts running_def pro_append_request_inv request_keeps_buffer)
  qed (use assms(2) inv o d in \<open>simp_all add: ts running_def pro_complete_fsync_def jess_inv_net\<close>)
qed

lemma handover_running:
  assumes "running w (tk, s)" "request_fits ttl payload"
  shows "running w (apply_effect w LinkDropped (apply_effect w (AppendRequest ttl True payload) (tk, s)))"
  using assms pro_append_own_request_inv [of tk s ttl payload] by (simp add: running_def request_keeps_buffer)

lemma handover_request:
  assumes "handover_ok (AppendRequest ttl True payload # es)"
  obtains es' where "es = LinkDropped # es'" "request_fits ttl payload" "handover_ok es'"
proof (cases es)
  case (Cons e es')
  with assms that show ?thesis by (cases e) auto
qed (use assms in simp)

lemma handover_other:
  "handover_ok (e # es) \<Longrightarrow> (\<And>ttl p. e \<noteq> AppendRequest ttl True p) \<Longrightarrow> e \<noteq> LinkDropped \<and> handover_ok es"
proof (cases e)
  case (AppendRequest ttl own p)
  assume "handover_ok (e # es)" "\<And>ttl p. e \<noteq> AppendRequest ttl True p"
  with AppendRequest show ?thesis by (cases own) auto
qed auto

lemma effects_running: "handover_ok es \<Longrightarrow> running w ts \<Longrightarrow> running w (fold (apply_effect w) es ts)"
proof (induction "length es" arbitrary: es ts rule: less_induct)
  case less
  show ?case
  proof (cases es)
    case (Cons e es1)
    show ?thesis
    proof (cases "\<exists>ttl p. e = AppendRequest ttl True p")
      case True
      then obtain ttl p where e: "e = AppendRequest ttl True p" by blast
      with less.prems(1) Cons obtain es2 where es2: "es1 = LinkDropped # es2" "request_fits ttl p" "handover_ok es2"
        by (auto elim: handover_request)
      obtain tk s where "ts = (tk, s)" by fastforce
      with less es2 e Cons handover_running [of w tk s ttl p] show ?thesis by (simp del: apply_effect.simps)
    next
      case False
      with less.prems(1) Cons have "e \<noteq> LinkDropped" "handover_ok es1" using handover_other [of e es1] by auto
      with less Cons False apply_effect_running [of w ts e] show ?thesis by (simp del: apply_effect.simps)
    qed
  qed (use less in simp)
qed

lemma call_handler_running:
  assumes "exec_ok exec" "running w ts"
  shows "running w (call_handler exec w h jrp ts)"
proof -
  obtain tk s where ts: "ts = (tk, s)" by fastforce
  have net: "running w (tk, s\<lparr>net := n\<rparr>)" if "wins n = wins (net s)" "map clink (clients n) = map clink (clients (net s))" for n
    using assms(2) jess_inv_net [OF _ that] by (simp add: ts running_def)
  have "running w (tk, s\<lparr>world := x\<rparr>)" for x using assms(2) by (simp add: ts running_def)
  moreover have "handover_ok (snd (exec h tk jrp (world s)))" using assms(1) by (simp add: exec_ok_def)
  moreover have "running w (tk, s\<lparr>net := snd (jnet_subscribe l j (net s))\<rparr>)"
    "running w (tk, s\<lparr>net := snd (jnet_unsubscribe l j (net s))\<rparr>)" for l j
    by (rule net; rule subscribe_keeps)+
  ultimately show ?thesis
    by (auto simp: ts call_handler_def split: prod.splits simp del: apply_effect.simps
        intro!: effects_running apply_effect_running)
      (metis snd_conv)+
qed

lemma calls_running:
  "exec_ok exec \<Longrightarrow> running w ts \<Longrightarrow> running w (fold (call_handler exec w h) js ts)"
proof (induction js arbitrary: ts)
  case (Cons j js)
  then show ?case using call_handler_running [of exec w ts h j] by simp
qed simp

lemma send_inv:
  assumes "running w (tk, s)"
  shows "jess_inv INVALID_HTCPLINK (pro_send_response tk w s)"
proof -
  have inv: "jess_inv (tlink tk) s" and o: "0 < offset (thread_of w s)" using assms by (auto simp: running_def)
  let ?n = "if offset (thread_of w s) > 0 \<and> tlink tk > 0
     then snd (jnet_write_response (tlink tk) (take (min (offset (thread_of w s)) RESP_BUFF_SIZE) (response (thread_of w s))) (net s))
     else net s"
  have "jess_inv INVALID_HTCPLINK (s\<lparr>net := ?n\<rparr>)"
  proof (cases "0 < tlink tk")
    case True
    with answer_inv [OF inv] o show ?thesis by simp
  next
    case False
    with inv jess_inv_no_link [of "tlink tk" INVALID_HTCPLINK s] show ?thesis by (simp add: INVALID_HTCPLINK_def)
  qed
  then show ?thesis by (auto simp: pro_send_response_def Let_def intro!: jess_inv_buffer)
qed

lemma execute_inv:
  assumes "exec_ok exec" "jess_inv (tlink tk) s" "length (dupopt tk) < MAX_OPT_SIZE"
  shows "jess_inv INVALID_HTCPLINK (pro_execute_task exec w tk s)"
proof -
  define t1 where "t1 = pro_append_response (title tk @ CRLF) ((thread_of w s)\<lparr>offset := 0, response := []\<rparr>)"
  define t2 where "t2 = (if dupopt tk \<noteq> [] then pro_append_response (dupopt tk @ CRLF @ CRLF) t1 else t1)"
  have "0 < offset t1" by (simp add: t1_def pro_append_response_def Let_def RESP_BUFF_SIZE_def)
  then have "0 < offset t2" using append_response_offset(1) [of t1 "dupopt tk @ CRLF @ CRLF"] by (auto simp: t2_def)
  moreover have "task_head t2 = task_head (thread_of w s)" "task_pending t2 = task_pending (thread_of w s)"
    by (simp_all add: t2_def t1_def)
  ultimately have r: "running w (tk, set_thread w t2 s)"
    using assms(2,3) by (simp add: running_def jess_inv_buffer)
  define ts where "ts = (if jrp_payload tk = [] then
       (case task_handler tk of Some h \<Rightarrow> call_handler exec w h rt_init_jrp (tk, set_thread w t2 s)
        | None \<Rightarrow> apply_effect w (Append JESS_OK) (tk, set_thread w t2 s))
     else (case task_handler tk of Some h \<Rightarrow> fold (call_handler exec w h) (jrp_payload tk) (tk, set_thread w t2 s)
        | None \<Rightarrow> apply_effect w (Append JESS_FATAL) (tk, set_thread w t2 s)))"
  have "running w ts"
    unfolding ts_def
    by (cases "task_handler tk")
      (simp_all del: apply_effect.simps add: r apply_effect_running call_handler_running calls_running assms(1))
  moreover have "pro_execute_task exec w tk s = pro_send_response (fst ts) w (snd ts)"
    unfolding pro_execute_task_def Let_def case_prod_unfold ts_def t2_def t1_def ..
  ultimately show ?thesis using send_inv [of w "fst ts" "snd ts"] by simp
qed

lemma jess_inv_idle:
  "jess_inv INVALID_HTCPLINK s \<Longrightarrow> wins (net s) l = Some v \<Longrightarrow> 0 < l \<and> v = pend l s \<and> v \<le> MAX_LINK_WINDOW"
  by (fastforce simp: jess_inv_def books_def INVALID_HTCPLINK_def)

lemma rotate_inv:
  assumes "exec_ok exec" "jess_inv INVALID_HTCPLINK s" "pro_rotate_one exec w s = Some s'"
  shows "jess_inv INVALID_HTCPLINK s'"
proof -
  obtain tk rest where h: "task_head (thread_of w s) = tk # rest"
    using assms(3) by (auto simp: pro_rotate_one_def split: list.splits)
  let ?t = "(thread_of w s)\<lparr>task_head := rest, task_pending := task_pending (thread_of w s) - 1\<rparr>"
  have q: "queue_ok v (thread_of v s)" for v using assms(2) by (simp add: jess_inv_def)
  have tk: "task_ok w tk" using q [of w] h by (simp add: queue_ok_def)
  have "queue_ok v (thread_of v (set_thread w ?t s))" for v
    using q [of v] h by (cases "v = w") (auto simp: queue_ok_def)
  moreover have "books (tlink tk) (set_thread w ?t s)"
    using jess_inv_idle [OF assms(2)] h by (auto simp: books_def pend_set_thread)
  ultimately have "jess_inv (tlink tk) (set_thread w ?t s)" using assms(2) by (simp add: jess_inv_def)
  with tk have "jess_inv INVALID_HTCPLINK (pro_execute_task exec w tk (set_thread w ?t s))"
    by (intro execute_inv [OF assms(1)]) (simp_all add: task_ok_def)
  with assms(3) h show ?thesis by (simp add: pro_rotate_one_def Let_def)
qed

section \<open>The network keeps the invariant\<close>

lemma head_fits:
  assumes "rt_analyze_req_head r = Some (ttl, opt, rest)"
  shows "length ttl < MAX_TITLE_SIZE" "case opt of Some x \<Rightarrow> length x < MAX_OPT_SIZE | None \<Rightarrow> True"
  using assms strstr_le [of "skip_blank_lines r" CRLF]
  by (auto simp: rt_analyze_req_head_def Let_def split: option.splits if_splits)

lemma accept_inv:
  assumes "jess_inv INVALID_HTCPLINK s" "0 < l" "l \<notin> clink ` set (clients (net s))" "l \<notin> tlink ` set (pending_tasks s)"
  shows "jess_inv INVALID_HTCPLINK (on_net (jnet_on_accepted now l) s)"
proof -
  let ?n = "jnet_on_accepted now l (net s)"
  have f: "List.find (\<lambda>c. clink c = k) (cs @ [c]) =
      (case List.find (\<lambda>c. clink c = k) cs of Some d \<Rightarrow> Some d | None \<Rightarrow> if clink c = k then Some c else None)"
    for k cs and c :: client by (induction cs) auto
  have no: "wins (net s) l = None"
    using assms(3) by (auto simp: wins_def jnet_link_context_get_def find_None_iff)
  have "wins ?n k = (if k = l then Some 0 else wins (net s) k)" for k
    using no by (auto simp: wins_def jnet_link_context_get_def jnet_on_accepted_def f split: option.splits)
  moreover have "pend l s = 0"
    using assms(4) by (auto simp: pend_def filter_empty_conv)
  ultimately have "books INVALID_HTCPLINK (on_net (jnet_on_accepted now l) s)"
    using assms(1,2) by (auto simp: jess_inv_def books_def INVALID_HTCPLINK_def MAX_LINK_WINDOW_def split: if_splits)
  with assms(1,3) show ?thesis by (auto simp: jess_inv_def jnet_on_accepted_def)
qed

lemma close_inv:
  assumes "jess_inv e s"
  shows "jess_inv e (on_net (jnet_on_preclose l) s)"
proof -
  have f: "List.find (\<lambda>c. clink c = k) (filter (\<lambda>c. clink c \<noteq> l) cs) =
      (if k = l then None else List.find (\<lambda>c. clink c = k) cs)" for k and cs :: "client list"
    by (induction cs) auto
  have "wins (jnet_on_preclose l (net s)) k = (if k = l then None else wins (net s) k)" for k
    by (simp add: wins_def jnet_link_context_get_def jnet_on_preclose_def f)
  then have "books e (on_net (jnet_on_preclose l) s)" using assms by (auto simp: jess_inv_def books_def split: if_splits)
  moreover have "distinct (map clink (filter (\<lambda>c. clink c \<noteq> l) (clients (net s))))"
    using assms by (simp add: jess_inv_def distinct_map_filter)
  ultimately show ?thesis using assms by (simp add: jess_inv_def jnet_on_preclose_def)
qed

lemma on_net_inv:
  assumes "jess_inv e s" "wins (f (net s)) = wins (net s)" "map clink (clients (f (net s))) = map clink (clients (net s))"
  shows "jess_inv e (on_net f s)"
  unfolding on_net_def by (rule jess_inv_net [OF assms])

lemma simple_complete_keeps:
  "wins (snd (jnet_simple_complete_request l a b c n)) = wins n"
  "map clink (clients (snd (jnet_simple_complete_request l a b c n))) = map clink (clients n)"
  by (simp_all add: jnet_simple_complete_request_def split: option.splits)

lemma open_window_inv:
  assumes "jess_inv INVALID_HTCPLINK s" "jnet_link_context_get l (net s) = Some c" "window c < MAX_LINK_WINDOW"
  shows "jess_inv l (on_net (upd_client l (\<lambda>c. c\<lparr>window := window c + 1\<rparr>)) s)"
proof -
  have w: "wins (upd_client l (\<lambda>c. c\<lparr>window := window c + 1\<rparr>) (net s)) k =
      (if k = l then Some (window c + 1) else wins (net s) k)" for k
    using assms(2) by (subst wins_upd_client [where g = "\<lambda>w. w + 1"]) (auto simp: wins_def)
  have "wins (net s) l = Some (window c)" using assms(2) by (simp add: wins_def)
  from jess_inv_idle [OF assms(1) this] have "books l (on_net (upd_client l (\<lambda>c. c\<lparr>window := window c + 1\<rparr>)) s)"
    using jess_inv_idle [OF assms(1)] assms(3) by (auto simp: books_def w split: if_splits)
  then show ?thesis using assms(1) by (simp add: jess_inv_def)
qed

lemma receive_inv:
  assumes "jess_inv INVALID_HTCPLINK s"
  shows "jess_inv INVALID_HTCPLINK (snd (jnet_on_receive_data now l data s))"
proof -
  let ?s0 = "on_net (\<lambda>n. n\<lparr>qps := qps n + 1\<rparr>) s"
  let ?s1 = "on_net (upd_client l (\<lambda>c. c\<lparr>last_access := now\<rparr>)) ?s0"
  have i0: "jess_inv INVALID_HTCPLINK ?s0" by (rule on_net_inv [OF assms]) simp_all
  have i1: "jess_inv INVALID_HTCPLINK ?s1"
    by (rule on_net_inv [OF i0]) (simp_all add: fun_eq_iff wins_upd_client [where g = id] option.map_id)
  show ?thesis
  proof (cases "data = [] \<or> length data > MAX_REQ_SIZE \<or> rt_analyze_req_head (cstr data) = None \<or>
      jnet_link_context_get l (net ?s0) = None")
    case True
    then have "snd (jnet_on_receive_data now l data s) = ?s0"
      by (auto simp: jnet_on_receive_data_def Let_def split: option.splits)
    with i0 show ?thesis by (simp only:)
  next
    case False
    then obtain ttl opt rest c where h: "rt_analyze_req_head (cstr data) = Some (ttl, opt, rest)"
      and c: "jnet_link_context_get l (net ?s0) = Some c"
      by (cases "rt_analyze_req_head (cstr data)"; cases "jnet_link_context_get l (net ?s0)") auto
    have c1: "jnet_link_context_get l (net ?s1) = Some (c\<lparr>last_access := now\<rparr>)"
      using c by (simp add: upd_client_get)
    show ?thesis
    proof (cases "window c \<ge> MAX_LINK_WINDOW")
      case True
      have "jess_inv INVALID_HTCPLINK (?s1\<lparr>net := snd (jnet_simple_complete_request l ttl opt ''fatal'' (net ?s1))\<rparr>)"
        by (rule jess_inv_net [OF i1 simple_complete_keeps])
      with True False h c show ?thesis by (simp add: jnet_on_receive_data_def Let_def case_prod_unfold)
    next
      case free: False
      have "wins (net ?s0) l = Some (window c)" by (simp only: wins_def c option.map)
      from jess_inv_idle [OF i0 this] have "0 < l" by simp
      moreover have "jess_inv l (on_net (upd_client l (\<lambda>c. c\<lparr>window := window c + 1\<rparr>)) ?s1)"
        by (rule open_window_inv [OF i1 c1]) (use free in simp)
      ultimately have "jess_inv INVALID_HTCPLINK (snd (pro_receive_data l ttl opt payload
          (on_net (upd_client l (\<lambda>c. c\<lparr>window := window c + 1\<rparr>)) ?s1)))" for payload
        by (intro pro_receive_data_inv) (use head_fits [OF h] in auto)
      with free False h c show ?thesis by (simp add: jnet_on_receive_data_def Let_def)
    qed
  qed
qed

lemma step_inv:
  assumes "jess_step exec s s'" "exec_ok exec" "jess_inv INVALID_HTCPLINK s"
  shows "jess_inv INVALID_HTCPLINK s'"
  using assms(1)
proof (cases rule: jess_step.cases)
  case (accept l now)
  then show ?thesis using accept_inv [OF assms(3), of l now] by (simp add: jnet_tcp_callback_def)
next
  case (receive now l data)
  have "jess_inv INVALID_HTCPLINK (snd (jnet_on_receive_data now l data s))" by (rule receive_inv [OF assms(3)])
  with receive show ?thesis by (auto simp: jnet_tcp_callback_def split: prod.splits intro!: on_net_inv)
next
  case (close now l)
  then show ?thesis using close_inv [OF assms(3)] by (simp add: jnet_tcp_callback_def)
next
  case (execute w)
  then show ?thesis using rotate_inv [OF assms(2,3)] by simp
next
  case (keepalive now)
  have "jess_inv INVALID_HTCPLINK (on_net (\<lambda>n. n\<lparr>qps := 0\<rparr>) s)" by (rule on_net_inv [OF assms(3)]) simp_all
  with keepalive show ?thesis
    by (auto simp: jnet_keepalive_def procfs_set_property_def intro!: on_net_inv pro_append_request_inv)
next
  case flush
  then show ?thesis using pro_append_request_inv [OF assms(3)] by simp
qed

lemma initial_inv: "jess_inv INVALID_HTCPLINK (initial_server w0)"
proof -
  have "queue_ok w (thread_of w (initial_server w0))" for w
    by (cases w) (simp_all add: queue_ok_def initial_server_def idle_thread_def thread_of_def MAX_PENDING_TASK_def)
  then show ?thesis
    by (simp add: jess_inv_def books_def wins_def jnet_link_context_get_def) (simp add: initial_server_def)
qed

lemma find_unique: "c \<in> set cs \<Longrightarrow> distinct (map clink cs) \<Longrightarrow> List.find (\<lambda>d. clink d = clink c) cs = Some c"
  by (induction cs) force+

lemma reachable_inv:
  assumes "(jess_step exec)\<^sup>*\<^sup>* (initial_server w0) s" "exec_ok exec"
  shows "jess_inv INVALID_HTCPLINK s"
  using assms(1) by (induction rule: rtranclp_induct) (auto intro: initial_inv step_inv assms(2))

section \<open>The fsync counter\<close>

text \<open>Only the fsync handler reports the end of an fsync, and it does so at most once.\<close>

definition fsync_discipline :: "'w exec \<Rightarrow> bool" where
  "fsync_discipline exec \<longleftrightarrow> (\<forall>h tk jrp w. length (filter (\<lambda>e. e = FsyncComplete) (snd (exec h tk jrp w))) \<le>
     (if h = do_fsync then 1 else 0))"

definition fsyncs :: "'w server \<Rightarrow> nat" where
  "fsyncs s = length (filter (\<lambda>tk. task_handler tk = Some do_fsync) (pending_tasks s))"

text \<open>\<open>k\<close> is one while an fsync task is executed and has not reported its end.\<close>

definition fsync_inv :: "int \<Rightarrow> 'w server \<Rightarrow> bool" where
  "fsync_inv k s \<longleftrightarrow> int (fsyncs s) + k \<le> pending_fsync s \<and> pending_fsync s \<le> 1"

text \<open>No fsync is pending, but the counter says so.\<close>

definition fsync_lost :: "'w server \<Rightarrow> bool" where
  "fsync_lost s \<longleftrightarrow> fsyncs s = 0 \<and> 1 \<le> pending_fsync s"

definition count_fsync :: "task list \<Rightarrow> nat" where
  "count_fsync tks = length (filter (\<lambda>tk. task_handler tk = Some do_fsync) tks)"

lemma count_fsync_simps [simp]:
  "count_fsync [] = 0" "count_fsync (tks @ us) = count_fsync tks + count_fsync us"
  "count_fsync (tk # tks) = (if task_handler tk = Some do_fsync then 1 else 0) + count_fsync tks"
  by (simp_all add: count_fsync_def)

lemma fsyncs_alt: "fsyncs s = count_fsync (task_head (thread_of PRO s)) + count_fsync (task_head (thread_of DPC s))"
  by (simp add: fsyncs_def pending_tasks_def count_fsync_def thread_of_def)

lemma fsyncs_set_thread:
  "int (fsyncs (set_thread w t s)) =
     int (fsyncs s) - int (count_fsync (task_head (thread_of w s))) + int (count_fsync (task_head t))"
  by (cases w) (simp_all add: fsyncs_alt)

lemma fsyncs_same: "task_head t = task_head (thread_of w s) \<Longrightarrow> fsyncs (set_thread w t s) = fsyncs s"
  using fsyncs_set_thread [of w t s] by simp

lemma fsyncs_cong [simp]: "fsyncs (s\<lparr>net := n\<rparr>) = fsyncs s" "fsyncs (s\<lparr>pending_fsync := p\<rparr>) = fsyncs s"
  "fsyncs (s\<lparr>world := x\<rparr>) = fsyncs s" "fsyncs (on_net f s) = fsyncs s"
  by (simp_all add: fsyncs_alt)

lemma fault_fsync [simp]:
  "fsyncs (pro_complete_task_as_fault tk s) = fsyncs s"
  "pending_fsync (pro_complete_task_as_fault tk s) = pending_fsync s"
  by (simp_all add: pro_complete_task_as_fault_def pro_complete_task_def split: option.splits)

lemma pro_receive_data_fsync:
  assumes "length ttl < MAX_TITLE_SIZE" "case opt of Some x \<Rightarrow> length x < MAX_OPT_SIZE | None \<Rightarrow> True"
    and "s' = snd (pro_receive_data l ttl opt payload s)"
  shows "fsyncs s' = fsyncs s \<and> pending_fsync s' = pending_fsync s \<or>
    pending_fsync s \<le> 0 \<and> pending_fsync s' = pending_fsync s + 1 \<and> fsyncs s' \<le> fsyncs s + 1"
proof -
  obtain tk acc p where a: "pro_allocate_task l ttl opt payload (pending_fsync s) = (tk, acc, p)"
    using prod_cases3 by blast
  note f = pro_allocate_task_facts [OF a assms(1,2)]
  let ?s = "s\<lparr>pending_fsync := p\<rparr>"
  let ?t = "thread_of (tthread tk) ?s"
  let ?t' = "?t\<lparr>task_head := task_head ?t @ [tk], task_pending := task_pending ?t + 1\<rparr>"
  have s': "s' = (if acc \<and> task_pending ?t < MAX_PENDING_TASK then set_thread (tthread tk) ?t' ?s
      else pro_complete_task_as_fault tk ?s)"
    using a assms(3) by (simp add: pro_receive_data_def Let_def)
  have "fsyncs (set_thread (tthread tk) ?t' ?s) = fsyncs s + (if task_handler tk = Some do_fsync then 1 else 0)"
    using fsyncs_set_thread [of "tthread tk" ?t' ?s] by (simp split: if_splits)
  then show ?thesis using f unfolding s' by (auto split: if_splits)
qed

lemma pro_append_request_fsync:
  assumes "s' = snd (pro_append_request ttl from payload s)"
  shows "fsyncs s' = fsyncs s \<and> pending_fsync s' = pending_fsync s \<or>
    pending_fsync s \<le> 0 \<and> pending_fsync s' = pending_fsync s + 1 \<and> fsyncs s' \<le> fsyncs s + 1"
proof (cases "length ttl \<ge> MAX_TITLE_SIZE \<or> (case from of Some tk \<Rightarrow> length (dupopt tk) \<ge> MAX_OPT_SIZE | None \<Rightarrow> False) \<or>
    (case payload of Some p \<Rightarrow> length p \<ge> MAX_PAYLOAD_SIZE | None \<Rightarrow> False)")
  case True
  then show ?thesis using assms by (auto simp: pro_append_request_def)
next
  case False
  then show ?thesis
    using assms by (intro pro_receive_data_fsync [of ttl "map_option dupopt from" s' _ payload])
      (auto simp: pro_append_request_def split: option.splits)
qed

text \<open>
  A relation between states that every call of a handler keeps when it does not report the end
  of an fsync: the counter and the queued fsyncs stay, or one is added where none was counted.
\<close>

definition fsync_step :: "'w server \<Rightarrow> 'w server \<Rightarrow> bool" where
  "fsync_step s s' \<longleftrightarrow> (\<forall>k. 0 \<le> k \<longrightarrow> fsync_inv k s \<longrightarrow> fsync_inv k s') \<and> (fsync_lost s \<longrightarrow> fsync_lost s')"

lemma fsync_stepI:
  "fsyncs s' = fsyncs s \<and> pending_fsync s' = pending_fsync s \<or>
   pending_fsync s \<le> 0 \<and> pending_fsync s' = pending_fsync s + 1 \<and> fsyncs s' \<le> fsyncs s + 1 \<Longrightarrow> fsync_step s s'"
  by (auto simp: fsync_step_def fsync_inv_def fsync_lost_def)

lemma fsync_step_refl [simp]: "fsync_step s s"
  by (simp add: fsync_step_def)

lemma fsync_step_trans: "fsync_step s s' \<Longrightarrow> fsync_step s' s'' \<Longrightarrow> fsync_step s s''"
  by (simp add: fsync_step_def)

lemma effect_fsync_step:
  assumes "e \<noteq> FsyncComplete"
  shows "fsync_step (snd ts) (snd (apply_effect w e ts))"
proof -
  obtain tk s where ts: "ts = (tk, s)" by fastforce
  show ?thesis
  proof (cases e)
    case (AppendRequest ttl own payload)
    then show ?thesis by (auto simp: ts intro!: fsync_stepI pro_append_request_fsync)
  qed (use assms in \<open>auto simp: ts fsyncs_same intro!: fsync_stepI\<close>)
qed

lemma effects_fsync_step:
  "FsyncComplete \<notin> set es \<Longrightarrow> fsync_step (snd ts) (snd (fold (apply_effect w) es ts))"
proof (induction es arbitrary: ts)
  case (Cons e es)
  then show ?case
    using fsync_step_trans [OF effect_fsync_step [of e ts w] Cons.IH [of "apply_effect w e ts"]] by auto
qed simp

lemma complete_fsync:
  "snd (apply_effect w FsyncComplete ts) = (snd ts)\<lparr>pending_fsync := pending_fsync (snd ts) - 1\<rparr>"
  by (cases ts) (simp add: pro_complete_fsync_def)

text \<open>With one report in the list, a running fsync ends.\<close>

lemma effects_fsync_end:
  assumes "length (filter (\<lambda>e. e = FsyncComplete) es) \<le> 1" "fsync_inv 1 (snd ts)"
  shows "fsync_inv 0 (snd (fold (apply_effect w) es ts))"
proof (cases "FsyncComplete \<in> set es")
  case False
  have "fsync_inv 1 (snd (fold (apply_effect w) es ts))"
    using effects_fsync_step [OF False, of ts w] assms(2) by (simp add: fsync_step_def)
  then show ?thesis by (simp add: fsync_inv_def)
next
  case True
  then obtain as bs where es: "es = as @ FsyncComplete # bs" by (metis split_list)
  with assms(1) have no: "FsyncComplete \<notin> set as" "FsyncComplete \<notin> set bs" by (auto simp: filter_empty_conv)
  let ?a = "fold (apply_effect w) as ts"
  have "fsync_inv 1 (snd ?a)" using effects_fsync_step [OF no(1), of ts w] assms(2) by (simp add: fsync_step_def)
  then have "fsync_inv 0 (snd (apply_effect w FsyncComplete ?a))"
    unfolding complete_fsync by (simp add: fsync_inv_def)
  with effects_fsync_step [OF no(2), of "apply_effect w FsyncComplete ?a" w] show ?thesis
    by (simp add: es fsync_step_def)
qed

lemma call_handler_fsync_step:
  assumes "FsyncComplete \<notin> set (snd (exec h (fst ts) jrp (world (snd ts))))"
  shows "fsync_step (snd ts) (snd (call_handler exec w h jrp ts))"
proof -
  obtain tk s where ts: "ts = (tk, s)" by fastforce
  have net: "fsync_step s (s\<lparr>net := n\<rparr>)" for n by (auto intro: fsync_stepI)
  have "fsync_step s (snd (apply_effect w (Append x) (tk, s\<lparr>net := n\<rparr>)))" for x n
    using fsync_step_trans [OF net [of n] effect_fsync_step [of "Append x" "(tk, s\<lparr>net := n\<rparr>)" w, unfolded snd_conv]] by blast
  moreover have "fsync_step s (snd (fold (apply_effect w) (snd (exec h tk jrp (world s))) (tk, s\<lparr>world := y\<rparr>)))" for y
    using assms effects_fsync_step [of "snd (exec h tk jrp (world s))" "(tk, s\<lparr>world := y\<rparr>)" w]
    by (simp add: ts fsync_step_def fsync_inv_def fsync_lost_def)
  ultimately show ?thesis
    by (simp add: ts call_handler_def case_prod_unfold del: apply_effect.simps)
qed

lemma discipline_other: "fsync_discipline exec \<Longrightarrow> h \<noteq> do_fsync \<Longrightarrow> FsyncComplete \<notin> set (snd (exec h tk jrp w))"
proof -
  assume "fsync_discipline exec" "h \<noteq> do_fsync"
  then have "length (filter (\<lambda>e. e = FsyncComplete) (snd (exec h tk jrp w))) \<le> 0"
    unfolding fsync_discipline_def by metis
  then show ?thesis by (auto simp: filter_empty_conv)
qed

lemma calls_fsync_step:
  assumes "fsync_discipline exec" "h \<noteq> do_fsync"
  shows "fsync_step (snd ts) (snd (fold (call_handler exec w h) js ts))"
proof (induction js arbitrary: ts)
  case (Cons j js)
  have "fsync_step (snd ts) (snd (call_handler exec w h j ts))"
    by (rule call_handler_fsync_step) (rule discipline_other [OF assms])
  from fsync_step_trans [OF this Cons.IH] show ?case by simp
qed simp

lemma send_fsync: "fsyncs (pro_send_response tk w s) = fsyncs s" "pending_fsync (pro_send_response tk w s) = pending_fsync s"
  by (simp_all add: pro_send_response_def Let_def fsyncs_same)

lemma start_fsync:
  "task_head t = task_head (thread_of w s) \<Longrightarrow> fsync_step s (set_thread w t s)"
  by (auto simp: fsyncs_same intro: fsync_stepI)

lemma execute_fsync_step:
  assumes "fsync_discipline exec" "task_handler tk \<noteq> Some do_fsync"
  shows "fsync_step s (pro_execute_task exec w tk s)"
proof -
  define t2 where "t2 = (let t1 = pro_append_response (title tk @ CRLF) ((thread_of w s)\<lparr>offset := 0, response := []\<rparr>) in
     if dupopt tk \<noteq> [] then pro_append_response (dupopt tk @ CRLF @ CRLF) t1 else t1)"
  let ?s1 = "set_thread w t2 s"
  have a: "fsync_step s ?s1" by (rule start_fsync) (simp add: t2_def Let_def)
  define ts where "ts = (if jrp_payload tk = [] then
       (case task_handler tk of Some h \<Rightarrow> call_handler exec w h rt_init_jrp (tk, ?s1)
        | None \<Rightarrow> apply_effect w (Append JESS_OK) (tk, ?s1))
     else (case task_handler tk of Some h \<Rightarrow> fold (call_handler exec w h) (jrp_payload tk) (tk, ?s1)
        | None \<Rightarrow> apply_effect w (Append JESS_FATAL) (tk, ?s1)))"
  have "fsync_step ?s1 (snd ts)"
  proof (cases "task_handler tk")
    case None
    then show ?thesis
      using effect_fsync_step [of "Append JESS_OK" "(tk, ?s1)" w] effect_fsync_step [of "Append JESS_FATAL" "(tk, ?s1)" w]
      unfolding ts_def snd_conv by auto
  next
    case (Some h)
    then have h: "h \<noteq> do_fsync" using assms(2) by simp
    have "fsync_step ?s1 (snd (call_handler exec w h rt_init_jrp (tk, ?s1)))"
      using call_handler_fsync_step [of exec h "(tk, ?s1)" rt_init_jrp w] discipline_other [OF assms(1) h] by simp
    moreover have "fsync_step ?s1 (snd (fold (call_handler exec w h) (jrp_payload tk) (tk, ?s1)))"
      using calls_fsync_step [OF assms(1) h, of "(tk, ?s1)" w "jrp_payload tk"] by simp
    ultimately show ?thesis using Some unfolding ts_def by simp
  qed
  moreover have "pro_execute_task exec w tk s = pro_send_response (fst ts) w (snd ts)"
    unfolding pro_execute_task_def Let_def case_prod_unfold ts_def t2_def ..
  moreover have "fsync_step (snd ts) (pro_send_response (fst ts) w (snd ts))"
    by (rule fsync_stepI) (simp add: send_fsync)
  ultimately show ?thesis using a by (metis fsync_step_trans)
qed

text \<open>An fsync task has no payload section: its handler is called once.\<close>

lemma execute_fsync_once:
  assumes "task_handler tk = Some do_fsync" "jrp_payload tk = []"
  obtains s1 where "fsyncs s1 = fsyncs s" "pending_fsync s1 = pending_fsync s"
    "pro_execute_task exec w tk s =
      (case fold (apply_effect w) (snd (exec do_fsync tk rt_init_jrp (world s))) (tk, s1) of
         (tk', s2) \<Rightarrow> pro_send_response tk' w s2)"
proof -
  define t2 where "t2 = (let t1 = pro_append_response (title tk @ CRLF) ((thread_of w s)\<lparr>offset := 0, response := []\<rparr>) in
     if dupopt tk \<noteq> [] then pro_append_response (dupopt tk @ CRLF @ CRLF) t1 else t1)"
  let ?s1 = "set_thread w t2 s"
  let ?s2 = "?s1\<lparr>world := fst (exec do_fsync tk rt_init_jrp (world s))\<rparr>"
  have "fsyncs ?s2 = fsyncs s" "pending_fsync ?s2 = pending_fsync s" by (simp_all add: t2_def Let_def fsyncs_same)
  moreover have "pro_execute_task exec w tk s =
      (case call_handler exec w do_fsync rt_init_jrp (tk, ?s1) of (tk', s2) \<Rightarrow> pro_send_response tk' w s2)"
    using assms by (simp add: pro_execute_task_def Let_def t2_def)
  moreover have "call_handler exec w do_fsync rt_init_jrp (tk, ?s1) =
      fold (apply_effect w) (snd (exec do_fsync tk rt_init_jrp (world s))) (tk, ?s2)"
    by (simp add: call_handler_def case_prod_unfold)
  ultimately show ?thesis by (intro that [of ?s2]) simp_all
qed

lemma dequeue_fsync:
  assumes "task_head (thread_of w s) = tk # rest"
    and "s0 = set_thread w ((thread_of w s)\<lparr>task_head := rest, task_pending := task_pending (thread_of w s) - 1\<rparr>) s"
  shows "int (fsyncs s0) = int (fsyncs s) - (if task_handler tk = Some do_fsync then 1 else 0)"
    "pending_fsync s0 = pending_fsync s" "world s0 = world s"
  using assms fsyncs_set_thread [of w "(thread_of w s)\<lparr>task_head := rest, task_pending := task_pending (thread_of w s) - 1\<rparr>" s]
  by auto

lemma rotate_fsync:
  assumes "fsync_discipline exec" "jess_inv INVALID_HTCPLINK s" "fsync_inv 0 s" "pro_rotate_one exec w s = Some s'"
  shows "fsync_inv 0 s' \<and> (fsync_lost s \<longrightarrow> fsync_lost s') \<and>
    (\<forall>tk rest. task_head (thread_of w s) = tk # rest \<longrightarrow> task_handler tk = Some do_fsync \<longrightarrow>
       FsyncComplete \<notin> set (snd (exec do_fsync tk rt_init_jrp (world s))) \<longrightarrow> fsync_lost s')"
proof -
  obtain tk rest where h: "task_head (thread_of w s) = tk # rest"
    using assms(4) by (auto simp: pro_rotate_one_def split: list.splits)
  define s0 where "s0 = set_thread w ((thread_of w s)\<lparr>task_head := rest, task_pending := task_pending (thread_of w s) - 1\<rparr>) s"
  note d = dequeue_fsync [OF h s0_def]
  have s': "s' = pro_execute_task exec w tk s0" using assms(4) h by (simp add: pro_rotate_one_def Let_def s0_def)
  show ?thesis
  proof (cases "task_handler tk = Some do_fsync")
    case False
    have "fsync_step s s0" using d False by (intro fsync_stepI) auto
    from this execute_fsync_step [OF assms(1) False, of s0 w] have "fsync_step s s'" unfolding s' by (rule fsync_step_trans)
    with assms(3) h False show ?thesis by (auto simp: fsync_step_def)
  next
    case True
    have "queue_ok w (thread_of w s)" using assms(2) by (simp add: jess_inv_def)
    then have "task_ok w tk" using h by (simp add: queue_ok_def)
    then have np: "jrp_payload tk = []" using True by (simp add: task_ok_def)
    have pos: "fsyncs s \<noteq> 0" using d(1) True by auto
    let ?es = "snd (exec do_fsync tk rt_init_jrp (world s))"
    have "world s0 = world s" by (rule d(3))
    then obtain s1 where s1: "fsyncs s1 = fsyncs s0" "pending_fsync s1 = pending_fsync s0"
      "s' = (case fold (apply_effect w) ?es (tk, s1) of (tk', s2) \<Rightarrow> pro_send_response tk' w s2)"
      using execute_fsync_once [OF True np, of s0 exec w] s' by metis
    define s2 where "s2 = snd (fold (apply_effect w) ?es (tk, s1))"
    have s2: "fsyncs s' = fsyncs s2" "pending_fsync s' = pending_fsync s2"
      using s1(3) by (simp_all add: s2_def case_prod_unfold send_fsync)
    have i1: "fsync_inv 1 (snd (tk, s1))" using assms(3) d True s1 by (simp add: fsync_inv_def)
    have one: "length (filter (\<lambda>e. e = FsyncComplete) ?es) \<le> 1"
      using assms(1) unfolding fsync_discipline_def by (metis (full_types))
    from effects_fsync_end [OF one i1, of w] have "fsync_inv 0 s'" using s2 by (simp add: fsync_inv_def s2_def)
    moreover have "fsync_lost s'" if "FsyncComplete \<notin> set ?es"
    proof -
      have "fsync_lost s1" using i1 by (auto simp: fsync_inv_def fsync_lost_def)
      with effects_fsync_step [OF that, of "(tk, s1)" w] have "fsync_lost s2" by (simp add: fsync_step_def s2_def)
      then show ?thesis using s2 by (simp add: fsync_lost_def)
    qed
    ultimately show ?thesis using pos h by (auto simp: fsync_lost_def)
  qed
qed

lemma receive_fsync: "fsync_step s (snd (jnet_on_receive_data now l data s))"
proof -
  have "fsync_step s (snd (pro_receive_data l ttl opt payload (on_net f (on_net g (on_net q s)))))"
    if "rt_analyze_req_head r = Some (ttl, opt, rest)" for ttl opt payload f g q r rest
    using pro_receive_data_fsync [OF head_fits [OF that] refl, of l payload "on_net f (on_net g (on_net q s))"]
    by (intro fsync_stepI) simp
  moreover have "fsync_step s (on_net q s)" "fsync_step s ((on_net g (on_net q s))\<lparr>net := n\<rparr>)" for q g n
    by (auto intro: fsync_stepI)
  ultimately show ?thesis
    by (auto simp: jnet_on_receive_data_def Let_def split: option.splits prod.splits)
qed

lemma step_fsync:
  assumes "jess_step exec s s'" "fsync_discipline exec" "jess_inv INVALID_HTCPLINK s" "fsync_inv 0 s"
  shows "fsync_inv 0 s' \<and> (fsync_lost s \<longrightarrow> fsync_lost s')"
  using assms(1)
proof (cases rule: jess_step.cases)
  case (execute w)
  then show ?thesis using rotate_fsync [OF assms(2-4)] by blast
next
  case (receive now l data)
  have "fsync_step (snd (jnet_on_receive_data now l data s)) s'"
    using receive by (intro fsync_stepI) (auto simp: jnet_tcp_callback_def case_prod_unfold)
  with receive_fsync [of s now l data] have "fsync_step s s'" by (metis fsync_step_trans)
  then show ?thesis using assms(4) by (simp add: fsync_step_def)
next
  case (keepalive now)
  have "fsync_step (on_net (\<lambda>n. n\<lparr>qps := 0\<rparr>) s) (procfs_set_property ''qps'' q (on_net (\<lambda>n. n\<lparr>qps := 0\<rparr>) s))" for q
    unfolding procfs_set_property_def by (rule fsync_stepI) (rule pro_append_request_fsync [OF refl])
  moreover have "fsync_step s (on_net f s)" for f and s :: "'a server" by (auto intro: fsync_stepI)
  ultimately have "fsync_step s s'" unfolding keepalive jnet_keepalive_def by (meson fsync_step_trans)
  then show ?thesis using assms(4) by (simp add: fsync_step_def)
next
  case flush
  have "fsync_step s s'" unfolding flush by (rule fsync_stepI) (rule pro_append_request_fsync [OF refl])
  then show ?thesis using assms(4) by (simp add: fsync_step_def)
qed (use assms(4) in \<open>simp_all add: jnet_tcp_callback_def fsync_inv_def fsync_lost_def\<close>)

lemma initial_fsync: "fsync_inv 0 (initial_server w0)"
  by (simp add: fsync_inv_def fsyncs_def pending_tasks_def) (simp add: initial_server_def idle_thread_def)

lemma reachable_fsync:
  assumes "(jess_step exec)\<^sup>*\<^sup>* (initial_server w0) s" "exec_ok exec" "fsync_discipline exec"
  shows "fsync_inv 0 s"
  using assms(1)
proof (induction rule: rtranclp_induct)
  case base
  then show ?case by (rule initial_fsync)
next
  case (step s s')
  then show ?case using step_fsync [OF step(2) assms(3)] reachable_inv [OF step(1) assms(2)] by blast
qed

section \<open>The contract between the task machinery and the handlers\<close>

text \<open>
  What the machinery needs of the handlers, and what it promises for all of them: the windows of
  the clients, the bounds of the queues and the fsync counter, in every reachable state.
\<close>

locale task_handlers =
  fixes exec :: "'w exec"
  assumes handover: "exec_ok exec"
    and fsync_once: "fsync_discipline exec"
begin

lemma window_counts:
  assumes "(jess_step exec)\<^sup>*\<^sup>* (initial_server w0) s"
  shows "list_all (\<lambda>c. window c = int (length (filter (\<lambda>tk. tlink tk = clink c) (pending_tasks s))) \<and>
      window c \<le> MAX_LINK_WINDOW) (clients (net s)) \<and>
    task_pending (thread_of w s) = int (length (task_head (thread_of w s))) \<and>
    length (task_head (thread_of w s)) \<le> 100 \<and> list_all (\<lambda>tk. tthread tk = w) (task_head (thread_of w s))"
proof -
  have inv: "jess_inv INVALID_HTCPLINK s" by (rule reachable_inv [OF assms handover])
  have "window c = pend (clink c) s \<and> window c \<le> MAX_LINK_WINDOW" if "c \<in> set (clients (net s))" for c
  proof -
    have "distinct (map clink (clients (net s)))" using inv by (simp add: jess_inv_def)
    from that this have "List.find (\<lambda>d. clink d = clink c) (clients (net s)) = Some c"
      by (rule find_unique)
    then have "wins (net s) (clink c) = Some (window c)" by (simp add: wins_def jnet_link_context_get_def)
    from jess_inv_idle [OF inv this] show ?thesis by simp
  qed
  then have "list_all (\<lambda>c. window c = int (length (filter (\<lambda>tk. tlink tk = clink c) (pending_tasks s))) \<and>
      window c \<le> MAX_LINK_WINDOW) (clients (net s))" unfolding list_all_iff pend_def by blast
  moreover have "queue_ok w (thread_of w s)" using inv by (simp add: jess_inv_def)
  ultimately show ?thesis by (auto simp: queue_ok_def task_ok_def list_all_iff MAX_PENDING_TASK_def)
qed

lemma one_fsync:
  assumes "(jess_step exec)\<^sup>*\<^sup>* (initial_server w0) s"
  shows "length (filter (\<lambda>tk. task_handler tk = Some do_fsync) (pending_tasks s)) \<le> nat (pending_fsync s) \<and>
    0 \<le> pending_fsync s \<and> pending_fsync s \<le> 1"
  using reachable_fsync [OF assms handover fsync_once] by (auto simp: fsync_inv_def fsyncs_def)

lemma failed_fsync:
  assumes "(jess_step exec)\<^sup>*\<^sup>* (initial_server w0) s"
    and "task_head (dpc s) = tk # rest" "task_handler tk = Some do_fsync"
    and "FsyncComplete \<notin> set (snd (exec do_fsync tk rt_init_jrp (world s)))"
    and "pro_rotate_one exec DPC s = Some s1" "(jess_step exec)\<^sup>*\<^sup>* s1 s2"
  shows "filter (\<lambda>tk. task_handler tk = Some do_fsync) (pending_tasks s2) = []"
proof -
  have i: "jess_inv INVALID_HTCPLINK s" by (rule reachable_inv [OF assms(1) handover])
  have f: "fsync_inv 0 s" by (rule reachable_fsync [OF assms(1) handover fsync_once])
  have h: "task_head (thread_of DPC s) = tk # rest" using assms(2) by (simp add: thread_of_def)
  have s1: "fsync_lost s1" "fsync_inv 0 s1" "jess_inv INVALID_HTCPLINK s1"
    using rotate_fsync [OF fsync_once i f assms(5)] h assms(3,4) rotate_inv [OF handover i assms(5)] by auto
  from assms(6) have "fsync_lost s2 \<and> fsync_inv 0 s2 \<and> jess_inv INVALID_HTCPLINK s2"
  proof (induction rule: rtranclp_induct)
    case base
    show ?case using s1 by blast
  next
    case (step x y)
    then show ?case using step_fsync [OF step(2) fsync_once] step_inv [OF step(2) handover] by blast
  qed
  then show ?thesis by (simp add: fsync_lost_def fsyncs_def)
qed

end

end
