(* ===== verification/Loader.thy ===== *)
theory Loader
  imports Ldr
begin

text \<open>
  The loader of \<^verbatim>\<open>ldr/ldr.c\<close>: it builds the configuration tree from the JSON documents in
  the cache of the virtual file system. The JSON parser and the \<open>%.3f\<close> conversion are arguments.
  A result \<open>None\<close> means that the code follows a dead pointer, writes past the end of a field, or
  does not return.
\<close>

section \<open>From a document to nodes\<close>

text \<open>
  The work of \<open>ldr_next_misc\<close>: a list of sibling items with the JSON parent and the parent node,
  or the rest of the loop over the items of an array (the next index, the items left, the array's
  JSON item and node).
\<close>

datatype load_work = Misc "addr list" "addr option" addr | ArrayItems nat "addr list" addr addr

text \<open>A text stored with a mark when it is too long; \<open>keep\<close> characters of it are kept.\<close>

definition limited :: "nat \<Rightarrow> string \<Rightarrow> string" where
  "limited keep v = (if length v \<ge> MAX_VALUE_SIZE then take keep v @ ''(jessldr:out-of-limit)'' else v)"

text \<open>\<open>snprintf\<close> into \<open>scope_value\<close>.\<close>

definition cut_value :: "string \<Rightarrow> string" where
  "cut_value v = take (MAX_VALUE_SIZE - 1) v"

definition ldr_new_field :: "string \<Rightarrow> string \<Rightarrow> 'd rt \<Rightarrow> addr option \<times> 'd rt" where
  "ldr_new_field name val s =
     (case ldr_organize_scope_name name True of
        None \<Rightarrow> (None, s)
      | Some nm \<Rightarrow> map_prod Some id (nnew (blank_node\<lparr>scope_name := nm, scope_value := val, njsl := JSL_FIELD\<rparr>) s))"

text \<open>The last part: the node gets its pointers and enters the index of its parent.\<close>

definition ldr_link_node :: "addr \<Rightarrow> addr \<Rightarrow> addr option \<Rightarrow> addr \<Rightarrow> 'd rt \<Rightarrow> 'd rt option" where
  "ldr_link_node a j jp parent s =
     do {
       n \<leftarrow> nmem s a;
       let s1 = nput a (n\<lparr>jsonptr := Some j, jsonparentptr := jp, parentnode := Some parent\<rparr>) s;
       p \<leftarrow> nmem s1 parent;
       Some (nput parent (p\<lparr>next_scope := scope_insert (next_scope p) (scope_name n) a,
               next_scope_size := next_scope_size p + 1\<rparr>) s1)
     }"

text \<open>A new item of an array, already in the list of the array node \<open>a\<close>.\<close>

definition ldr_new_item :: "nat \<Rightarrow> addr \<Rightarrow> addr \<Rightarrow> addr \<Rightarrow> JSL \<Rightarrow> string \<Rightarrow> 'd rt \<Rightarrow> (addr \<times> 'd rt) option" where
  "ldr_new_item i item j a level val s =
     do {
       p \<leftarrow> nmem s a;
       let (b, s1) = nnew (blank_node\<lparr>scope_name := show_nat i, scope_value := val, njsl := level,
              parentnode := Some a, jsonparentptr := Some j, jsonptr := Some item\<rparr>) s;
       Some (b, nput a (p\<lparr>array := array p @ [b]\<rparr>) s1)
     }"

partial_function (option) ldr_next_misc :: "('d \<Rightarrow> string) \<Rightarrow> load_work \<Rightarrow> 'd rt \<Rightarrow> 'd rt option" where
  "ldr_next_misc fmt w s =
     (case w of
        Misc js jp parent \<Rightarrow>
          (case js of
             [] \<Rightarrow> Some s
           | j # rest \<Rightarrow>
               do {
                 it \<leftarrow> items (jm s) j;
                 case jstring it of
                   None \<Rightarrow>
                     (case jval it of
                        cJSON_Number d \<Rightarrow> Some s
                      | cJSON_Array \<Rightarrow> ldr_next_misc fmt (Misc (jchild it) (Some j) parent) s
                      | cJSON_Object \<Rightarrow> ldr_next_misc fmt (Misc (jchild it) (Some j) parent) s
                      | _ \<Rightarrow> ldr_next_misc fmt (Misc rest jp parent) s)
                 | Some name \<Rightarrow>
                     do {
                       (node, s1) \<leftarrow>
                         (case jval it of
                            cJSON_Object \<Rightarrow>
                              (case ldr_organize_scope_name name True of
                                 None \<Rightarrow> Some (None, s)
                               | Some nm \<Rightarrow>
                                   do {
                                     let (a, s1) = nnew (blank_node\<lparr>scope_name := nm, njsl := JSL_LOGIC_SCOPE\<rparr>) s;
                                     s2 \<leftarrow> ldr_next_misc fmt (Misc (jchild it) (Some j) a) s1;
                                     Some (Some a, s2)
                                   })
                          | cJSON_Number d \<Rightarrow> Some (ldr_new_field name (cut_value (fmt d)) s)
                          | cJSON_String v \<Rightarrow> Some (ldr_new_field name (limited SCOPE_SAVELEN_OUTOF_LIMIT v) s)
                          | cJSON_Raw v \<Rightarrow> Some (ldr_new_field name (limited SCOPE_SAVELEN_OUTOF_LIMIT v) s)
                          | cJSON_Array \<Rightarrow>
                              if length name \<ge> MAX_PRE_SEG_SIZE then None
                              else
                                do {
                                  let (a, s1) = nnew (blank_node\<lparr>scope_name := name, njsl := JSL_ARRAY,
                                         arraysize := int (cJSON_GetArraySize j (jm s))\<rparr>) s;
                                  s2 \<leftarrow> ldr_next_misc fmt (ArrayItems 0 (jchild it) j a) s1;
                                  Some (Some a, s2)
                                }
                          | _ \<Rightarrow> Some (None, s));
                       s2 \<leftarrow> (case node of None \<Rightarrow> Some s1 | Some a \<Rightarrow> ldr_link_node a j jp parent s1);
                       ldr_next_misc fmt (Misc rest jp parent) s2
                     }
               })
      | ArrayItems i js j a \<Rightarrow>
          (case js of
             [] \<Rightarrow> Some s
           | item # rest \<Rightarrow>
               do {
                 n \<leftarrow> nmem s a;
                 it \<leftarrow> items (jm s) item;
                 s2 \<leftarrow>
                   (case jval it of
                      cJSON_Object \<Rightarrow>
                        do {
                          (b, s1) \<leftarrow> ldr_new_item i item j a JSL_ARRAY_ITEM
                             (cut_value (scope_name n @ ''['' @ show_nat i @ '']'')) s;
                          ldr_next_misc fmt (Misc (item # rest) (Some j) b) s1
                        }
                    | cJSON_String v \<Rightarrow> map_option snd (ldr_new_item i item j a JSL_ARRAY_ITEM_AS_FIELD (limited 64 v) s)
                    | cJSON_Number d \<Rightarrow> map_option snd (ldr_new_item i item j a JSL_ARRAY_ITEM_AS_FIELD (cut_value (fmt d)) s)
                    | _ \<Rightarrow> map_option snd (ldr_new_item i item j a JSL_DIR '''' s));
                 ldr_next_misc fmt (ArrayItems (Suc i) rest j a) s2
               }))"

section \<open>From the file system to the tree\<close>

type_synonym 'd parser = "string \<Rightarrow> 'd jmem \<Rightarrow> (addr \<times> 'd jmem) option"

text \<open>
  The loop of \<open>ldr_filesystem_load_archive\<close>. \<open>None\<close> of the parser is its null pointer. A document
  whose archive node is refused stays in the JSON memory, as in the code.
\<close>

definition ldr_load_one_archive :: "'d parser \<Rightarrow> ('d \<Rightarrow> string) \<Rightarrow> addr \<Rightarrow> fs_archive \<Rightarrow> 'd rt \<Rightarrow> 'd rt option" where
  "ldr_load_one_archive parse fmt dirnode f s =
     (if aname f = [] then Some s
      else
        (let (json, m) = (case parse (cstr (adata f)) (jm s) of None \<Rightarrow> (None, jm s) | Some (j, m) \<Rightarrow> (Some j, m))
         in do {
              (new, s1) \<leftarrow> ldr_create_archive dirnode (aname f) json (s\<lparr>jm := m\<rparr>);
              case new of
                None \<Rightarrow> Some s1
              | Some a \<Rightarrow>
                  do {
                    n \<leftarrow> nmem s1 a;
                    let s2 = nput a (n\<lparr>nsection := asection f\<rparr>) s1;
                    case json of None \<Rightarrow> Some s2 | Some j \<Rightarrow> ldr_next_misc fmt (Misc [j] None a) s2
                  }
            }))"

partial_function (option) ldr_filesystem_load_archive ::
  "'d parser \<Rightarrow> ('d \<Rightarrow> string) \<Rightarrow> addr \<Rightarrow> int \<Rightarrow> int \<Rightarrow> 'd rt \<Rightarrow> 'd rt option" where
  "ldr_filesystem_load_archive parse fmt dirnode d next s =
     (case fs_seek_next_file next d (cache (fsv s)) of (found, next') \<Rightarrow>
        if next' < 0 then Some s
        else case found of
          None \<Rightarrow> Some s
        | Some i \<Rightarrow>
            do {
              s1 \<leftarrow> ldr_load_one_archive parse fmt dirnode (archive (cache (fsv s)) ! i) s;
              ldr_filesystem_load_archive parse fmt dirnode d next' s1
            })"

definition ldr_load_one_dir :: "'d parser \<Rightarrow> ('d \<Rightarrow> string) \<Rightarrow> fs_directory \<Rightarrow> 'd rt \<Rightarrow> 'd rt option" where
  "ldr_load_one_dir parse fmt e s =
     (if dname e = [] then Some s
      else
        (let (a, s1) = nnew (blank_node\<lparr>scope_name := dname e, scope_value := cut_value (''jessfs/'' @ dname e @ ''/''),
               njsl := JSL_DIR\<rparr>) s
         in ldr_filesystem_load_archive parse fmt a (did e) 0 (s1\<lparr>root := scope_insert (root s1) (dname e) a\<rparr>)))"

partial_function (option) ldr_filesystem_load_dir :: "'d parser \<Rightarrow> ('d \<Rightarrow> string) \<Rightarrow> int \<Rightarrow> 'd rt \<Rightarrow> 'd rt option" where
  "ldr_filesystem_load_dir parse fmt next s =
     (case fs_seek_next_dir next (cache (fsv s)) of (found, next') \<Rightarrow>
        if next' \<le> 0 then Some s
        else case found of
          None \<Rightarrow> Some s
        | Some i \<Rightarrow>
            do {
              s1 \<leftarrow> ldr_load_one_dir parse fmt (dir (cache (fsv s)) ! i) s;
              ldr_filesystem_load_dir parse fmt next' s1
            })"

definition ldr_load_filesystem :: "'d parser \<Rightarrow> ('d \<Rightarrow> string) \<Rightarrow> 'd rt \<Rightarrow> 'd rt option" where
  "ldr_load_filesystem parse fmt s = ldr_filesystem_load_dir parse fmt 0 s"


section \<open>Importing a configuration directory\<close>

text \<open>
  \<open>ldr_load_config\<close> copies the JSON files of a directory into the file system. The directory is a
  list of subdirectories with their files, a file is its name and its content (\<open>None\<close>: it cannot
  be opened or read). The buffer for the content is not terminated: the parser reads on into
  \<open>slack\<close>, what follows it in memory.
\<close>

definition MAXPATH :: nat where "MAXPATH = 127"

definition ldr_parse_posix_file ::
  "(string \<Rightarrow> 'j option) \<Rightarrow> ('j \<Rightarrow> string) \<Rightarrow> string \<Rightarrow> string option \<Rightarrow> string option" where
  "ldr_parse_posix_file parse print slack file =
     (case file of
        None \<Rightarrow> None
      | Some bytes \<Rightarrow>
          if bytes = [] \<or> length bytes \<ge> FS_MAX_FILE_SIZE then None
          else map_option print (parse (cstr (bytes @ slack))))"

definition ldr_config_load_file ::
  "(string \<Rightarrow> 'j option) \<Rightarrow> ('j \<Rightarrow> string) \<Rightarrow> string \<Rightarrow> string \<Rightarrow> int \<Rightarrow> string \<times> string option \<Rightarrow> layout \<Rightarrow> layout option" where
  "ldr_config_load_file parse print slack path d file L =
     (if length (path @ fst file) \<ge> MAXPATH + MAX_VALUE_SIZE then Some L
      else case strchr (fst file) (CHR ''.'') of
        None \<Rightarrow> Some L
      | Some k \<Rightarrow>
          if strcasecmp ''.json'' (drop k (fst file)) \<noteq> 0 \<or> \<not> ldr_scope_name_fits (fst file) then Some L
          else case ldr_parse_posix_file parse print slack (snd file) of
            None \<Rightarrow> Some L
          | Some txt \<Rightarrow> map_option snd (fs_allocate_file (fst file) d (int (length txt)) (Some txt) L))"

text \<open>A subdirectory: its files are \<open>None\<close> when it cannot be opened.\<close>

definition ldr_config_load_archive ::
  "(string \<Rightarrow> 'j option) \<Rightarrow> ('j \<Rightarrow> string) \<Rightarrow> string \<Rightarrow> string \<Rightarrow> int \<Rightarrow> (string \<times> string option) list option \<Rightarrow>
   layout \<Rightarrow> layout option" where
  "ldr_config_load_archive parse print slack path d files L =
     (case files of None \<Rightarrow> Some L | Some fs \<Rightarrow> foldo (ldr_config_load_file parse print slack path d) fs L)"

definition ldr_config_load_subdir ::
  "(string \<Rightarrow> 'j option) \<Rightarrow> ('j \<Rightarrow> string) \<Rightarrow> string \<Rightarrow> string \<Rightarrow> string \<times> (string \<times> string option) list option \<Rightarrow>
   layout \<Rightarrow> layout option" where
  "ldr_config_load_subdir parse print slack name sub L =
     (case ldr_organize_scope_name (fst sub) False of
        None \<Rightarrow> Some L
      | Some nm \<Rightarrow>
          (case fs_allocate_dir (fst sub) L of
             None \<Rightarrow> None
           | Some (d, L') \<Rightarrow>
               if d > 0 then ldr_config_load_archive parse print slack (cut_value (name @ fst sub @ ''/'')) d (snd sub) L'
               else Some L'))"

definition ldr_config_load_dir ::
  "(string \<Rightarrow> 'j option) \<Rightarrow> ('j \<Rightarrow> string) \<Rightarrow> string \<Rightarrow> string \<Rightarrow>
   (string \<times> (string \<times> string option) list option) list option \<Rightarrow> layout \<Rightarrow> (int \<times> layout) option" where
  "ldr_config_load_dir parse print slack name subs L =
     (case subs of
        None \<Rightarrow> Some (-1, L)
      | Some ds \<Rightarrow> map_option (Pair 0) (foldo (ldr_config_load_subdir parse print slack name) ds L))"

text \<open>\<open>view\<close> lists a directory by its path.\<close>

definition ldr_load_config ::
  "(string \<Rightarrow> 'j option) \<Rightarrow> ('j \<Rightarrow> string) \<Rightarrow> string \<Rightarrow>
   (string \<Rightarrow> (string \<times> (string \<times> string option) list option) list option) \<Rightarrow> string \<Rightarrow> 'd rt \<Rightarrow> (int \<times> 'd rt) option" where
  "ldr_load_config parse print slack view configdir s =
     (if root s \<noteq> ET then Some (0, s)
      else
        (let d = (if configdir \<noteq> [] \<and> last configdir = CHR ''/'' then configdir else take 511 (configdir @ ''/'')) in
         map_option (\<lambda>(r, L). (r, on_cache (\<lambda>_. L) s))
           (ldr_config_load_dir parse print slack d (view d) (cache (fsv s)))))"

end
