(* ===== verification/Handlers.thy ===== *)
theory Handlers
  imports Loader Order Binary
begin

text \<open>
  The handlers of the commands: \<^verbatim>\<open>pro/variable.c\<close>, \<^verbatim>\<open>pro/manage.c\<close>,
  \<^verbatim>\<open>pro/binary.c\<close>, the internal tree of \<^verbatim>\<open>fs/proc.c\<close> and the start of the daemon in
  \<^verbatim>\<open>ldr/entry.c\<close>. A handler is a function from the state of the daemon to the new state and
  its calls back into the task machinery; \<open>None\<close> is a handler that uses dead memory or does not
  return.
\<close>

section \<open>The daemon and what it meets\<close>

record 'd daemon =
  rts :: "'d rt"
  disks :: disk
  region :: "string option"
  tick :: nat

text \<open>
  What the outside contributes to one call: outcomes of the file operations, the conversions of
  the C library, the JSON printer and parser, what freed and uninitialised memory reads as, the
  clock, the files in the directory of the database, and the version string of the build.
\<close>

record 'd env =
  eio :: io
  eatof :: "string \<Rightarrow> 'd"
  efmt :: "'d \<Rightarrow> string"
  eparse :: "'d parser"
  eprint :: "addr \<Rightarrow> 'd jmem \<Rightarrow> string option"
  estale :: int
  estale_node :: "int \<times> string option"
  eheap :: layout
  eclock :: "nat \<times> nat \<times> nat \<times> nat \<times> nat \<times> nat"
  epath_fits :: bool
  efiles :: "string list option"
  eversion :: string

type_synonym 'd outcome = "('d daemon \<times> effect list) option"

definition fatal :: "'d daemon \<Rightarrow> 'd outcome" where
  "fatal d = Some (d, [Append JESS_FATAL])"

definition on_fs :: "(fs_server \<Rightarrow> fs_server) \<Rightarrow> 'd rt \<Rightarrow> 'd rt" where
  "on_fs f s = s\<lparr>fsv := f (fsv s)\<rparr>"

text \<open>\<open>jrp->valuestring.len > 0\<close>\<close>

definition has_value :: "JRP \<Rightarrow> bool" where
  "has_value jrp = (case valuestring jrp of None \<Rightarrow> False | Some v \<Rightarrow> v \<noteq> [])"

section \<open>Listing scopes\<close>

text \<open>The names of one level, in the order of the tree walk.\<close>

fun pro_scan_current_scope_level :: "'d rt \<Rightarrow> scope_index avltree \<Rightarrow> effect list option" where
  "pro_scan_current_scope_level s ET = Some []"
| "pro_scan_current_scope_level s (TN l x h r) =
     do {
       n \<leftarrow> nmem s (snd x);
       ls \<leftarrow> pro_scan_current_scope_level s l;
       rs \<leftarrow> pro_scan_current_scope_level s r;
       Some (Append (scope_name n @ CRLF) # ls @ rs)
     }"

text \<open>
  \<open>var_makeup_pair\<close>: all fields below a level with their keys. The name of an array item without
  a name of its scope is taken from an uninitialised buffer (\<open>None\<close>).
\<close>

datatype pair_work = Level "scope_index avltree" "string option" | ItemsOf "addr list" string "string option" string

partial_function (option) var_makeup_pair :: "pair_work \<Rightarrow> 'd rt \<Rightarrow> effect list option" where
  "var_makeup_pair w s =
     (case w of
        Level t base \<Rightarrow>
          (case t of
             ET \<Rightarrow> Some []
           | TN l x h r \<Rightarrow>
               do {
                 n \<leftarrow> nmem s (snd x);
                 let next_scope_name = (case base of Some b \<Rightarrow> b @ ''.'' @ scope_name n | None \<Rightarrow> scope_name n);
                 here \<leftarrow>
                   (case njsl n of
                      JSL_FIELD \<Rightarrow> Some [Append (next_scope_name @ ''='' @ scope_value n @ CRLF)]
                    | JSL_LOGIC_SCOPE \<Rightarrow> var_makeup_pair (Level (next_scope n) (Some next_scope_name)) s
                    | JSL_ARCHIVE \<Rightarrow> var_makeup_pair (Level (next_scope n) (Some next_scope_name)) s
                    | JSL_DIR \<Rightarrow> var_makeup_pair (Level (next_scope n) (Some next_scope_name)) s
                    | JSL_ARRAY \<Rightarrow> var_makeup_pair (ItemsOf (array n) (scope_name n) base next_scope_name) s
                    | _ \<Rightarrow> Some []);
                 ls \<leftarrow> var_makeup_pair (Level l base) s;
                 rs \<leftarrow> var_makeup_pair (Level r base) s;
                 Some (here @ ls @ rs)
               })
      | ItemsOf bs name base next_scope_name \<Rightarrow>
          (case bs of
             [] \<Rightarrow> Some []
           | b # rest \<Rightarrow>
               do {
                 it \<leftarrow> nmem s b;
                 here \<leftarrow>
                   (if njsl it = JSL_ARRAY_ITEM then
                      (case base of
                         None \<Rightarrow> None
                       | Some p \<Rightarrow>
                           var_makeup_pair (Level (next_scope it)
                             (Some (take (MAX_PRE_SEG_SIZE * 3 + 3) (p @ ''.'' @ name @ ''['' @ scope_name it @ '']'')))) s)
                    else if njsl it = JSL_ARRAY_ITEM_AS_FIELD then
                      Some [Append (next_scope_name @ ''['' @ scope_name it @ '']='' @ scope_value it @ CRLF)]
                    else Some []);
                 others \<leftarrow> var_makeup_pair (ItemsOf rest name base next_scope_name) s;
                 Some (here @ others)
               }))"

text \<open>The tree below (and including) the entry of a node in the index it is in.\<close>

fun subtree_at :: "addr \<Rightarrow> scope_index avltree \<Rightarrow> scope_index avltree option" where
  "subtree_at a ET = None"
| "subtree_at a (TN l x h r) =
     (if snd x = a then Some (TN l x h r)
      else case subtree_at a l of Some t \<Rightarrow> Some t | None \<Rightarrow> subtree_at a r)"

definition own_index :: "addr \<Rightarrow> node \<Rightarrow> 'd rt \<Rightarrow> scope_index avltree option" where
  "own_index a n s =
     (case parentnode n of
        None \<Rightarrow> subtree_at a (root s)
      | Some p \<Rightarrow> do { pn \<leftarrow> nmem s p; subtree_at a (next_scope pn) })"

section \<open>The commands on variables\<close>

definition everything :: "JRP \<Rightarrow> bool" where
  "everything jrp \<longleftrightarrow> dupkey jrp = ''/'' \<or> dupkey jrp = ''*''"

definition pro_vairable_read :: "JRP \<Rightarrow> 'd daemon \<Rightarrow> 'd outcome" where
  "pro_vairable_read jrp d =
     (if has_value jrp then fatal d
      else do {
        found \<leftarrow> rt_search jrp (rts d);
        case found of
          None \<Rightarrow> fatal d
        | Some v \<Rightarrow> Some (d, [Append JESS_OK, Append (dupkey jrp @ ''='' @ v @ CRLF)])
      })"

definition pro_variable_contain :: "JRP \<Rightarrow> 'd daemon \<Rightarrow> 'd outcome" where
  "pro_variable_contain jrp d =
     (if has_value jrp then fatal d
      else if everything jrp then
        do { es \<leftarrow> pro_scan_current_scope_level (rts d) (root (rts d)); Some (d, Append JESS_OK # es) }
      else do {
        reached \<leftarrow> rt_reach_last_scope jrp (rts d);
        case reached of
          None \<Rightarrow> fatal d
        | Some a \<Rightarrow>
            do {
              n \<leftarrow> nmem (rts d) a;
              es \<leftarrow> pro_scan_current_scope_level (rts d) (next_scope n);
              Some (d, Append JESS_OK # es)
            }
      })"

text \<open>\<open>fs_override_file\<close> of an archive node, with its JSON document printed first.\<close>

definition override_archive :: "'d env \<Rightarrow> addr \<Rightarrow> 'd rt \<Rightarrow> 'd rt option" where
  "override_archive e a s =
     do {
       n \<leftarrow> nmem s a;
       let (r, sync, L) = fs_override_file (nsection n) (Option.bind (jsonptr n) (\<lambda>j. eprint e j (jm s))) (cache (fsv s));
       let s1 = on_cache (\<lambda>_. L) s;
       Some (if sync then on_fs fs_append_sync s1 else s1)
     }"

definition drop_file :: "io \<Rightarrow> string option \<Rightarrow> disk \<Rightarrow> disk" where
  "drop_file x f d = (case f of None \<Rightarrow> d | Some name \<Rightarrow> d(io_path x name := None))"

definition pro_variable_write :: "'d env \<Rightarrow> JRP \<Rightarrow> 'd daemon \<Rightarrow> 'd outcome" where
  "pro_variable_write e jrp d =
     (if dupvalue jrp = [] \<or> valuestring jrp = None then fatal d
      else do {
        (retval, arch, gone, s1) \<leftarrow> rt_config_update (eatof e) (estale e) jrp (rts d);
        let d1 = d\<lparr>rts := s1, disks := drop_file (eio e) gone (disks d)\<rparr>;
        if retval < 0 then fatal d1
        else if retval = 0 \<and> strcasecmp ''proc'' (sname (hd (segm jrp))) \<noteq> 0 then
          do {
            s2 \<leftarrow> (case arch of Some a \<Rightarrow> override_archive e a s1 | None \<Rightarrow> Some (on_fs fs_append_sync s1));
            Some (d1\<lparr>rts := s2\<rparr>, [Append JESS_OK, Publish jrp])
          }
        else Some (d1, [Append JESS_OK])
      })"

definition pro_variable_scope :: "JRP \<Rightarrow> 'd daemon \<Rightarrow> 'd outcome" where
  "pro_variable_scope jrp d =
     (if has_value jrp then fatal d
      else if everything jrp then
        do { es \<leftarrow> var_makeup_pair (Level (root (rts d)) None) (rts d); Some (d, Append JESS_OK # es) }
      else do {
        reached \<leftarrow> rt_reach_last_scope jrp (rts d);
        case reached of
          None \<Rightarrow> fatal d
        | Some a \<Rightarrow>
            do {
              n \<leftarrow> nmem (rts d) a;
              if njsl n = JSL_FIELD \<or> njsl n = JSL_ARRAY_ITEM_AS_FIELD then
                Some (d, [Append (JESS_OK @ dupkey jrp @ ''='' @ scope_value n @ CRLF)])
              else do {
                w \<leftarrow> (if njsl n = JSL_ARRAY then map_option (\<lambda>t. Level t (Some (scope_name n))) (own_index a n (rts d))
                     else if njsl n = JSL_ARRAY_ITEM then Some (Level (next_scope n) (Some (scope_value n)))
                     else Some (Level (next_scope n) (Some (scope_name n))));
                es \<leftarrow> var_makeup_pair w (rts d);
                Some (d, Append JESS_OK # es)
              }
            }
      })"

definition pro_variable_read_file :: "JRP \<Rightarrow> 'd daemon \<Rightarrow> 'd outcome" where
  "pro_variable_read_file jrp d =
     (if has_value jrp then fatal d
      else do {
        reached \<leftarrow> rt_reach_last_scope jrp (rts d);
        case reached of
          None \<Rightarrow> fatal d
        | Some a \<Rightarrow>
            do {
              n \<leftarrow> nmem (rts d) a;
              if njsl n \<noteq> JSL_ARCHIVE then fatal d
              else do {
                ((size, bytes), L) \<leftarrow> fs_read_file_bysect (nsection n) (cache (fsv (rts d)));
                Some (d\<lparr>rts := on_cache (\<lambda>_. L) (rts d)\<rparr>,
                  Append JESS_OK # (if size > 0 then [Append (cstr bytes)] else []))
              }
            }
      })"

section \<open>The internal tree proc\<close>

text \<open>\<open>procfs_config_update\<close>: the result of the update itself is ignored.\<close>

definition procfs_config_update :: "'d env \<Rightarrow> string \<Rightarrow> 'd daemon \<Rightarrow> (int \<times> 'd daemon) option" where
  "procfs_config_update e command d =
     (case rt_build_jrp command of
        Some [jrp] \<Rightarrow>
          do {
            (retval, arch, gone, s1) \<leftarrow> rt_config_update (eatof e) (estale e) jrp (rts d);
            Some (0, d\<lparr>rts := s1, disks := drop_file (eio e) gone (disks d)\<rparr>)
          }
      | _ \<Rightarrow> Some (-1, d))"

definition procfs_update :: "'d env \<Rightarrow> string \<Rightarrow> 'd daemon \<Rightarrow> 'd daemon option" where
  "procfs_update e command d = map_option snd (procfs_config_update e command d)"

definition procfs_load_checkpoint :: "'d env \<Rightarrow> 'd daemon \<Rightarrow> 'd daemon option" where
  "procfs_load_checkpoint e d =
     do {
       d1 \<leftarrow> procfs_update e ''proc.jess.checkpoint=deleted'' d;
       case efiles e of
         None \<Rightarrow> Some d1
       | Some files \<Rightarrow>
           foldo (\<lambda>f. procfs_update e (take 511 (''proc.jess.checkpoint[+]='' @ f)))
             (filter (\<lambda>f. strncasecmp f ''jess_checkpoint_'' 16 = 0) files) d1
     }"

definition procfs_load_property :: "'d env \<Rightarrow> 'd daemon \<Rightarrow> 'd daemon option" where
  "procfs_load_property e d =
     do {
       d1 \<leftarrow> procfs_update e ''proc.jess.tcp_max_pending=10'' d;
       procfs_update e ''proc.jess.tcp_link_timeout=6'' d1
     }"

definition procfs_get_property :: "string \<Rightarrow> 'd rt \<Rightarrow> int option" where
  "procfs_get_property field s =
     (case rt_build_jrp (take (MAX_PAYLOAD_SIZE - 1) (''proc.jess.'' @ field)) of
        Some [jrp] \<Rightarrow> map_option (\<lambda>v. case v of None \<Rightarrow> -1 | Some x \<Rightarrow> atoi x) (rt_search jrp s)
      | _ \<Rightarrow> Some (-1))"

definition procfs_mark_version :: "'d env \<Rightarrow> 'd daemon \<Rightarrow> 'd daemon option" where
  "procfs_mark_version e d = procfs_update e (''proc.jess.version='' @ eversion e) d"

definition procfs_rebuild :: "'d env \<Rightarrow> 'd daemon \<Rightarrow> 'd daemon option" where
  "procfs_rebuild e d =
     do {
       let (proc, s1) = ldr_create_dir ''proc'' (rts d);
       (_, s2) \<leftarrow> ldr_create_archive proc ''jess'' None s1;
       (_, s3) \<leftarrow> ldr_create_archive proc ''history'' None s2;
       d1 \<leftarrow> procfs_mark_version e (d\<lparr>rts := s3\<rparr>);
       d2 \<leftarrow> procfs_load_checkpoint e d1;
       procfs_load_property e d2
     }"

definition procfs_add_checkpoint :: "'d env \<Rightarrow> string \<Rightarrow> 'd daemon \<Rightarrow> (int \<times> 'd daemon) option" where
  "procfs_add_checkpoint e file d =
     procfs_config_update e (take (MAX_PAYLOAD_SIZE - 1) (''proc.jess.checkpoint[+]='' @ file)) d"

section \<open>The commands of management\<close>

definition pro_mkdir :: "JRP \<Rightarrow> 'd daemon \<Rightarrow> 'd outcome" where
  "pro_mkdir jrp d =
     (if depth jrp \<noteq> 1 then fatal d
      else do {
        (r, s1) \<leftarrow> rt_create_dir jrp (rts d);
        if r < 0 then fatal (d\<lparr>rts := s1\<rparr>)
        else Some (d\<lparr>rts := on_fs fs_append_sync s1\<rparr>, [Append JESS_OK])
      })"

definition pro_rmdir :: "'d env \<Rightarrow> JRP \<Rightarrow> 'd daemon \<Rightarrow> 'd outcome" where
  "pro_rmdir e jrp d =
     (if depth jrp \<noteq> 1 then fatal d
      else do {
        (r, k, s1) \<leftarrow> rt_remove_dir (estale_node e) jrp (disks d) (rts d);
        if r < 0 then fatal (d\<lparr>rts := s1, disks := k\<rparr>)
        else Some (d\<lparr>rts := on_fs fs_append_sync s1, disks := k\<rparr>, [Append JESS_OK])
      })"

text \<open>\<open>%0wd\<close> of a non-negative number.\<close>

definition show_pad :: "nat \<Rightarrow> nat \<Rightarrow> string" where
  "show_pad w n = (let t = show_nat n in replicate (w - length t) (CHR ''0'') @ t)"

definition checkpoint_name :: "nat \<times> nat \<times> nat \<times> nat \<times> nat \<times> nat \<Rightarrow> string" where
  "checkpoint_name t =
     (case t of (year, month, day, hour, minute, second) \<Rightarrow>
        take (MAXPATH - 1) (''jess_checkpoint_'' @ show_pad 4 year @ show_pad 2 month @ show_pad 2 day @ ''_'' @
          show_pad 2 hour @ show_pad 2 minute @ show_pad 2 second))"

definition pro_create_checkpoint :: "'d env \<Rightarrow> 'd daemon \<Rightarrow> 'd outcome" where
  "pro_create_checkpoint e d =
     (let file = checkpoint_name (eclock e);
          (r, k) = fs_create_checkpoint (eio e) (epath_fits e) file (disks d) (fsv (rts d))
      in if r < 0 then fatal (d\<lparr>disks := k\<rparr>)
         else do {
           (_, d1) \<leftarrow> procfs_add_checkpoint e file (d\<lparr>disks := k\<rparr>);
           Some (d1, [Append JESS_OK])
         })"

text \<open>The end of a recovery, on the thread PRO.\<close>

definition permit :: "'d daemon \<Rightarrow> 'd daemon" where
  "permit d = d\<lparr>rts := on_fs (\<lambda>f. f\<lparr>permit_override := 1\<rparr>) (rts d)\<rparr>"

definition pro_recover_checkpoint :: "'d env \<Rightarrow> JRP \<Rightarrow> 'd daemon \<Rightarrow> 'd outcome" where
  "pro_recover_checkpoint e jrp d =
     do {
       (_, s1) \<leftarrow> rt_suface_remove_dir jrp (rts d);
       let (r, _, k, f) = fs_load_config_database (eio e) (eheap e) (disks d) (fsv s1);
       let d1 = d\<lparr>rts := s1\<lparr>fsv := f\<rparr>, disks := k\<rparr>;
       if r < 0 then fatal (permit d1)
       else do {
         s2 \<leftarrow> ldr_load_filesystem (eparse e) (efmt e) (on_fs fs_load_config_cache (rts d1));
         d2 \<leftarrow> procfs_rebuild e (d1\<lparr>rts := s2\<rparr>);
         Some (permit d2, [Append JESS_OK])
       }
     }"

definition pro_query_version :: "'d daemon \<Rightarrow> 'd outcome" where
  "pro_query_version d =
     (case rt_build_jrp (''proc.jess.version'' @ CRLF) of
        Some [jrp] \<Rightarrow>
          do {
            found \<leftarrow> rt_search jrp (rts d);
            case found of
              None \<Rightarrow> fatal d
            | Some v \<Rightarrow> Some (d, [Append JESS_OK, Append (''version='' @ v @ CRLF)])
          }
      | _ \<Rightarrow> fatal d)"

section \<open>All handlers\<close>

fun effect_of :: "pro_event \<Rightarrow> effect" where
  "effect_of (Respond txt) = Append txt"
| "effect_of AppendSync = AppendRequest ''sync'' False None"
| "effect_of AppendFsync = AppendRequest ''fsync'' False None"
| "effect_of CompleteFsync = FsyncComplete"
| "effect_of AppendRecover2 = AppendRequest ''recover2'' True (Some ''/'')"
| "effect_of DropLink = LinkDropped"

fun effect_of_reply :: "reply \<Rightarrow> effect" where
  "effect_of_reply Ok = Append JESS_OK"
| "effect_of_reply Fatal = Append JESS_FATAL"
| "effect_of_reply (Bytes b) = AppendBinary b"

text \<open>
  The function a task's pointer \<open>task_handler\<close> stands for. The two handlers of the network
  component are called before this one.
\<close>

definition handle :: "'d env \<Rightarrow> handler \<Rightarrow> task \<Rightarrow> JRP \<Rightarrow> 'd daemon \<Rightarrow> 'd outcome" where
  "handle e h tk jrp d =
     (case h of
        variable_contain \<Rightarrow> pro_variable_contain jrp d
      | create_checkpoint \<Rightarrow> pro_create_checkpoint e d
      | variable_read_file \<Rightarrow> pro_variable_read_file jrp d
      | do_fsync \<Rightarrow>
          (case fs_fsync (eio e) (disks d) (fsv (rts d)) of (k, ev) \<Rightarrow> Some (d\<lparr>disks := k\<rparr>, map effect_of ev))
      | mkdir \<Rightarrow> pro_mkdir jrp d
      | binary_read \<Rightarrow>
          map_option (\<lambda>rs. (d, map effect_of_reply rs)) (pro_binary_read (jrp_option tk) (region d))
      | variable_read \<Rightarrow> pro_vairable_read jrp d
      | recover_checkpoint \<Rightarrow>
          (case fs_recover_checkpoint (eio e) (dupkey jrp) (disks d) (fsv (rts d)) of (k, f, ev) \<Rightarrow>
             Some (d\<lparr>disks := k, rts := (rts d)\<lparr>fsv := f\<rparr>\<rparr>, map effect_of ev))
      | recover_checkpoint2 \<Rightarrow> pro_recover_checkpoint e jrp d
      | rmdir \<Rightarrow> pro_rmdir e jrp d
      | variable_scope \<Rightarrow> pro_variable_scope jrp d
      | do_sync \<Rightarrow>
          (case fs_sync (fsv (rts d)) of (f, ev) \<Rightarrow> Some (d\<lparr>rts := (rts d)\<lparr>fsv := f\<rparr>\<rparr>, map effect_of ev))
      | query_version \<Rightarrow> pro_query_version d
      | binary_write \<Rightarrow>
          map_option (\<lambda>(rs, r). (d\<lparr>region := r\<rparr>, map effect_of_reply rs))
            (pro_binary_write (jrp_option tk) (case valuestring jrp of None \<Rightarrow> '''' | Some v \<Rightarrow> v) (region d))
      | variable_write \<Rightarrow> pro_variable_write e jrp d
      | _ \<Rightarrow> Some (d, []))"

text \<open>
  The argument of the task machinery: each call takes the next element of an arbitrary sequence
  of circumstances. A daemon that has crashed or hangs is \<open>None\<close> and stays so.
\<close>

definition jess_exec :: "(nat \<Rightarrow> 'd env) \<Rightarrow> 'd daemon option exec" where
  "jess_exec es h tk jrp w =
     (case w of
        None \<Rightarrow> (None, [])
      | Some d \<Rightarrow>
          (case handle (es (tick d)) h tk jrp (d\<lparr>tick := Suc (tick d)\<rparr>) of
             None \<Rightarrow> (None, [])
           | Some (d', effects) \<Rightarrow> (Some d', effects)))"

section \<open>The start of the daemon\<close>

text \<open>
  \<open>fs_startup\<close>: return code, the reorganization flag, the daemon. The arguments are the outcome of
  creating the directory and what \<open>fs_map_binary_region\<close> meets.
\<close>

definition fs_startup ::
  "'d env \<Rightarrow> bool \<Rightarrow> string option \<times> bool \<times> bool \<times> string \<Rightarrow> 'd daemon \<Rightarrow> int \<times> bool \<times> 'd daemon" where
  "fs_startup e made bin d =
     (if \<not> made then (-1, False, d)
      else case bin of (file, wrote, mapped, heap) \<Rightarrow>
        (case fs_map_binary_region file wrote mapped heap of (r, view) \<Rightarrow>
           if r < 0 then (-1, False, d)
           else
             (case fs_load_config_database (eio e) (eheap e) (disks d) (fsv (rts d)) of (q, reorg, k, f) \<Rightarrow>
                let d1 = d\<lparr>region := view, disks := k, rts := (rts d)\<lparr>fsv := f\<rparr>\<rparr> in
                if q < 0 then (-1, reorg, d1)
                else (0, reorg, d1\<lparr>rts := on_fs fs_load_config_cache (rts d1)\<rparr>))))"

text \<open>
  \<open>main\<close> up to the start of the network: \<open>order\<close> says that the command line asks for a
  reorganization, \<open>view\<close> lists the old configuration directories. \<open>Some None\<close> is exit code 1.
\<close>

definition clear_config :: "'d daemon \<Rightarrow> 'd daemon" where
  "clear_config d = (case fs_clear_config (disks d) (fsv (rts d)) of (k, f) \<Rightarrow> d\<lparr>disks := k, rts := (rts d)\<lparr>fsv := f\<rparr>\<rparr>)"

definition jess_main ::
  "'d env \<Rightarrow> bool \<Rightarrow> string option \<times> bool \<times> bool \<times> string \<Rightarrow> bool \<Rightarrow>
   (string \<Rightarrow> (string \<times> (string \<times> string option) list option) list option) \<Rightarrow>
   (string \<Rightarrow> 'j option) \<Rightarrow> ('j \<Rightarrow> string) \<Rightarrow> string \<Rightarrow> 'd daemon \<Rightarrow> 'd daemon option server option option" where
  "jess_main e made bin order view parse print slack d =
     (let d0 = (if order then clear_config d else d);
          (n, reorg, d1) = fs_startup e made bin d0
      in if n < 0 then Some None
         else do {
           (_, s2) \<leftarrow> (if reorg \<or> order
                      then ldr_load_config parse print slack view ''/etc/agv/'' (rts (clear_config d1))
                      else Some (0, rts d1));
           s3 \<leftarrow> ldr_load_filesystem (eparse e) (efmt e) s2;
           d4 \<leftarrow> procfs_rebuild e ((if reorg \<or> order then clear_config d1 else d1)\<lparr>rts := s3\<rparr>);
           let srv = initial_server (Some d4);
           Some (Some (if reorg \<or> order then snd (pro_append_request ''sync'' None None srv) else srv))
         })"

end
