(* ===== verification/Daemon.thy ===== *)
theory Daemon
  imports Server Handlers Config
begin

text \<open>
  The daemon as a whole: the handlers fulfil the contract of the task machinery, so that its
  guarantees hold for the program, and the path of a request from the socket to its answer.
\<close>

section \<open>The handlers fulfil the contract of the machinery\<close>

text \<open>Most handlers only answer and publish.\<close>

fun plain_effect :: "effect \<Rightarrow> bool" where
  "plain_effect (Append x) = True"
| "plain_effect (AppendBinary x) = True"
| "plain_effect (Publish x) = True"
| "plain_effect _ = False"

definition answers :: "'d outcome \<Rightarrow> bool" where
  "answers r \<longleftrightarrow> (case r of None \<Rightarrow> True | Some (d, es) \<Rightarrow> list_all plain_effect es)"

lemma answers_simps [simp]:
  "answers None" "answers (fatal d)" "answers (Some (d, es)) = list_all plain_effect es"
  by (simp_all add: answers_def fatal_def)

lemma answers_bind: "(\<And>x. r = Some x \<Longrightarrow> answers (f x)) \<Longrightarrow> answers (r \<bind> f)"
  by (cases r) simp_all

lemma scan_level_plain: "pro_scan_current_scope_level s t = Some es \<Longrightarrow> list_all plain_effect es"
  by (induction t arbitrary: es) (auto split: bind_splits)

lemma var_makeup_plain: "var_makeup_pair w s = Some es \<Longrightarrow> list_all plain_effect es"
proof (erule var_makeup_pair.raw_induct [rotated 1, where P = "\<lambda>w s es. list_all plain_effect es"], goal_cases)
  case (1 f w s es)
  from 1(2) show ?case
    by (auto simp: Let_def split: pair_work.splits avltree.splits list.splits JSL.splits bind_splits if_splits option.splits
        dest!: 1(1))
qed

lemmas answer_defs = pro_vairable_read_def pro_variable_contain_def pro_variable_write_def pro_variable_scope_def
  pro_variable_read_file_def pro_mkdir_def pro_rmdir_def pro_create_checkpoint_def pro_recover_checkpoint_def
  pro_query_version_def


lemma answers_handlers:
  "answers (pro_vairable_read jrp d)" "answers (pro_variable_contain jrp d)" "answers (pro_variable_write e jrp d)"
  "answers (pro_variable_scope jrp d)" "answers (pro_variable_read_file jrp d)" "answers (pro_mkdir jrp d)"
  "answers (pro_rmdir e jrp d)" "answers (pro_create_checkpoint e d)" "answers (pro_recover_checkpoint e jrp d)"
  "answers (pro_query_version d)"
  unfolding answer_defs Let_def
  by (auto intro!: answers_bind scan_level_plain var_makeup_plain simp: scan_level_plain var_makeup_plain
      split: option.splits prod.splits list.splits if_splits)


lemma plain_handover: "list_all plain_effect es \<Longrightarrow> handover_ok es"
proof (induction es)
  case (Cons e es)
  then show ?case by (cases e) auto
qed simp

lemma plain_no_fsync: "list_all plain_effect es \<Longrightarrow> filter (\<lambda>e. e = FsyncComplete) es = []"
  by (auto simp: filter_empty_conv list_all_iff)

text \<open>The calls of the file system component back into the machinery.\<close>

lemma fs_events:
  "fs_fsync x k s = (k', ev) \<Longrightarrow> ev \<in> {[Respond JESS_FATAL], [], [CompleteFsync]}"
  "fs_sync s = (s', ev) \<Longrightarrow> ev \<in> {[Respond JESS_FATAL], [Respond JESS_OK], [Respond JESS_OK, AppendFsync]}"
  "fs_recover_checkpoint x name k s = (k', s', ev) \<Longrightarrow> ev \<in> {[], [AppendRecover2, DropLink]}"
  by (auto simp: fs_fsync_def fs_sync_def fs_recover_checkpoint_def Let_def split: if_splits option.splits dbfile.splits)

lemma reply_plain: "list_all plain_effect (map effect_of_reply rs)"
proof (induction rs)
  case (Cons r rs)
  then show ?case by (cases r) auto
qed simp

lemma handle_effects:
  assumes "handle e h tk jrp d = Some (d', es)"
  shows "list_all plain_effect es \<or> (h = do_fsync \<and> es = [FsyncComplete]) \<or>
    es = [Append JESS_OK, AppendRequest ''fsync'' False None] \<or> es = [AppendRequest ''recover2'' True (Some ''/''), LinkDropped]"
proof (cases h)
  case variable_contain
  then show ?thesis using assms answers_handlers(2) [of jrp d] by (simp add: handle_def)
next
  case create_checkpoint
  then show ?thesis using assms answers_handlers(8) [of e d] by (simp add: handle_def)
next
  case variable_read_file
  then show ?thesis using assms answers_handlers(5) [of jrp d] by (simp add: handle_def)
next
  case do_fsync
  then show ?thesis using assms fs_events(1) by (fastforce simp: handle_def split: prod.splits)
next
  case mkdir
  then show ?thesis using assms answers_handlers(6) [of jrp d] by (simp add: handle_def)
next
  case binary_read
  then show ?thesis using assms reply_plain by (auto simp: handle_def)
next
  case variable_read
  then show ?thesis using assms answers_handlers(1) [of jrp d] by (simp add: handle_def)
next
  case recover_checkpoint
  then show ?thesis using assms fs_events(3) by (fastforce simp: handle_def split: prod.splits)
next
  case recover_checkpoint2
  then show ?thesis using assms answers_handlers(9) [of e jrp d] by (simp add: handle_def)
next
  case rmdir
  then show ?thesis using assms answers_handlers(7) [of e jrp d] by (simp add: handle_def)
next
  case variable_scope
  then show ?thesis using assms answers_handlers(4) [of jrp d] by (simp add: handle_def)
next
  case do_sync
  then show ?thesis using assms fs_events(2) by (fastforce simp: handle_def split: prod.splits)
next
  case query_version
  then show ?thesis using assms answers_handlers(10) [of d] by (simp add: handle_def)
next
  case binary_write
  then show ?thesis using assms reply_plain by (auto simp: handle_def)
next
  case variable_write
  then show ?thesis using assms answers_handlers(3) [of e jrp d] by (simp add: handle_def)
qed (use assms in \<open>auto simp: handle_def\<close>)

lemma jess_exec_effects:
  "list_all plain_effect (snd (jess_exec es h tk jrp w)) \<or> (h = do_fsync \<and> snd (jess_exec es h tk jrp w) = [FsyncComplete]) \<or>
   snd (jess_exec es h tk jrp w) = [Append JESS_OK, AppendRequest ''fsync'' False None] \<or>
   snd (jess_exec es h tk jrp w) = [AppendRequest ''recover2'' True (Some ''/''), LinkDropped]"
  by (auto simp: jess_exec_def split: option.splits prod.splits dest!: handle_effects)

lemma recover2_fits: "request_fits ''recover2'' (Some ''/'')"
  by (simp add: request_fits_def limit_defs)

interpretation jess: task_handlers "jess_exec es"
proof
  have "handover_ok (snd (jess_exec es h tk jrp w))" for h tk jrp w
    using jess_exec_effects [of es h tk jrp w] recover2_fits by (auto dest: plain_handover)
  then show "exec_ok (jess_exec es)" by (simp add: exec_ok_def)
  have "length (filter (\<lambda>e. e = FsyncComplete) (snd (jess_exec es h tk jrp w))) \<le> (if h = do_fsync then 1 else 0)" for h tk jrp w
    using jess_exec_effects [of es h tk jrp w] by (auto dest: plain_no_fsync)
  then show "fsync_discipline (jess_exec es)" by (simp add: fsync_discipline_def)
qed

section \<open>Guarantees of the running daemon\<close>

text \<open>The states of a daemon that was started with the state \<open>d\<close> and meets the circumstances \<open>es\<close>.\<close>

definition jess_reaches :: "(nat \<Rightarrow> 'd env) \<Rightarrow> 'd daemon \<Rightarrow> 'd daemon option server \<Rightarrow> bool" where
  "jess_reaches es d s \<longleftrightarrow> (jess_step (jess_exec es))\<^sup>*\<^sup>* (initial_server (Some d)) s"

text \<open>
  C6: Flow control: in every state the daemon can reach, whatever the clients, the workers, the
  timers and the file operations do in whatever order, each client's window is exactly the number
  of its requests still waiting in the two queues, and never more than twenty; a queue never holds
  more than a hundred tasks, \<open>task_pending\<close> is its length, and each task waits in the queue of the
  thread it belongs to.
\<close>

theorem window_counts_pending:
  assumes "jess_reaches es d s"
  shows "list_all (\<lambda>c. window c = int (length (filter (\<lambda>tk. tlink tk = clink c) (pending_tasks s))) \<and>
      window c \<le> MAX_LINK_WINDOW) (clients (net s)) \<and>
    task_pending (thread_of w s) = int (length (task_head (thread_of w s))) \<and>
    length (task_head (thread_of w s)) \<le> 100 \<and> list_all (\<lambda>tk. tthread tk = w) (task_head (thread_of w s))"
  using assms unfolding jess_reaches_def by (rule jess.window_counts)

text \<open>
  C17: At most one fsync is pending: in every reachable state the counter is zero or one, and the
  queues hold at most as many fsync tasks as it says.
\<close>

theorem one_fsync_pending:
  assumes "jess_reaches es d s"
  shows "length (filter (\<lambda>tk. task_handler tk = Some do_fsync) (pending_tasks s)) \<le> nat (pending_fsync s) \<and>
    0 \<le> pending_fsync s \<and> pending_fsync s \<le> 1"
  using assms unfolding jess_reaches_def by (rule jess.one_fsync)


text \<open>
  C15: An fsync that fails before the rename is the last one: when the memory, the opening, the
  complete write or the flush of the swap file fails, or the permission to write is withdrawn by a
  running recovery, then in no later state of the daemon is there ever an fsync task again, whatever
  the clients and timers do: changes no longer reach the database file. An fsync whose renames fail is
  counted as complete and is not meant here.
\<close>

theorem failed_fsync_is_final:
  assumes "jess_reaches es d s" "world s = Some d1" "x = eio (es (tick d1))"
    and "task_head (dpc s) = tk # rest" "task_handler tk = Some do_fsync"
    and "permit_override (fsv (rts d1)) = 0 \<or> \<not> io_malloc x \<or> \<not> io_open x Swap \<or>
      io_write x Swap \<noteq> int SIZEOF_LAYOUT \<or> \<not> io_flush x"
    and "pro_rotate_one (jess_exec es) DPC s = Some s1" "(jess_step (jess_exec es))\<^sup>*\<^sup>* s1 s2"
  shows "filter (\<lambda>tk. task_handler tk = Some do_fsync) (pending_tasks s2) = []"
proof -
  have "snd (fs_fsync x (disks d1) (fsv (rts d1))) \<in> {[Respond JESS_FATAL], []}"
    using assms(6) unfolding fs_fsync_def Let_def by (simp add: if_distrib [of snd]) blast
  moreover have "snd (jess_exec es do_fsync tk rt_init_jrp (world s)) = map effect_of (snd (fs_fsync x (disks d1) (fsv (rts d1))))"
    unfolding assms(2,3) by (simp add: jess_exec_def handle_def case_prod_unfold)
  ultimately have "FsyncComplete \<notin> set (snd (jess_exec es do_fsync tk rt_init_jrp (world s)))" by auto
  from jess.failed_fsync [OF assms(1) [unfolded jess_reaches_def] assms(4,5) this assms(7,8)] show ?thesis .
qed

text \<open>A daemon with one change that is not yet on the disk, and a disk that does not flush.\<close>

definition small_layout :: layout where
  "small_layout = \<lparr>mask = [], dir = [], archive = []\<rparr>"

definition changed_daemon :: "int daemon" where
  "changed_daemon = \<lparr>rts = \<lparr>nmem = Map.empty, nnext = 0, jm = \<lparr>items = Map.empty, jnext = 0\<rparr>, root = ET,
       fsv = \<lparr>cache = small_layout, config = small_layout, count_overwritten = 1, permit_override = 1\<rparr>\<rparr>,
     disks = Map.empty, region = None, tick = 0\<rparr>"

definition circumstances :: "io \<Rightarrow> nat \<Rightarrow> int env" where
  "circumstances x n = \<lparr>eio = x, eatof = (\<lambda>_. 0), efmt = (\<lambda>_. ''0.000''), eparse = (\<lambda>_ _. None), eprint = (\<lambda>_ _. None),
     estale = 0, estale_node = (0, None), eheap = small_layout, eclock = (2020, 10, 26, 21, 33, 58), epath_fits = True,
     efiles = None, eversion = ''1.0''\<rparr>"

definition no_flush :: io where
  "no_flush = good_calls\<lparr>io_flush := False\<rparr>"

definition sync_asked :: "int daemon option server" where
  "sync_asked = snd (pro_append_request ''sync'' None None (initial_server (Some changed_daemon)))"

definition sync_done :: "int daemon option server" where
  "sync_done = the (pro_rotate_one (jess_exec (circumstances no_flush)) PRO sync_asked)"

lemmas machine_defs = pro_append_request_def pro_receive_data_def pro_allocate_task_def pro_set_handler_def run_def
  limit_defs initial_server_def idle_thread_def thread_of_def set_thread_def MAX_PENDING_TASK_def pro_rotate_one_def Let_def
  pro_execute_task_def call_handler_def pro_append_response_def pro_send_response_def INVALID_HTCPLINK_def RESP_BUFF_SIZE_def

definition sync_task :: task where
  "sync_task = \<lparr>tlink = -1, title = ''sync'', dupopt = [], jrp_option = [], jrp_payload = [], task_handler = Some do_sync, tthread = PRO\<rparr>"

definition fsync_task :: task where
  "fsync_task = \<lparr>tlink = -1, title = ''fsync'', dupopt = [], jrp_option = [], jrp_payload = [], task_handler = Some do_fsync, tthread = DPC\<rparr>"

lemma sync_asked_eq: "sync_asked = (initial_server (Some changed_daemon))
    \<lparr>pro := idle_thread\<lparr>task_head := [sync_task], task_pending := 1\<rparr>\<rparr>"
  by (simp add: sync_asked_def machine_defs sync_task_def)

lemma sync_done_eq: "pro_rotate_one (jess_exec (circumstances no_flush)) PRO sync_asked = Some sync_done"
  "sync_done = (initial_server (Some (changed_daemon\<lparr>tick := 1\<rparr>)))
     \<lparr>dpc := idle_thread\<lparr>task_head := [fsync_task], task_pending := 1\<rparr>, pending_fsync := 1\<rparr>"
proof -
  have "jess_exec (circumstances no_flush) do_sync sync_task rt_init_jrp (Some changed_daemon) =
      (Some (changed_daemon\<lparr>tick := 1\<rparr>), [Append JESS_OK, AppendRequest ''fsync'' False None])"
    by (simp add: jess_exec_def handle_def changed_daemon_def fs_sync_def)
  then have "pro_rotate_one (jess_exec (circumstances no_flush)) PRO sync_asked =
     Some ((initial_server (Some (changed_daemon\<lparr>tick := 1\<rparr>)))
     \<lparr>dpc := idle_thread\<lparr>task_head := [fsync_task], task_pending := 1\<rparr>, pending_fsync := 1\<rparr>)"
    unfolding sync_asked_eq by (simp add: machine_defs sync_task_def fsync_task_def JESS_OK_def)
  then show "pro_rotate_one (jess_exec (circumstances no_flush)) PRO sync_asked = Some sync_done"
    "sync_done = (initial_server (Some (changed_daemon\<lparr>tick := 1\<rparr>)))
     \<lparr>dpc := idle_thread\<lparr>task_head := [fsync_task], task_pending := 1\<rparr>, pending_fsync := 1\<rparr>"
    by (simp_all add: sync_done_def)
qed


lemma reaches_sync_done: "jess_reaches (circumstances no_flush) changed_daemon sync_done"
proof -
  have "jess_step (jess_exec (circumstances no_flush)) (initial_server (Some changed_daemon)) sync_asked"
    unfolding sync_asked_def by (rule jess_step.flush)
  moreover have "jess_step (jess_exec (circumstances no_flush)) sync_asked sync_done"
    by (rule jess_step.execute [OF sync_done_eq(1)])
  ultimately show ?thesis unfolding jess_reaches_def by (meson rtranclp.simps)
qed

theorem one_fsync_pending_witness:
  "length (filter (\<lambda>tk. task_handler tk = Some do_fsync) (pending_tasks sync_done)) = 1 \<and> pending_fsync sync_done = 1"
  using one_fsync_pending [OF reaches_sync_done]
  by (simp add: sync_done_eq(2) pending_tasks_def fsync_task_def initial_server_def idle_thread_def)

definition fsync_failed :: "int daemon option server" where
  "fsync_failed = the (pro_rotate_one (jess_exec (circumstances no_flush)) DPC sync_done)"

theorem failed_fsync_is_final_witness:
  "filter (\<lambda>tk. task_handler tk = Some do_fsync)
     (pending_tasks (snd (pro_append_request ''sync'' None None fsync_failed))) = []"
proof -
  have w: "world sync_done = Some (changed_daemon\<lparr>tick := 1\<rparr>)" "task_head (dpc sync_done) = [fsync_task]"
    by (simp_all add: sync_done_eq(2) initial_server_def)
  have r: "pro_rotate_one (jess_exec (circumstances no_flush)) DPC sync_done = Some fsync_failed"
    using w(2) by (simp add: fsync_failed_def pro_rotate_one_def thread_of_def Let_def)
  have "(jess_step (jess_exec (circumstances no_flush)))\<^sup>*\<^sup>* fsync_failed (snd (pro_append_request ''sync'' None None fsync_failed))"
    by (rule r_into_rtranclp) (rule jess_step.flush)
  from failed_fsync_is_final [OF reaches_sync_done w(1) refl w(2) _ _ r this] show ?thesis
    by (simp add: fsync_task_def circumstances_def no_flush_def)
qed

text \<open>A client that asks for the version.\<close>

definition version_request :: string where
  "version_request = ''version'' @ CRLF"

definition version_asked :: "int daemon option server" where
  "version_asked = jnet_tcp_callback 5 (RECEIVEDATA 1 version_request)
     (jnet_tcp_callback 4 (ACCEPTED 1) (initial_server (Some changed_daemon)))"

lemma reaches_version_asked: "jess_reaches (circumstances good_calls) changed_daemon version_asked"
proof -
  have "jess_step (jess_exec (circumstances good_calls)) (initial_server (Some changed_daemon))
      (jnet_tcp_callback 4 (ACCEPTED 1) (initial_server (Some changed_daemon)))"
    by (rule jess_step.accept) (simp_all add: initial_server_def idle_thread_def pending_tasks_def)
  moreover have "jess_step (jess_exec (circumstances good_calls))
      (jnet_tcp_callback 4 (ACCEPTED 1) (initial_server (Some changed_daemon))) version_asked"
    unfolding version_asked_def by (rule jess_step.receive)
  ultimately show ?thesis unfolding jess_reaches_def by (meson rtranclp.simps)
qed

lemma version_head: "rt_analyze_req_head (cstr version_request) = Some (''version'', None, [])"
  "cstr version_request = version_request" "length version_request = 9" "version_request \<noteq> []"
  by (code_simp, simp_all add: version_request_def CRLF_def CR_def LF_def NUL_def)

lemma version_asked_facts: "map tlink (pending_tasks version_asked) = [1]" "map clink (clients (net version_asked)) = [1]"
  by (simp_all add: version_head version_head(1) [unfolded version_head(2)] version_asked_def jnet_tcp_callback_def jnet_on_receive_data_def on_net_def jnet_on_accepted_def upd_client_def
      jnet_link_context_get_def MAX_REQ_SIZE_def MAX_LINK_WINDOW_def machine_defs pending_tasks_def)

theorem window_counts_pending_witness: "map window (clients (net version_asked)) = [1]"
proof -
  obtain c where c: "clients (net version_asked) = [c]" "clink c = 1" using version_asked_facts(2) by auto
  obtain tk where "pending_tasks version_asked = [tk]" "tlink tk = 1" using version_asked_facts(1) by auto
  with window_counts_pending [OF reaches_version_asked, of PRO] c show ?thesis by simp
qed


section \<open>The answer to a request\<close>

text \<open>The bytes a list of effects adds to the response, and the changes it publishes.\<close>

fun out_text :: "effect \<Rightarrow> string" where
  "out_text (Append x) = x"
| "out_text (AppendBinary x) = x"
| "out_text _ = []"

fun published :: "effect \<Rightarrow> jnet \<Rightarrow> jnet" where
  "published (Publish j) n = jnet_publish j n"
| "published _ n = n"

definition texts :: "effect list \<Rightarrow> string" where
  "texts es = concat (map out_text es)"

lemma texts_simps [simp]: "texts [] = []" "texts (e # es) = out_text e @ texts es" "texts (xs @ ys) = texts xs @ texts ys"
  by (simp_all add: texts_def)

text \<open>A thread whose buffer holds exactly what was counted.\<close>

definition in_step :: "work_thread \<Rightarrow> bool" where
  "in_step t \<longleftrightarrow> offset t = length (response t)"

definition filled :: "string \<Rightarrow> work_thread \<Rightarrow> work_thread" where
  "filled x t = t\<lparr>response := response t @ x, offset := offset t + length x\<rparr>"

lemma filled_simps [simp]:
  "filled [] t = t" "filled y (filled x t) = filled (x @ y) t" "in_step (filled x t) = in_step t"
  "offset (filled x t) = offset t + length x" "response (filled x t) = response t @ x"
  by (simp_all add: filled_def in_step_def)

lemma append_filled:
  "in_step t \<Longrightarrow> offset t + length x < RESP_BUFF_SIZE \<Longrightarrow> pro_append_response x t = filled x t"
  "in_step t \<Longrightarrow> offset t + length x < RESP_BUFF_SIZE \<Longrightarrow> pro_append_binary_response x t = filled x t"
  by (auto simp: pro_append_response_def pro_append_binary_response_def filled_def in_step_def Let_def)

lemma server_update_simps [simp]:
  "set_thread w t (set_thread w u s) = set_thread w t s"
  "(set_thread w t s)\<lparr>net := n\<rparr> = set_thread w t (s\<lparr>net := n\<rparr>)"
  "(set_thread w t s)\<lparr>world := y\<rparr> = set_thread w t (s\<lparr>world := y\<rparr>)"
  "set_thread w (thread_of w s) s = s"
  by (cases w; simp add: set_thread_def thread_of_def)+

lemma plain_effects_run:
  assumes "list_all plain_effect es" "in_step (thread_of w s)" "offset (thread_of w s) + length (texts es) < RESP_BUFF_SIZE"
  shows "fold (apply_effect w) es (tk, s) =
    (tk, set_thread w (filled (texts es) (thread_of w s)) (s\<lparr>net := fold published es (net s)\<rparr>))"
  using assms
proof (induction es arbitrary: s)
  case (Cons e es)
  show ?case
  proof (cases e)
    case (Append x)
    then have "apply_effect w e (tk, s) = (tk, set_thread w (filled x (thread_of w s)) s)"
      using Cons.prems by (simp add: append_filled)
    then show ?thesis using Cons.IH [of "set_thread w (filled x (thread_of w s)) s"] Cons.prems Append by (simp add: add.assoc)
  next
    case (AppendBinary x)
    then have "apply_effect w e (tk, s) = (tk, set_thread w (filled x (thread_of w s)) s)"
      using Cons.prems by (simp add: append_filled)
    then show ?thesis using Cons.IH [of "set_thread w (filled x (thread_of w s)) s"] Cons.prems AppendBinary by (simp add: add.assoc)
  next
    case (Publish j)
    then show ?thesis using Cons.IH [of "s\<lparr>net := jnet_publish j (net s)\<rparr>"] Cons.prems by simp
  qed (use Cons.prems in auto)
qed simp

text \<open>The sections of a request, one after the other: the state is handed on, the effects add up.\<close>

fun run_sections :: "'w exec \<Rightarrow> handler \<Rightarrow> task \<Rightarrow> JRP list \<Rightarrow> 'w \<Rightarrow> 'w \<times> effect list" where
  "run_sections exec h tk [] y = (y, [])"
| "run_sections exec h tk (j # js) y =
     (case exec h tk j y of (y1, es) \<Rightarrow> case run_sections exec h tk js y1 of (y2, fs) \<Rightarrow> (y2, es @ fs))"

lemma sections_run:
  assumes "h \<noteq> subscribe" "h \<noteq> unsubscribe" "run_sections exec h tk js (world s) = (y, es)"
    and "list_all plain_effect es" "in_step (thread_of w s)" "offset (thread_of w s) + length (texts es) < RESP_BUFF_SIZE"
  shows "fold (call_handler exec w h) js (tk, s) =
    (tk, set_thread w (filled (texts es) (thread_of w s)) (s\<lparr>world := y, net := fold published es (net s)\<rparr>))"
  using assms(3-)
proof (induction js arbitrary: s es)
  case (Cons j js)
  obtain y1 es1 where x: "exec h tk j (world s) = (y1, es1)" by fastforce
  obtain y2 es2 where r: "run_sections exec h tk js y1 = (y2, es2)" by fastforce
  have es: "es = es1 @ es2" "y = y2" using Cons.prems(1) x r by auto
  let ?s = "set_thread w (filled (texts es1) (thread_of w s)) (s\<lparr>world := y1, net := fold published es1 (net s)\<rparr>)"
  have "call_handler exec w h j (tk, s) = fold (apply_effect w) es1 (tk, s\<lparr>world := y1\<rparr>)"
    using assms(1,2) x by (simp add: call_handler_def)
  also have "\<dots> = (tk, ?s)"
    using plain_effects_run [of es1 w "s\<lparr>world := y1\<rparr>" tk] Cons.prems es by simp
  finally have "call_handler exec w h j (tk, s) = (tk, ?s)" .
  then show ?case using Cons.IH [of ?s es2] Cons.prems r es by (simp add: add.assoc)
qed auto


lemma answer_run:
  assumes "task_handler tk = Some h" "h \<noteq> subscribe" "h \<noteq> unsubscribe" "0 < tlink tk"
    and "run_sections exec h tk (if jrp_payload tk = [] then [rt_init_jrp] else jrp_payload tk) (world s) = (y, es)"
    and "list_all plain_effect es"
    and "packet = title tk @ CRLF @ (if dupopt tk = [] then [] else dupopt tk @ CRLF @ CRLF) @ texts es"
    and "length packet < RESP_BUFF_SIZE"
  shows "net (pro_execute_task exec w tk s) = snd (jnet_write_response (tlink tk) packet (fold published es (net s))) \<and>
    world (pro_execute_task exec w tk s) = y \<and> pending_fsync (pro_execute_task exec w tk s) = pending_fsync s \<and>
    task_head (thread_of v (pro_execute_task exec w tk s)) = task_head (thread_of v s)"
proof -
  let ?head = "title tk @ CRLF @ (if dupopt tk = [] then [] else dupopt tk @ CRLF @ CRLF)"
  let ?t0 = "(thread_of w s)\<lparr>offset := 0, response := []\<rparr>"
  define t1 where "t1 = (let t1 = pro_append_response (title tk @ CRLF) ?t0
     in if dupopt tk \<noteq> [] then pro_append_response (dupopt tk @ CRLF @ CRLF) t1 else t1)"
  have t0: "in_step ?t0" by (simp add: in_step_def)
  have t1: "t1 = filled ?head ?t0"
    using assms(7,8) t0 by (cases "dupopt tk = []") (simp_all add: t1_def Let_def append_filled)
  let ?js = "if jrp_payload tk = [] then [rt_init_jrp] else jrp_payload tk"
  define t2 where "t2 = filled (texts es) t1"
  let ?s2 = "set_thread w t2 (s\<lparr>world := y, net := fold published es (net s)\<rparr>)"
  have "fold (call_handler exec w h) ?js (tk, set_thread w t1 s) = (tk, ?s2)"
    using sections_run [OF assms(2,3), of exec tk ?js "set_thread w t1 s" y es w] assms(5-8) t1 t0 by (simp add: t2_def)
  then have "pro_execute_task exec w tk s = pro_send_response tk w ?s2"
    using assms(1) unfolding pro_execute_task_def Let_def t1_def [unfolded Let_def, symmetric] by (auto split: if_splits)
  moreover have "response t2 = packet" "offset t2 = length packet" using t1 assms(7) by (simp_all add: t2_def)
  moreover have "0 < length packet" using assms(7) by (simp add: CRLF_def)
  moreover have "task_head t2 = task_head (thread_of w s)" by (simp add: t1 t2_def filled_def)
  ultimately show ?thesis using assms(4,8) by (cases "v = w") (simp_all add: pro_send_response_def Let_def)
qed

text \<open>
  C13: The answer to a request that a handler answers with texts and publications only: the client
  gets exactly one packet, the title line, the options it sent if any, and then what the handler said
  for each section of the payload, in their order; the state is handed from section to section, and
  the changes are published before the answer is sent. Left out are subscriptions and their end,
  handlers that hand over a request of their own (a sync that asks for a file sync, a file sync, a
  recovery), and answers of five megabytes and more, which the code cuts.
\<close>

theorem answer_is_composed:
  assumes "task_handler tk = Some h" "h \<noteq> subscribe" "h \<noteq> unsubscribe" "0 < tlink tk"
    and "run_sections exec h tk (if jrp_payload tk = [] then [rt_init_jrp] else jrp_payload tk) (world s) = (y, es)"
    and "list_all plain_effect es"
    and "packet = title tk @ CRLF @ (if dupopt tk = [] then [] else dupopt tk @ CRLF @ CRLF) @ texts es"
    and "length packet < RESP_BUFF_SIZE"
  shows "net (pro_execute_task exec w tk s) = snd (jnet_write_response (tlink tk) packet (fold published es (net s))) \<and>
    world (pro_execute_task exec w tk s) = y \<and> pending_fsync (pro_execute_task exec w tk s) = pending_fsync s \<and>
    task_head (thread_of v (pro_execute_task exec w tk s)) = task_head (thread_of v s)"
  using answer_run [OF assms] .

end
