(* ===== verification/Session.thy ===== *)
theory Session
  imports Daemon
begin

text \<open>
  Requests from the socket to the answer: the bytes of a packet are parsed, become a task of the
  worker PRO, which executes it and sends the answer. The theorems follow a client that writes a
  value and then reads it.
\<close>

section \<open>One request on an idle worker\<close>

text \<open>A packet arrives and the worker PRO executes the next task.\<close>

definition ask :: "(nat \<Rightarrow> 'd env) \<Rightarrow> nat \<Rightarrow> int \<Rightarrow> string \<Rightarrow> 'd daemon option server \<Rightarrow> 'd daemon option server option" where
  "ask es now l data s = pro_rotate_one (jess_exec es) PRO (jnet_tcp_callback now (RECEIVEDATA l data) s)"

lemma strstr_blank_line_None: "CR \<notin> set x \<Longrightarrow> strstr x (CRLF @ CRLF) = None"
proof (cases "strstr x (CRLF @ CRLF)")
  case (Some n)
  then have "prefix (CRLF @ CRLF) (drop n x)" by (rule strstr_Some)
  then have "CR \<in> set (drop n x)" by (auto simp: prefix_def CRLF_def)
  moreover assume "CR \<notin> set x"
  ultimately show ?thesis by (meson in_set_dropD)
qed

lemma request_head:
  assumes "CR \<notin> set ttl" "ttl \<noteq> []" "length ttl < MAX_TITLE_SIZE" "CR \<notin> set txt"
  shows "rt_analyze_req_head (ttl @ CRLF @ txt) = Some (ttl, None, txt)"
proof -
  have s: "strstr (ttl @ CRLF @ txt) CRLF = Some (length ttl)" using assms(1) by (rule strstr_CRLF_append)
  then have "skip_blank_lines (ttl @ CRLF @ txt) = ttl @ CRLF @ txt"
    using assms(2) by (subst skip_blank_lines.simps) simp
  then show ?thesis using s assms strstr_blank_line_None by (simp add: rt_analyze_req_head_def)
qed

text \<open>The titles of the session, with the handler of their task.\<close>

definition reply_task :: "int \<Rightarrow> string \<Rightarrow> handler \<Rightarrow> JRP \<Rightarrow> task" where
  "reply_task l ttl h j = \<lparr>tlink = l, title = ttl, dupopt = [], jrp_option = [], jrp_payload = [j], task_handler = Some h, tthread = PRO\<rparr>"

definition plain_command :: "string \<Rightarrow> handler \<Rightarrow> bool" where
  "plain_command ttl h \<longleftrightarrow> (ttl, h) \<in> {(''write'', variable_write), (''read'', variable_read)}"

lemma plain_command_props:
  assumes "plain_command ttl h"
  shows "CR \<notin> set ttl" "NUL \<notin> set ttl" "ttl \<noteq> []" "length ttl < MAX_TITLE_SIZE" "ttl \<noteq> ''wbin''" "length ttl \<le> 5"
    "pro_set_handler (reply_task l ttl g j\<lparr>task_handler := None\<rparr>) p = (Some (reply_task l ttl h j), p)"
    "h \<noteq> subscribe" "h \<noteq> unsubscribe"
proof -
  have c: "ttl = ''write'' \<and> h = variable_write \<or> ttl = ''read'' \<and> h = variable_read"
    using assms by (auto simp: plain_command_def)
  then show "CR \<notin> set ttl" "NUL \<notin> set ttl" "ttl \<noteq> []" "length ttl < MAX_TITLE_SIZE" "ttl \<noteq> ''wbin''" "length ttl \<le> 5"
    "h \<noteq> subscribe" "h \<noteq> unsubscribe"
    by (elim disjE conjE; simp add: CR_def NUL_def MAX_TITLE_SIZE_def)+
  show "pro_set_handler (reply_task l ttl g j\<lparr>task_handler := None\<rparr>) p = (Some (reply_task l ttl h j), p)"
    using c by (elim disjE conjE; simp add: pro_set_handler_def reply_task_def run_def)
qed

text \<open>The network side of an accepted request: the access time, the window and the counter.\<close>

definition noted :: "nat \<Rightarrow> int \<Rightarrow> jnet \<Rightarrow> jnet" where
  "noted now l n = upd_client l (\<lambda>c. c\<lparr>window := window c + 1\<rparr>) (upd_client l (\<lambda>c. c\<lparr>last_access := now\<rparr>) (n\<lparr>qps := qps n + 1\<rparr>))"

lemma wins_noted: "wins (noted now l n) k = (if k = l then map_option (\<lambda>w. w + 1) (wins n k) else wins n k)"
  by (simp add: noted_def wins_upd_client [where g = "\<lambda>w. w + 1"] wins_upd_client [where g = id] option.map_id)

lemma wire_noted [simp]: "wire (noted now l n) = wire n"
  by (simp add: noted_def upd_client_def)

lemma allocate_command:
  assumes "plain_command ttl h" "canonical j"
  shows "pro_allocate_task l ttl None (Some (jrp_text j)) p = (reply_task l ttl h j, True, p)"
proof -
  have "rt_build_jrp (jrp_text j) = Some [j]" using build_printed [of "[j]"] assms(2) by (simp add: limit_defs)
  moreover have "\<lparr>tlink = l, title = ttl, dupopt = '''', jrp_option = [], jrp_payload = [j], task_handler = None, tthread = PRO\<rparr> =
      reply_task l ttl h j\<lparr>task_handler := None\<rparr>" by (simp add: reply_task_def)
  ultimately show ?thesis
    using plain_command_props [OF assms(1)] jrp_text_size [OF assms(2)] by (simp add: pro_allocate_task_def Let_def)
qed

lemma ask_runs:
  assumes "plain_command ttl h" "canonical j" "jnet_link_context_get l (net s) = Some c" "window c < MAX_LINK_WINDOW"
    and "task_head (pro s) = []" "task_pending (pro s) = 0"
  shows "ask es now l (ttl @ CRLF @ jrp_text j) s =
    Some (pro_execute_task (jess_exec es) PRO (reply_task l ttl h j) (s\<lparr>net := noted now l (net s)\<rparr>))"
proof -
  note tl = plain_command_props [OF assms(1)] and tx = jrp_text_size [OF assms(2)]
  let ?data = "ttl @ CRLF @ jrp_text j"
  have cs: "cstr ?data = ?data" using tl(2) tx(4) by (intro cstr_id) (auto simp: CRLF_def CR_def LF_def NUL_def)
  have len: "length ?data \<le> MAX_REQ_SIZE" using tl(6) tx(2) by (simp add: MAX_REQ_SIZE_def limit_defs)
  have hd: "rt_analyze_req_head ?data = Some (ttl, None, jrp_text j)" using tl tx by (intro request_head)
  let ?s = "s\<lparr>net := noted now l (net s)\<rparr>"
  have "pro_receive_data l ttl None (Some (jrp_text j)) ?s =
      (0, ?s\<lparr>pro := (pro s)\<lparr>task_head := [reply_task l ttl h j], task_pending := 1\<rparr>\<rparr>)"
    using assms(5,6) allocate_command [OF assms(1,2)]
    by (simp add: pro_receive_data_def Let_def reply_task_def thread_of_def set_thread_def MAX_PENDING_TASK_def)
  moreover have "jnet_link_context_get l ((net s)\<lparr>qps := qps (net s) + 1\<rparr>) = Some c"
    using assms(3) by (simp add: jnet_link_context_get_def)
  ultimately have "jnet_tcp_callback now (RECEIVEDATA l ?data) s =
      ?s\<lparr>pro := (pro s)\<lparr>task_head := [reply_task l ttl h j], task_pending := 1\<rparr>\<rparr>"
    using assms(4) cs len hd tl(3) tx(1)
    by (simp add: jnet_tcp_callback_def jnet_on_receive_data_def Let_def on_net_def noted_def)
  moreover have "?s\<lparr>pro := (pro s)\<lparr>task_head := [], task_pending := 0\<rparr>\<rparr> = ?s"
    using assms(5,6) by (cases s; cases "pro s") simp
  ultimately show ?thesis
    by (simp add: ask_def pro_rotate_one_def thread_of_def set_thread_def Let_def)
qed


section \<open>A write and then a read\<close>

lemma rt_search_fsv [simp]: "rt_search j (s\<lparr>fsv := f\<rparr>) = rt_search j s"
proof -
  have "rt_search_loop dv sgs t (s\<lparr>fsv := f\<rparr>) = rt_search_loop dv sgs t s" for dv sgs t
    by (induction dv sgs t s rule: rt_search_loop.induct) (auto intro!: bind_option_cong split: option.splits JSL.splits)
  then show ?thesis by (simp add: rt_search_def)
qed


lemma status_distinct [simp]: "JESS_OK \<noteq> []" "[] \<noteq> JESS_OK" "JESS_FATAL \<noteq> JESS_OK" "JESS_OK \<noteq> JESS_FATAL"
  by (simp_all add: JESS_OK_def JESS_FATAL_def CRLF_def CR_def)

lemma override_archive_fsv: "override_archive e a s = Some s' \<Longrightarrow> \<exists>f. s' = s\<lparr>fsv := f\<rparr>"
  by (auto simp: override_archive_def on_cache_def on_fs_def case_prod_unfold Let_def split: bind_splits if_splits)

text \<open>A write that is answered with \<open>ok\<close> went through the store.\<close>

lemma write_answered_ok:
  assumes "jess_exec es variable_write tk j (Some d) = (y, effs)" "texts effs = JESS_OK"
  obtains ret ar cp s' d1 f where "rt_config_update (eatof (es (tick d))) (estale (es (tick d))) j (rts d) = Some (ret, ar, cp, s')"
    "0 \<le> ret" "y = Some d1" "rts d1 = s'\<lparr>fsv := f\<rparr>"
proof -
  let ?e = "es (tick d)" and ?d = "d\<lparr>tick := Suc (tick d)\<rparr>"
  have "pro_variable_write ?e j ?d \<noteq> None" using assms by (auto simp: jess_exec_def handle_def split: option.splits)
  then obtain d1 where w: "pro_variable_write ?e j ?d = Some (d1, effs)" "y = Some d1"
    using assms(1) by (auto simp: jess_exec_def handle_def)
  then obtain ret ar cp s' where u: "rt_config_update (eatof ?e) (estale ?e) j (rts d) = Some (ret, ar, cp, s')"
    using assms(2) by (auto simp: pro_variable_write_def fatal_def split: if_splits bind_splits)
  have "0 \<le> ret" using w(1) u assms(2) by (auto simp: pro_variable_write_def fatal_def Let_def split: if_splits)
  moreover have "\<exists>f. rts d1 = s'\<lparr>fsv := f\<rparr>"
  proof (cases "ret = 0 \<and> strcasecmp ''proc'' (sname (hd (segm j))) \<noteq> 0")
    case True
    then obtain s2 where "(case ar of Some a \<Rightarrow> override_archive ?e a s' | None \<Rightarrow> Some (on_fs fs_append_sync s')) = Some s2" "rts d1 = s2"
      using w(1) u assms(2) by (auto simp: pro_variable_write_def fatal_def Let_def split: if_splits bind_splits)
    then show ?thesis
    proof (cases ar)
      case None
      with \<open>(case ar of Some a \<Rightarrow> _ a | None \<Rightarrow> _) = Some s2\<close> \<open>rts d1 = s2\<close> show ?thesis by (auto simp: on_fs_def)
    next
      case (Some a)
      with \<open>(case ar of Some a \<Rightarrow> _ a | None \<Rightarrow> _) = Some s2\<close> \<open>rts d1 = s2\<close> override_archive_fsv [of ?e a s' s2]
      show ?thesis by simp
    qed
  next
    case False
    then have "rts d1 = s'" using w(1) u assms(2) \<open>0 \<le> ret\<close>
      by (auto simp: pro_variable_write_def fatal_def Let_def split: if_splits)
    then show ?thesis by (intro exI [of _ "fsv s'"]) simp
  qed
  ultimately show ?thesis using that u w(2) by blast
qed

text \<open>The answer of a command with one section is the last packet, and the worker is idle again.\<close>

lemma ask_answer:
  assumes "plain_command ttl h" "canonical j" "jnet_link_context_get l (net s) = Some c" "window c < MAX_LINK_WINDOW" "0 < l"
    and "task_head (pro s) = []" "task_pending (pro s) = 0"
    and "jess_exec es h (reply_task l ttl h j) j (world s) = (y, effs)" "list_all plain_effect effs"
    and "length (texts effs) < 2 ^ 20" "ask es now l (ttl @ CRLF @ jrp_text j) s = Some s'"
  shows "last (wire (net s')) = (l, ttl @ CRLF @ texts effs)" "world s' = y" "task_head (pro s') = []"
    "wins (net s') l = Some (window c)"
proof -
  note tl = plain_command_props [OF assms(1)]
  let ?tk = "reply_task l ttl h j" and ?s = "s\<lparr>net := noted now l (net s)\<rparr>"
  let ?n = "fold published effs (noted now l (net s))"
  have s': "s' = pro_execute_task (jess_exec es) PRO ?tk ?s" using ask_runs [OF assms(1-4,6,7)] assms(11) by simp
  have run: "run_sections (jess_exec es) h ?tk [j] (world ?s) = (y, effs)" using assms(8) by simp
  have size: "length (ttl @ CRLF @ texts effs) < RESP_BUFF_SIZE"
    using tl(6) assms(10) by (simp add: RESP_BUFF_SIZE_def)
  have tk: "task_handler ?tk = Some h" "tlink ?tk = l" "dupopt ?tk = []" "title ?tk = ttl" "jrp_payload ?tk = [j]"
    by (simp_all add: reply_task_def)
  have ans: "net s' = snd (jnet_write_response l (ttl @ CRLF @ texts effs) ?n) \<and> world s' = y \<and>
      pending_fsync s' = pending_fsync ?s \<and> task_head (thread_of PRO s') = task_head (thread_of PRO ?s)"
    using answer_run [of ?tk h "jess_exec es" ?s y effs "ttl @ CRLF @ texts effs" PRO PRO] tl(8,9) run assms(5,9) size tk
    unfolding s' by simp
  have pub: "wins (fold published effs n) = wins n" for n
  proof (induction effs arbitrary: n)
    case (Cons e effs)
    then show ?case by (cases e) simp_all
  qed simp
  have wn: "wins ?n l = Some (window c + 1)" using pub assms(3) by (simp add: wins_noted) (simp add: wins_def)
  then obtain c' where c': "jnet_link_context_get l ?n = Some c'" by (auto simp: wins_def)
  then show "last (wire (net s')) = (l, ttl @ CRLF @ texts effs)" using ans by (simp add: jnet_write_response_def tcp_write_def)
  show "world s' = y" "task_head (pro s') = []" using ans assms(6) by (simp_all add: thread_of_def)
  show "wins (net s') l = Some (window c)" using ans wn by (simp add: wins_write_response)
qed


text \<open>What a write can say.\<close>

lemma write_effects:
  "list_all plain_effect (snd (jess_exec es variable_write tk j (Some d)))"
  "length (texts (snd (jess_exec es variable_write tk j (Some d)))) < 2 ^ 20"
proof -
  have "snd (jess_exec es variable_write tk j (Some d)) \<in>
      {[], [Append JESS_FATAL], [Append JESS_OK], [Append JESS_OK, Publish j]}"
    by (auto simp: jess_exec_def handle_def pro_variable_write_def fatal_def Let_def split: option.splits if_splits bind_splits)
  then show "list_all plain_effect (snd (jess_exec es variable_write tk j (Some d)))"
    "length (texts (snd (jess_exec es variable_write tk j (Some d)))) < 2 ^ 20"
    by (auto simp: JESS_OK_def JESS_FATAL_def)
qed


lemma ask_reaches:
  assumes "jess_reaches es d0 s" "ask es now l data s = Some s'"
  shows "jess_reaches es d0 s'"
proof -
  let ?s = "jnet_tcp_callback now (RECEIVEDATA l data) s"
  have "jess_step (jess_exec es) s ?s" by (rule jess_step.receive)
  moreover have "jess_step (jess_exec es) ?s s'" using assms(2) unfolding ask_def by (rule jess_step.execute)
  ultimately show ?thesis using assms(1) unfolding jess_reaches_def by (meson rtranclp.rtrancl_into_rtrancl)
qed

lemma reached_idle:
  assumes "jess_reaches es d0 s" "task_head (pro s) = []"
  shows "task_pending (pro s) = 0"
  using jess.window_counts [OF assms(1) [unfolded jess_reaches_def], of PRO] assms(2) by (simp add: thread_of_def)

lemma reached_link:
  assumes "jess_reaches es d0 s" "jnet_link_context_get l (net s) = Some c"
  shows "0 < l"
proof -
  have "books INVALID_HTCPLINK s"
    using reachable_inv [OF assms(1) [unfolded jess_reaches_def] jess.handover] by (simp add: jess_inv_def)
  moreover have "wins (net s) l = Some (window c)" using assms(2) by (simp add: wins_def)
  ultimately show ?thesis unfolding books_def by blast
qed

definition read_form :: "JRP \<Rightarrow> JRP" where
  "read_form j = j\<lparr>valuestring := None, dupvalue := ''''\<rparr>"

lemma read_form_props: "canonical j \<Longrightarrow> canonical (read_form j)" "jrp_text (read_form j) = dupkey j"
  by (auto simp: canonical_def wf_jrp_def read_form_def jrp_text_def)


text \<open>
  C1: A client's view of the store, from the socket to the answer: on an idle worker, a client
  sends a packet that writes a value to a key and is answered \<open>ok\<close>; the packet that then reads
  the key is answered with that key and that value, whatever the key names (a new or an old
  field, in a new archive, scope or array item) and whatever the file operations and the JSON
  printer do in between.
\<close>

theorem write_then_read:
  assumes "jess_reaches es d0 s" "task_head (pro s) = []" "jnet_link_context_get l (net s) = Some c" "window c < MAX_LINK_WINDOW"
    and "world s = Some d" "rt_ok (rts d)" "canonical j" "field_key j" "valuestring j = Some v" "v \<noteq> KEYWORD_DELETED"
    and "ask es t1 l (''write'' @ CRLF @ jrp_text j) s = Some s1" "last (wire (net s1)) = (l, ''write'' @ CRLF @ JESS_OK)"
    and "ask es t2 l (''read'' @ CRLF @ dupkey j) s1 = Some s2"
  shows "last (wire (net s2)) = (l, ''read'' @ CRLF @ JESS_OK @ dupkey j @ ''='' @ v @ CRLF)"
proof -
  have l: "0 < l" by (rule reached_link [OF assms(1,3)])
  have wr: "plain_command ''write'' variable_write" and rd: "plain_command ''read'' variable_read"
    by (simp_all add: plain_command_def)
  obtain y effs where x: "jess_exec es variable_write (reply_task l ''write'' variable_write j) j (world s) = (y, effs)" by fastforce
  have pl: "list_all plain_effect effs" "length (texts effs) < 2 ^ 20"
    using write_effects [of es "reply_task l ''write'' variable_write j" j d] x assms(5) by auto
  note w = ask_answer [OF wr assms(7,3,4) l assms(2) reached_idle [OF assms(1,2)] x pl assms(11)]
  have "texts effs = JESS_OK" using w(1) assms(12) by simp
  then obtain ret ar cp s' d1 f where u: "rt_config_update (eatof (es (tick d))) (estale (es (tick d))) j (rts d) = Some (ret, ar, cp, s')"
    "0 \<le> ret" "y = Some d1" "rts d1 = s'\<lparr>fsv := f\<rparr>"
    using write_answered_ok x assms(5) by metis
  have "rt_search (read_form j) s' = rt_search (j\<lparr>dupvalue := ''''\<rparr>) s'" by (simp add: read_form_def rt_search_def)
  then have found: "rt_search (read_form j) (rts d1) = Some (Some v)"
    using update_reads [OF assms(6,8-10) u(1,2), of "''''"] u(4) by simp
  obtain c1 where c1: "jnet_link_context_get l (net s1) = Some c1" "window c1 = window c"
    using w(4) by (auto simp: wins_def)
  let ?es = "[Append JESS_OK, Append (dupkey j @ ''='' @ v @ CRLF)]"
  have "jess_exec es variable_read (reply_task l ''read'' variable_read (read_form j)) (read_form j) (world s1) =
      (Some (d1\<lparr>tick := Suc (tick d1)\<rparr>), ?es)"
    using w(2) u(3) found by (simp add: jess_exec_def handle_def pro_vairable_read_def has_value_def) (simp add: read_form_def)
  moreover have "length (dupkey j) < 1929" "length v < 256" using assms(7,9) by (auto simp: canonical_def wf_jrp_def limit_defs)
  then have "length (texts ?es) < 2 ^ 20" by (simp add: JESS_OK_def)
  ultimately have "last (wire (net s2)) = (l, ''read'' @ CRLF @ texts ?es)"
    using ask_answer(1) [OF rd read_form_props(1) [OF assms(7)] c1(1) _ l w(3) reached_idle [OF ask_reaches [OF assms(1,11)] w(3)]]
      c1(2) assms(4,13) read_form_props(2) [of j] by simp
  then show ?thesis by simp
qed


definition io_daemon :: "int daemon" where
  "io_daemon = changed_daemon\<lparr>rts := sample_rt\<rparr>"

definition full_disk :: io where
  "full_disk = \<lparr>io_path = Snapshot, io_open = (\<lambda>_. True), io_write = (\<lambda>_. 0), io_flush = True, io_rename = (\<lambda>_. True),
     io_read = 0, io_short = small_layout, io_malloc = True\<rparr>"

definition calm :: "nat \<Rightarrow> int env" where
  "calm n = (circumstances full_disk n)\<lparr>eatof := atoi\<rparr>"

definition connected :: "int daemon option server" where
  "connected = jnet_tcp_callback 1 (ACCEPTED 7) (initial_server (Some io_daemon))"

lemma connected_facts:
  "jess_reaches calm io_daemon connected" "task_head (pro connected) = []" "world connected = Some io_daemon"
  "jnet_link_context_get 7 (net connected) = Some \<lparr>clink = 7, subcribes = [], last_access = 1, window = 0\<rparr>"
proof -
  have "jess_step (jess_exec calm) (initial_server (Some io_daemon)) connected"
    unfolding connected_def by (rule jess_step.accept) (simp_all add: initial_server_def idle_thread_def pending_tasks_def)
  then show "jess_reaches calm io_daemon connected" unfolding jess_reaches_def by (rule r_into_rtranclp)
qed (simp_all add: connected_def jnet_tcp_callback_def on_net_def jnet_on_accepted_def initial_server_def idle_thread_def
    jnet_link_context_get_def)

lemma baud_write: "map_option snd (pro_variable_write (calm 0) baud_jrp (io_daemon\<lparr>tick := 1\<rparr>)) = Some [Append JESS_OK, Publish baud_jrp]"
  by code_simp

theorem write_then_read_witness:
  "\<exists>s1 s2. ask calm 2 7 (''write'' @ CRLF @ jrp_text baud_jrp) connected = Some s1 \<and>
     ask calm 3 7 (''read'' @ CRLF @ dupkey baud_jrp) s1 = Some s2 \<and>
     last (wire (net s2)) = (7, ''read'' @ CRLF @ JESS_OK @ dupkey baud_jrp @ ''='' @ ''9600'' @ CRLF)"
proof -
  have wr: "plain_command ''write'' variable_write" and rd: "plain_command ''read'' variable_read"
    by (simp_all add: plain_command_def)
  have j: "canonical baud_jrp" "field_key baud_jrp" "valuestring baud_jrp = Some ''9600''" "''9600'' \<noteq> KEYWORD_DELETED"
    by code_simp+
  have w: "window \<lparr>clink = 7, subcribes = [], last_access = 1, window = 0\<rparr> < MAX_LINK_WINDOW" by (simp add: MAX_LINK_WINDOW_def)
  have ok: "rt_ok (rts io_daemon)" using sample_rt_ok by (simp add: io_daemon_def)
  note idle = reached_idle [OF connected_facts(1,2)]
  obtain s1 where s1: "ask calm 2 7 (''write'' @ CRLF @ jrp_text baud_jrp) connected = Some s1"
    using ask_runs [OF wr j(1) connected_facts(4) w connected_facts(2) idle] by blast
  obtain y where x: "jess_exec calm variable_write (reply_task 7 ''write'' variable_write baud_jrp) baud_jrp (world connected) =
      (y, [Append JESS_OK, Publish baud_jrp])"
    using baud_write unfolding connected_facts(3) by (auto simp: jess_exec_def handle_def io_daemon_def changed_daemon_def)
  note a = ask_answer [OF wr j(1) connected_facts(4) w _ connected_facts(2) idle x _ _ s1]
  have wire: "last (wire (net s1)) = (7, ''write'' @ CRLF @ JESS_OK)" "task_head (pro s1) = []"
    "wins (net s1) 7 = Some 0" using a by (simp_all add: JESS_OK_def)
  then obtain c1 where c1: "jnet_link_context_get 7 (net s1) = Some c1" "window c1 < MAX_LINK_WINDOW"
    by (auto simp: wins_def MAX_LINK_WINDOW_def)
  obtain s2 where s2: "ask calm 3 7 (''read'' @ CRLF @ dupkey baud_jrp) s1 = Some s2"
    using ask_runs [OF rd read_form_props(1) [OF j(1)] c1 wire(2) reached_idle [OF ask_reaches [OF connected_facts(1) s1] wire(2)]]
    unfolding read_form_props(2) by blast
  from write_then_read [OF connected_facts(1,2,4) w connected_facts(3) ok j s1 wire(1) s2] s1 s2 show ?thesis by blast
qed


text \<open>Two sections and an option: one packet.\<close>

definition two_reads :: task where
  "two_reads = (reply_task 7 ''read'' variable_read io_jrp)\<lparr>jrp_payload := [io_jrp, io_jrp], dupopt := ''seq=1''\<rparr>"

theorem answer_is_composed_witness:
  "wire (net (pro_execute_task (jess_exec calm) PRO two_reads connected)) =
     [(7, ''read'' @ CRLF @ (''seq=1'' @ CRLF @ CRLF) @ ''ok'' @ CRLF @ ''IO=jessfs/io/'' @ CRLF @ ''ok'' @ CRLF @ ''IO=jessfs/io/'' @ CRLF)]"
proof -
  let ?es = "[Append JESS_OK, Append (''IO=jessfs/io/'' @ CRLF)]"
  have s: "rt_search io_jrp sample_rt = Some (Some ''jessfs/io/'')" "has_value io_jrp = False" "dupkey io_jrp = ''IO''" by code_simp+
  have one: "jess_exec calm variable_read two_reads io_jrp (Some (io_daemon\<lparr>tick := n\<rparr>)) = (Some (io_daemon\<lparr>tick := Suc n\<rparr>), ?es)" for n
    using s by (simp add: jess_exec_def handle_def pro_vairable_read_def io_daemon_def)
  have t0: "io_daemon\<lparr>tick := 0\<rparr> = io_daemon" by (simp add: io_daemon_def changed_daemon_def)
  have tk: "task_handler two_reads = Some variable_read" "tlink two_reads = 7" "title two_reads = ''read''" "dupopt two_reads = ''seq=1''"
    "jrp_payload two_reads = [io_jrp, io_jrp]" by (simp_all add: two_reads_def reply_task_def)
  have run: "run_sections (jess_exec calm) variable_read two_reads [io_jrp, io_jrp] (world connected) = (Some (io_daemon\<lparr>tick := 2\<rparr>), ?es @ ?es)"
    using one [of 0] one [of 1] t0 connected_facts(3) by (simp add: numeral_2_eq_2)
  have "net (pro_execute_task (jess_exec calm) PRO two_reads connected) =
      snd (jnet_write_response 7 (''read'' @ CRLF @ (''seq=1'' @ CRLF @ CRLF) @ texts (?es @ ?es)) (fold published (?es @ ?es) (net connected)))"
    using answer_is_composed [of two_reads variable_read "jess_exec calm" connected "Some (io_daemon\<lparr>tick := 2\<rparr>)" "?es @ ?es"
        "''read'' @ CRLF @ (''seq=1'' @ CRLF @ CRLF) @ texts (?es @ ?es)" PRO PRO] tk run
    by (simp add: RESP_BUFF_SIZE_def JESS_OK_def)
  then show ?thesis using connected_facts(4)
    by (simp add: jnet_write_response_def tcp_write_def upd_client_def JESS_OK_def)
      (simp add: connected_def jnet_tcp_callback_def on_net_def jnet_on_accepted_def initial_server_def)
qed

end
