(* ===== verification/Jsontext.thy ===== *)
theory Jsontext
  imports Cjson
begin

text \<open>
  The text form of documents: the parser and the printer of \<^verbatim>\<open>ldr/cJSON.c\<close>. A document is a
  value of type \<open>json\<close>; the items the parser allocates form a tree that nobody else points to, so
  the parser yields the tree and \<open>cJSON_Parse\<close> places it in the memory.

  The parse buffer is what is left of it, from the current offset to the terminating byte included;
  \<open>can_read\<close> and \<open>can_access_at_index\<close> are tests on its length. Failure is \<open>None\<close>, the position
  of the error is not kept. The number conversions of the C library are the fields of a record.
\<close>

section \<open>Documents\<close>

datatype 'd json =
    JNull | JFalse | JTrue | JNum 'd | JStr string | JRaw string | JArr "'d json list" | JObj "(string \<times> 'd json) list"

text \<open>
  The C library on numbers: \<open>strtod\<close> with the number of characters it read, whether a number is
  finite, the conversions \<open>%1.15g\<close> and \<open>%1.17g\<close>, and whether \<open>sscanf\<close> reads a number equal to the
  given one from a text.
\<close>

record 'd conv =
  strtod :: "string \<Rightarrow> 'd \<times> nat"
  isfinite :: "'d \<Rightarrow> bool"
  g15 :: "'d \<Rightarrow> string"
  g17 :: "'d \<Rightarrow> string"
  recovers :: "string \<Rightarrow> 'd \<Rightarrow> bool"

definition QUOTE :: char where "QUOTE = CHR 0x22"
definition BACKSLASH :: char where "BACKSLASH = CHR 0x5C"
definition TAB :: char where "TAB = CHR 0x09"

definition CJSON_NESTING_LIMIT :: nat where "CJSON_NESTING_LIMIT = 1000"

section \<open>The parser\<close>

definition is_blank :: "char \<Rightarrow> bool" where
  "is_blank c \<longleftrightarrow> of_char c \<le> (32 :: nat)"

text \<open>At the end of the buffer the offset goes back to the terminating byte.\<close>

definition buffer_skip_whitespace :: "string \<Rightarrow> string" where
  "buffer_skip_whitespace b = (case dropWhile is_blank b of [] \<Rightarrow> [NUL] | b' \<Rightarrow> b')"

definition skip_utf8_bom :: "string \<Rightarrow> string" where
  "skip_utf8_bom b = (if 4 < length b \<and> take 3 b = [CHR 0xEF, CHR 0xBB, CHR 0xBF] then drop 3 b else b)"

definition number_char :: "char \<Rightarrow> bool" where
  "number_char c \<longleftrightarrow> isdigit c \<or> c \<in> set ''+-eE.''"

definition parse_number :: "'d conv \<Rightarrow> string \<Rightarrow> ('d json \<times> string) option" where
  "parse_number F b =
     (let (number, n) = strtod F (take 63 (takeWhile number_char b))
      in if n = 0 then None else Some (JNum number, drop n b))"

text \<open>
  Code units and code points are integers: they stay below \<open>2 ^ 21\<close>, so the unsigned arithmetic of
  the code never wraps.
\<close>

definition hex_digit :: "char \<Rightarrow> int option" where
  "hex_digit ch =
     (let c = of_char ch :: int in
      if 48 \<le> c \<and> c \<le> 57 then Some (c - 48)
      else if 65 \<le> c \<and> c \<le> 70 then Some (10 + c - 65)
      else if 97 \<le> c \<and> c \<le> 102 then Some (10 + c - 97)
      else None)"

text \<open>A digit that is not hexadecimal makes the whole number zero.\<close>

fun hex_loop :: "int \<Rightarrow> string \<Rightarrow> int" where
  "hex_loop h [] = h"
| "hex_loop h (c # cs) =
     (case hex_digit c of
        None \<Rightarrow> 0
      | Some v \<Rightarrow> (let h' = h + v in hex_loop (if cs = [] then h' else push_bit 4 h') cs))"

definition parse_hex4 :: "string \<Rightarrow> int" where
  "parse_hex4 input = hex_loop 0 (take 4 input)"

text \<open>The bytes of a code point: the last six bits go to the last byte, and so on.\<close>

fun utf8_tail :: "nat \<Rightarrow> int \<Rightarrow> string \<Rightarrow> int \<times> string" where
  "utf8_tail 0 cp out = (cp, out)"
| "utf8_tail (Suc k) cp out = utf8_tail k (drop_bit 6 cp) (char_of ((cp OR 0x80) AND 0xBF) # out)"

definition utf8_encode :: "int \<Rightarrow> string option" where
  "utf8_encode cp =
     (if cp < 0x80 then Some [char_of (cp AND 0x7F)]
      else if cp > 0x10FFFF then None
      else
        (let (k, mark) = (if cp < 0x800 then (1, 0xC0) else if cp < 0x10000 then (2, 0xE0) else (3, 0xF0));
             (cp', out) = utf8_tail k cp []
         in Some (char_of ((cp' OR mark) AND 0xFF) # out)))"

text \<open>
  \<open>b\<close> is the text from the backslash to the end of the literal. The result is the length of the
  sequence read and the bytes written.
\<close>

definition utf16_literal_to_utf8 :: "string \<Rightarrow> (nat \<times> string) option" where
  "utf16_literal_to_utf8 b =
     (if length b < 6 then None
      else
        (let first_code = parse_hex4 (drop 2 b) in
         if 0xDC00 \<le> first_code \<and> first_code \<le> 0xDFFF then None
         else if 0xD800 \<le> first_code \<and> first_code \<le> 0xDBFF then
           (let second = drop 6 b in
            if length second < 6 \<or> take 2 second \<noteq> [BACKSLASH, CHR ''u''] then None
            else
              (let second_code = parse_hex4 (drop 2 second) in
               if second_code < 0xDC00 \<or> second_code > 0xDFFF then None
               else map_option (Pair 12)
                 (utf8_encode (0x10000 + (push_bit 10 (first_code AND 0x3FF) OR (second_code AND 0x3FF))))))
         else map_option (Pair 6) (utf8_encode first_code)))"

lemma utf16_consumes: "utf16_literal_to_utf8 b = Some (n, out) \<Longrightarrow> 6 \<le> n \<and> n \<le> length b"
  by (auto simp: utf16_literal_to_utf8_def Let_def split: if_splits)

text \<open>The first loop of \<open>parse_string\<close>: where the closing quote is, and how many escapes there are.\<close>

fun string_end :: "string \<Rightarrow> (nat \<times> nat) option" where
  "string_end [] = None"
| "string_end (c # b) =
     (if c = QUOTE then Some (0, 0)
      else if c = BACKSLASH then
        (case b of [] \<Rightarrow> None | _ # b' \<Rightarrow> map_option (\<lambda>(n, k). (n + 2, Suc k)) (string_end b'))
      else map_option (\<lambda>(n, k). (Suc n, k)) (string_end b))"

definition escaped_char :: "char \<Rightarrow> char option" where
  "escaped_char c =
     (if c = CHR ''b'' then Some (CHR 0x08)
      else if c = CHR ''f'' then Some (CHR 0x0C)
      else if c = CHR ''n'' then Some LF
      else if c = CHR ''r'' then Some CR
      else if c = CHR ''t'' then Some TAB
      else if c = QUOTE \<or> c = BACKSLASH \<or> c = CHR ''/'' then Some c
      else None)"

text \<open>
  The second loop, on the characters before the closing quote. A backslash in the last place reads
  the closing quote as the escaped character and ends the loop.
\<close>

function unescape :: "string \<Rightarrow> string option" where
  "unescape b =
     (case b of
        [] \<Rightarrow> Some []
      | c # r \<Rightarrow>
          if c \<noteq> BACKSLASH then map_option (Cons c) (unescape r)
          else
            (case r of
               [] \<Rightarrow> Some [QUOTE]
             | e # r' \<Rightarrow>
                 if e = CHR ''u'' then
                   (case utf16_literal_to_utf8 b of
                      None \<Rightarrow> None
                    | Some (n, out) \<Rightarrow> map_option (append out) (unescape (drop n b)))
                 else
                   (case escaped_char e of
                      None \<Rightarrow> None
                    | Some x \<Rightarrow> map_option (Cons x) (unescape r'))))"
  by pat_completeness auto
termination
  by (relation "measure length") (auto dest!: utf16_consumes)

declare unescape.simps [simp del]

text \<open>The value is a C string: it ends at the first zero byte written.\<close>

definition parse_string :: "string \<Rightarrow> (string \<times> string) option" where
  "parse_string b =
     (case b of
        [] \<Rightarrow> None
      | c # r \<Rightarrow>
          if c \<noteq> QUOTE then None
          else
            (case string_end r of
               None \<Rightarrow> None
             | Some (n, skipped) \<Rightarrow> map_option (\<lambda>out. (cstr out, drop (Suc n) r)) (unescape (take n r))))"


text \<open>
  The three kinds of values and the two loops. \<open>d\<close> is the depth. The loop over elements starts
  where the code does after its step back and forth: at the first character of the element.
\<close>

definition parse_literal :: "string \<Rightarrow> ('d json \<times> string) option" where
  "parse_literal b =
     (if take 4 b = ''null'' then Some (JNull, drop 4 b)
      else if take 5 b = ''false'' then Some (JFalse, drop 5 b)
      else if take 4 b = ''true'' then Some (JTrue, drop 4 b)
      else None)"

function parse_value :: "'d conv \<Rightarrow> nat \<Rightarrow> string \<Rightarrow> ('d json \<times> string) option"
  and parse_array :: "'d conv \<Rightarrow> nat \<Rightarrow> string \<Rightarrow> ('d json \<times> string) option"
  and parse_elements :: "'d conv \<Rightarrow> nat \<Rightarrow> string \<Rightarrow> ('d json list \<times> string) option"
  and parse_object :: "'d conv \<Rightarrow> nat \<Rightarrow> string \<Rightarrow> ('d json \<times> string) option"
  and parse_members :: "'d conv \<Rightarrow> nat \<Rightarrow> string \<Rightarrow> ((string \<times> 'd json) list \<times> string) option" where
  "parse_value F d b =
     (case parse_literal b of
        Some r \<Rightarrow> Some r
      | None \<Rightarrow>
          (case b of
             [] \<Rightarrow> None
           | c # _ \<Rightarrow>
               if c = QUOTE then map_option (map_prod JStr id) (parse_string b)
               else if c = CHR ''-'' \<or> isdigit c then parse_number F b
               else if c = CHR ''['' then parse_array F d b
               else if c = CHR ''{'' then parse_object F d b
               else None))"
| "parse_array F d b =
     (if d \<ge> CJSON_NESTING_LIMIT then None
      else case b of
        [] \<Rightarrow> None
      | c # r \<Rightarrow>
          if c \<noteq> CHR ''['' then None
          else
            (let r1 = buffer_skip_whitespace r in
             if hd r1 = CHR '']'' then Some (JArr [], tl r1)
             else map_option (map_prod JArr id) (parse_elements F (Suc d) r1)))"
| "parse_elements F d b =
     (case parse_value F d (buffer_skip_whitespace b) of
        None \<Rightarrow> None
      | Some (v, r) \<Rightarrow>
          (let r1 = buffer_skip_whitespace r in
           if hd r1 = CHR '','' then map_option (map_prod (Cons v) id) (parse_elements F d (tl r1))
           else if hd r1 = CHR '']'' then Some ([v], tl r1)
           else None))"
| "parse_object F d b =
     (if d \<ge> CJSON_NESTING_LIMIT then None
      else case b of
        [] \<Rightarrow> None
      | c # r \<Rightarrow>
          if c \<noteq> CHR ''{'' then None
          else
            (let r1 = buffer_skip_whitespace r in
             if hd r1 = CHR ''}'' then Some (JObj [], tl r1)
             else map_option (map_prod JObj id) (parse_members F (Suc d) r1)))"
| "parse_members F d b =
     (case parse_string (buffer_skip_whitespace b) of
        None \<Rightarrow> None
      | Some (name, r) \<Rightarrow>
          (let r1 = buffer_skip_whitespace r in
           if hd r1 \<noteq> CHR '':'' then None
           else
             (case parse_value F d (buffer_skip_whitespace (tl r1)) of
                None \<Rightarrow> None
              | Some (v, r2) \<Rightarrow>
                  (let r3 = buffer_skip_whitespace r2 in
                   if hd r3 = CHR '','' then map_option (map_prod (Cons (name, v)) id) (parse_members F d (tl r3))
                   else if hd r3 = CHR ''}'' then Some ([(name, v)], tl r3)
                   else None))))"
  by pat_completeness auto

text \<open>
  Termination: blanks are free, and a value that is read starts with a character that is not blank
  and leaves less than it got.
\<close>

definition unread :: "string \<Rightarrow> nat" where
  "unread b = length (dropWhile is_blank b)"

lemma unread_le: "unread b \<le> length b"
  by (simp add: unread_def length_dropWhile_le)

lemma skip_not_Nil [simp]: "buffer_skip_whitespace b \<noteq> []"
  by (simp add: buffer_skip_whitespace_def split: list.split)

lemma blank_NUL [simp]: "is_blank NUL"
  by (simp add: is_blank_def NUL_def)

lemma dropWhile_blank_hd: "dropWhile is_blank b = c # r \<Longrightarrow> \<not> is_blank c"
  by (metis hd_dropWhile list.distinct(1) list.sel(1))

lemma unread_skip [simp]: "unread (buffer_skip_whitespace b) = unread b"
  by (auto simp: unread_def buffer_skip_whitespace_def dropWhile_blank_hd split: list.split)

lemma skip_hd: "\<not> is_blank (hd (buffer_skip_whitespace b)) \<Longrightarrow> unread b = Suc (length (tl (buffer_skip_whitespace b)))"
  by (cases "dropWhile is_blank b") (simp_all add: unread_def buffer_skip_whitespace_def)

lemma not_blank [simp]:
  "\<not> is_blank QUOTE" "\<not> is_blank (CHR '','')" "\<not> is_blank (CHR '']'')" "\<not> is_blank (CHR ''}'')" "\<not> is_blank (CHR '':'')"
  "\<not> is_blank (CHR ''['')" "\<not> is_blank (CHR ''{'')" "\<not> is_blank (CHR ''-'')" "isdigit c \<Longrightarrow> \<not> is_blank c"
  by (simp_all add: is_blank_def QUOTE_def isdigit_def)

lemma string_end_less: "string_end b = Some (n, k) \<Longrightarrow> n < length b \<and> b ! n = QUOTE \<and> k + k \<le> n"
  by (induction b arbitrary: n k rule: string_end.induct) (auto split: if_splits list.splits simp: nth_Cons')

lemma parse_string_less: "parse_string b = Some (v, r) \<Longrightarrow> length r < unread b"
  by (auto simp: parse_string_def unread_def split: list.splits if_splits option.splits dest!: string_end_less)

lemma parse_number_less: "\<not> is_blank (hd b) \<Longrightarrow> b \<noteq> [] \<Longrightarrow> parse_number F b = Some (v, r) \<Longrightarrow> length r < unread b"
  by (cases b) (auto simp: parse_number_def unread_def split: prod.splits if_splits)

lemma parse_literal_less: "parse_literal b = Some (v, r) \<Longrightarrow> length r < unread b"
  by (cases b) (auto simp: parse_literal_def unread_def is_blank_def split: if_splits)


lemma skip_tl_less:
  assumes "\<not> is_blank (hd (buffer_skip_whitespace b))"
  shows "length (tl (buffer_skip_whitespace b)) < unread b" "unread (tl (buffer_skip_whitespace b)) < unread b"
  using skip_hd [OF assms] unread_le [of "tl (buffer_skip_whitespace b)"] by (simp_all only: less_Suc_eq_le)

lemma value_less:
  shows "parse_value_parse_array_parse_elements_parse_object_parse_members_dom (Inl (Inl (F, d, b))) \<Longrightarrow>
      parse_value F d b = Some (v, r) \<Longrightarrow> length r < unread b"
  and "parse_value_parse_array_parse_elements_parse_object_parse_members_dom (Inl (Inr (F, d, b))) \<Longrightarrow>
      parse_array F d b = Some (v, r) \<Longrightarrow> length r < unread b"
  and "parse_value_parse_array_parse_elements_parse_object_parse_members_dom (Inr (Inl (F, d, b))) \<Longrightarrow>
      parse_elements F d b = Some (vs, r) \<Longrightarrow> length r < unread b"
  and "parse_value_parse_array_parse_elements_parse_object_parse_members_dom (Inr (Inr (Inl (F, d, b)))) \<Longrightarrow>
      parse_object F d b = Some (v, r) \<Longrightarrow> length r < unread b"
  and "parse_value_parse_array_parse_elements_parse_object_parse_members_dom (Inr (Inr (Inr (F, d, b)))) \<Longrightarrow>
      parse_members F d b = Some (kvs, r) \<Longrightarrow> length r < unread b"
proof (induction arbitrary: v r and v r and vs r and v r and kvs r
    rule: parse_value_parse_array_parse_elements_parse_object_parse_members.pinduct)
  case (1 F d b)
  from 1(4) show ?case
    using 1(2,3) by (auto simp: parse_value.psimps [OF 1(1)] split: option.splits list.splits if_splits
        dest: parse_string_less parse_literal_less parse_number_less [rotated 2])
next
  case (2 F d b)
  obtain r0 where b: "b = CHR ''['' # r0" "\<not> CJSON_NESTING_LIMIT \<le> d"
    using 2(3) by (auto simp: parse_array.psimps [OF 2(1)] split: list.splits if_splits)
  have un: "unread b = Suc (length r0)" "unread r0 \<le> length r0" by (simp_all add: b(1) unread_def length_dropWhile_le)
  show ?case
  proof (cases "hd (buffer_skip_whitespace r0) = CHR '']''")
    case True
    then have "r = tl (buffer_skip_whitespace r0)" using 2(3) unfolding parse_array.psimps [OF 2(1)] by (simp add: b)
    then show ?thesis using skip_hd [of r0] True un by simp
  next
    case False
    then obtain w where "parse_elements F (Suc d) (buffer_skip_whitespace r0) = Some (w, r)"
      using 2(3) unfolding parse_array.psimps [OF 2(1)] by (auto simp: b)
    then show ?thesis using 2(2) [OF b(2) b(1) _ refl False] un by simp
  qed
next
  case (3 F d b)
  obtain v r1 where v: "parse_value F d (buffer_skip_whitespace b) = Some (v, r1)"
    using 3(4) by (auto simp: parse_elements.psimps [OF 3(1)] split: option.splits)
  have less: "unread r1 < unread b" using 3(2) [OF v] unread_le [of r1] by simp
  from 3(4) show ?case
    using 3(3) [OF v refl refl] less skip_tl_less [of r1]
    by (fastforce simp: parse_elements.psimps [OF 3(1)] Let_def v split: if_splits)
next
  case (4 F d b)
  obtain r0 where b: "b = CHR ''{'' # r0" "\<not> CJSON_NESTING_LIMIT \<le> d"
    using 4(3) by (auto simp: parse_object.psimps [OF 4(1)] split: list.splits if_splits)
  have un: "unread b = Suc (length r0)" "unread r0 \<le> length r0" by (simp_all add: b(1) unread_def length_dropWhile_le)
  show ?case
  proof (cases "hd (buffer_skip_whitespace r0) = CHR ''}''")
    case True
    then have "r = tl (buffer_skip_whitespace r0)" using 4(3) unfolding parse_object.psimps [OF 4(1)] by (simp add: b)
    then show ?thesis using skip_hd [of r0] True un by simp
  next
    case False
    then obtain w where "parse_members F (Suc d) (buffer_skip_whitespace r0) = Some (w, r)"
      using 4(3) unfolding parse_object.psimps [OF 4(1)] by (auto simp: b)
    then show ?thesis using 4(2) [OF b(2) b(1) _ refl False] un by simp
  qed
next
  case (5 F d b)
  obtain k r1 where k: "parse_string (buffer_skip_whitespace b) = Some (k, r1)" "hd (buffer_skip_whitespace r1) = CHR '':''"
    using 5(4) by (auto simp: parse_members.psimps [OF 5(1)] Let_def split: option.splits if_splits)
  obtain v r2 where v: "parse_value F d (buffer_skip_whitespace (tl (buffer_skip_whitespace r1))) = Some (v, r2)"
    using 5(4) k by (auto simp: parse_members.psimps [OF 5(1)] Let_def split: option.splits if_splits)
  have "length r1 < unread b" using parse_string_less [OF k(1)] by simp
  moreover have "unread (tl (buffer_skip_whitespace r1)) < unread r1"
    by (rule skip_tl_less) (simp add: k(2))
  moreover have "length r2 < unread (tl (buffer_skip_whitespace r1))" using 5(2) [OF k(1) refl refl _ v] k(2) by simp
  ultimately have less: "unread r2 < unread b" using unread_le [of r1] unread_le [of r2] by simp
  from 5(4) show ?case
    using 5(3) [OF k(1) refl refl _ v refl refl] k(2) less skip_tl_less [of r2]
    by (fastforce simp: parse_members.psimps [OF 5(1)] Let_def k v split: if_splits)
qed

lemma open_less: "unread (buffer_skip_whitespace r) < unread (c # r)" if "\<not> is_blank c"
  using that unread_le [of r] by (simp add: unread_def [of "c # r"])

termination parse_value
proof (relation "measure (\<lambda>x. case x of
      Inl (Inl (F, d, b)) \<Rightarrow> 3 * unread b + 2 | Inl (Inr (F, d, b)) \<Rightarrow> 3 * unread b + 1
    | Inr (Inl (F, d, b)) \<Rightarrow> 3 * unread b + 3 | Inr (Inr (Inl (F, d, b))) \<Rightarrow> 3 * unread b + 1
    | Inr (Inr (Inr (F, d, b))) \<Rightarrow> 3 * unread b + 3)", goal_cases)
  case (4 F d b c r x)
  then show ?case using open_less [of c r] by simp
next
  case (6 F d b x2 v r r1)
  then have "length r < unread b" using value_less(1) [of F d "buffer_skip_whitespace b" v r] by simp
  then show ?case using 6 skip_tl_less(2) [of r] unread_le [of r] by simp
next
  case (7 F d b c r x)
  then show ?case using open_less [of c r] by simp
next
  case (8 F d b x2 k r r1)
  then have "length r < unread b" using parse_string_less [of "buffer_skip_whitespace b" k r] by simp
  then show ?case using 8 skip_tl_less(2) [of r] unread_le [of r] by simp
next
  case (9 F d b x2 k r r1 x2a v r2 r3)
  then have "length r < unread b" using parse_string_less [of "buffer_skip_whitespace b" k r] by simp
  moreover have "length r2 < unread (tl r1)" using 9 value_less(1) [of F d "buffer_skip_whitespace (tl r1)" v r2] by simp
  ultimately show ?case using 9 skip_tl_less(2) [of r] skip_tl_less(2) [of r2] unread_le [of r] unread_le [of r2] by simp
qed simp_all

declare parse_value.simps [simp del] parse_array.simps [simp del] parse_elements.simps [simp del]
  parse_object.simps [simp del] parse_members.simps [simp del]


text \<open>
  \<open>cJSON_ParseWithOpts\<close>: the buffer is the string with its terminating byte; the result is the
  document and the text behind it. \<open>cJSON_Parse\<close> does not ask for the end of the text.
\<close>

definition parse_with_opts :: "'d conv \<Rightarrow> bool \<Rightarrow> string \<Rightarrow> ('d json \<times> string) option" where
  "parse_with_opts F require_null_terminated txt =
     (case parse_value F 0 (buffer_skip_whitespace (skip_utf8_bom (cstr txt @ [NUL]))) of
        None \<Rightarrow> None
      | Some (t, r) \<Rightarrow>
          if require_null_terminated
          then (if hd (buffer_skip_whitespace r) \<noteq> NUL then None else Some (t, buffer_skip_whitespace r))
          else Some (t, r))"

section \<open>Documents in memory\<close>

text \<open>Placing a document in the memory: an item is allocated before the items below it.\<close>

fun store :: "string option \<Rightarrow> 'd json \<Rightarrow> 'd jmem \<Rightarrow> addr \<times> 'd jmem"
  and store_elements :: "'d json list \<Rightarrow> 'd jmem \<Rightarrow> addr list \<times> 'd jmem"
  and store_members :: "(string \<times> 'd json) list \<Rightarrow> 'd jmem \<Rightarrow> addr list \<times> 'd jmem" where
  "store nm t m =
     (let a = jnext m;
          m1 = m\<lparr>jnext := Suc a\<rparr>;
          cell = (\<lambda>v cs m'. (a, jput a \<lparr>jval = v, jstring = nm, jchild = cs\<rparr> m'))
      in case t of
           JNull \<Rightarrow> cell cJSON_NULL [] m1
         | JFalse \<Rightarrow> cell cJSON_False [] m1
         | JTrue \<Rightarrow> cell cJSON_True [] m1
         | JNum d \<Rightarrow> cell (cJSON_Number d) [] m1
         | JStr v \<Rightarrow> cell (cJSON_String v) [] m1
         | JRaw v \<Rightarrow> cell (cJSON_Raw v) [] m1
         | JArr ts \<Rightarrow> (let (cs, m2) = store_elements ts m1 in cell cJSON_Array cs m2)
         | JObj kvs \<Rightarrow> (let (cs, m2) = store_members kvs m1 in cell cJSON_Object cs m2))"
| "store_elements [] m = ([], m)"
| "store_elements (t # ts) m =
     (let (a, m1) = store None t m; (as, m2) = store_elements ts m1 in (a # as, m2))"
| "store_members [] m = ([], m)"
| "store_members (p # kvs) m =
     (let (a, m1) = store (Some (fst p)) (snd p) m; (as, m2) = store_members kvs m1 in (a # as, m2))"

definition cJSON_Parse :: "'d conv \<Rightarrow> string \<Rightarrow> 'd jmem \<Rightarrow> (addr \<times> 'd jmem) option" where
  "cJSON_Parse F txt m = map_option (\<lambda>(t, r). store None t m) (parse_with_opts F False txt)"


section \<open>The printer\<close>

text \<open>
  The print buffer: the text written so far (its length is the offset), the size of the allocation,
  the depth and the two flags. A print that the code refuses is \<open>Refused\<close>; a write past the end of
  the allocation is \<open>Overrun\<close>. Sizes are integers, allocation does not fail.
\<close>

record printbuffer =
  pbuf :: string
  plength :: int
  pdepth :: nat
  pnoalloc :: bool
  pformat :: bool

datatype print_error = Refused | Overrun

definition INT_MAX :: int where "INT_MAX = 2147483647"

definition ensure :: "int \<Rightarrow> printbuffer \<Rightarrow> printbuffer option" where
  "ensure needed p =
     (let offset = int (length (pbuf p)) in
      if plength p > 0 \<and> offset \<ge> plength p then None
      else if needed > INT_MAX then None
      else
        (let needed' = needed + offset + 1 in
         if needed' \<le> plength p then Some p
         else if pnoalloc p then None
         else if needed' > INT_MAX div 2 then (if needed' \<le> INT_MAX then Some (p\<lparr>plength := INT_MAX\<rparr>) else None)
         else Some (p\<lparr>plength := needed' * 2\<rparr>)))"

text \<open>Writing \<open>txt\<close>, with a terminating byte or without, after \<open>ensure\<close> of \<open>needed\<close> bytes.\<close>

definition put :: "int \<Rightarrow> string \<Rightarrow> bool \<Rightarrow> printbuffer \<Rightarrow> print_error + printbuffer" where
  "put needed txt terminated p =
     (case ensure needed p of
        None \<Rightarrow> Inl Refused
      | Some q \<Rightarrow>
          if int (length (pbuf q)) + int (length txt) + (if terminated then 1 else 0) > plength q then Inl Overrun
          else Inr (q\<lparr>pbuf := pbuf q @ txt\<rparr>))"

definition sbind :: "'e + 'a \<Rightarrow> ('a \<Rightarrow> 'e + 'b) \<Rightarrow> 'e + 'b" where
  "sbind r f = (case r of Inl e \<Rightarrow> Inl e | Inr x \<Rightarrow> f x)"

definition print_number :: "'d conv \<Rightarrow> 'd \<Rightarrow> printbuffer \<Rightarrow> print_error + printbuffer" where
  "print_number F d p =
     (let txt = (if \<not> isfinite F d then ''null'' else if recovers F (g15 F d) d then g15 F d else g17 F d)
      in if length txt > 25 then Inl Refused else put (int (length txt) + 1) txt True p)"

definition hex_char :: "int \<Rightarrow> char" where
  "hex_char v = (if v < 10 then char_of (48 + v) else char_of (87 + v))"

definition escape_char :: "char \<Rightarrow> string" where
  "escape_char c =
     (let n = of_char c :: int in
      if n > 31 \<and> c \<noteq> QUOTE \<and> c \<noteq> BACKSLASH then [c]
      else BACKSLASH #
        (if c = BACKSLASH then [BACKSLASH]
         else if c = QUOTE then [QUOTE]
         else if c = CHR 0x08 then ''b''
         else if c = CHR 0x0C then ''f''
         else if c = LF then ''n''
         else if c = CR then ''r''
         else if c = TAB then ''t''
         else [CHR ''u'', CHR ''0'', CHR ''0'', hex_char (n div 16), hex_char (n mod 16)]))"

definition escape_extra :: "char \<Rightarrow> nat" where
  "escape_extra c =
     (if c \<in> {QUOTE, BACKSLASH, CHR 0x08, CHR 0x0C, LF, CR, TAB} then 1 else if of_char c < (32 :: int) then 5 else 0)"

definition print_string_ptr :: "string option \<Rightarrow> printbuffer \<Rightarrow> print_error + printbuffer" where
  "print_string_ptr input p =
     (case input of
        None \<Rightarrow> put 3 [QUOTE, QUOTE] True p
      | Some s \<Rightarrow>
          (let txt = cstr s;
               escape_characters = sum_list (map escape_extra txt);
               output_length = length txt + escape_characters
           in put (int output_length + 3)
                (QUOTE # (if escape_characters = 0 then txt else concat (map escape_char txt)) @ [QUOTE]) True p))"

text \<open>The parts of a member of an object that are not its name or its value.\<close>

definition print_indent :: "printbuffer \<Rightarrow> print_error + printbuffer" where
  "print_indent p = (if pformat p then put (int (pdepth p)) (replicate (pdepth p) TAB) False p else Inr p)"

definition print_colon :: "printbuffer \<Rightarrow> print_error + printbuffer" where
  "print_colon p = (let colon = (if pformat p then [CHR '':'', TAB] else '':'') in put (int (length colon)) colon False p)"

definition print_stop :: "bool \<Rightarrow> printbuffer \<Rightarrow> print_error + printbuffer" where
  "print_stop comma p =
     (let stop = (if comma then '','' else []) @ (if pformat p then [LF] else [])
      in put (int (length stop) + 1) stop True p)"

function print_value :: "'d conv \<Rightarrow> 'd json \<Rightarrow> printbuffer \<Rightarrow> print_error + printbuffer"
  and print_array :: "'d conv \<Rightarrow> 'd json list \<Rightarrow> printbuffer \<Rightarrow> print_error + printbuffer"
  and print_elements :: "'d conv \<Rightarrow> 'd json list \<Rightarrow> printbuffer \<Rightarrow> print_error + printbuffer"
  and print_object :: "'d conv \<Rightarrow> (string \<times> 'd json) list \<Rightarrow> printbuffer \<Rightarrow> print_error + printbuffer"
  and print_members :: "'d conv \<Rightarrow> (string \<times> 'd json) list \<Rightarrow> printbuffer \<Rightarrow> print_error + printbuffer" where
  "print_value F JNull p = put 5 ''null'' True p"
| "print_value F JFalse p = put 6 ''false'' True p"
| "print_value F JTrue p = put 5 ''true'' True p"
| "print_value F (JNum d) p = print_number F d p"
| "print_value F (JRaw v) p = put (int (length (cstr v)) + 1) (cstr v) True p"
| "print_value F (JStr v) p = print_string_ptr (Some v) p"
| "print_value F (JArr ts) p = print_array F ts p"
| "print_value F (JObj kvs) p = print_object F kvs p"
| "print_array F ts p =
     sbind (put 1 ''['' False p) (\<lambda>p.
     sbind (print_elements F ts (p\<lparr>pdepth := pdepth p + 1\<rparr>)) (\<lambda>p.
     sbind (put 2 '']'' True p) (\<lambda>p. Inr (p\<lparr>pdepth := pdepth p - 1\<rparr>))))"
| "print_elements F [] p = Inr p"
| "print_elements F (t # ts) p =
     sbind (print_value F t p) (\<lambda>p.
     if ts = [] then Inr p
     else
       (let sep = (if pformat p then '', '' else '','')
        in sbind (put (int (length sep) + 1) sep True p) (print_elements F ts)))"
| "print_object F kvs p =
     (let start = (if pformat p then [CHR ''{'', LF] else ''{'') in
     sbind (put (int (length start) + 1) start False p) (\<lambda>p.
     sbind (print_members F kvs (p\<lparr>pdepth := pdepth p + 1\<rparr>)) (\<lambda>p.
     sbind (put (if pformat p then int (pdepth p) + 1 else 2)
             ((if pformat p then replicate (pdepth p - 1) TAB else []) @ ''}'') True p) (\<lambda>p.
     Inr (p\<lparr>pdepth := pdepth p - 1\<rparr>)))))"
| "print_members F [] p = Inr p"
| "print_members F ((k, t) # kvs) p =
     sbind (print_indent p) (\<lambda>p.
     sbind (print_string_ptr (Some k) p) (\<lambda>p.
     sbind (print_colon p) (\<lambda>p.
     sbind (print_value F t p) (\<lambda>p.
     sbind (print_stop (kvs \<noteq> []) p) (print_members F kvs)))))"
  by pat_completeness auto
termination
  by (relation "measure (\<lambda>x. case x of
      Inl (Inl (F, t, p)) \<Rightarrow> 2 * size t | Inl (Inr (F, ts, p)) \<Rightarrow> 2 * size_list size ts + 1
    | Inr (Inl (F, ts, p)) \<Rightarrow> 2 * size_list size ts
    | Inr (Inr (Inl (F, kvs, p))) \<Rightarrow> 2 * size_list (size_prod (\<lambda>_. 0) size) kvs + 1
    | Inr (Inr (Inr (F, kvs, p))) \<Rightarrow> 2 * size_list (size_prod (\<lambda>_. 0) size) kvs)") auto

text \<open>\<open>print\<close> starts with a buffer of 256 bytes; the other two entry points get theirs.\<close>

definition print_from :: "'d conv \<Rightarrow> 'd json \<Rightarrow> printbuffer \<Rightarrow> string option" where
  "print_from F t p = (case print_value F t p of Inl e \<Rightarrow> None | Inr q \<Rightarrow> Some (pbuf q))"

definition cjson_print :: "'d conv \<Rightarrow> bool \<Rightarrow> 'd json \<Rightarrow> string option" where
  "cjson_print F fmt t = print_from F t \<lparr>pbuf = [], plength = 256, pdepth = 0, pnoalloc = False, pformat = fmt\<rparr>"

definition cJSON_PrintBuffered :: "'d conv \<Rightarrow> 'd json \<Rightarrow> int \<Rightarrow> bool \<Rightarrow> string option" where
  "cJSON_PrintBuffered F t prebuffer fmt =
     (if prebuffer < 0 then None
      else print_from F t \<lparr>pbuf = [], plength = prebuffer, pdepth = 0, pnoalloc = False, pformat = fmt\<rparr>)"

definition cJSON_PrintPreallocated :: "'d conv \<Rightarrow> 'd json \<Rightarrow> int \<Rightarrow> bool \<Rightarrow> string option" where
  "cJSON_PrintPreallocated F t len fmt =
     (if len < 0 then None
      else print_from F t \<lparr>pbuf = [], plength = len, pdepth = 0, pnoalloc = True, pformat = fmt\<rparr>)"

text \<open>
  Printing from the memory: the items below an address as a document. \<open>None\<close> means that the walk
  meets an invalid item or dead memory. A member without a name prints as one with an empty name.
\<close>

fun item_tree :: "nat \<Rightarrow> 'd jmem \<Rightarrow> addr \<Rightarrow> 'd json option" where
  "item_tree 0 m a = None"
| "item_tree (Suc n) m a =
     (case items m a of
        None \<Rightarrow> None
      | Some it \<Rightarrow>
          (case jval it of
             cJSON_Invalid \<Rightarrow> None
           | cJSON_NULL \<Rightarrow> Some JNull
           | cJSON_False \<Rightarrow> Some JFalse
           | cJSON_True \<Rightarrow> Some JTrue
           | cJSON_Number d \<Rightarrow> Some (JNum d)
           | cJSON_String v \<Rightarrow> Some (JStr v)
           | cJSON_Raw v \<Rightarrow> Some (JRaw v)
           | cJSON_Array \<Rightarrow> map_option JArr (those (map (item_tree n m) (jchild it)))
           | cJSON_Object \<Rightarrow> map_option JObj (those (map (\<lambda>c.
               map_option (Pair (case Option.bind (items m c) jstring of None \<Rightarrow> [] | Some k \<Rightarrow> k)) (item_tree n m c)) (jchild it)))))"

definition cJSON_PrintUnformatted :: "'d conv \<Rightarrow> addr \<Rightarrow> 'd jmem \<Rightarrow> string option" where
  "cJSON_PrintUnformatted F a m = Option.bind (item_tree (jnext m) m a) (cjson_print F False)"

definition cJSON_Print :: "'d conv \<Rightarrow> addr \<Rightarrow> 'd jmem \<Rightarrow> string option" where
  "cJSON_Print F a m = Option.bind (item_tree (jnext m) m a) (cjson_print F True)"


section \<open>What the printer writes\<close>

text \<open>The text of a document at a depth, and whether all its numbers fit the buffer for numbers.\<close>

definition number_text :: "'d conv \<Rightarrow> 'd \<Rightarrow> string" where
  "number_text F d = (if \<not> isfinite F d then ''null'' else if recovers F (g15 F d) d then g15 F d else g17 F d)"

definition quoted :: "string \<Rightarrow> string" where
  "quoted s = QUOTE # concat (map escape_char (cstr s)) @ [QUOTE]"

function render :: "'d conv \<Rightarrow> bool \<Rightarrow> nat \<Rightarrow> 'd json \<Rightarrow> string"
  and render_elements :: "'d conv \<Rightarrow> bool \<Rightarrow> nat \<Rightarrow> 'd json list \<Rightarrow> string"
  and render_members :: "'d conv \<Rightarrow> bool \<Rightarrow> nat \<Rightarrow> (string \<times> 'd json) list \<Rightarrow> string" where
  "render F fmt d JNull = ''null''"
| "render F fmt d JFalse = ''false''"
| "render F fmt d JTrue = ''true''"
| "render F fmt d (JNum x) = number_text F x"
| "render F fmt d (JRaw v) = cstr v"
| "render F fmt d (JStr v) = quoted v"
| "render F fmt d (JArr ts) = ''['' @ render_elements F fmt (d + 1) ts @ '']''"
| "render F fmt d (JObj kvs) =
     (if fmt then [CHR ''{'', LF] else ''{'') @ render_members F fmt (d + 1) kvs @ (if fmt then replicate d TAB else []) @ ''}''"
| "render_elements F fmt d [] = []"
| "render_elements F fmt d (t # ts) =
     render F fmt d t @ (if ts = [] then [] else (if fmt then '', '' else '','') @ render_elements F fmt d ts)"
| "render_members F fmt d [] = []"
| "render_members F fmt d ((k, t) # kvs) =
     (if fmt then replicate d TAB else []) @ quoted k @ (if fmt then [CHR '':'', TAB] else '':'') @ render F fmt d t @
     (if kvs \<noteq> [] then '','' else []) @ (if fmt then [LF] else []) @ render_members F fmt d kvs"
  by pat_completeness auto
termination
  by (relation "measure (\<lambda>x. case x of
      Inl (F, fmt, d, t) \<Rightarrow> size t | Inr (Inl (F, fmt, d, ts)) \<Rightarrow> size_list size ts
    | Inr (Inr (F, fmt, d, kvs)) \<Rightarrow> size_list (size_prod (\<lambda>_. 0) size) kvs)") auto

fun nums_all :: "('d \<Rightarrow> bool) \<Rightarrow> 'd json \<Rightarrow> bool" where
  "nums_all ok (JNum x) \<longleftrightarrow> ok x"
| "nums_all ok (JArr ts) \<longleftrightarrow> list_all (nums_all ok) ts"
| "nums_all ok (JObj kvs) \<longleftrightarrow> list_all (\<lambda>p. nums_all ok (snd p)) kvs"
| "nums_all ok _ \<longleftrightarrow> True"

abbreviation nums_fit :: "'d conv \<Rightarrow> 'd json \<Rightarrow> bool" where
  "nums_fit F \<equiv> nums_all (\<lambda>x. length (number_text F x) \<le> 25)"

text \<open>
  A printing step from the buffer \<open>p\<close>: it never writes past the end, a success appends exactly
  \<open>txt\<close> and ends at depth \<open>d\<close>, and under \<open>B\<close> it succeeds while the text stays below \<open>INT_MAX\<close>.
\<close>

definition room :: "printbuffer \<Rightarrow> bool" where
  "room p \<longleftrightarrow> plength p = 0 \<or> int (length (pbuf p)) < plength p"

definition prints :: "bool \<Rightarrow> printbuffer \<Rightarrow> print_error + printbuffer \<Rightarrow> string \<Rightarrow> nat \<Rightarrow> bool" where
  "prints B p r txt d \<longleftrightarrow>
     (case r of
        Inl e \<Rightarrow> e = Refused \<and> (B \<longrightarrow> pnoalloc p \<or> int (length (pbuf p)) + int (length txt) + 2 > INT_MAX)
      | Inr q \<Rightarrow> room q \<and> pbuf q = pbuf p @ txt \<and> pdepth q = d \<and> pnoalloc q = pnoalloc p \<and> pformat q = pformat p)"

lemma put_prints:
  assumes "room p" "int (length txt) \<le> needed" "needed \<le> int (length txt) + 1"
  shows "prints B p (put needed txt terminated p) txt (pdepth p)"
  using assms by (auto simp: prints_def put_def ensure_def room_def INT_MAX_def Let_def split: option.splits if_splits)

lemma prints_bind:
  assumes "prints B p r t1 d1" "B' \<longrightarrow> B"
    and "\<And>q. room q \<Longrightarrow> pdepth q = d1 \<Longrightarrow> pnoalloc q = pnoalloc p \<Longrightarrow> pformat q = pformat p \<Longrightarrow> prints B' q (f q) t2 d2"
  shows "prints B' p (sbind r f) (t1 @ t2) d2"
proof (cases r)
  case (Inl e)
  then show ?thesis using assms(1,2) by (auto simp: prints_def sbind_def)
next
  case (Inr q)
  then have "room q" "pdepth q = d1" "pnoalloc q = pnoalloc p" "pformat q = pformat p" "pbuf q = pbuf p @ t1"
    using assms(1) by (simp_all add: prints_def)
  moreover from this have "prints B' q (f q) t2 d2" by (intro assms(3))
  ultimately show ?thesis using Inr by (auto simp: prints_def sbind_def split: sum.splits)
qed

lemma prints_ret: "room p \<Longrightarrow> pdepth p = d \<Longrightarrow> prints B p (Inr p) [] d"
  by (simp add: prints_def split: sum.splits)

lemma prints_depth: "prints B (p\<lparr>pdepth := d'\<rparr>) r txt d \<Longrightarrow> prints B p r txt d"
  by (simp add: prints_def split: sum.splits)

lemma room_depth [simp]: "room (p\<lparr>pdepth := d\<rparr>) = room p"
  by (simp add: room_def)

lemma escape_length: "length (escape_char c) = Suc (escape_extra c)"
  by (auto simp: escape_char_def escape_extra_def Let_def QUOTE_def BACKSLASH_def LF_def CR_def TAB_def)

lemma escape_none: "escape_extra c = 0 \<Longrightarrow> escape_char c = [c]"
  using escape_length [of c] by (auto simp: escape_char_def Let_def split: if_splits)

lemma escape_all_none: "sum_list (map escape_extra s) = 0 \<Longrightarrow> concat (map escape_char s) = s"
  by (induction s) (auto simp: escape_none)

lemma quoted_length: "length (quoted s) = length (cstr s) + sum_list (map escape_extra (cstr s)) + 2"
  unfolding quoted_def by (induction "cstr s") (simp_all add: length_concat escape_length comp_def sum_list_Suc)

lemma print_string_prints: "room p \<Longrightarrow> prints B p (print_string_ptr (Some s) p) (quoted s) (pdepth p)"
proof -
  assume "room p"
  have "(if sum_list (map escape_extra (cstr s)) = 0 then cstr s else concat (map escape_char (cstr s))) =
      concat (map escape_char (cstr s))"
    using escape_all_none by auto
  then have "print_string_ptr (Some s) p = put (int (length (cstr s) + sum_list (map escape_extra (cstr s))) + 3) (quoted s) True p"
    by (simp add: print_string_ptr_def Let_def quoted_def)
  then show ?thesis using \<open>room p\<close> by (auto intro!: put_prints simp: quoted_length)
qed

lemma print_number_prints: "room p \<Longrightarrow> prints (length (number_text F x) \<le> 25) p (print_number F x p) (number_text F x) (pdepth p)"
  using put_prints [of p "number_text F x" "int (length (number_text F x)) + 1" "length (number_text F x) \<le> 25" True]
  by (simp add: print_number_def number_text_def [symmetric] Let_def) (simp add: prints_def split: sum.splits)

lemma prints_leave: "prints B p r txt d \<Longrightarrow> prints B p (sbind r (\<lambda>p. Inr (p\<lparr>pdepth := pdepth p - 1\<rparr>))) txt (d - 1)"
  by (auto simp: prints_def sbind_def split: sum.splits)

lemma prints_weak: "prints B p r txt d \<Longrightarrow> B' \<longrightarrow> B \<Longrightarrow> prints B' p r txt d"
  by (auto simp: prints_def split: sum.splits)

lemma part_prints:
  assumes "room p" "pdepth p = d" "pformat p = f"
  shows "prints B p (print_indent p) (if f then replicate d TAB else []) d"
    and "prints B p (print_colon p) (if f then [CHR '':'', TAB] else '':'') d"
    and "prints B p (print_stop comma p) ((if comma then '','' else []) @ (if f then [LF] else [])) d"
    and "prints B p (print_string_ptr (Some s) p) (quoted s) d"
proof -
  note put = put_prints [OF assms(1), unfolded assms(2)]
  show "prints B p (print_indent p) (if f then replicate d TAB else []) d"
    using assms by (simp add: print_indent_def put prints_ret)
  show "prints B p (print_colon p) (if f then [CHR '':'', TAB] else '':'') d"
    unfolding print_colon_def Let_def assms(3) by (rule put) simp_all
  show "prints B p (print_stop comma p) ((if comma then '','' else []) @ (if f then [LF] else [])) d"
    unfolding print_stop_def Let_def assms(3) by (rule put) simp_all
  show "prints B p (print_string_ptr (Some s) p) (quoted s) d"
    using print_string_prints [OF assms(1)] assms(2) by simp
qed

lemma value_prints:
  shows "room p \<Longrightarrow> prints (nums_fit F t) p (print_value F t p) (render F (pformat p) (pdepth p) t) (pdepth p)"
  and "room p \<Longrightarrow> prints (nums_fit F (JArr ts)) p (print_array F ts p) (render F (pformat p) (pdepth p) (JArr ts)) (pdepth p)"
  and "room p \<Longrightarrow> prints (list_all (nums_fit F) es) p (print_elements F es p) (render_elements F (pformat p) (pdepth p) es) (pdepth p)"
  and "room p \<Longrightarrow> prints (nums_fit F (JObj kvs)) p (print_object F kvs p) (render F (pformat p) (pdepth p) (JObj kvs)) (pdepth p)"
  and "room p \<Longrightarrow> prints (list_all (\<lambda>kv. nums_fit F (snd kv)) ms) p (print_members F ms p) (render_members F (pformat p) (pdepth p) ms) (pdepth p)"
proof (induction F t p and F ts p and F es p and F kvs p and F ms p
    rule: print_value_print_array_print_elements_print_object_print_members.induct)
  case (9 F ts p)
  show ?case unfolding print_array.simps render.simps
  proof (rule prints_bind [OF put_prints [where B = True]])
    fix q assume q: "room q" "pdepth q = pdepth p" "pnoalloc q = pnoalloc p" "pformat q = pformat p"
    show "prints (nums_fit F (JArr ts)) q (sbind (print_elements F ts (q\<lparr>pdepth := pdepth q + 1\<rparr>))
        (\<lambda>p. sbind (put 2 '']'' True p) (\<lambda>p. Inr (p\<lparr>pdepth := pdepth p - 1\<rparr>))))
        (render_elements F (pformat p) (pdepth p + 1) ts @ '']'') (pdepth p)"
    proof (rule prints_bind)
      show "prints (list_all (nums_fit F) ts) q (print_elements F ts (q\<lparr>pdepth := pdepth q + 1\<rparr>))
          (render_elements F (pformat p) (pdepth p + 1) ts) (pdepth p + 1)"
        using prints_depth [OF 9(1) [of q]] q by simp
    next
      fix r assume "room r" "pdepth r = pdepth p + 1"
      then show "prints (nums_fit F (JArr ts)) r (sbind (put 2 '']'' True r) (\<lambda>p. Inr (p\<lparr>pdepth := pdepth p - 1\<rparr>))) '']'' (pdepth p)"
        using prints_leave [OF put_prints [of r "'']''" 2]] by simp
    qed simp
  qed (use 9(2) in simp_all)
next
  case (11 F t ts p)
  show ?case unfolding print_elements.simps render_elements.simps
  proof (rule prints_bind [OF 11(1) [OF 11(3)]])
    fix q assume q: "room q" "pdepth q = pdepth p" "pnoalloc q = pnoalloc p" "pformat q = pformat p"
    let ?sep = "if pformat q then '', '' else '',''"
    show "prints (list_all (nums_fit F) (t # ts)) q (if ts = [] then Inr q
        else let sep = ?sep in sbind (put (int (length sep) + 1) sep True q) (print_elements F ts))
        (if ts = [] then [] else (if pformat p then '', '' else '','') @ render_elements F (pformat p) (pdepth p) ts) (pdepth p)"
    proof (cases "ts = []")
      case False
      have "prints (list_all (nums_fit F) (t # ts)) q (sbind (put (int (length ?sep) + 1) ?sep True q) (print_elements F ts))
          (?sep @ render_elements F (pformat p) (pdepth p) ts) (pdepth p)"
      proof (rule prints_bind [OF put_prints [where B = True]])
        fix r assume "room r" "pdepth r = pdepth q" "pformat r = pformat q"
        then show "prints (list_all (nums_fit F) (t # ts)) r (print_elements F ts r) (render_elements F (pformat p) (pdepth p) ts) (pdepth p)"
          using prints_weak [OF 11(2) [OF False refl, of r]] q by simp
      qed (use q in simp_all)
      then show ?thesis using False q by (simp add: Let_def)
    qed (use q in \<open>simp add: prints_ret\<close>)
  qed simp
next
  case (12 F kvs p)
  show ?case unfolding print_object.simps render.simps Let_def
  proof (rule prints_bind [OF put_prints [where B = True]])
    fix q assume q: "room q" "pdepth q = pdepth p" "pnoalloc q = pnoalloc p" "pformat q = pformat p"
    let ?close = "(if pformat p then replicate (pdepth p) TAB else []) @ ''}''"
    show "prints (nums_fit F (JObj kvs)) q (sbind (print_members F kvs (q\<lparr>pdepth := pdepth q + 1\<rparr>))
        (\<lambda>p. sbind (put (if pformat p then int (pdepth p) + 1 else 2)
             ((if pformat p then replicate (pdepth p - 1) TAB else []) @ ''}'') True p) (\<lambda>p. Inr (p\<lparr>pdepth := pdepth p - 1\<rparr>))))
        (render_members F (pformat p) (pdepth p + 1) kvs @ ?close) (pdepth p)"
    proof (rule prints_bind)
      show "prints (list_all (\<lambda>kv. nums_fit F (snd kv)) kvs) q (print_members F kvs (q\<lparr>pdepth := pdepth q + 1\<rparr>))
          (render_members F (pformat p) (pdepth p + 1) kvs) (pdepth p + 1)"
        using prints_depth [OF 12(1) [OF refl, of q]] q by simp
    next
      fix r assume r: "room r" "pdepth r = pdepth p + 1" "pformat r = pformat q"
      have "prints (nums_fit F (JObj kvs)) r (put (if pformat p then int (pdepth r) + 1 else 2) ?close True r) ?close (pdepth r)"
        by (rule put_prints) (use r in simp_all)
      from prints_leave [OF this]
      show "prints (nums_fit F (JObj kvs)) r (sbind (put (if pformat r then int (pdepth r) + 1 else 2)
             ((if pformat r then replicate (pdepth r - 1) TAB else []) @ ''}'') True r) (\<lambda>p. Inr (p\<lparr>pdepth := pdepth p - 1\<rparr>)))
          ?close (pdepth p)"
        using r q by (cases "pformat p") simp_all
    qed simp
  qed (use 12(2) in simp_all)
next
  case (14 F k t kvs p)
  let ?B = "list_all (\<lambda>kv. nums_fit F (snd kv)) ((k, t) # kvs)" and ?f = "pformat p" and ?d = "pdepth p"
  have members: "prints ?B q (print_members F kvs q) (render_members F ?f ?d kvs) ?d" if "room q" "pdepth q = ?d" "pformat q = ?f" for q
    using prints_weak [OF 14(2) [of q]] that by simp
  have val: "prints ?B q (print_value F t q) (render F ?f ?d t) ?d" if "room q" "pdepth q = ?d" "pformat q = ?f" for q
    using prints_weak [OF 14(1) [of q]] that by simp
  have "prints ?B p (print_members F ((k, t) # kvs) p) ((if ?f then replicate ?d TAB else []) @ quoted k @
      (if ?f then [CHR '':'', TAB] else '':'') @ render F ?f ?d t @
      ((if kvs \<noteq> [] then '','' else []) @ (if ?f then [LF] else [])) @ render_members F ?f ?d kvs) ?d"
    unfolding print_members.simps
    by (intro prints_bind [where B = ?B and ?d1.0 = ?d] members val part_prints) (use 14(3) in simp_all)
  then show ?case by simp
qed (auto intro: put_prints prints_ret print_string_prints print_number_prints)


lemma cjson_print_text: "cjson_print F fmt t = Some txt \<Longrightarrow> txt = render F fmt 0 t"
  using value_prints(1) [of "\<lparr>pbuf = [], plength = 256, pdepth = 0, pnoalloc = False, pformat = fmt\<rparr>" F t]
  by (auto simp: cjson_print_def print_from_def prints_def room_def split: sum.splits)

lemma cjson_print_total:
  "nums_fit F t \<Longrightarrow> int (length (render F fmt 0 t)) + 2 \<le> INT_MAX \<Longrightarrow> cjson_print F fmt t = Some (render F fmt 0 t)"
  using value_prints(1) [of "\<lparr>pbuf = [], plength = 256, pdepth = 0, pnoalloc = False, pformat = fmt\<rparr>" F t]
  by (auto simp: cjson_print_def print_from_def prints_def room_def split: sum.splits)

section \<open>Reading back what was printed\<close>

lemma hex_back: "0 \<le> v \<Longrightarrow> v < 16 \<Longrightarrow> hex_digit (hex_char v) = Some v"
proof -
  assume "0 \<le> v" "v < 16"
  then have "v = 0 \<or> v = 1 \<or> v = 2 \<or> v = 3 \<or> v = 4 \<or> v = 5 \<or> v = 6 \<or> v = 7 \<or> v = 8 \<or> v = 9 \<or>
      v = 10 \<or> v = 11 \<or> v = 12 \<or> v = 13 \<or> v = 14 \<or> v = 15" by arith
  then show ?thesis by (elim disjE) (simp_all add: hex_char_def hex_digit_def)
qed

lemma hex_plain: "0 \<le> v \<Longrightarrow> v < 16 \<Longrightarrow> hex_char v \<noteq> QUOTE \<and> hex_char v \<noteq> BACKSLASH"
  using hex_back [of v] by (auto simp: hex_digit_def QUOTE_def BACKSLASH_def)

text \<open>The three forms of an escaped character.\<close>

lemma escape_cases:
  obtains (plain) "escape_char c = [c]" "c \<noteq> QUOTE" "c \<noteq> BACKSLASH"
  | (short) e where "escape_char c = [BACKSLASH, e]" "e \<noteq> CHR ''u''" "escaped_char e = Some c"
  | (code) u v where "escape_char c = [BACKSLASH, CHR ''u'', CHR ''0'', CHR ''0'', hex_char u, hex_char v]"
      "0 \<le> u" "u < 2" "0 \<le> v" "v < 16" "of_char c = 16 * u + v"
proof (cases "of_char c > (31 :: int) \<and> c \<noteq> QUOTE \<and> c \<noteq> BACKSLASH")
  case True
  then show ?thesis using plain by (simp add: escape_char_def)
next
  case False
  show ?thesis
  proof (cases "c \<in> {QUOTE, BACKSLASH, CHR 0x08, CHR 0x0C, LF, CR, TAB}")
    case True
    then show ?thesis
      using short by (auto simp: escape_char_def escaped_char_def QUOTE_def BACKSLASH_def LF_def CR_def TAB_def)
  next
    case F: False
    then have "of_char c \<le> (31 :: int)" using False by auto
    moreover have "0 \<le> (of_char c :: int)" by (metis of_nat_0_le_iff of_nat_of_char)
    ultimately show ?thesis
      using code [of "of_char c div 16" "of_char c mod 16"] F False by (auto simp: escape_char_def Let_def)
  qed
qed

lemma hex_code: "0 \<le> u \<Longrightarrow> u < 16 \<Longrightarrow> 0 \<le> v \<Longrightarrow> v < 16 \<Longrightarrow>
    parse_hex4 ([CHR ''0'', CHR ''0'', hex_char u, hex_char v] @ b) = 16 * u + v"
proof -
  assume "0 \<le> u" "u < 16" "0 \<le> v" "v < 16"
  moreover have "hex_digit (CHR ''0'') = Some 0" by (simp add: hex_digit_def)
  ultimately show ?thesis by (simp add: parse_hex4_def hex_back Let_def push_bit_eq_mult)
qed

lemma small_code: "0 \<le> n \<Longrightarrow> n < 32 \<Longrightarrow> n = of_char c \<Longrightarrow> utf8_encode n = Some [c]"
proof -
  assume n: "0 \<le> n" "n < 32" "n = of_char c"
  have "n AND 0x7F = n mod 2 ^ 7" using take_bit_eq_mask [of 7 n] by (simp add: take_bit_eq_mod mask_eq_exp_minus_1)
  also have "\<dots> = n" using n by simp
  finally show ?thesis using n by (simp add: utf8_encode_def)
qed

lemma unescape_escape: "unescape (escape_char c @ b) = map_option (Cons c) (unescape b)"
proof (cases c rule: escape_cases)
  case plain
  then show ?thesis by (simp add: unescape.simps [of "c # b"])
next
  case (short e)
  then show ?thesis by (simp add: unescape.simps [of "BACKSLASH # e # b"])
next
  case (code u v)
  define n :: int where "n = of_char c"
  have n: "parse_hex4 ([CHR ''0'', CHR ''0'', hex_char u, hex_char v] @ b) = n" "0 \<le> n" "n < 32"
    using hex_code [of u v b] code by (simp_all add: n_def)
  then have "utf8_encode n = Some [c]" by (intro small_code) (simp_all add: n_def)
  then have "utf16_literal_to_utf8 (escape_char c @ b) = Some (6, [c])"
    using n by (simp add: code(1) utf16_literal_to_utf8_def Let_def)
  then show ?thesis using code(1) by (subst unescape.simps) (cases "unescape b"; simp)
qed

lemma string_end_escape:
  "map_option fst (string_end (escape_char c @ b)) = map_option ((+) (length (escape_char c))) (map_option fst (string_end b))"
proof (cases c rule: escape_cases)
  case (code u v)
  then show ?thesis using hex_plain [of u] hex_plain [of v]
    by (cases "string_end b") (auto simp: BACKSLASH_def QUOTE_def)
qed (cases "string_end b"; auto simp: BACKSLASH_def QUOTE_def)+

lemma unescape_all: "unescape (concat (map escape_char s)) = Some s"
  by (induction s) (simp_all add: unescape_escape unescape.simps [of "[]"])

lemma string_end_all: "map_option fst (string_end (concat (map escape_char s) @ QUOTE # r)) = Some (length (concat (map escape_char s)))"
  by (induction s) (simp_all add: string_end_escape del: length_concat)

lemma parse_quoted: "parse_string (quoted s @ r) = Some (cstr s, r)"
proof -
  let ?e = "concat (map escape_char (cstr s))"
  obtain k where "string_end (?e @ QUOTE # r) = Some (length ?e, k)" using string_end_all [of "cstr s" r] by auto
  then show ?thesis by (simp add: quoted_def parse_string_def unescape_all del: length_concat)
qed


text \<open>
  A document that survives: no raw items, no zero bytes in names and texts, numbers that satisfy
  \<open>ok\<close>, and nested less than the limit when it stands at depth \<open>d\<close>.
\<close>

fun printable :: "('d \<Rightarrow> bool) \<Rightarrow> nat \<Rightarrow> 'd json \<Rightarrow> bool" where
  "printable ok d (JNum x) \<longleftrightarrow> ok x"
| "printable ok d (JStr v) \<longleftrightarrow> NUL \<notin> set v"
| "printable ok d (JRaw v) \<longleftrightarrow> False"
| "printable ok d (JArr ts) \<longleftrightarrow> d < CJSON_NESTING_LIMIT \<and> list_all (printable ok (Suc d)) ts"
| "printable ok d (JObj kvs) \<longleftrightarrow> d < CJSON_NESTING_LIMIT \<and>
     list_all (\<lambda>p. NUL \<notin> set (fst p) \<and> printable ok (Suc d) (snd p)) kvs"
| "printable ok d _ \<longleftrightarrow> True"

text \<open>
  What the C library documents of its conversions for a finite number: the text printed starts
  with a digit or a minus sign, has the characters of a number, fits the buffer, and \<open>strtod\<close>
  reads all of it as the same number.
\<close>

definition exact_number :: "'d conv \<Rightarrow> 'd \<Rightarrow> bool" where
  "exact_number F x \<longleftrightarrow>
     (let txt = number_text F x in
      txt \<noteq> [] \<and> (hd txt = CHR ''-'' \<or> isdigit (hd txt)) \<and> list_all number_char txt \<and> length txt \<le> 25 \<and>
      strtod F txt = (x, length txt))"

lemma skip_plain: "\<not> is_blank c \<Longrightarrow> buffer_skip_whitespace (c # b) = c # b"
  by (simp add: buffer_skip_whitespace_def)

lemma skip_blank: "is_blank c \<Longrightarrow> buffer_skip_whitespace (c # b) = buffer_skip_whitespace b"
  by (simp add: buffer_skip_whitespace_def)

lemma blanks [simp]: "is_blank TAB" "is_blank LF" "is_blank (CHR '' '')"
  by (simp_all add: is_blank_def TAB_def LF_def)

lemma skip_tabs: "buffer_skip_whitespace (replicate n TAB @ b) = buffer_skip_whitespace b"
  by (induction n) (simp_all add: skip_blank)

lemma skip_skip [simp]: "buffer_skip_whitespace (buffer_skip_whitespace b) = buffer_skip_whitespace b"
  by (auto simp: buffer_skip_whitespace_def dropWhile_blank_hd split: list.split)

lemmas skips = skip_plain skip_blank skip_tabs

lemma elements_skip: "parse_elements F d (buffer_skip_whitespace b) = parse_elements F d b"
  by (simp add: parse_elements.simps [of F d "buffer_skip_whitespace b"] parse_elements.simps [of F d b])

lemma members_skip: "parse_members F d (buffer_skip_whitespace b) = parse_members F d b"
  by (simp add: parse_members.simps [of F d "buffer_skip_whitespace b"] parse_members.simps [of F d b])

text \<open>The first character of a printed document.\<close>

definition starter :: "char \<Rightarrow> bool" where
  "starter c \<longleftrightarrow> c \<in> {CHR ''n'', CHR ''t'', CHR ''f'', QUOTE, CHR ''['', CHR ''{'', CHR ''-''} \<or> isdigit c"

lemma starter_plain: "starter c \<Longrightarrow> \<not> is_blank c" "starter c \<Longrightarrow> c \<noteq> CHR '']''" "starter c \<Longrightarrow> c \<noteq> CHR ''}''"
  by (auto simp: starter_def is_blank_def isdigit_def QUOTE_def)

lemma render_starts: "printable (exact_number F) d t \<Longrightarrow> \<exists>c b. render F fmt d' t = c # b \<and> starter c"
  by (cases t) (auto simp: starter_def quoted_def exact_number_def Let_def neq_Nil_conv)

lemma literal_none: "c \<notin> {CHR ''n'', CHR ''t'', CHR ''f''} \<Longrightarrow> parse_literal (c # b) = None"
  by (simp add: parse_literal_def)

lemma number_reads:
  fixes F :: "'d conv"
  assumes "exact_number F x" "r \<noteq> []" "\<not> number_char (hd r)"
  shows "parse_value F d (number_text F x @ r) = Some (JNum x, r)"
proof -
  let ?t = "number_text F x"
  have t: "?t \<noteq> []" "hd ?t = CHR ''-'' \<or> isdigit (hd ?t)" "list_all number_char ?t" "length ?t \<le> 25" "strtod F ?t = (x, length ?t)"
    using assms(1) by (simp_all add: exact_number_def Let_def)
  obtain c b where c: "?t = c # b" using t(1) by (cases ?t) auto
  have "takeWhile number_char (?t @ r) = ?t"
    using t(3) assms(2,3) by (cases r) (simp_all add: takeWhile_append list_all_iff)
  then have "parse_number F (?t @ r) = Some (JNum x, r)" using t by (simp add: parse_number_def)
  moreover have "c \<notin> {CHR ''n'', CHR ''t'', CHR ''f'', QUOTE}" using t(2) c by (auto simp: isdigit_def QUOTE_def)
  then have "parse_literal (?t @ r) = (None :: ('d json \<times> string) option)" "c \<noteq> QUOTE" using literal_none [of c "b @ r"] c by simp_all
  ultimately show ?thesis using c t(2) by (auto simp: parse_value.simps)
qed

text \<open>What may follow a value, so that a number ends.\<close>

definition delimited :: "string \<Rightarrow> bool" where
  "delimited r \<longleftrightarrow> r \<noteq> [] \<and> \<not> number_char (hd r)"

lemma delimited_simps [simp]:
  "delimited (CHR '','' # r)" "delimited (CHR '']'' # r)" "delimited (CHR ''}'' # r)" "delimited (LF # r)" "delimited (NUL # r)"
  by (simp_all add: delimited_def number_char_def isdigit_def LF_def NUL_def)

definition reads_back :: "'d conv \<Rightarrow> bool \<Rightarrow> nat \<Rightarrow> 'd json \<Rightarrow> bool" where
  "reads_back F fmt d t \<longleftrightarrow> (\<exists>c b. render F fmt d t = c # b \<and> starter c) \<and>
     (\<forall>r. delimited r \<longrightarrow> parse_value F d (render F fmt d t @ r) = Some (t, r))"

lemma reads_back_skip: "reads_back F fmt d t \<Longrightarrow> buffer_skip_whitespace (render F fmt d t @ r) = render F fmt d t @ r"
  by (auto simp: reads_back_def skip_plain starter_plain)

lemma elements_read_back:
  assumes "\<forall>t\<in>set ts. reads_back F fmt d t" "ts \<noteq> []"
  shows "parse_elements F d (render_elements F fmt d ts @ CHR '']'' # r) = Some (ts, r)"
  using assms
proof (induction ts)
  case (Cons t ts)
  let ?sep = "if fmt then '', '' else '',''"
  let ?rest = "(if ts = [] then [] else ?sep @ render_elements F fmt d ts) @ CHR '']'' # r"
  have t: "reads_back F fmt d t" using Cons.prems by simp
  have "delimited ?rest" by simp
  then have v: "parse_value F d (buffer_skip_whitespace (render F fmt d t @ ?rest)) = Some (t, ?rest)"
    using t unfolding reads_back_skip [OF t] by (simp add: reads_back_def)
  have IH: "parse_elements F d (render_elements F fmt d ts @ CHR '']'' # r) = Some (ts, r)" if "ts \<noteq> []"
    using Cons that by simp
  have sp: "parse_elements F d (CHR '' '' # b) = parse_elements F d b" for b
    using elements_skip [of F d "CHR '' '' # b"] elements_skip [of F d b] by (simp add: skip_blank)
  have "parse_elements F d (render F fmt d t @ ?rest) = Some (t # ts, r)"
    unfolding parse_elements.simps [of F d "render F fmt d t @ ?rest"] v option.case prod.case Let_def
    using IH by (auto simp: skip_plain sp)
  then show ?case by simp
qed simp

lemma members_read_back:
  assumes "\<forall>p\<in>set kvs. NUL \<notin> set (fst p) \<and> reads_back F fmt d (snd p)" "kvs \<noteq> []"
  shows "parse_members F d (render_members F fmt d kvs @ (if fmt then replicate n TAB else []) @ CHR ''}'' # r) = Some (kvs, r)"
  using assms
proof (induction kvs)
  case (Cons p kvs)
  obtain k t where p: "p = (k, t)" by (cases p)
  have t: "NUL \<notin> set k" "reads_back F fmt d t" using Cons.prems by (simp_all add: p)
  let ?close = "(if fmt then replicate n TAB else []) @ CHR ''}'' # r"
  let ?after = "(if kvs \<noteq> [] then '','' else []) @ (if fmt then [LF] else []) @ render_members F fmt d kvs @ ?close"
  let ?val = "(if fmt then [CHR '':'', TAB] else '':'') @ render F fmt d t @ ?after"
  let ?all = "(if fmt then replicate d TAB else []) @ quoted k @ ?val"
  have "buffer_skip_whitespace ?all = quoted k @ ?val" by (simp add: quoted_def skips)
  then have key: "parse_string (buffer_skip_whitespace ?all) = Some (k, ?val)" using parse_quoted [of k ?val] t(1) by simp
  have sv: "buffer_skip_whitespace ?val = ?val" by (simp add: skip_plain)
  have dl: "delimited ?after" by (cases kvs) simp_all
  have "buffer_skip_whitespace (tl ?val) = buffer_skip_whitespace (render F fmt d t @ ?after)" by (simp add: skip_blank)
  also have "\<dots> = render F fmt d t @ ?after" by (rule reads_back_skip [OF t(2)])
  finally have "buffer_skip_whitespace (tl ?val) = render F fmt d t @ ?after" .
  then have v: "parse_value F d (buffer_skip_whitespace (tl ?val)) = Some (t, ?after)"
    using t(2) dl by (simp add: reads_back_def)
  have lf: "parse_members F d (LF # b) = parse_members F d b" for b
    using members_skip [of F d "LF # b"] members_skip [of F d b] by (simp add: skip_blank)
  have IH: "parse_members F d (render_members F fmt d kvs @ ?close) = Some (kvs, r)" if "kvs \<noteq> []" using Cons that by simp
  have "parse_members F d ?all = Some ((k, t) # kvs, r)"
    unfolding parse_members.simps [of F d ?all] key option.case prod.case Let_def sv v
    using IH by (auto simp: skips lf)
  then show ?case by (simp add: p)
qed simp

lemma string_reads: "NUL \<notin> set v \<Longrightarrow> parse_value F d (quoted v @ r) = Some (JStr v, r)"
proof -
  assume "NUL \<notin> set v"
  then have "parse_string (quoted v @ r) = Some (v, r)" using parse_quoted [of v r] by simp
  moreover have "parse_literal (quoted v @ r) = (None :: ('a json \<times> string) option)"
    by (simp add: quoted_def literal_none QUOTE_def)
  ultimately show "parse_value F d (quoted v @ r) = (Some (JStr v, r) :: ('a json \<times> string) option)"
    by (simp add: parse_value.simps quoted_def)
qed

lemma array_reads_back:
  assumes "d < CJSON_NESTING_LIMIT" "\<forall>t\<in>set ts. reads_back F fmt (Suc d) t"
  shows "reads_back F fmt d (JArr ts)"
proof -
  have "parse_array F d (CHR ''['' # render_elements F fmt (Suc d) ts @ CHR '']'' # r) = Some (JArr ts, r)" for r
  proof (cases ts)
    case Nil
    then show ?thesis using assms(1) by (simp add: parse_array.simps skip_plain)
  next
    case (Cons t us)
    have t: "reads_back F fmt (Suc d) t" using assms(2) Cons by simp
    then obtain c b where c: "render F fmt (Suc d) t = c # b" "starter c" by (auto simp: reads_back_def)
    have "parse_elements F (Suc d) (render_elements F fmt (Suc d) ts @ CHR '']'' # r) = Some (ts, r)"
      by (rule elements_read_back) (use assms(2) Cons in simp_all)
    then show ?thesis using assms(1) c starter_plain(1,2) [OF c(2)] by (simp add: Cons parse_array.simps skip_plain)
  qed
  then show ?thesis by (simp add: reads_back_def starter_def parse_value.simps literal_none QUOTE_def isdigit_def)
qed

lemma object_reads_back:
  assumes "d < CJSON_NESTING_LIMIT" "\<forall>p\<in>set kvs. NUL \<notin> set (fst p) \<and> reads_back F fmt (Suc d) (snd p)"
  shows "reads_back F fmt d (JObj kvs)"
proof -
  let ?open = "if fmt then [LF] else []" and ?close = "if fmt then replicate d TAB else []"
  have "parse_object F d (CHR ''{'' # ?open @ render_members F fmt (Suc d) kvs @ ?close @ CHR ''}'' # r) = Some (JObj kvs, r)" for r
  proof (cases kvs)
    case Nil
    then show ?thesis using assms(1) by (simp add: parse_object.simps skips)
  next
    case (Cons p us)
    obtain k t where p: "p = (k, t)" by (cases p)
    let ?body = "render_members F fmt (Suc d) kvs @ ?close @ CHR ''}'' # r"
    have m: "parse_members F (Suc d) ?body = Some (kvs, r)"
      by (rule members_read_back) (use assms(2) Cons in simp_all)
    have sk: "buffer_skip_whitespace (?open @ ?body) = buffer_skip_whitespace ?body" by (simp add: skip_blank)
    have "hd (buffer_skip_whitespace ?body) = QUOTE" by (simp add: Cons p quoted_def skips)
    then have "hd (buffer_skip_whitespace (?open @ ?body)) \<noteq> CHR ''}''" unfolding sk by (simp add: QUOTE_def)
    then show ?thesis
      using assms(1) m members_skip [of F "Suc d" ?body] sk by (simp add: parse_object.simps [of F d "CHR ''{'' # _"] Let_def)
  qed
  then show ?thesis
    by (cases fmt) (simp_all add: reads_back_def starter_def parse_value.simps literal_none QUOTE_def isdigit_def)
qed

lemma values_read_back: "printable (exact_number F) d t \<Longrightarrow> reads_back F fmt d t"
proof (induction t arbitrary: d)
  case (JNum x)
  then show ?case using render_starts [of F d "JNum x" fmt d] by (simp add: reads_back_def delimited_def number_reads)
next
  case (JStr v)
  then show ?case using render_starts [of F d "JStr v" fmt d] by (simp add: reads_back_def string_reads)
next
  case (JArr ts)
  then show ?case by (intro array_reads_back) (auto simp: list_all_iff)
next
  case (JObj kvs)
  have "reads_back F fmt (Suc d) (snd p)" if "p \<in> set kvs" for p
    using JObj that by (cases p) (fastforce simp: list_all_iff)
  then show ?case using JObj.prems by (intro object_reads_back) (auto simp: list_all_iff)
qed (simp_all add: reads_back_def starter_def parse_value.simps parse_literal_def)


lemma escape_no_NUL: "c \<noteq> NUL \<Longrightarrow> NUL \<notin> set (escape_char c)"
proof (cases c rule: escape_cases)
  case (code u v)
  moreover have "hex_digit NUL = None" by (simp add: hex_digit_def NUL_def)
  ultimately have "hex_char u \<noteq> NUL" "hex_char v \<noteq> NUL" using hex_back [of u] hex_back [of v] by auto
  then show ?thesis using code(1) by (auto simp: BACKSLASH_def NUL_def)
next
  case (short e)
  then show ?thesis by (auto simp: escaped_char_def BACKSLASH_def QUOTE_def NUL_def split: if_splits)
qed auto

lemma quoted_no_NUL: "NUL \<notin> set (quoted s)"
  using escape_no_NUL by (auto simp: quoted_def QUOTE_def NUL_def cstr_def dest!: set_takeWhileD)

lemma render_no_NUL:
  shows "printable (exact_number F) n t \<Longrightarrow> NUL \<notin> set (render F fmt d t)"
  and "list_all (printable (exact_number F) n) ts \<Longrightarrow> NUL \<notin> set (render_elements F fmt d ts)"
  and "list_all (\<lambda>p. NUL \<notin> set (fst p) \<and> printable (exact_number F) n (snd p)) kvs \<Longrightarrow> NUL \<notin> set (render_members F fmt d kvs)"
proof (induction F fmt d t and F fmt d ts and F fmt d kvs arbitrary: n and n and n rule: render_render_elements_render_members.induct)
  case (4 F fmt d x)
  then show ?case by (auto simp: exact_number_def Let_def list_all_iff number_char_def isdigit_def NUL_def)
next
  case (7 F fmt d ts)
  then show ?case by (auto simp: NUL_def)
next
  case (8 F fmt d kvs)
  then show ?case by (auto simp: NUL_def LF_def TAB_def split: if_splits)
next
  case (10 F fmt d t ts)
  then show ?case by (auto simp: NUL_def split: if_splits)
next
  case (12 F fmt d k t kvs)
  then show ?case using quoted_no_NUL [of k] by (auto simp: NUL_def LF_def TAB_def split: if_splits)
qed (simp_all add: NUL_def [symmetric] quoted_no_NUL, simp_all add: NUL_def)

lemma printable_fits: "printable (exact_number F) d t \<Longrightarrow> nums_fit F t"
proof (induction t arbitrary: d)
  case (JObj kvs)
  have "nums_fit F (snd p)" if "p \<in> set kvs" for p
    using JObj that by (cases p) (fastforce simp: list_all_iff)
  then show ?case by (simp add: list_all_iff)
qed (auto simp: exact_number_def Let_def list_all_iff)

lemma starter_no_bom: "starter c \<Longrightarrow> c \<noteq> CHR 0xEF"
  by (auto simp: starter_def isdigit_def QUOTE_def)

lemma parse_rendered:
  assumes "printable (exact_number F) 0 t"
  shows "parse_with_opts F strict (render F fmt 0 t) = Some (t, [NUL])"
proof -
  let ?b = "render F fmt 0 t @ [NUL]"
  have r: "reads_back F fmt 0 t" using values_read_back [OF assms] .
  obtain c b where c: "render F fmt 0 t = c # b" "starter c" using r by (auto simp: reads_back_def)
  have "skip_utf8_bom ?b = ?b" using starter_no_bom [OF c(2)] by (simp add: skip_utf8_bom_def c(1))
  moreover have "buffer_skip_whitespace ?b = ?b" by (rule reads_back_skip [OF r])
  moreover have "parse_value F 0 ?b = Some (t, [NUL])" using r by (simp add: reads_back_def)
  moreover have "cstr (render F fmt 0 t) = render F fmt 0 t" using render_no_NUL(1) [OF assms] by simp
  moreover have "buffer_skip_whitespace [NUL] = [NUL]" by (simp add: buffer_skip_whitespace_def)
  ultimately show ?thesis by (simp add: parse_with_opts_def)
qed


section \<open>What the parser allocates and accepts\<close>

text \<open>
  The escapes the first loop of \<open>parse_string\<close> counts in a literal. The two loops can fall out of
  step behind an escape \<open>\u\<close> with wrong digits, but the counts differ by little.
\<close>

fun escapes :: "string \<Rightarrow> nat" where
  "escapes [] = 0"
| "escapes (c # b) = (if c = BACKSLASH then Suc (escapes (tl b)) else escapes b)"

lemma escapes_step: "escapes b \<le> escapes (c # b) \<and> escapes (c # b) \<le> Suc (escapes b)"
  by (induction b arbitrary: c rule: length_induct) (case_tac xs; auto)

lemma escapes_drop: "escapes b \<le> escapes (drop n b) + n"
proof (induction n arbitrary: b)
  case (Suc n)
  then show ?case
  proof (cases b)
    case (Cons c r)
    then show ?thesis using Suc.IH [of r] escapes_step [of r c] by simp
  qed simp
qed simp

lemma string_end_escapes: "string_end b = Some (n, k) \<Longrightarrow> n \<le> length b \<and> escapes (take n b) = k"
  by (induction b arbitrary: n k rule: string_end.induct) (auto split: if_splits list.splits)

lemma escapes_le: "escapes b \<le> length b"
  by (induction b rule: escapes.induct) (auto simp: le_diff_conv)

lemma hex_loop_zero: "\<exists>c\<in>set cs. hex_digit c = None \<Longrightarrow> hex_loop h cs = 0"
  by (induction cs arbitrary: h) (auto simp: Let_def split: option.splits)

lemma hex_nonzero: "parse_hex4 b \<noteq> 0 \<Longrightarrow> \<forall>c\<in>set (take 4 b). c \<noteq> BACKSLASH"
proof -
  assume "parse_hex4 b \<noteq> 0"
  moreover have "hex_digit BACKSLASH = None" by (simp add: hex_digit_def BACKSLASH_def)
  ultimately show ?thesis using hex_loop_zero [of "take 4 b" 0] by (auto simp: parse_hex4_def)
qed

lemma hex_loop_less: "0 \<le> h \<Longrightarrow> cs \<noteq> [] \<Longrightarrow> hex_loop h cs < (h + 16) * 16 ^ (length cs - 1)"
proof (induction cs arbitrary: h)
  case (Cons c cs)
  show ?case
  proof (cases "hex_digit c")
    case None
    then show ?thesis using Cons.prems by simp
  next
    case (Some v)
    then have v: "0 \<le> v" "v \<le> 15" by (auto simp: hex_digit_def Let_def split: if_splits)
    show ?thesis
    proof (cases "cs = []")
      case False
      then obtain n where n: "length cs = Suc n" by (cases cs) auto
      have "hex_loop (push_bit 4 (h + v)) cs < (push_bit 4 (h + v) + 16) * 16 ^ n"
        using Cons.IH [of "push_bit 4 (h + v)"] Cons.prems v(1) False n by simp
      also have "\<dots> = (h + v + 1) * 16 ^ Suc n" by (simp add: push_bit_eq_mult algebra_simps)
      also have "\<dots> \<le> (h + 16) * 16 ^ Suc n" using v by (intro mult_right_mono) simp_all
      finally show ?thesis using Some False n by simp
    qed (use Some v in simp)
  qed
qed simp

lemma hex_less: "parse_hex4 b < 0x10000"
proof (cases "take 4 b = []")
  case False
  have "parse_hex4 b < 16 * 16 ^ (length (take 4 b) - 1)" using hex_loop_less [OF order_refl False] by (simp add: parse_hex4_def)
  also have "\<dots> \<le> 16 * 16 ^ 3" by (intro mult_left_mono power_increasing) simp_all
  finally show ?thesis by simp
qed (simp add: parse_hex4_def)

lemma escapes_plain: "\<forall>c\<in>set (take n b). c \<noteq> BACKSLASH \<Longrightarrow> escapes b = escapes (drop n b)"
proof (induction n arbitrary: b)
  case (Suc n)
  then show ?case by (cases b) auto
qed simp

lemma utf8_length: "utf8_encode cp = Some out \<Longrightarrow> length out \<le> 4 \<and> (cp < 0x10000 \<longrightarrow> length out \<le> 3) \<and> (cp = 0 \<longrightarrow> length out = 1)"
  by (auto simp: utf8_encode_def Let_def numeral_eq_Suc split: if_splits)

text \<open>One escape \<open>\u\<close> never needs more room than the first loop counted for it.\<close>

lemma utf16_room:
  assumes "utf16_literal_to_utf8 b = Some (n, out)" "take 2 b = [BACKSLASH, CHR ''u'']"
  shows "length out + escapes b \<le> n + escapes (drop n b)"
proof -
  obtain r where b: "b = BACKSLASH # CHR ''u'' # r" using assms(2) by (cases b; cases "tl b") auto
  have e: "escapes b = Suc (escapes r)" by (simp add: b)
  let ?c = "parse_hex4 r"
  consider (one) "n = 6" "utf8_encode ?c = Some out" "?c < 0x10000"
    | (two) "n = 12" "take 2 (drop 4 r) = [BACKSLASH, CHR ''u'']" "parse_hex4 (drop 6 r) \<noteq> 0" "?c \<noteq> 0" "length out \<le> 4"
    using assms(1) hex_less [of r] unfolding utf16_literal_to_utf8_def Let_def b
    by (fastforce split: if_splits dest: utf8_length)
  then show ?thesis
  proof cases
    case one
    show ?thesis
    proof (cases "?c = 0")
      case True
      then have "length out = 1" using utf8_length [OF one(2)] by simp
      then show ?thesis using e one(1) escapes_drop [of r 4] by (simp add: b)
    next
      case False
      have "escapes r = escapes (drop 4 r)" using escapes_plain hex_nonzero [OF False] by blast
      then show ?thesis using e one(1) utf8_length [OF one(2)] one(3) by (simp add: b)
    qed
  next
    case two
    have "escapes r = escapes (drop 4 r)" using escapes_plain hex_nonzero [OF two(4)] by blast
    moreover have "drop 4 r = BACKSLASH # CHR ''u'' # drop 6 r" using two(2)
      append_take_drop_id [of 2 "drop 4 r"] by simp
    moreover have "escapes (drop 6 r) = escapes (drop 10 r)"
      using escapes_plain [of 4 "drop 6 r"] hex_nonzero [OF two(3)] by simp
    ultimately show ?thesis using e two(1,5) by (simp add: b)
  qed
qed

lemma unescape_room: "unescape b = Some out \<Longrightarrow> length out + escapes b \<le> Suc (length b)"
proof (induction b arbitrary: out rule: unescape.induct)
  case (1 b)
  show ?case
  proof (cases b)
    case Nil
    then show ?thesis using 1(4) by (simp add: unescape.simps)
  next
    case (Cons c r)
    show ?thesis
    proof (cases "c = BACKSLASH")
      case False
      then obtain o' where "unescape r = Some o'" "out = c # o'" using 1(4) unfolding unescape.simps [of b] by (auto simp: Cons)
      then show ?thesis using 1(1) [OF Cons False] Cons False by simp
    next
      case bs: True
      show ?thesis
      proof (cases r)
        case Nil
        then show ?thesis using 1(4) unfolding unescape.simps [of b] by (auto simp: Cons bs)
      next
        case r: (Cons e r')
        show ?thesis
        proof (cases "e = CHR ''u''")
          case True
          then obtain n o1 o2 where o: "utf16_literal_to_utf8 b = Some (n, o1)" "unescape (drop n b) = Some o2" "out = o1 @ o2"
            using 1(4) unfolding unescape.simps [of b] by (auto simp: Cons bs r split: option.splits)
          have "length o1 + escapes b \<le> n + escapes (drop n b)"
            by (rule utf16_room [OF o(1)]) (simp add: Cons bs r True)
          moreover have "length o2 + escapes (drop n b) \<le> Suc (length (drop n b))"
            using 1(2) [OF Cons _ r True o(1) refl o(2)] bs by simp
          ultimately show ?thesis using o(3) utf16_consumes [OF o(1), THEN conjunct2] by simp
        next
          case False
          then obtain x o' where o: "escaped_char e = Some x" "unescape r' = Some o'" "out = x # o'"
            using 1(4) unfolding unescape.simps [of b] by (auto simp: Cons bs r split: option.splits)
          then show ?thesis using 1(3) [OF Cons _ r False o(1) o(2)] Cons bs r by simp
        qed
      qed
    qed
  qed
qed


lemma parse_string_no_NUL: "parse_string b = Some (v, r) \<Longrightarrow> NUL \<notin> set v"
  by (auto simp: parse_string_def split: list.splits if_splits option.splits)

lemma parsed_printable:
  shows "parse_value F d b = Some (t, r) \<Longrightarrow> printable (\<lambda>_. True) d t"
  and "parse_array F d b = Some (t, r) \<Longrightarrow> printable (\<lambda>_. True) d t"
  and "parse_elements F d b = Some (ts, r) \<Longrightarrow> list_all (printable (\<lambda>_. True) d) ts"
  and "parse_object F d b = Some (t, r) \<Longrightarrow> printable (\<lambda>_. True) d t"
  and "parse_members F d b = Some (kvs, r) \<Longrightarrow> list_all (\<lambda>p. NUL \<notin> set (fst p) \<and> printable (\<lambda>_. True) d (snd p)) kvs"
proof (induction F d b and F d b and F d b and F d b and F d b arbitrary: t r and t r and ts r and t r and kvs r
    rule: parse_value_parse_array_parse_elements_parse_object_parse_members.induct)
  case (1 F d b)
  show ?case
  proof (cases "parse_literal b :: ('a json \<times> string) option")
    case None
    from 1(3) show ?thesis unfolding parse_value.simps [of F d b] using 1(1,2) [OF None]
      by (auto simp: None parse_number_def split: list.splits if_splits prod.splits dest: parse_string_no_NUL)
  next
    case (Some p)
    then show ?thesis using 1(3) by (auto simp: parse_value.simps [of F d b] parse_literal_def split: if_splits)
  qed
next
  case (2 F d b)
  from 2(2) show ?case unfolding parse_array.simps [of F d b]
    using 2(1) by (auto simp: Let_def split: list.splits if_splits)
next
  case (3 F d b)
  from 3(3) show ?case unfolding parse_elements.simps [of F d b]
    using 3(1,2) by (auto simp: Let_def split: option.splits prod.splits if_splits)
next
  case (4 F d b)
  from 4(2) show ?case unfolding parse_object.simps [of F d b]
    using 4(1) by (auto simp: Let_def split: list.splits if_splits)
next
  case (5 F d b)
  from 5(3) show ?case unfolding parse_members.simps [of F d b]
    using 5(1,2) by (auto simp: Let_def split: option.splits prod.splits if_splits dest: parse_string_no_NUL)
qed


section \<open>Documents in memory and as values\<close>

text \<open>The cell \<open>j\<close> of a JSON memory, with this name, is the root of a document.\<close>

inductive rep :: "'d jmem \<Rightarrow> string option \<Rightarrow> 'd json \<Rightarrow> addr \<Rightarrow> bool" for m where
  null: "items m j = Some \<lparr>jval = cJSON_NULL, jstring = nm, jchild = cs\<rparr> \<Longrightarrow> rep m nm JNull j"
| false: "items m j = Some \<lparr>jval = cJSON_False, jstring = nm, jchild = cs\<rparr> \<Longrightarrow> rep m nm JFalse j"
| true: "items m j = Some \<lparr>jval = cJSON_True, jstring = nm, jchild = cs\<rparr> \<Longrightarrow> rep m nm JTrue j"
| num: "items m j = Some \<lparr>jval = cJSON_Number d, jstring = nm, jchild = cs\<rparr> \<Longrightarrow> rep m nm (JNum d) j"
| str: "items m j = Some \<lparr>jval = cJSON_String v, jstring = nm, jchild = cs\<rparr> \<Longrightarrow> rep m nm (JStr v) j"
| raw: "items m j = Some \<lparr>jval = cJSON_Raw v, jstring = nm, jchild = cs\<rparr> \<Longrightarrow> rep m nm (JRaw v) j"
| arr: "items m j = Some \<lparr>jval = cJSON_Array, jstring = nm, jchild = cs\<rparr> \<Longrightarrow>
    list_all2 (rep m None) ts cs \<Longrightarrow> rep m nm (JArr ts) j"
| obj: "items m j = Some \<lparr>jval = cJSON_Object, jstring = nm, jchild = cs\<rparr> \<Longrightarrow>
    list_all2 (\<lambda>p c. rep m (Some (fst p)) (snd p) c) kvs cs \<Longrightarrow> rep m nm (JObj kvs) j"

inductive_simps rep_simps [simp]:
  "rep m nm JNull j" "rep m nm JFalse j" "rep m nm JTrue j" "rep m nm (JNum d) j" "rep m nm (JStr v) j" "rep m nm (JRaw v) j"
  "rep m nm (JArr ts) j" "rep m nm (JObj kvs) j"

text \<open>Placing a document leaves the memory below alone, and the document stays while its own cells do.\<close>

definition placed :: "'d jmem \<Rightarrow> 'd jmem \<Rightarrow> ('d jmem \<Rightarrow> bool) \<Rightarrow> bool" where
  "placed m m' P \<longleftrightarrow> jnext m \<le> jnext m' \<and> (\<forall>b<jnext m. items m' b = items m b) \<and>
     (\<forall>M. (\<forall>b. jnext m \<le> b \<longrightarrow> b < jnext m' \<longrightarrow> items M b = items m' b) \<longrightarrow> P M)"

lemma placed_seq:
  assumes "placed m m1 P" "placed m1 m2 Q"
  shows "placed m m2 (\<lambda>M. P M \<and> Q M)"
  using assms unfolding placed_def by (smt (verit) le_trans less_le_trans)

lemma placed_cell:
  fixes m :: "'d jmem"
  assumes "placed (m\<lparr>jnext := Suc (jnext m)\<rparr>) m' Q"
    and "\<And>M. items M (jnext m) = Some it \<Longrightarrow> Q M \<Longrightarrow> P M"
  shows "placed m (jput (jnext m) it m') P"
  unfolding placed_def
proof (intro conjI allI impI)
  fix M :: "'d jmem" assume M: "\<forall>b. jnext m \<le> b \<longrightarrow> b < jnext (jput (jnext m) it m') \<longrightarrow> items M b = items (jput (jnext m) it m') b"
  then have "items M (jnext m) = Some it" using assms(1) by (simp add: placed_def jput_def)
  moreover have "Q M" using assms(1) M unfolding placed_def by (auto simp: jput_def)
  ultimately show "P M" by (rule assms(2))
qed (use assms(1) in \<open>auto simp: placed_def jput_def\<close>)

lemma placed_here: "placed m m (\<lambda>_. True)"
  by (simp add: placed_def)

lemma store_placed:
  shows "store nm t m = (a, m') \<Longrightarrow> a = jnext m \<and> placed m m' (\<lambda>M. rep M nm t a)"
  and "store_elements ts m = (as, m') \<Longrightarrow> placed m m' (\<lambda>M. list_all2 (rep M None) ts as)"
  and "store_members kvs m = (as, m') \<Longrightarrow> placed m m' (\<lambda>M. list_all2 (\<lambda>p c. rep M (Some (fst p)) (snd p) c) kvs as)"
proof (induction nm t m and ts m and kvs m arbitrary: a m' and as m' and as m' rule: store_store_elements_store_members.induct)
  case (1 nm t m)
  show ?case
  proof (cases t)
    case (JArr ts)
    then obtain cs m2 where c: "store_elements ts (m\<lparr>jnext := Suc (jnext m)\<rparr>) = (cs, m2)" by (cases "store_elements ts (m\<lparr>jnext := Suc (jnext m)\<rparr>)")
    have "placed (m\<lparr>jnext := Suc (jnext m)\<rparr>) m2 (\<lambda>M. list_all2 (rep M None) ts cs)" using 1(1) [OF refl refl refl JArr c] .
    from placed_cell [OF this] show ?thesis using 1(3) c by (auto simp: JArr Let_def)
  next
    case (JObj kvs)
    then obtain cs m2 where c: "store_members kvs (m\<lparr>jnext := Suc (jnext m)\<rparr>) = (cs, m2)" by (cases "store_members kvs (m\<lparr>jnext := Suc (jnext m)\<rparr>)")
    have "placed (m\<lparr>jnext := Suc (jnext m)\<rparr>) m2 (\<lambda>M. list_all2 (\<lambda>p c. rep M (Some (fst p)) (snd p) c) kvs cs)"
      using 1(2) [OF refl refl refl JObj c] .
    from placed_cell [OF this] show ?thesis using 1(3) c by (auto simp: JObj Let_def)
  qed (use 1(3) in \<open>auto simp: Let_def intro!: placed_cell [OF placed_here]\<close>)
next
  case (3 t ts m)
  obtain b m1 where b: "store None t m = (b, m1)" by (cases "store None t m")
  obtain bs m2 where bs: "store_elements ts m1 = (bs, m2)" by (cases "store_elements ts m1")
  have "as = b # bs" "m' = m2" using 3(3) b bs by simp_all
  moreover have "placed m m1 (\<lambda>M. rep M None t b)" using 3(1) [OF b] by (rule conjunct2)
  moreover have "placed m1 m2 (\<lambda>M. list_all2 (rep M None) ts bs)" using 3(2) [OF b [symmetric] refl bs] .
  ultimately show ?case using placed_seq by (simp only: list.rel_inject)
next
  case (5 p kvs m)
  obtain b m1 where b: "store (Some (fst p)) (snd p) m = (b, m1)" by (cases "store (Some (fst p)) (snd p) m")
  obtain bs m2 where bs: "store_members kvs m1 = (bs, m2)" by (cases "store_members kvs m1")
  have "as = b # bs" "m' = m2" using 5(3) b bs by simp_all
  moreover have "placed m m1 (\<lambda>M. rep M (Some (fst p)) (snd p) b)" using 5(1) [OF b] by (rule conjunct2)
  moreover have "placed m1 m2 (\<lambda>M. list_all2 (\<lambda>p c. rep M (Some (fst p)) (snd p) c) kvs bs)" using 5(2) [OF b [symmetric] refl bs] .
  ultimately show ?case using placed_seq by (simp only: list.rel_inject)
qed (auto simp: placed_here)

lemma stored_rep: "store nm t m = (a, m') \<Longrightarrow> rep m' nm t a"
  using store_placed(1) [of nm t m a m'] unfolding placed_def by blast

lemma list_all2_same:
  "list_all2 P xs cs \<Longrightarrow> list_all2 Q ys cs \<Longrightarrow> (\<And>x y c. x \<in> set xs \<Longrightarrow> P x c \<Longrightarrow> Q y c \<Longrightarrow> x = y) \<Longrightarrow> xs = ys"
proof (induction xs cs arbitrary: ys rule: list_all2_induct)
  case (Cons x xs c cs)
  then obtain y ys' where ys: "ys = y # ys'" "Q y c" "list_all2 Q ys' cs" by (auto simp: list_all2_Cons2)
  have "x = y" using Cons.prems(2) [of x c y] Cons.hyps(1) ys(2) by simp
  moreover have "xs = ys'" by (rule Cons.IH [OF ys(3)]) (use Cons.prems(2) in auto)
  ultimately show ?case using ys(1) by simp
qed simp

lemma rep_unique: "rep m nm t a \<Longrightarrow> rep m nm' t' a \<Longrightarrow> t = t'"
proof (induction t arbitrary: nm t' a nm')
  case (JArr ts)
  then obtain ts' cs where t': "t' = JArr ts'" "list_all2 (rep m None) ts cs" "list_all2 (rep m None) ts' cs"
    by (cases t') auto
  have "ts = ts'" by (rule list_all2_same [OF t'(2,3)]) (rule JArr.IH)
  then show ?case using t'(1) by simp
next
  case (JObj kvs)
  then obtain kvs' cs where t': "t' = JObj kvs'" "list_all2 (\<lambda>p c. rep m (Some (fst p)) (snd p) c) kvs cs"
      "list_all2 (\<lambda>p c. rep m (Some (fst p)) (snd p) c) kvs' cs"
    by (cases t') auto
  have same: "p = p'" if "p \<in> set kvs" "rep m (Some (fst p)) (snd p) c" "rep m (Some (fst p')) (snd p') c" for p p' c
  proof -
    have "snd p = snd p'" using JObj.IH [of p "snd p"] that by (cases p) auto
    moreover have "fst p = fst p'" using that(2,3) by (auto elim!: rep.cases)
    ultimately show ?thesis by (simp add: prod_eq_iff)
  qed
  have "kvs = kvs'" by (rule list_all2_same [OF t'(2,3) same])
  then show ?case using t'(1) by simp
qed (auto elim: rep.cases)

lemma rep_live: "rep m nm t a \<Longrightarrow> items m a \<noteq> None"
  by (cases t) auto

lemma rep_name: "rep m nm t a \<Longrightarrow> Option.bind (items m a) jstring = nm"
  by (cases t) auto

text \<open>The cells that hold documents no larger than \<open>t\<close>: a document is not below itself.\<close>

definition holding :: "'d jmem \<Rightarrow> 'd json \<Rightarrow> addr set" where
  "holding m t = {b. \<exists>nm u. rep m nm u b \<and> size u \<le> size t}"

lemma holding_less:
  assumes "rep m nm t a" "size u < size t" "finite (holding m t)"
  shows "card (holding m u) < card (holding m t)"
proof (rule psubset_card_mono [OF assms(3)])
  have "a \<in> holding m t" using assms(1) by (auto simp: holding_def)
  moreover have "a \<notin> holding m u" using assms(1,2) rep_unique by (fastforce simp: holding_def)
  moreover have "holding m u \<subseteq> holding m t" using assms(2) by (fastforce simp: holding_def)
  ultimately show "holding m u \<subset> holding m t" by blast
qed

definition jwf :: "'d jmem \<Rightarrow> bool" where
  "jwf m \<longleftrightarrow> (\<forall>b. items m b \<noteq> None \<longrightarrow> b < jnext m)"

lemma holding_finite: "jwf m \<Longrightarrow> finite (holding m t) \<and> card (holding m t) \<le> jnext m"
proof -
  assume "jwf m"
  then have "holding m t \<subseteq> {..<jnext m}" using rep_live by (fastforce simp: holding_def jwf_def)
  then show ?thesis using card_mono [of "{..<jnext m}"] finite_subset by fastforce
qed

lemma those_map: "list_all2 (\<lambda>x y. f y = Some x) xs ys \<Longrightarrow> those (map f ys) = Some xs"
  by (induction rule: list_all2_induct) simp_all

lemma element_size: "t \<in> set ts \<Longrightarrow> size t < size (JArr ts)"
  using size_list_estimation' [of t ts "size t" size] by simp

lemma member_size: "p \<in> set kvs \<Longrightarrow> size (snd p) < size (JObj kvs)"
  using size_list_estimation' [of p kvs "size (snd p)" "size_prod (\<lambda>_. 0) size"] by (cases p) fastforce

lemma item_tree_fuel:
  assumes "jwf m"
  shows "rep m nm t a \<Longrightarrow> card (holding m t) \<le> n \<Longrightarrow> item_tree n m a = Some t"
proof (induction n arbitrary: nm t a)
  case 0
  then have "holding m t = {}" using holding_finite [OF assms] by simp
  then show ?case using 0(1) by (auto simp: holding_def)
next
  case (Suc n)
  have below: "item_tree n m c = Some u" if "rep m nm' u c" "size u < size t" for nm' u c
    using Suc.IH [OF that(1)] Suc.prems(2) holding_less [OF Suc.prems(1) that(2)] holding_finite [OF assms] by fastforce
  show ?case
  proof (cases t)
    case (JArr ts)
    then obtain cs where cs: "items m a = Some \<lparr>jval = cJSON_Array, jstring = nm, jchild = cs\<rparr>" "list_all2 (rep m None) ts cs"
      using Suc.prems(1) by auto
    have "those (map (item_tree n m) cs) = Some ts"
    proof (rule those_map, rule list.rel_mono_strong [OF cs(2)])
      fix u c assume "u \<in> set ts" "rep m None u c"
      then show "item_tree n m c = Some u" using below element_size JArr by blast
    qed
    then show ?thesis using cs(1) JArr by simp
  next
    case (JObj kvs)
    then obtain cs where cs: "items m a = Some \<lparr>jval = cJSON_Object, jstring = nm, jchild = cs\<rparr>"
      "list_all2 (\<lambda>p c. rep m (Some (fst p)) (snd p) c) kvs cs"
      using Suc.prems(1) by auto
    have "those (map (\<lambda>c. map_option (Pair (case Option.bind (items m c) jstring of None \<Rightarrow> [] | Some k \<Rightarrow> k)) (item_tree n m c)) cs) = Some kvs"
    proof (rule those_map, rule list.rel_mono_strong [OF cs(2)])
      fix p c assume p: "p \<in> set kvs" and r: "rep m (Some (fst p)) (snd p) c"
      from p have "item_tree n m c = Some (snd p)" using below [OF r] member_size JObj by blast
      then show "map_option (Pair (case Option.bind (items m c) jstring of None \<Rightarrow> [] | Some k \<Rightarrow> k)) (item_tree n m c) = Some p"
        using rep_name [OF r] by simp
    qed
    then show ?thesis using cs(1) JObj by simp
  qed (use Suc.prems(1) in auto)
qed

lemma item_tree_rep: "jwf m \<Longrightarrow> rep m nm t a \<Longrightarrow> item_tree (jnext m) m a = Some t"
  using item_tree_fuel holding_finite by blast


section \<open>Properties\<close>

text \<open>A C library whose numbers are the integers, for the examples.\<close>

definition int_conv :: "int conv" where
  "int_conv = \<lparr>
     strtod = (\<lambda>s. case s of
        [] \<Rightarrow> (0, 0)
      | c # r \<Rightarrow>
          if c = CHR ''-'' then (- int (digits_val 0 r), if r \<noteq> [] \<and> isdigit (hd r) then Suc (length (takeWhile isdigit r)) else 0)
          else (int (digits_val 0 s), length (takeWhile isdigit s))),
     isfinite = (\<lambda>_. True), g15 = show_int, g17 = show_int, recovers = (\<lambda>s x. s = show_int x)\<rparr>"

definition sample_doc :: "int json" where
  "sample_doc = JObj [(''a'', JArr [JNum 7, JStr [CHR ''x'', QUOTE, LF], JTrue]), (''b'', JObj [])]"

lemma seven: "show_int 7 = ''7''"
  by code_simp

lemma sample_exact: "exact_number int_conv 7"
  by (simp add: exact_number_def number_text_def int_conv_def seven isdigit_def number_char_def)

lemma sample_printable: "printable (exact_number int_conv) 0 sample_doc"
  using sample_exact by (simp add: sample_doc_def CJSON_NESTING_LIMIT_def QUOTE_def LF_def NUL_def)

lemma show_seven: "number_text int_conv 7 = ''7''"
  by (simp add: number_text_def int_conv_def seven)

lemma sample_text: "render int_conv fmt 0 sample_doc = (if fmt then
    [CHR ''{'', LF, TAB, QUOTE, CHR ''a'', QUOTE, CHR '':'', TAB, CHR ''['', CHR ''7'', CHR '','', CHR '' '', QUOTE, CHR ''x'', BACKSLASH, QUOTE,
     BACKSLASH, CHR ''n'', QUOTE, CHR '','', CHR '' '', CHR ''t'', CHR ''r'', CHR ''u'', CHR ''e'', CHR '']'', CHR '','', LF, TAB, QUOTE, CHR ''b'', QUOTE,
     CHR '':'', TAB, CHR ''{'', LF, TAB, CHR ''}'', LF, CHR ''}'']
  else
    [CHR ''{'', QUOTE, CHR ''a'', QUOTE, CHR '':'', CHR ''['', CHR ''7'', CHR '','', QUOTE, CHR ''x'', BACKSLASH, QUOTE,
     BACKSLASH, CHR ''n'', QUOTE, CHR '','', CHR ''t'', CHR ''r'', CHR ''u'', CHR ''e'', CHR '']'', CHR '','', QUOTE, CHR ''b'', QUOTE,
     CHR '':'', CHR ''{'', CHR ''}'', CHR ''}''])"
  by (simp add: sample_doc_def show_seven quoted_def escape_char_def QUOTE_def BACKSLASH_def LF_def TAB_def CR_def NUL_def)

definition printed_from :: "'d conv \<Rightarrow> bool \<Rightarrow> addr \<Rightarrow> 'd jmem \<Rightarrow> string option" where
  "printed_from F fmt a m = (if fmt then cJSON_Print F a m else cJSON_PrintUnformatted F a m)"

lemma printed_from_rep:
  assumes "jwf m" "rep m nm t a" "printable (exact_number F) 0 t" "int (length (render F fmt 0 t)) + 2 \<le> INT_MAX"
  shows "printed_from F fmt a m = Some (render F fmt 0 t)"
  using cjson_print_total [OF printable_fits [OF assms(3)] assms(4)] item_tree_rep [OF assms(1,2)]
  by (cases fmt) (simp_all add: printed_from_def cJSON_Print_def cJSON_PrintUnformatted_def)

lemma parse_stored:
  assumes "parse_with_opts F False txt = Some (t, r)"
  shows "\<exists>j m'. cJSON_Parse F txt m = Some (j, m') \<and> rep m' None t j"
  using assms stored_rep [of None t m] by (cases "store None t m") (simp add: cJSON_Parse_def)

text \<open>
  C5: a document in the memory that a C string can hold everywhere, with exact numbers and nested
  no deeper than the limit, is printed by both printers, and the parser reads the text back as the
  same document, wherever it is placed.
\<close>

theorem json_roundtrip:
  assumes "jwf m" "rep m nm t a" "printable (exact_number F) 0 t" "int (length (render F fmt 0 t)) + 2 \<le> INT_MAX"
  shows "\<exists>txt j m3. (if fmt then cJSON_Print F a m else cJSON_PrintUnformatted F a m) = Some txt \<and>
    cJSON_Parse F txt m2 = Some (j, m3) \<and> rep m3 None t j"
  using printed_from_rep [OF assms] parse_stored [OF parse_rendered [OF assms(3)], of fmt m2]
  by (auto simp: printed_from_def split: if_splits)

definition sample_mem :: "int jmem" where
  "sample_mem = snd (store None sample_doc \<lparr>items = Map.empty, jnext = 0\<rparr>)"

lemma sample_wf: "jwf sample_mem"
  by (auto simp: jwf_def sample_mem_def sample_doc_def Let_def jput_def split: if_splits)

lemma sample_rep: "rep sample_mem None sample_doc 0"
proof -
  have "fst (store None sample_doc \<lparr>items = Map.empty, jnext = 0\<rparr>) = 0" by (simp add: sample_doc_def Let_def)
  then have "store None sample_doc \<lparr>items = Map.empty, jnext = 0\<rparr> = (0, sample_mem)" by (simp add: sample_mem_def prod_eq_iff)
  then show ?thesis by (rule stored_rep)
qed

theorem json_roundtrip_witness:
  "\<exists>txt j m3. cJSON_Print int_conv 0 sample_mem = Some txt \<and> cJSON_Parse int_conv txt sample_mem = Some (j, m3) \<and> rep m3 None sample_doc j"
  using json_roundtrip [OF sample_wf sample_rep sample_printable, of True sample_mem] by (simp add: sample_text INT_MAX_def)


text \<open>
  C31: whatever the document, the size of the buffer the caller gives, the flags and the numbers, the
  printer never writes past the end of its allocation.
\<close>

theorem printer_in_bounds:
  "print_value F t \<lparr>pbuf = [], plength = int n, pdepth = 0, pnoalloc = noalloc, pformat = fmt\<rparr> \<noteq> Inl Overrun"
  using value_prints(1) [of "\<lparr>pbuf = [], plength = int n, pdepth = 0, pnoalloc = noalloc, pformat = fmt\<rparr>" F t]
  by (cases "n = 0") (auto simp: prints_def room_def)

text \<open>
  C37: the value of a string literal with its terminating byte fits what \<open>parse_string\<close> allocates:
  the length with the opening quote, less one for each escape, and one more byte. This holds for
  escapes \<open>\u\<close> with wrong digits too, behind which the two loops of the code are out of step.
\<close>

theorem string_allocation:
  assumes "string_end r = Some (n, skipped)" "unescape (take n r) = Some out"
  shows "length out + 1 \<le> (n + 1 - skipped) + 1"
  using string_end_escapes [OF assms(1)] unescape_room [OF assms(2)] string_end_less [OF assms(1)] by simp

theorem string_allocation_witness:
  "length [NUL, QUOTE] + 1 \<le> (7 + 1 - 2) + 1"
proof (rule string_allocation)
  let ?r = "[BACKSLASH, CHR ''u'', CHR ''1'', CHR ''2'', CHR ''3'', BACKSLASH, BACKSLASH, QUOTE]"
  show "string_end ?r = Some (7, 2)" by (simp add: QUOTE_def BACKSLASH_def)
  have "utf16_literal_to_utf8 [BACKSLASH, CHR ''u'', CHR ''1'', CHR ''2'', CHR ''3'', BACKSLASH, BACKSLASH] = Some (6, [NUL])"
    by code_simp
  then show "unescape (take 7 ?r) = Some [NUL, QUOTE]" by (simp add: unescape.simps)
qed

text \<open>
  C38: what the parser accepts is a document a C string can hold everywhere, without raw items and
  nested no deeper than the limit.
\<close>

theorem parsed_well_typed:
  assumes "parse_with_opts F strict txt = Some (t, r)"
  shows "printable (\<lambda>_. True) 0 t"
  using assms parsed_printable(1) by (fastforce simp: parse_with_opts_def split: option.splits if_splits)

theorem parsed_well_typed_witness: "printable (\<lambda>_. True) 0 sample_doc"
  by (rule parsed_well_typed [OF parse_rendered [OF sample_printable, of True False]])

lemma deep_refused: "CJSON_NESTING_LIMIT \<le> d + k \<Longrightarrow> 0 < k \<Longrightarrow> parse_value F d (replicate (Suc k) (CHR ''['') @ b) = None"
proof (induction k arbitrary: d)
  case (Suc k)
  have open_none: "parse_value F d (CHR ''['' # CHR ''['' # r) = None"
    if "d < CJSON_NESTING_LIMIT \<longrightarrow> parse_value F (Suc d) (CHR ''['' # r) = None" for r d
    using that by (simp add: parse_value.simps [of F d] literal_none QUOTE_def isdigit_def parse_array.simps skip_plain
        parse_elements.simps)
  show ?case
  proof (cases "k = 0")
    case True
    have "parse_value F (Suc d) (CHR ''['' # b) = None" if "d < CJSON_NESTING_LIMIT"
      using that Suc.prems(1) True by (simp add: parse_value.simps literal_none QUOTE_def isdigit_def parse_array.simps)
    then show ?thesis using open_none [of d b] True by simp
  next
    case False
    then show ?thesis using open_none [of d "replicate k (CHR ''['') @ b"] Suc.IH [of "Suc d"] Suc.prems(1) by simp
  qed
qed simp

text \<open>
  a text that opens more arrays than the limit is refused, however it goes on: the recursion of
  the parser is bounded.
\<close>

theorem nesting_refused:
  assumes "CJSON_NESTING_LIMIT < k"
  shows "parse_with_opts F strict (replicate k (CHR ''['') @ b) = None"
proof -
  have cs: "cstr (replicate n (CHR ''['') @ b) = replicate n (CHR ''['') @ cstr b" for n
    by (induction n) (simp_all add: NUL_def)
  obtain j where j: "k = Suc (Suc j)" using assms by (cases k; cases "k - 1") (auto simp: CJSON_NESTING_LIMIT_def)
  let ?b = "replicate k (CHR ''['') @ cstr b @ [NUL]"
  have "cstr (replicate k (CHR ''['') @ b) @ [NUL] = ?b" by (simp add: cs)
  moreover have "buffer_skip_whitespace (skip_utf8_bom ?b) = ?b" by (simp add: j skip_utf8_bom_def skip_plain)
  moreover have "parse_value F 0 ?b = None" using deep_refused [of 0 "Suc j" F "cstr b @ [NUL]"] assms j by simp
  ultimately show ?thesis by (simp add: parse_with_opts_def)
qed

theorem nesting_refused_witness: "parse_with_opts int_conv False (replicate 1001 (CHR ''['') @ ''7'') = None"
  by (rule nesting_refused) (simp add: CJSON_NESTING_LIMIT_def)

end
