(* ===== verification/Document.thy ===== *)
theory Document
  imports Loader Runtime Jsontext
begin

text \<open>
  What the loader builds: the documents as values, the reading of a key in a document, and the
  proof that a key reads the same in the loaded tree and in the document.
\<close>

section \<open>Documents\<close>

text \<open>
  A document the loader can keep as it is: names of scopes are legal and differ, letter case
  aside, from their siblings, and texts fit a node.
\<close>

fun doc_ok :: "'d json \<Rightarrow> bool" where
  "doc_ok (JStr v) \<longleftrightarrow> length v < MAX_VALUE_SIZE"
| "doc_ok (JRaw v) \<longleftrightarrow> length v < MAX_VALUE_SIZE"
| "doc_ok (JArr ts) \<longleftrightarrow> list_all doc_ok ts"
| "doc_ok (JObj kvs) \<longleftrightarrow> distinct (map (fold_key \<circ> fst) kvs) \<and>
     list_all (\<lambda>p. ldr_organize_scope_name (fst p) True = Some (fst p) \<and> doc_ok (snd p)) kvs"
| "doc_ok _ = True"

text \<open>
  Reading a key in a document: the levels of the segments say what is expected at each step. An
  array item of another kind than object, string or number leaves the old value \<open>dv\<close>.
\<close>

definition doc_find :: "string \<Rightarrow> (string \<times> 'd json) list \<Rightarrow> 'd json option" where
  "doc_find name kvs = map_option snd (List.find (\<lambda>p. fold_key (fst p) = fold_key name) kvs)"

definition pick_item :: "int \<Rightarrow> 'a list \<Rightarrow> 'a option" where
  "pick_item idx ts =
     (if ts = [] \<or> idx = JA_SYM_ADD \<or> idx = JA_SYM_ENTIRE then None
      else if idx = JA_SYM_LAST then Some (last ts)
      else if 0 \<le> idx \<and> idx < int (length ts) then Some (ts ! nat idx) else None)"

fun doc_read :: "string \<Rightarrow> ('d \<Rightarrow> string) \<Rightarrow> segment list \<Rightarrow> (string \<times> 'd json) list \<Rightarrow> string option" where
  "doc_read dv fmt [] kvs = Some dv"
| "doc_read dv fmt (sg # rest) kvs =
     (case doc_find (sname sg) kvs of
        None \<Rightarrow> None
      | Some t \<Rightarrow>
          (case t of
             JObj kvs' \<Rightarrow> if sjsl sg \<noteq> JSL_LOGIC_SCOPE \<or> rest = [] then None else doc_read dv fmt rest kvs'
           | JStr v \<Rightarrow> if rest = [] \<and> sjsl sg = JSL_FIELD then Some v else None
           | JRaw v \<Rightarrow> if rest = [] \<and> sjsl sg = JSL_FIELD then Some v else None
           | JNum d \<Rightarrow> if rest = [] \<and> sjsl sg = JSL_FIELD then Some (cut_value (fmt d)) else None
           | JArr ts \<Rightarrow>
               if sjsl sg \<noteq> JSL_ARRAY \<or> ts = [] then None
               else if index sg = JA_SYM_QUERY_SIZE then (if rest = [] then Some (show_int (int (length ts))) else None)
               else
                 (case pick_item (index sg) ts of
                    None \<Rightarrow> None
                  | Some u \<Rightarrow>
                      (case u of
                         JObj kvs' \<Rightarrow> if rest = [] then None else doc_read dv fmt rest kvs'
                       | JStr v \<Rightarrow> if rest = [] then Some v else None
                       | JNum d \<Rightarrow> if rest = [] then Some (cut_value (fmt d)) else None
                       | _ \<Rightarrow> Some dv))
           | _ \<Rightarrow> None))"

declare rt_search_loop.simps(2) [simp del] doc_read.simps(2) [simp del]

section \<open>Nodes that read like a document\<close>

text \<open>Two states agree on a range of node addresses.\<close>

definition agree :: "addr \<Rightarrow> addr \<Rightarrow> 'd rt \<Rightarrow> 'd rt \<Rightarrow> bool" where
  "agree lo hi s s' \<longleftrightarrow> (\<forall>a. lo \<le> a \<longrightarrow> a < hi \<longrightarrow> nmem s' a = nmem s a)"

text \<open>The reading of an array item, and what it should give.\<close>

definition rt_item :: "string \<Rightarrow> segment list \<Rightarrow> addr \<Rightarrow> 'd rt \<Rightarrow> string option option" where
  "rt_item dv rest b s =
     do {
       it \<leftarrow> nmem s b;
       (case njsl it of
          JSL_ARRAY_ITEM \<Rightarrow> if rest = [] then Some None else rt_search_loop dv rest (next_scope it) s
        | JSL_ARRAY_ITEM_AS_FIELD \<Rightarrow> Some (if rest = [] then Some (scope_value it) else None)
        | _ \<Rightarrow> Some (Some dv))
     }"

definition doc_item :: "string \<Rightarrow> ('d \<Rightarrow> string) \<Rightarrow> segment list \<Rightarrow> 'd json \<Rightarrow> string option" where
  "doc_item dv fmt rest u =
     (case u of
        JObj kvs' \<Rightarrow> if rest = [] then None else doc_read dv fmt rest kvs'
      | JStr v \<Rightarrow> if rest = [] then Some v else None
      | JNum d \<Rightarrow> if rest = [] then Some (cut_value (fmt d)) else None
      | _ \<Rightarrow> Some dv)"

text \<open>Below the index \<open>t\<close> everything reads like the members \<open>kvs\<close>, in all states that agree on the range.\<close>

definition level_reads :: "('d \<Rightarrow> string) \<Rightarrow> addr \<Rightarrow> addr \<Rightarrow> 'd rt \<Rightarrow> scope_index avltree \<Rightarrow> (string \<times> 'd json) list \<Rightarrow> bool" where
  "level_reads fmt lo hi s t kvs \<longleftrightarrow>
     (\<forall>S dv sg rest. agree lo hi s S \<longrightarrow> fold_key (sname sg) \<in> set (map (fold_key \<circ> fst) kvs) \<longrightarrow>
        rt_search_loop dv (sg # rest) t S = Some (doc_read dv fmt (sg # rest) kvs))"

definition items_read :: "('d \<Rightarrow> string) \<Rightarrow> addr \<Rightarrow> addr \<Rightarrow> 'd rt \<Rightarrow> addr list \<Rightarrow> 'd json list \<Rightarrow> bool" where
  "items_read fmt lo hi s bs ts \<longleftrightarrow>
     length bs = length ts \<and>
     (\<forall>S dv rest i. agree lo hi s S \<longrightarrow> i < length ts \<longrightarrow> rt_item dv rest (bs ! i) S = Some (doc_item dv fmt rest (ts ! i)))"

lemma agree_refl [simp]: "agree lo hi s s"
  by (simp add: agree_def)

lemma agree_sub: "agree lo hi s S \<Longrightarrow> lo \<le> lo' \<Longrightarrow> hi' \<le> hi \<Longrightarrow> agree lo' hi' s S"
  by (simp add: agree_def)

lemma agree_trans: "agree lo hi s t \<Longrightarrow> agree lo hi t u \<Longrightarrow> agree lo hi s u"
  by (simp add: agree_def)

text \<open>Only the nodes of the range matter.\<close>

lemma level_reads_agree: "level_reads fmt lo hi s t kvs \<Longrightarrow> agree lo hi s s' \<Longrightarrow> level_reads fmt lo hi s' t kvs"
  unfolding level_reads_def by (meson agree_trans)

lemma level_reads_range: "level_reads fmt lo hi s t kvs \<Longrightarrow> lo' \<le> lo \<Longrightarrow> hi \<le> hi' \<Longrightarrow> level_reads fmt lo' hi' s t kvs"
  unfolding level_reads_def by (meson agree_sub)

lemma level_reads_index:
  assumes "level_reads fmt lo hi s t kvs"
    and "\<And>name. fold_key name \<in> set (map (fold_key \<circ> fst) kvs) \<Longrightarrow> scope_search t' name = scope_search t name"
  shows "level_reads fmt lo hi s t' kvs"
proof -
  have eq: "rt_search_loop dv (sg # rest) t' S = rt_search_loop dv (sg # rest) t S"
    if "fold_key (sname sg) \<in> set (map (fold_key \<circ> fst) kvs)" for dv sg rest S
    by (simp only: rt_search_loop.simps assms(2) [OF that])
  show ?thesis using assms(1) unfolding level_reads_def by (intro allI impI) (simp only: eq)
qed

lemma items_read_agree: "items_read fmt lo hi s bs ts \<Longrightarrow> agree lo hi s s' \<Longrightarrow> items_read fmt lo hi s' bs ts"
  unfolding items_read_def by (meson agree_trans)

lemma items_read_range: "items_read fmt lo hi s bs ts \<Longrightarrow> lo' \<le> lo \<Longrightarrow> hi \<le> hi' \<Longrightarrow> items_read fmt lo' hi' s bs ts"
  unfolding items_read_def by (meson agree_sub)

lemma items_read_Cons:
  "items_read fmt lo hi s [b] [u] \<Longrightarrow> items_read fmt lo hi s bs ts \<Longrightarrow> items_read fmt lo hi s (b # bs) (u # ts)"
  unfolding items_read_def by (auto simp: nth_Cons split: nat.splits)


text \<open>A single named node: the body of the search, and of the reading of a document.\<close>

definition rt_node :: "string \<Rightarrow> segment \<Rightarrow> segment list \<Rightarrow> addr \<Rightarrow> 'd rt \<Rightarrow> string option option" where
  "rt_node dv sg rest a s = rt_search_loop dv (sg # rest) (TN ET (sname sg, a) 0 ET) s"

definition doc_node :: "string \<Rightarrow> ('d \<Rightarrow> string) \<Rightarrow> segment \<Rightarrow> segment list \<Rightarrow> 'd json \<Rightarrow> string option" where
  "doc_node dv fmt sg rest t = doc_read dv fmt (sg # rest) [(sname sg, t)]"

lemma search_one [simp]: "scope_search (TN ET (name, a) 0 ET) name = Some a"
  by (simp add: scope_search_def ldr_compare_scope_def)

lemma doc_find_one [simp]: "doc_find name [(name, t)] = Some t"
  by (simp add: doc_find_def)

lemma search_node: "scope_search t (sname sg) = Some a \<Longrightarrow> rt_search_loop dv (sg # rest) t s = rt_node dv sg rest a s"
  unfolding rt_node_def by (simp only: rt_search_loop.simps search_one)

lemma read_node: "doc_find (sname sg) kvs = Some t \<Longrightarrow> doc_read dv fmt (sg # rest) kvs = doc_node dv fmt sg rest t"
  unfolding doc_node_def by (simp only: doc_read.simps doc_find_one)

lemma search_none: "scope_search t (sname sg) = None \<Longrightarrow> rt_search_loop dv (sg # rest) t s = Some None"
  by (simp add: rt_search_loop.simps)

lemma read_none: "doc_find (sname sg) kvs = None \<Longrightarrow> doc_read dv fmt (sg # rest) kvs = None"
  by (simp add: doc_read.simps)

definition node_reads :: "('d \<Rightarrow> string) \<Rightarrow> addr \<Rightarrow> addr \<Rightarrow> 'd rt \<Rightarrow> addr \<Rightarrow> 'd json \<Rightarrow> bool" where
  "node_reads fmt lo hi s a t \<longleftrightarrow> (\<forall>S dv sg rest. agree lo hi s S \<longrightarrow> rt_node dv sg rest a S = Some (doc_node dv fmt sg rest t))"

lemma node_reads_range: "node_reads fmt lo hi s a t \<Longrightarrow> lo' \<le> lo \<Longrightarrow> hi \<le> hi' \<Longrightarrow> node_reads fmt lo' hi' s a t"
  unfolding node_reads_def by (meson agree_sub)

lemma node_reads_agree: "node_reads fmt lo hi s a t \<Longrightarrow> agree lo hi s s' \<Longrightarrow> node_reads fmt lo hi s' a t"
  unfolding node_reads_def by (meson agree_trans)

lemma doc_find_None: "doc_find name kvs = None \<longleftrightarrow> fold_key name \<notin> set (map (fold_key \<circ> fst) kvs)"
  unfolding doc_find_def option.map_disc_iff find_None_iff by force

lemma level_exact:
  assumes "level_reads fmt lo hi s t kvs" "agree lo hi s S" "segs \<noteq> []"
    and "\<And>name. fold_key name \<notin> set (map (fold_key \<circ> fst) kvs) \<Longrightarrow> scope_search t name = None"
  shows "rt_search_loop dv segs t S = Some (doc_read dv fmt segs kvs)"
proof -
  obtain sg rest where segs: "segs = sg # rest" using assms(3) by (cases segs) auto
  show ?thesis
  proof (cases "fold_key (sname sg) \<in> set (map (fold_key \<circ> fst) kvs)")
    case True
    then show ?thesis using assms(1,2) unfolding level_reads_def segs by blast
  next
    case False
    then show ?thesis using assms(4) doc_find_None [of "sname sg" kvs] by (simp add: segs search_none read_none)
  qed
qed

lemma field_reads:
  assumes "nmem s a = Some n" "lo \<le> a" "a < hi" "njsl n = JSL_FIELD" "scope_value n = v"
    and "t = JStr v \<or> t = JRaw v \<or> (\<exists>d. t = JNum d \<and> v = cut_value (fmt d))"
  shows "node_reads fmt lo hi s a t"
proof -
  have "nmem S a = Some n" if "agree lo hi s S" for S using that assms(1-3) by (simp add: agree_def)
  then show ?thesis using assms(4-6)
    by (auto simp: node_reads_def rt_node_def doc_node_def rt_search_loop.simps doc_read.simps)
qed

lemma scope_reads:
  assumes "nmem s a = Some n" "lo \<le> a" "a < hi" "njsl n = JSL_LOGIC_SCOPE" "level_reads fmt lo hi s (next_scope n) kvs"
    and "\<And>name. fold_key name \<notin> set (map (fold_key \<circ> fst) kvs) \<Longrightarrow> scope_search (next_scope n) name = None"
  shows "node_reads fmt lo hi s a (JObj kvs)"
  unfolding node_reads_def
proof (intro allI impI)
  fix S dv sg rest
  assume S: "agree lo hi s S"
  then have "nmem S a = Some n" using assms(1-3) by (simp add: agree_def)
  then show "rt_node dv sg rest a S = Some (doc_node dv fmt sg rest (JObj kvs))"
    using level_exact [OF assms(5) S _ assms(6), of rest dv] assms(4)
    by (simp add: rt_node_def doc_node_def rt_search_loop.simps(2) [of dv sg rest] doc_read.simps(2) [of dv fmt sg rest])
qed

lemma pick_item_nth:
  assumes "ts \<noteq> []" "length bs = length ts"
  shows "pick_item idx ts = None \<longleftrightarrow> pick_item idx bs = None"
    "pick_item idx bs = Some b \<Longrightarrow> \<exists>i<length ts. b = bs ! i \<and> pick_item idx ts = Some (ts ! i)"
proof -
  have ne: "bs \<noteq> []" using assms(1,2) by auto
  then show "pick_item idx ts = None \<longleftrightarrow> pick_item idx bs = None" using assms(1,2) by (auto simp: pick_item_def)
  show "\<exists>i<length ts. b = bs ! i \<and> pick_item idx ts = Some (ts ! i)" if "pick_item idx bs = Some b"
  proof (cases "idx = JA_SYM_LAST")
    case True
    then have "b = bs ! (length ts - 1)" "pick_item idx ts = Some (ts ! (length ts - 1))"
      using that ne assms(1,2) by (simp_all add: pick_item_def last_conv_nth ja_sym_values)
    then show ?thesis using assms(1) by (intro exI [of _ "length ts - 1"]) auto
  next
    case False
    then show ?thesis using that ne assms(1,2) by (intro exI [of _ "nat idx"]) (auto simp: pick_item_def split: if_splits)
  qed
qed


lemma array_reads:
  assumes "nmem s a = Some n" "lo \<le> a" "a < hi" "njsl n = JSL_ARRAY" "arraysize n = int (length ts)"
    and "items_read fmt lo hi s (array n) ts"
  shows "node_reads fmt lo hi s a (JArr ts)"
  unfolding node_reads_def
proof (intro allI impI)
  fix S dv and sg :: segment and rest
  assume S: "agree lo hi s S"
  let ?b = "array n"
  have n: "nmem S a = Some n" using S assms(1-3) by (simp add: agree_def)
  have len: "length ?b = length ts" using assms(6) by (simp add: items_read_def)
  have item: "rt_item dv rest (?b ! i) S = Some (doc_item dv fmt rest (ts ! i))" if "i < length ts" for i
    using assms(6) S that by (simp add: items_read_def)
  define out where "out = (case pick_item (index sg) ?b of None \<Rightarrow> Some None | Some b \<Rightarrow> rt_item dv rest b S)"
  have out: "out = Some (case pick_item (index sg) ts of None \<Rightarrow> None | Some u \<Rightarrow> doc_item dv fmt rest u)" if "ts \<noteq> []"
    using pick_item_nth [OF that len, of "index sg"] item by (cases "pick_item (index sg) ?b") (auto simp: out_def)
  have "rt_node dv sg rest a S =
      (if sjsl sg \<noteq> JSL_ARRAY \<or> ts = [] then Some None
       else if index sg = JA_SYM_QUERY_SIZE then Some (if rest = [] then Some (show_int (int (length ts))) else None)
       else out)"
  proof -
    have lst: "?b ! nat (int (length ts) - 1) = last ?b" if "?b \<noteq> []"
    proof -
      have "nat (int (length ts) - 1) = length ts - 1" by (simp add: nat_diff_distrib')
      with that len show ?thesis by (simp add: last_conv_nth)
    qed
    have nth: "rt_seek_array_node n i = (if 0 \<le> i \<and> i < int (length ts) then Some (?b ! nat i) else None)" for i
      using len by (auto simp: rt_seek_array_node_def)
    have e: "ts = [] \<longleftrightarrow> ?b = []" using len by auto
    show ?thesis using assms(4,5) len
      by (simp add: rt_node_def rt_search_loop.simps(2) [of dv sg rest] n out_def pick_item_def rt_item_def lst nth e)
  qed
  moreover have "doc_node dv fmt sg rest (JArr ts) =
      (if sjsl sg \<noteq> JSL_ARRAY \<or> ts = [] then None
       else if index sg = JA_SYM_QUERY_SIZE then (if rest = [] then Some (show_int (int (length ts))) else None)
       else (case pick_item (index sg) ts of None \<Rightarrow> None | Some u \<Rightarrow> doc_item dv fmt rest u))"
    by (simp add: doc_node_def doc_read.simps(2) [of dv fmt sg rest] split: option.split) (simp add: doc_item_def)
  ultimately show "rt_node dv sg rest a S = Some (doc_node dv fmt sg rest (JArr ts))" using out by simp
qed


section \<open>Loading one member\<close>

text \<open>A state that has only new nodes, apart from a change of the node \<open>keep\<close>.\<close>

definition only_new :: "addr \<Rightarrow> 'd rt \<Rightarrow> 'd rt \<Rightarrow> bool" where
  "only_new keep s s' \<longleftrightarrow> jm s' = jm s \<and> root s' = root s \<and> fsv s' = fsv s \<and> nnext s \<le> nnext s' \<and>
     (\<forall>a<nnext s. a \<noteq> keep \<longrightarrow> nmem s' a = nmem s a)"

lemma only_new_refl [simp]: "only_new keep s s"
  by (simp add: only_new_def)

lemma only_new_trans: "only_new keep s t \<Longrightarrow> only_new keep t u \<Longrightarrow> only_new keep s u"
  by (auto simp: only_new_def)

text \<open>What is to be shown of the members of an object and of the items of an array.\<close>

definition keys_of :: "(string \<times> 'd json) list \<Rightarrow> nat list set" where
  "keys_of kvs = set (map (fold_key \<circ> fst) kvs)"

definition loads_members :: "('d \<Rightarrow> string) \<Rightarrow> 'd jmem \<Rightarrow> (string \<times> 'd json) list \<Rightarrow> bool" where
  "loads_members fmt m kvs \<longleftrightarrow> (\<forall>js jp parent p s. jm s = m \<longrightarrow> list_all2 (\<lambda>p c. rep m (Some (fst p)) (snd p) c) kvs js \<longrightarrow>
     nmem s parent = Some p \<longrightarrow> parent < nnext s \<longrightarrow> wf_index (next_scope p) \<longrightarrow>
     (\<forall>name. fold_key name \<in> keys_of kvs \<longrightarrow> scope_search (next_scope p) name = None) \<longrightarrow>
     (\<exists>s' t c. ldr_next_misc fmt (Misc js jp parent) s = Some s' \<and> only_new parent s s' \<and>
        nmem s' parent = Some (p\<lparr>next_scope := t, next_scope_size := c\<rparr>) \<and> wf_index t \<and>
        level_reads fmt (nnext s) (nnext s') s' t kvs \<and>
        (\<forall>name. fold_key name \<notin> keys_of kvs \<longrightarrow> scope_search t name = scope_search (next_scope p) name)))"

definition loads_items :: "('d \<Rightarrow> string) \<Rightarrow> 'd jmem \<Rightarrow> 'd json list \<Rightarrow> bool" where
  "loads_items fmt m ts \<longleftrightarrow> (\<forall>js i j a n s. jm s = m \<longrightarrow> list_all2 (rep m None) ts js \<longrightarrow> nmem s a = Some n \<longrightarrow> a < nnext s \<longrightarrow>
     (\<exists>s' bs. ldr_next_misc fmt (ArrayItems i js j a) s = Some s' \<and> only_new a s s' \<and>
        nmem s' a = Some (n\<lparr>array := array n @ bs\<rparr>) \<and> items_read fmt (nnext s) (nnext s') s' bs ts))"

definition loads :: "('d \<Rightarrow> string) \<Rightarrow> 'd jmem \<Rightarrow> 'd json \<Rightarrow> bool" where
  "loads fmt m t \<longleftrightarrow> (case t of JObj kvs \<Rightarrow> loads_members fmt m kvs | JArr ts \<Rightarrow> loads_items fmt m ts | _ \<Rightarrow> True)"

text \<open>One member of an object, up to its entry in the index of the parent.\<close>

definition member_step :: "('d \<Rightarrow> string) \<Rightarrow> addr \<Rightarrow> string \<Rightarrow> 'd json \<Rightarrow> node \<Rightarrow> 'd rt \<Rightarrow> 'd rt \<Rightarrow> bool" where
  "member_step fmt parent k t p s s2 \<longleftrightarrow> only_new parent s s2 \<and>
     (\<exists>t2 c. nmem s2 parent = Some (p\<lparr>next_scope := t2, next_scope_size := c\<rparr>) \<and> wf_index t2 \<and>
        level_reads fmt (nnext s) (nnext s2) s2 t2 [(k, t)] \<and>
        (\<forall>name. fold_key name \<noteq> fold_key k \<longrightarrow> scope_search t2 name = scope_search (next_scope p) name))"

lemma level_reads_single:
  assumes "node_reads fmt lo hi s a t" "wf_index T" "scope_search T k = Some a"
  shows "level_reads fmt lo hi s T [(k, t)]"
  unfolding level_reads_def
proof (intro allI impI)
  fix S dv and sg :: segment and rest
  assume S: "agree lo hi s S" and k: "fold_key (sname sg) \<in> set (map (fold_key \<circ> fst) [(k, t)])"
  then have "scope_search T (sname sg) = Some a" using assms(2,3) names.search_case [of T "sname sg" k] by simp
  moreover have "doc_find (sname sg) [(k, t)] = Some t" using k by (simp add: doc_find_def)
  ultimately show "rt_search_loop dv (sg # rest) T S = Some (doc_read dv fmt (sg # rest) [(k, t)])"
    using assms(1) S by (simp add: search_node read_node node_reads_def)
qed

text \<open>The common end of all cases: the node is there and reads like \<open>t\<close> once it is linked.\<close>

lemma link_step:
  assumes "nmem s1 a = Some n" "scope_name n = k" "a \<noteq> parent" "nmem s1 parent = Some p" "wf_index (next_scope p)"
    and "scope_search (next_scope p) k = None" "only_new parent s s1" "parent < nnext s" "nnext s \<le> a"
    and "\<And>s2. nmem s2 a = Some (n\<lparr>jsonptr := Some j, jsonparentptr := jp, parentnode := Some parent\<rparr>) \<Longrightarrow>
        agree (Suc a) (nnext s1) s1 s2 \<Longrightarrow> node_reads fmt (nnext s) (nnext s1) s2 a t"
  shows "\<exists>s2. ldr_link_node a j jp parent s1 = Some s2 \<and> member_step fmt parent k t p s s2"
proof -
  let ?n = "n\<lparr>jsonptr := Some j, jsonparentptr := jp, parentnode := Some parent\<rparr>"
  let ?T = "scope_insert (next_scope p) k a"
  let ?p = "p\<lparr>next_scope := ?T, next_scope_size := next_scope_size p + 1\<rparr>"
  let ?s2 = "nput parent ?p (nput a ?n s1)"
  have run: "ldr_link_node a j jp parent s1 = Some ?s2"
    using assms(1-4) by (simp add: ldr_link_node_def nput_def)
  have "agree (Suc a) (nnext s1) s1 ?s2" using assms(8,9) by (auto simp: agree_def nput_def)
  moreover have "nmem ?s2 a = Some ?n" using assms(3) by (simp add: nput_def)
  ultimately have "node_reads fmt (nnext s) (nnext s1) ?s2 a t" using assms(10) by blast
  moreover have "wf_index ?T" using assms(5) by (rule names.inv_insert)
  moreover have "scope_search ?T k = Some a" by (rule names.search_insert_same [OF assms(5,6)])
  ultimately have "level_reads fmt (nnext s) (nnext ?s2) ?s2 ?T [(k, t)]"
    using level_reads_single by (simp add: nput_def)
  moreover have "only_new parent s ?s2" using assms(7,9) by (auto simp: only_new_def nput_def)
  moreover have "scope_search ?T name = scope_search (next_scope p) name" if "fold_key name \<noteq> fold_key k" for name
    using names.search_insert [OF assms(5,6), of a name] that by simp
  ultimately show ?thesis using run \<open>wf_index ?T\<close>
    by (intro exI [of _ ?s2]) (auto simp: member_step_def nput_def intro!: exI [of _ ?T])
qed


lemma new_node_facts:
  assumes "nmem s parent = Some p" "parent < nnext s"
  shows "fst (nnew n s) = nnext s" "nmem (snd (nnew n s)) (nnext s) = Some n" "nnext (snd (nnew n s)) = Suc (nnext s)"
    "nmem (snd (nnew n s)) parent = Some p" "jm (snd (nnew n s)) = jm s" "only_new parent s (snd (nnew n s))"
  using assms by (auto simp: nnew_def only_new_def)

lemma field_member:
  assumes "nmem s parent = Some p" "parent < nnext s" "wf_index (next_scope p)" "scope_search (next_scope p) k = None"
    and "t = JStr val \<or> t = JRaw val \<or> (\<exists>d. t = JNum d \<and> val = cut_value (fmt d))"
    and "s1 = snd (nnew (blank_node\<lparr>scope_name := k, scope_value := val, njsl := JSL_FIELD\<rparr>) s)"
  shows "\<exists>s2. ldr_link_node (nnext s) j jp parent s1 = Some s2 \<and> member_step fmt parent k t p s s2"
proof (rule link_step)
  note f = new_node_facts [OF assms(1,2), of "blank_node\<lparr>scope_name := k, scope_value := val, njsl := JSL_FIELD\<rparr>", folded assms(6)]
  show "nmem s1 (nnext s) = Some (blank_node\<lparr>scope_name := k, scope_value := val, njsl := JSL_FIELD\<rparr>)" "nmem s1 parent = Some p"
    "only_new parent s s1" using f by simp_all
  fix s2 :: "'a rt" assume "nmem s2 (nnext s) = Some (blank_node\<lparr>scope_name := k, scope_value := val, njsl := JSL_FIELD\<rparr>
      \<lparr>jsonptr := Some j, jsonparentptr := jp, parentnode := Some parent\<rparr>)"
  then show "node_reads fmt (nnext s) (nnext s1) s2 (nnext s) t"
    by (rule field_reads) (use f assms(5) in auto)
qed (use assms in auto)

lemma scope_member:
  assumes "nmem s parent = Some p" "parent < nnext s" "wf_index (next_scope p)" "scope_search (next_scope p) k = None"
    and "s0 = snd (nnew (blank_node\<lparr>scope_name := k, njsl := JSL_LOGIC_SCOPE\<rparr>) s)" "loads_members fmt (jm s) kvs"
    and "list_all2 (\<lambda>p c. rep (jm s) (Some (fst p)) (snd p) c) kvs cs"
  shows "\<exists>s1 s2. ldr_next_misc fmt (Misc cs (Some j) (nnext s)) s0 = Some s1 \<and>
    ldr_link_node (nnext s) j jp parent s1 = Some s2 \<and> member_step fmt parent k (JObj kvs) p s s2"
proof -
  let ?n = "blank_node\<lparr>scope_name := k, njsl := JSL_LOGIC_SCOPE\<rparr>"
  note f = new_node_facts [OF assms(1,2), of ?n, folded assms(5)]
  have "\<exists>s1 t c. ldr_next_misc fmt (Misc cs (Some j) (nnext s)) s0 = Some s1 \<and> only_new (nnext s) s0 s1 \<and>
      nmem s1 (nnext s) = Some (?n\<lparr>next_scope := t, next_scope_size := c\<rparr>) \<and> wf_index t \<and>
      level_reads fmt (nnext s0) (nnext s1) s1 t kvs \<and>
      (\<forall>name. fold_key name \<notin> keys_of kvs \<longrightarrow> scope_search t name = scope_search (next_scope ?n) name)"
    using assms(6) [unfolded loads_members_def, rule_format, of s0 cs "nnext s" ?n "Some j"] f assms(7)
    by (simp add: names.inv_empty names.search_empty blank_node_def)
  then obtain s1 t c where s1: "ldr_next_misc fmt (Misc cs (Some j) (nnext s)) s0 = Some s1" "only_new (nnext s) s0 s1"
    "nmem s1 (nnext s) = Some (?n\<lparr>next_scope := t, next_scope_size := c\<rparr>)" "wf_index t"
    "level_reads fmt (Suc (nnext s)) (nnext s1) s1 t kvs"
    "\<And>name. fold_key name \<notin> keys_of kvs \<Longrightarrow> scope_search t name = None"
    using f(3) by (auto simp: names.search_empty blank_node_def)
  have "\<exists>s2. ldr_link_node (nnext s) j jp parent s1 = Some s2 \<and> member_step fmt parent k (JObj kvs) p s s2"
  proof (rule link_step)
    show "nmem s1 (nnext s) = Some (?n\<lparr>next_scope := t, next_scope_size := c\<rparr>)" by (rule s1(3))
    show "nmem s1 parent = Some p" using s1(2) f assms(2) by (auto simp: only_new_def)
    show "only_new parent s s1" using s1(2) f(3,6) assms(2) by (auto simp: only_new_def)
    fix s2 :: "'a rt" assume n: "nmem s2 (nnext s) = Some (?n\<lparr>next_scope := t, next_scope_size := c,
        jsonptr := Some j, jsonparentptr := jp, parentnode := Some parent\<rparr>)"
      and ag: "agree (Suc (nnext s)) (nnext s1) s1 s2"
    have "level_reads fmt (nnext s) (nnext s1) s2 t kvs"
      by (rule level_reads_range [OF level_reads_agree [OF s1(5) ag]]) auto
    moreover have "nnext s < nnext s1" using s1(2) f(3) by (auto simp: only_new_def)
    ultimately show "node_reads fmt (nnext s) (nnext s1) s2 (nnext s) (JObj kvs)"
      using s1(6) by (intro scope_reads [OF n]) (auto simp: keys_of_def)
  qed (use assms in auto)
  with s1(1) show ?thesis by blast
qed


lemma array_member:
  assumes "nmem s parent = Some p" "parent < nnext s" "wf_index (next_scope p)" "scope_search (next_scope p) k = None"
    and "s0 = snd (nnew (blank_node\<lparr>scope_name := k, njsl := JSL_ARRAY, arraysize := int (length ts)\<rparr>) s)"
    and "loads_items fmt (jm s) ts" "list_all2 (rep (jm s) None) ts cs"
  shows "\<exists>s1 s2. ldr_next_misc fmt (ArrayItems 0 cs j (nnext s)) s0 = Some s1 \<and>
    ldr_link_node (nnext s) j jp parent s1 = Some s2 \<and> member_step fmt parent k (JArr ts) p s s2"
proof -
  let ?n = "blank_node\<lparr>scope_name := k, njsl := JSL_ARRAY, arraysize := int (length ts)\<rparr>"
  note f = new_node_facts [OF assms(1,2), of ?n, folded assms(5)]
  have "\<exists>s1 bs. ldr_next_misc fmt (ArrayItems 0 cs j (nnext s)) s0 = Some s1 \<and> only_new (nnext s) s0 s1 \<and>
      nmem s1 (nnext s) = Some (?n\<lparr>array := array ?n @ bs\<rparr>) \<and> items_read fmt (nnext s0) (nnext s1) s1 bs ts"
    using assms(6) [unfolded loads_items_def, rule_format, of s0 cs "nnext s" ?n 0 j] f assms(7) by simp
  then obtain s1 bs where s1: "ldr_next_misc fmt (ArrayItems 0 cs j (nnext s)) s0 = Some s1" "only_new (nnext s) s0 s1"
    "nmem s1 (nnext s) = Some (?n\<lparr>array := bs\<rparr>)" "items_read fmt (Suc (nnext s)) (nnext s1) s1 bs ts"
    using f(3) by (auto simp: blank_node_def)
  have "\<exists>s2. ldr_link_node (nnext s) j jp parent s1 = Some s2 \<and> member_step fmt parent k (JArr ts) p s s2"
  proof (rule link_step)
    show "nmem s1 (nnext s) = Some (?n\<lparr>array := bs\<rparr>)" by (rule s1(3))
    show "nmem s1 parent = Some p" using s1(2) f assms(2) by (auto simp: only_new_def)
    show "only_new parent s s1" using s1(2) f(3,6) assms(2) by (auto simp: only_new_def)
    fix s2 :: "'a rt" assume n: "nmem s2 (nnext s) = Some (?n\<lparr>array := bs,
        jsonptr := Some j, jsonparentptr := jp, parentnode := Some parent\<rparr>)"
      and ag: "agree (Suc (nnext s)) (nnext s1) s1 s2"
    have "items_read fmt (nnext s) (nnext s1) s2 bs ts"
      by (rule items_read_range [OF items_read_agree [OF s1(4) ag]]) auto
    moreover have "nnext s < nnext s1" using s1(2) f(3) by (auto simp: only_new_def)
    ultimately show "node_reads fmt (nnext s) (nnext s1) s2 (nnext s) (JArr ts)"
      by (intro array_reads [OF n]) auto
  qed (use assms in auto)
  with s1(1) show ?thesis by blast
qed

text \<open>A member of a type the daemon does not keep is left out.\<close>

lemma dropped_member:
  assumes "nmem s parent = Some p" "wf_index (next_scope p)" "scope_search (next_scope p) k = None" "t \<in> {JNull, JFalse, JTrue}"
  shows "member_step fmt parent k t p s s"
proof -
  have "level_reads fmt (nnext s) (nnext s) s (next_scope p) [(k, t)]"
    unfolding level_reads_def
  proof (intro allI impI)
    fix S dv and sg :: segment and rest
    assume k: "fold_key (sname sg) \<in> set (map (fold_key \<circ> fst) [(k, t)])"
    then have "scope_search (next_scope p) (sname sg) = None"
      using assms(2,3) names.search_case [of "next_scope p" "sname sg" k] by simp
    moreover have "doc_find (sname sg) [(k, t)] = Some t" using k by (simp add: doc_find_def)
    ultimately show "rt_search_loop dv (sg # rest) (next_scope p) S = Some (doc_read dv fmt (sg # rest) [(k, t)])"
      using assms(4) by (auto simp: search_none read_node doc_node_def doc_read.simps(2) [of dv fmt sg rest])
  qed
  with assms(1,2) show ?thesis
    by (auto simp: member_step_def intro!: exI [of _ "next_scope p"] exI [of _ "next_scope_size p"])
qed

lemma organize_short: "ldr_organize_scope_name k True = Some k \<Longrightarrow> length k < MAX_PRE_SEG_SIZE"
  by (auto simp: ldr_organize_scope_name_def SCOPE_SAVELEN_OUTOF_LIMIT_def MAX_PRE_SEG_SIZE_def split: if_splits dest: arg_cong [of _ _ length])

lemma member_loads:
  assumes "rep (jm s) (Some k) t j" "nmem s parent = Some p" "parent < nnext s" "wf_index (next_scope p)"
    and "scope_search (next_scope p) k = None" "ldr_organize_scope_name k True = Some k" "doc_ok t" "loads fmt (jm s) t"
  shows "\<exists>s2. member_step fmt parent k t p s s2 \<and>
    ldr_next_misc fmt (Misc (j # rest) jp parent) s = ldr_next_misc fmt (Misc rest jp parent) s2"
proof (cases t)
  case JNull
  then show ?thesis using assms(1) dropped_member [OF assms(2,4,5), of t]
    by (auto intro!: exI [of _ s]) (simp add: ldr_next_misc.simps [of fmt "Misc (j # rest) jp parent"])
next
  case JFalse
  then show ?thesis using assms(1) dropped_member [OF assms(2,4,5), of t]
    by (auto intro!: exI [of _ s]) (simp add: ldr_next_misc.simps [of fmt "Misc (j # rest) jp parent"])
next
  case JTrue
  then show ?thesis using assms(1) dropped_member [OF assms(2,4,5), of t]
    by (auto intro!: exI [of _ s]) (simp add: ldr_next_misc.simps [of fmt "Misc (j # rest) jp parent"])
next
  case (JNum d)
  then show ?thesis using assms(1,6) field_member [OF assms(2-5) _ refl, of t "cut_value (fmt d)" fmt j jp]
    by (fastforce simp: ldr_next_misc.simps [of fmt "Misc (j # rest) jp parent"] ldr_new_field_def nnew_def)
next
  case (JStr v)
  then show ?thesis using assms(1,6,7) field_member [OF assms(2-5) _ refl, of t v fmt j jp]
    by (fastforce simp: ldr_next_misc.simps [of fmt "Misc (j # rest) jp parent"] ldr_new_field_def nnew_def limited_def)
next
  case (JRaw v)
  then show ?thesis using assms(1,6,7) field_member [OF assms(2-5) _ refl, of t v fmt j jp]
    by (fastforce simp: ldr_next_misc.simps [of fmt "Misc (j # rest) jp parent"] ldr_new_field_def nnew_def limited_def)
next
  case (JArr ts)
  then obtain cs where j: "items (jm s) j = Some \<lparr>jval = cJSON_Array, jstring = Some k, jchild = cs\<rparr>" "list_all2 (rep (jm s) None) ts cs"
    using assms(1) by auto
  then have "cJSON_GetArraySize j (jm s) = length ts" by (simp add: cJSON_GetArraySize_def list_all2_lengthD)
  then show ?thesis
    using assms(8) j array_member [OF assms(2-5) refl, of fmt ts cs j jp] organize_short [OF assms(6)] JArr
    by (fastforce simp: ldr_next_misc.simps [of fmt "Misc (j # rest) jp parent"] loads_def nnew_def)
next
  case (JObj kvs)
  then show ?thesis
    using assms(1,6,8) scope_member [OF assms(2-5) refl, of fmt kvs _ j jp]
    by (fastforce simp: ldr_next_misc.simps [of fmt "Misc (j # rest) jp parent"] loads_def nnew_def)
qed


section \<open>Loading a document\<close>

lemma doc_read_find: "doc_find (sname sg) kvs = doc_find (sname sg) kvs' \<Longrightarrow> doc_read dv fmt (sg # rest) kvs = doc_read dv fmt (sg # rest) kvs'"
  by (simp only: doc_read.simps)

lemma level_reads_Cons:
  assumes "level_reads fmt lo hi s T [(k, t)]" "level_reads fmt lo hi s T kvs" "fold_key k \<notin> keys_of kvs"
  shows "level_reads fmt lo hi s T ((k, t) # kvs)"
  unfolding level_reads_def
proof (intro allI impI)
  fix S dv and sg :: segment and rest
  assume S: "agree lo hi s S" and k: "fold_key (sname sg) \<in> set (map (fold_key \<circ> fst) ((k, t) # kvs))"
  show "rt_search_loop dv (sg # rest) T S = Some (doc_read dv fmt (sg # rest) ((k, t) # kvs))"
  proof (cases "fold_key (sname sg) = fold_key k")
    case True
    then have "doc_read dv fmt (sg # rest) ((k, t) # kvs) = doc_read dv fmt (sg # rest) [(k, t)]"
      by (intro doc_read_find) (simp add: doc_find_def)
    then show ?thesis using assms(1) S True by (simp add: level_reads_def)
  next
    case False
    then have "doc_read dv fmt (sg # rest) ((k, t) # kvs) = doc_read dv fmt (sg # rest) kvs"
      by (intro doc_read_find) (simp add: doc_find_def)
    moreover have "fold_key (sname sg) \<in> set (map (fold_key \<circ> fst) kvs)" using k False by auto
    ultimately show ?thesis using assms(2) S by (simp only: level_reads_def)
  qed
qed

lemma only_new_agree: "only_new keep s s' \<Longrightarrow> keep < lo \<Longrightarrow> hi \<le> nnext s \<Longrightarrow> agree lo hi s s'"
  by (auto simp: only_new_def agree_def)

lemma members_load:
  assumes "\<And>p. p \<in> set kvs \<Longrightarrow> loads fmt m (snd p)" "doc_ok (JObj kvs)"
  shows "loads_members fmt m kvs"
  using assms
proof (induction kvs)
  case Nil
  show ?case unfolding loads_members_def
  proof (intro allI impI)
    fix js jp parent p and s :: "'a rt"
    assume "list_all2 (\<lambda>p c. rep m (Some (fst p)) (snd p) c) [] js" "nmem s parent = Some p" "wf_index (next_scope p)"
    then show "\<exists>s' t c. ldr_next_misc fmt (Misc js jp parent) s = Some s' \<and> only_new parent s s' \<and>
        nmem s' parent = Some (p\<lparr>next_scope := t, next_scope_size := c\<rparr>) \<and> wf_index t \<and> level_reads fmt (nnext s) (nnext s') s' t [] \<and>
        (\<forall>name. fold_key name \<notin> keys_of [] \<longrightarrow> scope_search t name = scope_search (next_scope p) name)"
      by (intro exI [of _ s] exI [of _ "next_scope p"] exI [of _ "next_scope_size p"])
        (simp add: ldr_next_misc.simps [of fmt "Misc [] _ _"] level_reads_def)
  qed
next
  case (Cons kt kvs)
  obtain k t where kt: "kt = (k, t)" by fastforce
  have IH: "loads_members fmt m kvs" using Cons by simp
  have ok: "ldr_organize_scope_name k True = Some k" "doc_ok t" "loads fmt m t" "fold_key k \<notin> keys_of kvs"
    using Cons.prems(2) Cons.prems(1) [of kt] kt by (auto simp: keys_of_def)
  show ?case unfolding loads_members_def
  proof (intro allI impI)
    fix js jp parent p and s :: "'a rt"
    assume a: "jm s = m" "list_all2 (\<lambda>p c. rep m (Some (fst p)) (snd p) c) (kt # kvs) js" "nmem s parent = Some p" "parent < nnext s"
      "wf_index (next_scope p)" "\<forall>name. fold_key name \<in> keys_of (kt # kvs) \<longrightarrow> scope_search (next_scope p) name = None"
    obtain j js' where js: "js = j # js'" "rep m (Some k) t j" "list_all2 (\<lambda>p c. rep m (Some (fst p)) (snd p) c) kvs js'"
      using a(2) kt by (auto simp: list_all2_Cons1)
    have none: "scope_search (next_scope p) k = None" using a(6) kt by (simp add: keys_of_def)
    obtain s2 where s2: "member_step fmt parent k t p s s2"
      "ldr_next_misc fmt (Misc js jp parent) s = ldr_next_misc fmt (Misc js' jp parent) s2"
      using member_loads [of s k t j parent p fmt js' jp] js(1,2) a(1,3-5) none ok by blast
    then obtain t2 c2 where m: "only_new parent s s2" "nmem s2 parent = Some (p\<lparr>next_scope := t2, next_scope_size := c2\<rparr>)" "wf_index t2"
      "level_reads fmt (nnext s) (nnext s2) s2 t2 [(k, t)]"
      "\<And>name. fold_key name \<noteq> fold_key k \<Longrightarrow> scope_search t2 name = scope_search (next_scope p) name"
      by (auto simp: member_step_def)
    have le: "jm s2 = m" "nnext s \<le> nnext s2" "parent < nnext s2" using m(1) a(1,4) by (auto simp: only_new_def)
    have "scope_search t2 name = None" if "fold_key name \<in> keys_of kvs" for name
    proof -
      have "fold_key name \<noteq> fold_key k" using that ok(4) by metis
      moreover have "fold_key name \<in> keys_of (kt # kvs)" using that by (simp add: keys_of_def)
      ultimately show ?thesis using m(5) [of name] a(6) by simp
    qed
    then obtain s' T c where s': "ldr_next_misc fmt (Misc js' jp parent) s2 = Some s'" "only_new parent s2 s'"
      "nmem s' parent = Some (p\<lparr>next_scope := T, next_scope_size := c\<rparr>)" "wf_index T" "level_reads fmt (nnext s2) (nnext s') s' T kvs"
      "\<And>name. fold_key name \<notin> keys_of kvs \<Longrightarrow> scope_search T name = scope_search t2 name"
      using IH [unfolded loads_members_def, rule_format, of s2 js' parent "p\<lparr>next_scope := t2, next_scope_size := c2\<rparr>" jp]
        le js(3) m(2,3) by auto
    have n: "nnext s2 \<le> nnext s'" using s'(2) by (simp add: only_new_def)
    have "agree (nnext s) (nnext s2) s2 s'" using only_new_agree [OF s'(2)] a(4) by simp
    from level_reads_agree [OF m(4) this] have "level_reads fmt (nnext s) (nnext s2) s' T [(k, t)]"
    proof (rule level_reads_index)
      fix name assume "fold_key name \<in> set (map (fold_key \<circ> fst) [(k, t)])"
      then have "fold_key name \<notin> keys_of kvs" using ok(4) by simp
      then show "scope_search T name = scope_search t2 name" by (rule s'(6))
    qed
    then have "level_reads fmt (nnext s) (nnext s') s' T [(k, t)]" using order_refl n by (rule level_reads_range)
    moreover have "level_reads fmt (nnext s) (nnext s') s' T kvs" using s'(5) le(2) by (rule level_reads_range) simp
    ultimately have "level_reads fmt (nnext s) (nnext s') s' T (kt # kvs)" unfolding kt using ok(4) by (rule level_reads_Cons)
    moreover have "scope_search T name = scope_search (next_scope p) name" if "fold_key name \<notin> keys_of (kt # kvs)" for name
      using that s'(6) [of name] m(5) [of name] kt by (auto simp: keys_of_def)
    ultimately show "\<exists>s' t c. ldr_next_misc fmt (Misc js jp parent) s = Some s' \<and> only_new parent s s' \<and>
        nmem s' parent = Some (p\<lparr>next_scope := t, next_scope_size := c\<rparr>) \<and> wf_index t \<and>
        level_reads fmt (nnext s) (nnext s') s' t (kt # kvs) \<and>
        (\<forall>name. fold_key name \<notin> keys_of (kt # kvs) \<longrightarrow> scope_search t name = scope_search (next_scope p) name)"
      using s2(2) s'(1,3,4) only_new_trans [OF m(1) s'(2)] by auto
  qed
qed


text \<open>One item of an array: the new node is in the list of the array and reads like the item.\<close>

definition item_step :: "('d \<Rightarrow> string) \<Rightarrow> addr \<Rightarrow> 'd json \<Rightarrow> node \<Rightarrow> 'd rt \<Rightarrow> 'd rt \<Rightarrow> bool" where
  "item_step fmt a u n s s2 \<longleftrightarrow> only_new a s s2 \<and>
     (\<exists>b. nmem s2 a = Some (n\<lparr>array := array n @ [b]\<rparr>) \<and> items_read fmt (nnext s) (nnext s2) s2 [b] [u])"

lemma new_item:
  assumes "nmem s a = Some n" "a < nnext s"
    and "b = blank_node\<lparr>scope_name := show_nat i, scope_value := val, njsl := level,
        parentnode := Some a, jsonparentptr := Some j, jsonptr := Some item\<rparr>"
  obtains s1 where "ldr_new_item i item j a level val s = Some (nnext s, s1)" "only_new a s s1"
    "nmem s1 a = Some (n\<lparr>array := array n @ [nnext s]\<rparr>)" "nmem s1 (nnext s) = Some b" "nnext s1 = Suc (nnext s)"
proof
  show "ldr_new_item i item j a level val s = Some (nnext s, nput a (n\<lparr>array := array n @ [nnext s]\<rparr>) (snd (nnew b s)))"
    using assms by (simp add: ldr_new_item_def nnew_def)
qed (use assms in \<open>auto simp: only_new_def nput_def nnew_def\<close>)

lemma plain_item:
  assumes "nmem s1 (nnext s) = Some b" "nnext s1 = Suc (nnext s)" "next_scope b = ET"
    and "(njsl b = JSL_ARRAY_ITEM_AS_FIELD \<and> (u = JStr (scope_value b) \<or> (\<exists>d. u = JNum d \<and> scope_value b = cut_value (fmt d)))) \<or>
      (njsl b = JSL_DIR \<and> (\<forall>kvs v d. u \<noteq> JObj kvs \<and> u \<noteq> JStr v \<and> u \<noteq> JNum d))"
  shows "items_read fmt (nnext s) (nnext s1) s1 [nnext s] [u]"
  using assms by (cases u) (auto simp: items_read_def rt_item_def doc_item_def agree_def)

lemma item_loads:
  assumes "rep (jm s) None u item" "nmem s a = Some n" "a < nnext s" "doc_ok u" "loads fmt (jm s) u"
  shows "\<exists>s2. item_step fmt a u n s s2 \<and>
    ldr_next_misc fmt (ArrayItems i (item # rest) j a) s = ldr_next_misc fmt (ArrayItems (Suc i) rest j a) s2"
proof -
  obtain it where it: "items (jm s) item = Some it" using assms(1) by (cases u) auto
  have unf: "ldr_next_misc fmt (ArrayItems i (item # rest) j a) s = ldr_next_misc fmt (ArrayItems (Suc i) rest j a) s1"
    if "(case jval it of
          cJSON_Object \<Rightarrow> do { (b, s1) \<leftarrow> ldr_new_item i item j a JSL_ARRAY_ITEM (cut_value (scope_name n @ ''['' @ show_nat i @ '']'')) s;
                            ldr_next_misc fmt (Misc (item # rest) (Some j) b) s1 }
        | cJSON_String v \<Rightarrow> map_option snd (ldr_new_item i item j a JSL_ARRAY_ITEM_AS_FIELD (limited 64 v) s)
        | cJSON_Number d \<Rightarrow> map_option snd (ldr_new_item i item j a JSL_ARRAY_ITEM_AS_FIELD (cut_value (fmt d)) s)
        | _ \<Rightarrow> map_option snd (ldr_new_item i item j a JSL_DIR '''' s)) = Some s1" for s1
    using that assms(2) it by (simp add: ldr_next_misc.simps [of fmt "ArrayItems i (item # rest) j a"])
  show ?thesis
  proof (cases "\<exists>kvs. u = JObj kvs")
    case False
    define level where "level = (if \<exists>v d. u = JStr v \<or> u = JNum d then JSL_ARRAY_ITEM_AS_FIELD else JSL_DIR)"
    define val where "val = (case u of JStr v \<Rightarrow> v | JNum d \<Rightarrow> cut_value (fmt d) | _ \<Rightarrow> '''')"
    let ?b = "blank_node\<lparr>scope_name := show_nat i, scope_value := val, njsl := level,
        parentnode := Some a, jsonparentptr := Some j, jsonptr := Some item\<rparr>"
    obtain s1 where s1: "ldr_new_item i item j a level val s = Some (nnext s, s1)" "only_new a s s1"
      "nmem s1 a = Some (n\<lparr>array := array n @ [nnext s]\<rparr>)" "nmem s1 (nnext s) = Some ?b" "nnext s1 = Suc (nnext s)"
      using new_item [OF assms(2,3) refl, where i = i and val = val and level = level and j = j and item = item] .
    have "items_read fmt (nnext s) (nnext s1) s1 [nnext s] [u]"
      using False by (intro plain_item [OF s1(4,5)]) (cases u; simp add: level_def val_def blank_node_def)+
    then have "item_step fmt a u n s s1" using s1(2,3) by (auto simp: item_step_def)
    moreover have "ldr_next_misc fmt (ArrayItems i (item # rest) j a) s = ldr_next_misc fmt (ArrayItems (Suc i) rest j a) s1"
      using s1(1) assms(1,4) it False by (intro unf) (cases u; auto simp: level_def val_def limited_def)
    ultimately show ?thesis by blast
  next
    case True
    then obtain kvs where u: "u = JObj kvs" by blast
    let ?val = "cut_value (scope_name n @ ''['' @ show_nat i @ '']'')"
    let ?b = "blank_node\<lparr>scope_name := show_nat i, scope_value := ?val, njsl := JSL_ARRAY_ITEM,
        parentnode := Some a, jsonparentptr := Some j, jsonptr := Some item\<rparr>"
    obtain s1 where s1: "ldr_new_item i item j a JSL_ARRAY_ITEM ?val s = Some (nnext s, s1)" "only_new a s s1"
      "nmem s1 a = Some (n\<lparr>array := array n @ [nnext s]\<rparr>)" "nmem s1 (nnext s) = Some ?b" "nnext s1 = Suc (nnext s)"
      using new_item [OF assms(2,3) refl, where i = i and val = ?val and level = JSL_ARRAY_ITEM and j = j and item = item] .
    obtain cs where cs: "it = \<lparr>jval = cJSON_Object, jstring = None, jchild = cs\<rparr>"
      "list_all2 (\<lambda>p c. rep (jm s) (Some (fst p)) (snd p) c) kvs cs" using assms(1) it u by auto
    have jm1: "jm s1 = jm s" using s1(2) by (simp add: only_new_def)
    have "\<exists>s2 t c. ldr_next_misc fmt (Misc cs (Some item) (nnext s)) s1 = Some s2 \<and> only_new (nnext s) s1 s2 \<and>
        nmem s2 (nnext s) = Some (?b\<lparr>next_scope := t, next_scope_size := c\<rparr>) \<and> wf_index t \<and>
        level_reads fmt (nnext s1) (nnext s2) s2 t kvs \<and>
        (\<forall>name. fold_key name \<notin> keys_of kvs \<longrightarrow> scope_search t name = scope_search (next_scope ?b) name)"
      using assms(5) [unfolded u loads_def, simplified, unfolded loads_members_def, rule_format, of s1 cs "nnext s" ?b "Some item"]
        jm1 cs(2) s1(4,5) by (simp add: names.inv_empty names.search_empty blank_node_def)
    then obtain s2 t c where s2: "ldr_next_misc fmt (Misc cs (Some item) (nnext s)) s1 = Some s2" "only_new (nnext s) s1 s2"
      "nmem s2 (nnext s) = Some (?b\<lparr>next_scope := t, next_scope_size := c\<rparr>)" "level_reads fmt (Suc (nnext s)) (nnext s2) s2 t kvs"
      "\<And>name. fold_key name \<notin> keys_of kvs \<Longrightarrow> scope_search t name = None"
      using s1(5) by (auto simp: names.search_empty blank_node_def)
    have lt: "nnext s < nnext s2" using s2(2) s1(5) by (auto simp: only_new_def)
    have "items_read fmt (nnext s) (nnext s2) s2 [nnext s] [u]" unfolding items_read_def
    proof (intro conjI allI impI)
      fix S dv rest i
      assume S: "agree (nnext s) (nnext s2) s2 S" and i: "i < length [u]"
      have "rt_search_loop dv rest t S = Some (doc_read dv fmt rest kvs)" if "rest \<noteq> []"
        using level_exact [OF s2(4) agree_sub [OF S] that] s2(5) by (simp add: keys_of_def)
      moreover have "nmem S (nnext s) = Some (?b\<lparr>next_scope := t, next_scope_size := c\<rparr>)"
        using S lt s2(3) by (simp add: agree_def)
      ultimately show "rt_item dv rest ([nnext s] ! i) S = Some (doc_item dv fmt rest ([u] ! i))"
        using i by (simp add: u rt_item_def doc_item_def)
    qed simp
    moreover have "only_new a s s2" "nmem s2 a = Some (n\<lparr>array := array n @ [nnext s]\<rparr>)"
      using s1(2,3,5) s2(2) assms(3) by (auto simp: only_new_def)
    ultimately have "item_step fmt a u n s s2" by (auto simp: item_step_def)
    moreover have "ldr_next_misc fmt (Misc (item # rest) (Some j) (nnext s)) s1 = Some s2"
      using s2(1) it cs(1) jm1 by (simp add: ldr_next_misc.simps [of fmt "Misc (item # rest) (Some j) (nnext s)"])
    then have "ldr_next_misc fmt (ArrayItems i (item # rest) j a) s = ldr_next_misc fmt (ArrayItems (Suc i) rest j a) s2"
      using s1(1) cs(1) by (intro unf) simp
    ultimately show ?thesis by blast
  qed
qed


lemma items_load:
  assumes "\<And>u. u \<in> set ts \<Longrightarrow> loads fmt m u" "list_all doc_ok ts"
  shows "loads_items fmt m ts"
  using assms
proof (induction ts)
  case Nil
  show ?case unfolding loads_items_def
  proof (intro allI impI)
    fix js i j a n and s :: "'a rt"
    assume "list_all2 (rep m None) [] js" "nmem s a = Some n"
    then show "\<exists>s' bs. ldr_next_misc fmt (ArrayItems i js j a) s = Some s' \<and> only_new a s s' \<and>
        nmem s' a = Some (n\<lparr>array := array n @ bs\<rparr>) \<and> items_read fmt (nnext s) (nnext s') s' bs []"
      by (intro exI [of _ s] exI [of _ "[]"]) (simp add: ldr_next_misc.simps [of fmt "ArrayItems i [] j a"] items_read_def)
  qed
next
  case (Cons u ts)
  have IH: "loads_items fmt m ts" using Cons by simp
  show ?case unfolding loads_items_def
  proof (intro allI impI)
    fix js i j a n and s :: "'a rt"
    assume h: "jm s = m" "list_all2 (rep m None) (u # ts) js" "nmem s a = Some n" "a < nnext s"
    obtain item js' where js: "js = item # js'" "rep m None u item" "list_all2 (rep m None) ts js'"
      using h(2) by (auto simp: list_all2_Cons1)
    obtain s2 where s2: "item_step fmt a u n s s2"
      "ldr_next_misc fmt (ArrayItems i js j a) s = ldr_next_misc fmt (ArrayItems (Suc i) js' j a) s2"
      using item_loads [of s u item a n fmt i js' j] js(1,2) h(1,3,4) Cons.prems by auto
    then obtain b where b: "only_new a s s2" "nmem s2 a = Some (n\<lparr>array := array n @ [b]\<rparr>)"
      "items_read fmt (nnext s) (nnext s2) s2 [b] [u]" by (auto simp: item_step_def)
    have le: "jm s2 = m" "nnext s \<le> nnext s2" "a < nnext s2" using b(1) h(1,4) by (auto simp: only_new_def)
    then obtain s' bs where s': "ldr_next_misc fmt (ArrayItems (Suc i) js' j a) s2 = Some s'" "only_new a s2 s'"
      "nmem s' a = Some (n\<lparr>array := array n @ b # bs\<rparr>)" "items_read fmt (nnext s2) (nnext s') s' bs ts"
      using IH [unfolded loads_items_def, rule_format, of s2 js' a "n\<lparr>array := array n @ [b]\<rparr>" "Suc i" j] js(3) b(2) by auto
    have n: "nnext s2 \<le> nnext s'" using s'(2) by (simp add: only_new_def)
    have "agree (nnext s) (nnext s2) s2 s'" using only_new_agree [OF s'(2)] h(4) by simp
    from items_read_range [OF items_read_agree [OF b(3) this] order_refl n] items_read_range [OF s'(4) le(2) order_refl]
    have "items_read fmt (nnext s) (nnext s') s' (b # bs) (u # ts)" by (rule items_read_Cons)
    then show "\<exists>s' bs. ldr_next_misc fmt (ArrayItems i js j a) s = Some s' \<and> only_new a s s' \<and>
        nmem s' a = Some (n\<lparr>array := array n @ bs\<rparr>) \<and> items_read fmt (nnext s) (nnext s') s' bs (u # ts)"
      using s2(2) s'(1,3) only_new_trans [OF b(1) s'(2)] by auto
  qed
qed

lemma doc_loads: "doc_ok t \<Longrightarrow> loads fmt m t"
proof (induction t)
  case (JArr ts)
  then show ?case by (simp add: loads_def items_load list_all_iff)
next
  case (JObj kvs)
  have "loads fmt m (snd p)" if "p \<in> set kvs" for p
    using JObj that by (cases p) (fastforce simp: list_all_iff)
  then show ?case using members_load [of kvs fmt m] JObj.prems by (simp add: loads_def)
qed (simp_all add: loads_def)

text \<open>A whole document below an archive node.\<close>

lemma document_loads:
  assumes "rep (jm s) None (JObj kvs) j" "doc_ok (JObj kvs)" "nmem s a = Some n" "a < nnext s" "next_scope n = ET"
  shows "\<exists>s' t c. ldr_next_misc fmt (Misc [j] None a) s = Some s' \<and> only_new a s s' \<and>
    nmem s' a = Some (n\<lparr>next_scope := t, next_scope_size := c\<rparr>) \<and> wf_index t \<and>
    (\<forall>S dv segs. agree (nnext s) (nnext s') s' S \<longrightarrow> segs \<noteq> [] \<longrightarrow> rt_search_loop dv segs t S = Some (doc_read dv fmt segs kvs))"
proof -
  obtain cs where j: "items (jm s) j = Some \<lparr>jval = cJSON_Object, jstring = None, jchild = cs\<rparr>"
    "list_all2 (\<lambda>p c. rep (jm s) (Some (fst p)) (snd p) c) kvs cs" using assms(1) by auto
  have lm: "loads_members fmt (jm s) kvs" using doc_loads [OF assms(2), of fmt "jm s"] by (simp add: loads_def)
  have "ldr_next_misc fmt (Misc [j] None a) s = ldr_next_misc fmt (Misc cs (Some j) a) s"
    using j(1) by (simp add: ldr_next_misc.simps [of fmt "Misc [j] None a"])
  then obtain s' t c where s': "ldr_next_misc fmt (Misc [j] None a) s = Some s'" "only_new a s s'"
    "nmem s' a = Some (n\<lparr>next_scope := t, next_scope_size := c\<rparr>)" "wf_index t" "level_reads fmt (nnext s) (nnext s') s' t kvs"
    "\<And>name. fold_key name \<notin> keys_of kvs \<Longrightarrow> scope_search t name = None"
    using lm [unfolded loads_members_def, rule_format, of s cs a n "Some j"] j(2) assms(3-5)
    by (auto simp: names.inv_empty names.search_empty)
  have "rt_search_loop dv segs t S = Some (doc_read dv fmt segs kvs)" if "agree (nnext s) (nnext s') s' S" "segs \<noteq> []" for S dv segs
    using level_exact [OF s'(5) that] s'(6) by (simp add: keys_of_def)
  then show ?thesis using s'(1-4) by blast
qed

end
