(* ===== verification/Reload.thy ===== *)
theory Reload
  imports Document
begin

text \<open>
  Loading the file system: the loops over directories and archives, and the theorem that every key
  of every document reads in the new tree as it does in the document.
\<close>

section \<open>The loops over the slots\<close>

lemma misc_keeps_fs: "ldr_next_misc fmt w s = Some s' \<Longrightarrow> fsv s' = fsv s"
proof (erule ldr_next_misc.raw_induct [rotated 1, where P = "\<lambda>fmt w s s'. fsv s' = fsv s"], goal_cases)
  case (1 f fmt w s s')
  from 1(2) show ?case
    by (auto simp: Let_def ldr_new_field_def ldr_link_node_def ldr_new_item_def nnew_def nput_def
        split: load_work.splits list.splits jval.splits bind_splits if_splits option.splits dest!: 1(1))
qed


lemma one_archive_keeps_fs: "ldr_load_one_archive parse fmt D f s = Some s' \<Longrightarrow> fsv s' = fsv s"
  by (auto simp: ldr_load_one_archive_def ldr_create_archive_def nnew_def nput_def cJSON_CreateObject_def case_prod_unfold Let_def
      split: if_splits option.splits bind_splits dest!: misc_keeps_fs)

lemma seek_from_Some:
  "seek_from P xs i = Some k \<longleftrightarrow> i \<le> k \<and> k < length xs \<and> P (xs ! k) \<and> (\<forall>l. i \<le> l \<longrightarrow> l < k \<longrightarrow> \<not> P (xs ! l))"
proof (cases "i \<le> length xs")
  case True
  show ?thesis
  proof
    assume "seek_from P xs i = Some k"
    then obtain j where j: "find_index P (drop i xs) = Some j" "k = i + j" by auto
    then have "j < length xs - i" "P (xs ! k)" "\<forall>l<j. \<not> P (xs ! (i + l))" using True by (auto simp: find_index_Some)
    then show "i \<le> k \<and> k < length xs \<and> P (xs ! k) \<and> (\<forall>l. i \<le> l \<longrightarrow> l < k \<longrightarrow> \<not> P (xs ! l))"
      using j(2) by (auto simp: le_iff_add)
  next
    assume "i \<le> k \<and> k < length xs \<and> P (xs ! k) \<and> (\<forall>l. i \<le> l \<longrightarrow> l < k \<longrightarrow> \<not> P (xs ! l))"
    then have "find_index P (drop i xs) = Some (k - i)" using True by (auto simp: find_index_Some)
    then show "seek_from P xs i = Some k" using \<open>i \<le> k \<and> _\<close> by simp
  qed
qed auto

lemma seek_from_None: "i \<le> length xs \<Longrightarrow> seek_from P xs i = None \<longleftrightarrow> (\<forall>l. i \<le> l \<longrightarrow> l < length xs \<longrightarrow> \<not> P (xs ! l))"
proof -
  assume "i \<le> length xs"
  then have "find_index P (drop i xs) = None \<longleftrightarrow> (\<forall>l<length xs - i. \<not> P (xs ! (i + l)))"
    by (simp add: find_index_None all_set_conv_all_nth)
  also have "\<dots> \<longleftrightarrow> (\<forall>l. i \<le> l \<longrightarrow> l < length xs \<longrightarrow> \<not> P (xs ! l))"
    by (auto simp: le_iff_add)
  finally show ?thesis by simp
qed

declare seek_from.simps [simp del]

text \<open>The slots a walk visits: all that satisfy \<open>P\<close>, the last slot of the table excepted.\<close>

definition visited :: "('a \<Rightarrow> bool) \<Rightarrow> 'a list \<Rightarrow> nat \<Rightarrow> nat list" where
  "visited P xs i = filter (\<lambda>k. P (xs ! k)) [i..<length xs - 1]"

lemma visited_skip:
  assumes "\<And>l. i \<le> l \<Longrightarrow> l < k \<Longrightarrow> \<not> P (xs ! l)" "i \<le> k" "k \<le> length xs - 1"
  shows "visited P xs i = visited P xs k"
proof -
  have "[i..<length xs - 1] = [i..<k] @ [k..<length xs - 1]" using assms(2,3) by (metis le_add_diff_inverse upt_add_eq_append)
  moreover have "filter (\<lambda>k. P (xs ! k)) [i..<k] = []" using assms(1) by (auto simp: filter_empty_conv)
  ultimately show ?thesis by (simp add: visited_def)
qed

lemma visited_step:
  assumes "seek_from P xs i = Some k" "k + 1 < length xs"
  shows "visited P xs i = k # visited P xs (k + 1)"
proof -
  have k: "i \<le> k" "P (xs ! k)" "\<And>l. i \<le> l \<Longrightarrow> l < k \<Longrightarrow> \<not> P (xs ! l)" using assms(1) by (auto simp: seek_from_Some)
  then have "visited P xs i = visited P xs k" using assms(2) by (intro visited_skip) auto
  moreover have "[k..<length xs - 1] = k # [Suc k..<length xs - 1]" using assms(2) by (simp add: upt_conv_Cons)
  ultimately show ?thesis using k(2) by (simp add: visited_def)
qed

lemma visited_end:
  assumes "i \<le> length xs" "case seek_from P xs i of None \<Rightarrow> True | Some k \<Rightarrow> length xs \<le> k + 1"
  shows "visited P xs i = []"
proof -
  have "\<not> P (xs ! l)" if "i \<le> l" "l < length xs - 1" for l
  proof (cases "seek_from P xs i")
    case None
    then show ?thesis using that seek_from_None [OF assms(1), of P] by auto
  next
    case (Some k)
    then have "\<forall>l. i \<le> l \<longrightarrow> l < k \<longrightarrow> \<not> P (xs ! l)" by (simp add: seek_from_Some)
    then show ?thesis using that assms(2) Some by auto
  qed
  then show ?thesis by (auto simp: visited_def filter_empty_conv)
qed


lemma foldo_Cons: "foldo f (x # xs) s = f x s \<bind> foldo f xs"
  by (cases "f x s") simp_all

definition live_in :: "int \<Rightarrow> fs_archive \<Rightarrow> bool" where
  "live_in d f \<longleftrightarrow> aid f > 0 \<and> dirid f = d"

lemma archive_loop:
  assumes "length (archive (cache (fsv s))) = FS_MAX_ARCH" "i \<le> FS_MAX_ARCH"
  shows "ldr_filesystem_load_archive parse fmt D d (int i) s =
    foldo (\<lambda>k. ldr_load_one_archive parse fmt D (archive (cache (fsv s)) ! k)) (visited (live_in d) (archive (cache (fsv s))) i) s"
  using assms
proof (induction "FS_MAX_ARCH - i" arbitrary: i s rule: less_induct)
  case less
  let ?L = "cache (fsv s)"
  have P: "(\<lambda>a. aid a > 0 \<and> dirid a = d) = live_in d" by (auto simp: live_in_def)
  show ?case
  proof (cases "\<exists>k. seek_from (live_in d) (archive ?L) i = Some k \<and> k + 1 < FS_MAX_ARCH")
    case True
    then obtain k where k: "seek_from (live_in d) (archive ?L) i = Some k" "k + 1 < FS_MAX_ARCH" by blast
    then have ik: "i \<le> k" by (simp add: seek_from_Some)
    have "fs_seek_next_file (int i) d ?L = (Some k, int (k + 1))"
      using k ik less.prems by (simp add: fs_seek_next_file_def P)
    then have "ldr_filesystem_load_archive parse fmt D d (int i) s =
        ldr_load_one_archive parse fmt D (archive ?L ! k) s \<bind> ldr_filesystem_load_archive parse fmt D d (int (k + 1))"
      by (subst ldr_filesystem_load_archive.simps) simp
    also have "\<dots> = ldr_load_one_archive parse fmt D (archive ?L ! k) s \<bind>
        foldo (\<lambda>k. ldr_load_one_archive parse fmt D (archive ?L ! k)) (visited (live_in d) (archive ?L) (k + 1))"
    proof (rule bind_option_cong [OF refl])
      fix s1 assume "s1 \<in> set_option (ldr_load_one_archive parse fmt D (archive ?L ! k) s)"
      then have "fsv s1 = fsv s" by (auto dest: one_archive_keeps_fs)
      then show "ldr_filesystem_load_archive parse fmt D d (int (k + 1)) s1 =
          foldo (\<lambda>k. ldr_load_one_archive parse fmt D (archive ?L ! k)) (visited (live_in d) (archive ?L) (k + 1)) s1"
        using less.hyps [of "k + 1" s1] less.prems ik k(2) by simp
    qed
    finally show ?thesis using visited_step [OF k(1)] k(2) less.prems by (simp add: foldo_Cons del: foldo.simps)
  next
    case False
    then have "visited (live_in d) (archive ?L) i = []" using less.prems by (intro visited_end) (auto split: option.splits)
    moreover have "snd (fs_seek_next_file (int i) d ?L) < 0"
      using False by (auto simp: fs_seek_next_file_def P split: option.splits)
    ultimately show ?thesis by (subst ldr_filesystem_load_archive.simps) (simp add: case_prod_unfold)
  qed
qed


lemma archives_keep_fs: "ldr_filesystem_load_archive parse fmt D d next s = Some s' \<Longrightarrow> fsv s' = fsv s"
proof (erule ldr_filesystem_load_archive.raw_induct [rotated 1, where P = "\<lambda>parse fmt D d next s s'. fsv s' = fsv s"], goal_cases)
  case (1 f parse fmt D d idx s s')
  from 1(2) show ?case
    by (auto split: prod.splits if_splits option.splits bind_splits dest!: 1(1) one_archive_keeps_fs)
qed

lemma one_dir_keeps_fs: "ldr_load_one_dir parse fmt e s = Some s' \<Longrightarrow> fsv s' = fsv s"
  by (auto simp: ldr_load_one_dir_def nnew_def Let_def split: if_splits dest!: archives_keep_fs)

definition live_dir :: "fs_directory \<Rightarrow> bool" where
  "live_dir e \<longleftrightarrow> did e > 0"

lemma dir_loop:
  assumes "length (dir (cache (fsv s))) = FS_MAX_DIR" "i \<le> FS_MAX_DIR"
  shows "ldr_filesystem_load_dir parse fmt (int i) s =
    foldo (\<lambda>k. ldr_load_one_dir parse fmt (dir (cache (fsv s)) ! k)) (visited live_dir (dir (cache (fsv s))) i) s"
  using assms
proof (induction "FS_MAX_DIR - i" arbitrary: i s rule: less_induct)
  case less
  let ?L = "cache (fsv s)"
  have P: "(\<lambda>e. did e > 0) = live_dir" by (auto simp: live_dir_def)
  show ?case
  proof (cases "\<exists>k. seek_from live_dir (dir ?L) i = Some k \<and> k + 1 < FS_MAX_DIR")
    case True
    then obtain k where k: "seek_from live_dir (dir ?L) i = Some k" "k + 1 < FS_MAX_DIR" by blast
    then have ik: "i \<le> k" by (simp add: seek_from_Some)
    have "fs_seek_next_dir (int i) ?L = (Some k, int (k + 1))"
      using k ik less.prems by (simp add: fs_seek_next_dir_def P)
    then have "ldr_filesystem_load_dir parse fmt (int i) s =
        ldr_load_one_dir parse fmt (dir ?L ! k) s \<bind> ldr_filesystem_load_dir parse fmt (int (k + 1))"
      by (subst ldr_filesystem_load_dir.simps) simp
    also have "\<dots> = ldr_load_one_dir parse fmt (dir ?L ! k) s \<bind>
        foldo (\<lambda>k. ldr_load_one_dir parse fmt (dir ?L ! k)) (visited live_dir (dir ?L) (k + 1))"
    proof (rule bind_option_cong [OF refl])
      fix s1 assume "s1 \<in> set_option (ldr_load_one_dir parse fmt (dir ?L ! k) s)"
      then have "fsv s1 = fsv s" by (auto dest: one_dir_keeps_fs)
      then show "ldr_filesystem_load_dir parse fmt (int (k + 1)) s1 =
          foldo (\<lambda>k. ldr_load_one_dir parse fmt (dir ?L ! k)) (visited live_dir (dir ?L) (k + 1)) s1"
        using less.hyps [of "k + 1" s1] less.prems ik k(2) by simp
    qed
    finally show ?thesis using visited_step [OF k(1)] k(2) less.prems by (simp add: foldo_Cons del: foldo.simps)
  next
    case False
    then have "visited live_dir (dir ?L) i = []" using less.prems by (intro visited_end) (auto split: option.splits)
    moreover have "snd (fs_seek_next_dir (int i) ?L) \<le> 0"
      using False by (auto simp: fs_seek_next_dir_def P split: option.splits)
    ultimately show ?thesis by (subst ldr_filesystem_load_dir.simps) (simp add: case_prod_unfold)
  qed
qed

section \<open>Levels as lists of entries\<close>

text \<open>
  What an entry of a level answers, given the old value, its segment and the segments behind it.
\<close>

type_synonym reader = "string \<Rightarrow> segment list \<Rightarrow> string option"

definition entry_reads :: "addr \<Rightarrow> addr \<Rightarrow> 'd rt \<Rightarrow> addr \<Rightarrow> reader \<Rightarrow> bool" where
  "entry_reads lo hi s a rd \<longleftrightarrow> (\<forall>S dv sg rest. agree lo hi s S \<longrightarrow> rt_node dv sg rest a S = Some (rd dv rest))"

definition entries_read :: "addr \<Rightarrow> addr \<Rightarrow> 'd rt \<Rightarrow> scope_index avltree \<Rightarrow> (string \<times> reader) list \<Rightarrow> bool" where
  "entries_read lo hi s t es \<longleftrightarrow> wf_index t \<and>
     (\<forall>name. fold_key name \<notin> fold_key ` fst ` set es \<longrightarrow> scope_search t name = None) \<and>
     (\<forall>e\<in>set es. \<exists>a. scope_search t (fst e) = Some a \<and> entry_reads lo hi s a (snd e))"

definition fs_reader :: "string \<Rightarrow> reader \<Rightarrow> reader" where
  "fs_reader val below dv rest = (if rest = [] then Some val else below dv rest)"

text \<open>A directory or an archive answers with its path, or hands the rest of the key down.\<close>

lemma fs_node_reads:
  assumes "nmem s a = Some n" "lo \<le> a" "a < hi" "njsl n = JSL_DIR \<or> njsl n = JSL_ARCHIVE" "val = scope_value n"
    and "\<And>S dv segs. agree lo hi s S \<Longrightarrow> segs \<noteq> [] \<Longrightarrow> rt_search_loop dv segs (next_scope n) S = Some (below dv segs)"
  shows "entry_reads lo hi s a (fs_reader val below)"
  unfolding entry_reads_def
proof (intro allI impI)
  fix S dv and sg :: segment and rest
  assume S: "agree lo hi s S"
  then have "nmem S a = Some n" using assms(1-3) by (simp add: agree_def)
  then have "rt_node dv sg rest a S = (if rest = [] then Some (Some val) else rt_search_loop dv rest (next_scope n) S)"
    using assms(4,5) unfolding rt_node_def rt_search_loop.simps search_one by (elim disjE) simp_all
  then show "rt_node dv sg rest a S = Some (fs_reader val below dv rest)"
    using assms(6) [OF S, of rest dv] by (simp add: fs_reader_def)
qed

lemma entry_reads_agree: "entry_reads lo hi s a rd \<Longrightarrow> agree lo hi s s' \<Longrightarrow> entry_reads lo hi s' a rd"
  unfolding entry_reads_def by (meson agree_trans)

lemma entry_reads_range: "entry_reads lo hi s a rd \<Longrightarrow> lo' \<le> lo \<Longrightarrow> hi \<le> hi' \<Longrightarrow> entry_reads lo' hi' s a rd"
  unfolding entry_reads_def by (meson agree_sub)

lemma entries_read_mono:
  assumes "entries_read lo hi s t es" "agree lo hi s s'" "lo' \<le> lo" "hi \<le> hi'"
  shows "entries_read lo' hi' s' t es"
  using assms entry_reads_range [OF entry_reads_agree] unfolding entries_read_def by meson

lemma entries_read_insert:
  assumes "entries_read lo hi s t es" "entry_reads lo hi s a rd" "fold_key k \<notin> fold_key ` fst ` set es"
  shows "entries_read lo hi s (scope_insert t k a) (es @ [(k, rd)])"
proof -
  have t: "wf_index t" and none: "scope_search t k = None" using assms(1,3) by (auto simp: entries_read_def)
  note ins = names.search_insert [OF t none, of a]
  have "\<exists>b. scope_search (scope_insert t k a) (fst e) = Some b \<and> entry_reads lo hi s b (snd e)" if "e \<in> set (es @ [(k, rd)])" for e
  proof (cases "e \<in> set es")
    case True
    then have "fold_key (fst e) \<noteq> fold_key k" using assms(3) by (metis imageI)
    then show ?thesis using True assms(1) ins by (auto simp: entries_read_def)
  next
    case False
    then show ?thesis using that assms(2) ins by auto
  qed
  then show ?thesis using assms(1) ins names.inv_insert [OF t] by (auto simp: entries_read_def)
qed

lemma entries_answer:
  assumes "entries_read lo hi s t es" "(k, rd) \<in> set es" "fold_key (sname sg) = fold_key k" "agree lo hi s S"
  shows "rt_search_loop dv (sg # rest) t S = Some (rd dv rest)"
proof -
  obtain a where a: "scope_search t k = Some a" "entry_reads lo hi s a rd" and t: "wf_index t"
    using assms(1,2) by (force simp: entries_read_def)
  have "scope_search t (sname sg) = Some a" using a(1) names.search_case [OF t assms(3)] by simp
  then show ?thesis using a(2) assms(4) by (simp add: search_node entry_reads_def)
qed


section \<open>Loading archives and directories\<close>

text \<open>As \<open>only_new\<close>, but the JSON memory may grow.\<close>

definition kept :: "addr \<Rightarrow> 'd rt \<Rightarrow> 'd rt \<Rightarrow> bool" where
  "kept keep s s' \<longleftrightarrow> root s' = root s \<and> fsv s' = fsv s \<and> nnext s \<le> nnext s' \<and> (\<forall>a<nnext s. a \<noteq> keep \<longrightarrow> nmem s' a = nmem s a)"

lemma kept_refl [simp]: "kept keep s s"
  by (simp add: kept_def)

lemma kept_trans: "kept keep s t \<Longrightarrow> kept keep t u \<Longrightarrow> kept keep s u"
  by (auto simp: kept_def)

lemma kept_agree: "kept keep s s' \<Longrightarrow> keep < lo \<Longrightarrow> hi \<le> nnext s \<Longrightarrow> agree lo hi s s'"
  by (auto simp: kept_def agree_def)

text \<open>
  An archive whose text the parser turns into the document \<open>kvs\<close> that the daemon can keep, and whose
  path below the directory path \<open>base\<close> fits a node.
\<close>

definition archive_doc :: "'d parser \<Rightarrow> string \<Rightarrow> fs_archive \<Rightarrow> (string \<times> 'd json) list \<Rightarrow> bool" where
  "archive_doc parse base f kvs \<longleftrightarrow> aname f \<noteq> [] \<and> doc_ok (JObj kvs) \<and>
     length (base @ archive_scope_name (aname f) @ ''.json'') < MAX_VALUE_SIZE \<and>
     (\<forall>m. \<exists>j m'. parse (cstr (adata f)) m = Some (j, m') \<and> rep m' None (JObj kvs) j)"

definition archive_entry :: "('d \<Rightarrow> string) \<Rightarrow> string \<Rightarrow> fs_archive \<Rightarrow> (string \<times> 'd json) list \<Rightarrow> string \<times> reader" where
  "archive_entry fmt base f kvs = (archive_scope_name (aname f),
     fs_reader (base @ archive_scope_name (aname f) @ ''.json'') (\<lambda>dv segs. doc_read dv fmt segs kvs))"

lemma one_archive_loads:
  assumes "archive_doc parse (scope_value p) f kvs" "nmem s D = Some p" "njsl p = JSL_DIR" "D < nnext s"
    and "entries_read lo (nnext s) s (next_scope p) es" "D < lo" "lo \<le> nnext s"
    and "fold_key (archive_scope_name (aname f)) \<notin> fold_key ` fst ` set es"
  shows "\<exists>s' t c. ldr_load_one_archive parse fmt D f s = Some s' \<and> kept D s s' \<and>
    nmem s' D = Some (p\<lparr>next_scope := t, next_scope_size := c\<rparr>) \<and>
    entries_read lo (nnext s') s' t (es @ [archive_entry fmt (scope_value p) f kvs])"
proof -
  let ?k = "archive_scope_name (aname f)"
  let ?sv = "scope_value p @ ?k @ ''.json''"
  obtain j m where j: "parse (cstr (adata f)) (jm s) = Some (j, m)" "rep m None (JObj kvs) j"
    using assms(1) unfolding archive_doc_def by blast
  have ok: "aname f \<noteq> []" "doc_ok (JObj kvs)" "length ?sv < MAX_VALUE_SIZE" using assms(1) by (simp_all add: archive_doc_def)
  let ?a = "nnext s" and ?t = "scope_insert (next_scope p) ?k (nnext s)"
  let ?p = "p\<lparr>next_scope := ?t, next_scope_size := next_scope_size p + 1\<rparr>"
  let ?n = "blank_node\<lparr>scope_name := ?k, scope_value := ?sv, njsl := JSL_ARCHIVE, jsonptr := Some j, parentnode := Some D, nsection := asection f\<rparr>"
  define s1 where "s1 = nput D ?p (snd (nnew (?n\<lparr>nsection := -1\<rparr>) (s\<lparr>jm := m\<rparr>)))"
  define s2 where "s2 = nput ?a ?n s1"
  have ne: "D \<noteq> ?a" using assms(4) by simp
  have run: "ldr_load_one_archive parse fmt D f s = ldr_next_misc fmt (Misc [j] None ?a) s2"
  proof -
    have "ldr_create_archive D (aname f) (Some j) (s\<lparr>jm := m\<rparr>) = Some (Some ?a, s1)"
      using assms(2,3) ok(3) by (simp add: ldr_create_archive_def s1_def nnew_def Let_def)
    moreover have "nmem s1 ?a = Some (?n\<lparr>nsection := -1\<rparr>)" using ne by (simp add: s1_def nput_def nnew_def)
    ultimately show ?thesis using j(1) ok(1) by (simp add: ldr_load_one_archive_def s2_def)
  qed
  have s2: "jm s2 = m" "nmem s2 ?a = Some ?n" "nnext s2 = Suc ?a" "nmem s2 D = Some ?p" "kept D s s2"
    using ne by (auto simp: s2_def s1_def kept_def nput_def nnew_def)
  have r: "rep (jm s2) None (JObj kvs) j" "?a < nnext s2" "next_scope ?n = ET" using j(2) s2(1,3) by (simp_all add: blank_node_def)
  obtain s' t c where s': "ldr_next_misc fmt (Misc [j] None ?a) s2 = Some s'" "only_new ?a s2 s'"
    "nmem s' ?a = Some (?n\<lparr>next_scope := t, next_scope_size := c\<rparr>)" "wf_index t"
    "\<And>S dv segs. agree (nnext s2) (nnext s') s' S \<Longrightarrow> segs \<noteq> [] \<Longrightarrow> rt_search_loop dv segs t S = Some (doc_read dv fmt segs kvs)"
    using document_loads [OF r(1) ok(2) s2(2) r(2,3), of fmt] by blast
  have k: "kept D s s'" "nmem s' D = Some ?p" and lt: "?a < nnext s'"
    using s2(3-5) s'(2) ne assms(4) by (auto simp: kept_def only_new_def)
  have "entry_reads ?a (nnext s') s' ?a (snd (archive_entry fmt (scope_value p) f kvs))"
    unfolding archive_entry_def snd_conv
  proof (rule fs_node_reads [OF s'(3) order_refl lt])
    fix S dv and segs :: "segment list"
    assume S: "agree ?a (nnext s') s' S" and segs: "segs \<noteq> []"
    have "agree (nnext s2) (nnext s') s' S" using S by (rule agree_sub) (simp_all add: s2(3))
    from s'(5) [OF this segs, of dv]
    show "rt_search_loop dv segs (next_scope (?n\<lparr>next_scope := t, next_scope_size := c\<rparr>)) S = Some (doc_read dv fmt segs kvs)" by simp
  qed simp_all
  then have new: "entry_reads lo (nnext s') s' ?a (snd (archive_entry fmt (scope_value p) f kvs))"
    using assms(7) by (rule entry_reads_range) simp
  have "agree lo (nnext s) s s'" by (rule kept_agree [OF k(1) assms(6)]) simp
  then have old: "entries_read lo (nnext s') s' (next_scope p) es"
    by (rule entries_read_mono [OF assms(5)]) (use k(1) in \<open>simp_all add: kept_def\<close>)
  have "entries_read lo (nnext s') s' ?t (es @ [archive_entry fmt (scope_value p) f kvs])"
    using entries_read_insert [OF old new assms(8)] by (simp add: archive_entry_def)
  then show ?thesis using run s'(1) k by auto
qed


lemma foldo_map: "foldo f (map g xs) s = foldo (\<lambda>x. f (g x)) xs s"
  by (induction xs arbitrary: s) (auto split: option.splits)

text \<open>The archives of one directory, each with the document \<open>docs\<close> gives for it.\<close>

lemma archives_load:
  assumes "\<forall>f\<in>set fs. archive_doc parse (scope_value p) f (docs f)" "nmem s D = Some p" "njsl p = JSL_DIR" "D < nnext s"
    and "entries_read lo (nnext s) s (next_scope p) es" "D < lo" "lo \<le> nnext s"
    and "distinct (map (\<lambda>f. fold_key (archive_scope_name (aname f))) fs)"
    and "\<forall>f\<in>set fs. fold_key (archive_scope_name (aname f)) \<notin> fold_key ` fst ` set es"
  shows "\<exists>s' t c. foldo (ldr_load_one_archive parse fmt D) fs s = Some s' \<and> kept D s s' \<and>
    nmem s' D = Some (p\<lparr>next_scope := t, next_scope_size := c\<rparr>) \<and>
    entries_read lo (nnext s') s' t (es @ map (\<lambda>f. archive_entry fmt (scope_value p) f (docs f)) fs)"
  using assms
proof (induction fs arbitrary: s p es)
  case Nil
  then show ?case by (intro exI [of _ s] exI [of _ "next_scope p"] exI [of _ "next_scope_size p"]) simp
next
  case (Cons f fs)
  let ?E = "archive_entry fmt (scope_value p) f (docs f)"
  have f: "archive_doc parse (scope_value p) f (docs f)" "fold_key (archive_scope_name (aname f)) \<notin> fold_key ` fst ` set es"
    using Cons.prems(1,9) by simp_all
  obtain s1 t c where s1: "ldr_load_one_archive parse fmt D f s = Some s1" "kept D s s1"
    "nmem s1 D = Some (p\<lparr>next_scope := t, next_scope_size := c\<rparr>)" "entries_read lo (nnext s1) s1 t (es @ [?E])"
    using one_archive_loads [OF f(1) Cons.prems(2-7) f(2), of fmt] by blast
  let ?p = "p\<lparr>next_scope := t, next_scope_size := c\<rparr>"
  have le: "nnext s \<le> nnext s1" using s1(2) by (simp add: kept_def)
  have new: "\<forall>g\<in>set fs. fold_key (archive_scope_name (aname g)) \<notin> fold_key ` fst ` set (es @ [?E])"
  proof
    fix g assume g: "g \<in> set fs"
    then have "fold_key (archive_scope_name (aname g)) \<notin> fold_key ` fst ` set es" using Cons.prems(9) by simp
    moreover have "fold_key (archive_scope_name (aname g)) \<noteq> fold_key (archive_scope_name (aname f))"
      using g Cons.prems(8) by (metis (mono_tags, lifting) distinct.simps(2) image_eqI list.set_map list.simps(9))
    ultimately show "fold_key (archive_scope_name (aname g)) \<notin> fold_key ` fst ` set (es @ [?E])" by (simp add: archive_entry_def)
  qed
  have "\<exists>s' t' c'. foldo (ldr_load_one_archive parse fmt D) fs s1 = Some s' \<and> kept D s1 s' \<and>
    nmem s' D = Some (?p\<lparr>next_scope := t', next_scope_size := c'\<rparr>) \<and>
    entries_read lo (nnext s') s' t' ((es @ [?E]) @ map (\<lambda>f. archive_entry fmt (scope_value ?p) f (docs f)) fs)"
    by (rule Cons.IH [OF _ s1(3) _ _ _ Cons.prems(6)]) (use Cons.prems(1,3,4,7,8) s1(4) le new in simp_all)
  then obtain s' t' c' where s': "foldo (ldr_load_one_archive parse fmt D) fs s1 = Some s'" "kept D s1 s'"
    "nmem s' D = Some (p\<lparr>next_scope := t', next_scope_size := c'\<rparr>)"
    "entries_read lo (nnext s') s' t' (es @ map (\<lambda>f. archive_entry fmt (scope_value p) f (docs f)) (f # fs))"
    by auto
  have "foldo (ldr_load_one_archive parse fmt D) (f # fs) s = Some s'" using s1(1) s'(1) by simp
  then show ?case using kept_trans [OF s1(2) s'(2)] s'(3,4) by blast
qed

section \<open>What the loaded tree answers\<close>

text \<open>
  Reading at a level given by the list of its entries, and the entries of a directory and of the
  root: the slots in use whose name is not empty, the last slot of each table excepted.
\<close>

fun level_reader :: "(string \<times> reader) list \<Rightarrow> reader" where
  "level_reader es dv [] = Some dv"
| "level_reader es dv (sg # rest) =
     (case List.find (\<lambda>e. fold_key (fst e) = fold_key (sname sg)) es of
        None \<Rightarrow> None
      | Some e \<Rightarrow> snd e dv rest)"

definition dir_path :: "fs_directory \<Rightarrow> string" where
  "dir_path e = cut_value (''jessfs/'' @ dname e @ ''/'')"

definition dir_archives :: "layout \<Rightarrow> fs_directory \<Rightarrow> fs_archive list" where
  "dir_archives L e = map (nth (archive L)) (visited (live_in (did e)) (archive L) 0)"

definition loaded_dirs :: "layout \<Rightarrow> fs_directory list" where
  "loaded_dirs L = map (nth (dir L)) (visited live_dir (dir L) 0)"

definition dir_entry :: "('d \<Rightarrow> string) \<Rightarrow> (fs_archive \<Rightarrow> (string \<times> 'd json) list) \<Rightarrow> layout \<Rightarrow> fs_directory \<Rightarrow> string \<times> reader" where
  "dir_entry fmt docs L e = (dname e,
     fs_reader (dir_path e) (level_reader (map (\<lambda>f. archive_entry fmt (dir_path e) f (docs f)) (dir_archives L e))))"

definition files_read :: "('d \<Rightarrow> string) \<Rightarrow> (fs_archive \<Rightarrow> (string \<times> 'd json) list) \<Rightarrow> layout \<Rightarrow> reader" where
  "files_read fmt docs L = level_reader (map (dir_entry fmt docs L) (loaded_dirs L))"

text \<open>
  The layouts the loader keeps as they are: every directory has a name, names differ at their
  level, letter case aside, and every archive holds a document.
\<close>

definition loadable :: "'d parser \<Rightarrow> (fs_archive \<Rightarrow> (string \<times> 'd json) list) \<Rightarrow> layout \<Rightarrow> bool" where
  "loadable parse docs L \<longleftrightarrow> length (dir L) = FS_MAX_DIR \<and> length (archive L) = FS_MAX_ARCH \<and>
     distinct (map (\<lambda>e. fold_key (dname e)) (loaded_dirs L)) \<and>
     (\<forall>e\<in>set (loaded_dirs L). dname e \<noteq> [] \<and>
        distinct (map (\<lambda>f. fold_key (archive_scope_name (aname f))) (dir_archives L e)) \<and>
        (\<forall>f\<in>set (dir_archives L e). archive_doc parse (dir_path e) f (docs f)))"

lemma entries_exact:
  assumes "entries_read lo hi s t es" "agree lo hi s S"
  shows "rt_search_loop dv segs t S = Some (level_reader es dv segs)"
proof (cases segs)
  case (Cons sg rest)
  show ?thesis
  proof (cases "List.find (\<lambda>e. fold_key (fst e) = fold_key (sname sg)) es")
    case None
    then have "fold_key (sname sg) \<notin> fold_key ` fst ` set es" by (auto simp: find_None_iff)
    then have "scope_search t (sname sg) = None" using assms(1) by (simp add: entries_read_def)
    then show ?thesis using None Cons by (simp add: rt_search_loop.simps(2))
  next
    case (Some e)
    then have "(fst e, snd e) \<in> set es" "fold_key (sname sg) = fold_key (fst e)" by (auto simp: find_Some_iff)
    from entries_answer [OF assms(1) this assms(2)] show ?thesis using Some Cons by simp
  qed
qed simp


lemma one_dir_loads:
  fixes s :: "'d rt"
  assumes "dname e \<noteq> []" "length (archive (cache (fsv s))) = FS_MAX_ARCH"
    and "distinct (map (\<lambda>f. fold_key (archive_scope_name (aname f))) (dir_archives (cache (fsv s)) e))"
    and "\<forall>f\<in>set (dir_archives (cache (fsv s)) e). archive_doc parse (dir_path e) f (docs f)"
    and "entries_read 0 (nnext s) s (root s) es" "fold_key (dname e) \<notin> fold_key ` fst ` set es"
  shows "\<exists>s'. ldr_load_one_dir parse fmt e s = Some s' \<and> fsv s' = fsv s \<and>
    entries_read 0 (nnext s') s' (root s') (es @ [dir_entry fmt docs (cache (fsv s)) e])"
proof -
  let ?L = "cache (fsv s)" and ?a = "nnext s"
  let ?fs = "dir_archives ?L e"
  define n where "n = blank_node\<lparr>scope_name := dname e, scope_value := dir_path e, njsl := JSL_DIR\<rparr>"
  define s1 where "s1 = (snd (nnew n s))\<lparr>root := scope_insert (root s) (dname e) ?a\<rparr>"
  have s1: "nmem s1 ?a = Some n" "nnext s1 = Suc ?a" "fsv s1 = fsv s" "\<And>b. b \<noteq> ?a \<Longrightarrow> nmem s1 b = nmem s b"
    by (simp_all add: s1_def nnew_def)
  have n: "njsl n = JSL_DIR" "scope_value n = dir_path e" "next_scope n = ET" by (simp_all add: n_def blank_node_def)
  have "ldr_load_one_dir parse fmt e s = ldr_filesystem_load_archive parse fmt ?a (did e) (int 0) s1"
    using assms(1) by (simp add: ldr_load_one_dir_def s1_def n_def dir_path_def nnew_def)
  also have "\<dots> = foldo (ldr_load_one_archive parse fmt ?a) ?fs s1"
    using archive_loop [of s1 0] assms(2) s1(3) by (simp add: dir_archives_def foldo_map)
  finally have run: "ldr_load_one_dir parse fmt e s = foldo (ldr_load_one_archive parse fmt ?a) ?fs s1" .
  have start: "entries_read (Suc ?a) (nnext s1) s1 (next_scope n) []"
    by (simp add: entries_read_def n names.inv_empty names.search_empty)
  have "\<exists>s' t c. foldo (ldr_load_one_archive parse fmt ?a) ?fs s1 = Some s' \<and> kept ?a s1 s' \<and>
    nmem s' ?a = Some (n\<lparr>next_scope := t, next_scope_size := c\<rparr>) \<and>
    entries_read (Suc ?a) (nnext s') s' t ([] @ map (\<lambda>f. archive_entry fmt (scope_value n) f (docs f)) ?fs)"
    by (rule archives_load [OF _ s1(1) n(1) _ start]) (use assms(3,4) s1(2) n(2) in simp_all)
  then obtain s' t c where s': "foldo (ldr_load_one_archive parse fmt ?a) ?fs s1 = Some s'" "kept ?a s1 s'"
    "nmem s' ?a = Some (n\<lparr>next_scope := t, next_scope_size := c\<rparr>)"
    "entries_read (Suc ?a) (nnext s') s' t (map (\<lambda>f. archive_entry fmt (dir_path e) f (docs f)) ?fs)"
    using n(2) by auto
  have k: "root s' = scope_insert (root s) (dname e) ?a" "fsv s' = fsv s" "Suc ?a \<le> nnext s'" "agree 0 ?a s s'"
    using s'(2) s1 by (auto simp: kept_def agree_def s1_def)
  have "entry_reads 0 (nnext s') s' ?a (snd (dir_entry fmt docs ?L e))"
    unfolding dir_entry_def snd_conv
  proof (rule fs_node_reads [OF s'(3)])
    fix S dv and segs :: "segment list"
    assume "agree 0 (nnext s') s' S"
    then have "agree (Suc ?a) (nnext s') s' S" by (rule agree_sub) simp_all
    from entries_exact [OF s'(4) this]
    show "rt_search_loop dv segs (next_scope (n\<lparr>next_scope := t, next_scope_size := c\<rparr>)) S =
        Some (level_reader (map (\<lambda>f. archive_entry fmt (dir_path e) f (docs f)) ?fs) dv segs)" by simp
  qed (use k(3) n in simp_all)
  moreover have "entries_read 0 (nnext s') s' (root s) es"
    by (rule entries_read_mono [OF assms(5) k(4)]) (use k(3) in simp_all)
  ultimately have "entries_read 0 (nnext s') s' (root s') (es @ [dir_entry fmt docs ?L e])"
    using entries_read_insert [OF _ _ assms(6)] by (simp add: k(1) dir_entry_def)
  then show ?thesis using run s'(1) k(2) by auto
qed

lemma dirs_load:
  fixes s :: "'d rt"
  assumes "L = cache (fsv s)" "length (archive L) = FS_MAX_ARCH"
    and "\<forall>e\<in>set ds. dname e \<noteq> [] \<and> distinct (map (\<lambda>f. fold_key (archive_scope_name (aname f))) (dir_archives L e)) \<and>
        (\<forall>f\<in>set (dir_archives L e). archive_doc parse (dir_path e) f (docs f))"
    and "entries_read 0 (nnext s) s (root s) es" "distinct (map (\<lambda>e. fold_key (dname e)) ds)"
    and "\<forall>e\<in>set ds. fold_key (dname e) \<notin> fold_key ` fst ` set es"
  shows "\<exists>s'. foldo (ldr_load_one_dir parse fmt) ds s = Some s' \<and> fsv s' = fsv s \<and>
    entries_read 0 (nnext s') s' (root s') (es @ map (dir_entry fmt docs L) ds)"
  using assms
proof (induction ds arbitrary: s es)
  case (Cons e ds)
  obtain s1 where s1: "ldr_load_one_dir parse fmt e s = Some s1" "fsv s1 = fsv s"
    "entries_read 0 (nnext s1) s1 (root s1) (es @ [dir_entry fmt docs L e])"
    using one_dir_loads [of e s parse docs es fmt] Cons.prems by auto
  have new: "\<forall>g\<in>set ds. fold_key (dname g) \<notin> fold_key ` fst ` set (es @ [dir_entry fmt docs L e])"
  proof
    fix g assume g: "g \<in> set ds"
    then have "fold_key (dname g) \<notin> fold_key ` fst ` set es" using Cons.prems(6) by simp
    moreover have "fold_key (dname g) \<noteq> fold_key (dname e)"
      using g Cons.prems(5) by (metis (mono_tags, lifting) distinct.simps(2) image_eqI list.set_map list.simps(9))
    ultimately show "fold_key (dname g) \<notin> fold_key ` fst ` set (es @ [dir_entry fmt docs L e])" by (simp add: dir_entry_def)
  qed
  have "\<exists>s'. foldo (ldr_load_one_dir parse fmt) ds s1 = Some s' \<and> fsv s' = fsv s1 \<and>
    entries_read 0 (nnext s') s' (root s') ((es @ [dir_entry fmt docs L e]) @ map (dir_entry fmt docs L) ds)"
    by (rule Cons.IH [OF _ Cons.prems(2) _ s1(3) _ new]) (use Cons.prems(1,3,5) s1(2) in simp_all)
  then show ?case using s1(1,2) by auto
qed auto

lemma files_load:
  assumes "loadable parse docs (cache (fsv s))" "root s = ET"
  shows "\<exists>s'. ldr_load_filesystem parse fmt s = Some s' \<and> fsv s' = fsv s \<and>
    (\<forall>jrp. rt_search jrp s' = Some (files_read fmt docs (cache (fsv s)) (dupvalue jrp) (segm jrp)))"
proof -
  let ?L = "cache (fsv s)"
  have "ldr_load_filesystem parse fmt s = ldr_filesystem_load_dir parse fmt (int 0) s" by (simp add: ldr_load_filesystem_def)
  also have "\<dots> = foldo (ldr_load_one_dir parse fmt) (loaded_dirs ?L) s"
    using dir_loop [of s 0] assms(1) by (simp add: loadable_def loaded_dirs_def foldo_map)
  finally have run: "ldr_load_filesystem parse fmt s = foldo (ldr_load_one_dir parse fmt) (loaded_dirs ?L) s" .
  have "entries_read 0 (nnext s) s (root s) []"
    using assms(2) by (simp add: entries_read_def names.inv_empty names.search_empty)
  then obtain s' where s': "foldo (ldr_load_one_dir parse fmt) (loaded_dirs ?L) s = Some s'" "fsv s' = fsv s"
    "entries_read 0 (nnext s') s' (root s') (map (dir_entry fmt docs ?L) (loaded_dirs ?L))"
    using dirs_load [OF refl, of s "loaded_dirs ?L" parse docs "[]" fmt] assms(1) by (auto simp: loadable_def)
  have "rt_search jrp s' = Some (files_read fmt docs ?L (dupvalue jrp) (segm jrp))" for jrp
    using entries_exact [OF s'(3), of s'] by (simp add: rt_search_def files_read_def agree_def)
  then show ?thesis using run s' by auto
qed


section \<open>Documents the daemon saved\<close>

text \<open>
  A layout in which every loaded archive holds the text the printer gives for the document \<open>docs\<close>
  assigns to it: its names and values fit the tree (\<open>doc_ok\<close>) and the text form (\<open>printable\<close>).
\<close>

definition saved_archive :: "'d conv \<Rightarrow> (fs_archive \<Rightarrow> (string \<times> 'd json) list) \<Rightarrow> string \<Rightarrow> fs_archive \<Rightarrow> bool" where
  "saved_archive F docs base f \<longleftrightarrow> aname f \<noteq> [] \<and> doc_ok (JObj (docs f)) \<and> printable (exact_number F) 0 (JObj (docs f)) \<and>
     length (base @ archive_scope_name (aname f) @ ''.json'') < MAX_VALUE_SIZE \<and>
     cjson_print F False (JObj (docs f)) = Some (cstr (adata f))"

definition saved :: "'d conv \<Rightarrow> (fs_archive \<Rightarrow> (string \<times> 'd json) list) \<Rightarrow> layout \<Rightarrow> bool" where
  "saved F docs L \<longleftrightarrow> length (dir L) = FS_MAX_DIR \<and> length (archive L) = FS_MAX_ARCH \<and>
     distinct (map (\<lambda>e. fold_key (dname e)) (loaded_dirs L)) \<and>
     list_all (\<lambda>e. dname e \<noteq> [] \<and>
        distinct (map (\<lambda>f. fold_key (archive_scope_name (aname f))) (dir_archives L e)) \<and>
        list_all (saved_archive F docs (dir_path e)) (dir_archives L e)) (loaded_dirs L)"

lemma saved_archive_doc:
  assumes "saved_archive F docs base f"
  shows "archive_doc (cJSON_Parse F) base f (docs f)"
proof -
  have s: "aname f \<noteq> []" "doc_ok (JObj (docs f))" "printable (exact_number F) 0 (JObj (docs f))"
    "length (base @ archive_scope_name (aname f) @ ''.json'') < MAX_VALUE_SIZE" "cjson_print F False (JObj (docs f)) = Some (cstr (adata f))"
    using assms by (simp_all add: saved_archive_def)
  have "parse_with_opts F False (cstr (adata f)) = Some (JObj (docs f), [NUL])"
    using parse_rendered [OF s(3), of False False] cjson_print_text [OF s(5)] by simp
  from parse_stored [OF this] show ?thesis using s(1,2,4) by (auto simp: archive_doc_def)
qed

lemma saved_loadable: "saved F docs L \<Longrightarrow> loadable (cJSON_Parse F) docs L"
  using saved_archive_doc by (fastforce simp: saved_def loadable_def list_all_iff)

text \<open>
  C4: a start of the daemon on archives that the printer wrote succeeds, and every key, of a
  directory, an archive, a field, an array item or an array size, reads in the new tree exactly what
  it reads in the saved documents: no key is lost, changed or added. The slots that are loaded are
  those in use but the last slot of each table, which the loops of the loader never reach.
\<close>

theorem load_filesystem_reads:
  assumes "saved F docs (cache (fsv s))" "root s = ET"
  shows "\<exists>s'. ldr_load_filesystem (cJSON_Parse F) fmt s = Some s' \<and> fsv s' = fsv s \<and>
    (\<forall>jrp. rt_search jrp s' = Some (files_read fmt docs (cache (fsv s)) (dupvalue jrp) (segm jrp)))"
  by (rule files_load [OF saved_loadable [OF assms(1)] assms(2)])

lemma visited_first: "\<not> P x \<Longrightarrow> 1 < n \<Longrightarrow> visited P ((replicate n x)[0 := y]) 0 = (if P y then [0] else [])"
proof -
  assume h: "\<not> P x" "1 < n"
  then have "visited P ((replicate n x)[0 := y]) 0 = filter (\<lambda>k. P ((replicate n x)[0 := y] ! k)) (0 # [1..<n - 1])"
    by (simp add: visited_def upt_conv_Cons)
  moreover have "filter (\<lambda>k. P ((replicate n x)[0 := y] ! k)) [1..<n - 1] = []" using h by (auto simp: filter_empty_conv)
  ultimately show ?thesis using h by auto
qed

definition kept_doc :: "(string \<times> int json) list" where
  "kept_doc = [(''port'', JObj [(''baud'', JStr ''9600'')])]"

definition kept_archive :: fs_archive where
  "kept_archive = \<lparr>aid = 1, aname = ''serial'', dirid = 1, asize = 24, asection = 0, adata = render int_conv False 0 (JObj kept_doc) @ [NUL]\<rparr>"

definition kept_layout :: layout where
  "kept_layout = zero_layout\<lparr>dir := (replicate FS_MAX_DIR zero_dir)[0 := \<lparr>did = 1, dname = ''io''\<rparr>],
     archive := (replicate FS_MAX_ARCH zero_archive)[0 := kept_archive]\<rparr>"

lemma kept_slots:
  "loaded_dirs kept_layout = [\<lparr>did = 1, dname = ''io''\<rparr>]" "dir_archives kept_layout \<lparr>did = 1, dname = ''io''\<rparr> = [kept_archive]"
  by (simp_all add: loaded_dirs_def dir_archives_def kept_layout_def visited_first live_dir_def live_in_def zero_dir_def
      zero_archive_def kept_archive_def FS_MAX_DIR_def FS_MAX_ARCH_def)

lemma kept_printable: "printable (exact_number int_conv) 0 (JObj kept_doc)"
  by (simp add: kept_doc_def CJSON_NESTING_LIMIT_def NUL_def)

lemma kept_saved: "saved int_conv (\<lambda>_. kept_doc) kept_layout"
proof -
  have t: "cstr (adata kept_archive) = render int_conv False 0 (JObj kept_doc)"
    using render_no_NUL(1) [OF kept_printable, of False 0] unfolding kept_archive_def fs_archive.simps cstr_append_NUL by (rule cstr_id)
  have p: "cjson_print int_conv False (JObj kept_doc) = Some (render int_conv False 0 (JObj kept_doc))"
    by (rule cjson_print_total [OF printable_fits [OF kept_printable]])
       (simp add: kept_doc_def quoted_def escape_char_def QUOTE_def BACKSLASH_def INT_MAX_def NUL_def)
  have d: "doc_ok (JObj kept_doc)" by code_simp
  have a: "aname kept_archive = ''serial''" "archive_scope_name ''serial'' = ''serial''" by code_simp+
  have "saved_archive int_conv (\<lambda>_. kept_doc) (dir_path \<lparr>did = 1, dname = ''io''\<rparr>) kept_archive"
    using kept_printable p t d a by (simp add: saved_archive_def dir_path_def cut_value_def MAX_VALUE_SIZE_def)
  then show ?thesis by (simp add: saved_def kept_slots) (simp add: kept_layout_def)
qed

definition kept_rt :: "int rt" where
  "kept_rt = \<lparr>nmem = Map.empty, nnext = 0, jm = \<lparr>items = Map.empty, jnext = 0\<rparr>, root = ET,
     fsv = \<lparr>cache = kept_layout, config = kept_layout, count_overwritten = 0, permit_override = 1\<rparr>\<rparr>"

theorem load_filesystem_reads_witness:
  "\<exists>s'. ldr_load_filesystem (cJSON_Parse int_conv) show_int kept_rt = Some s' \<and>
    rt_search \<lparr>segm = [\<lparr>sname = ''io'', index = 0, sjsl = JSL_DIR\<rparr>, \<lparr>sname = ''serial'', index = 0, sjsl = JSL_ARCHIVE\<rparr>,
      \<lparr>sname = ''port'', index = 0, sjsl = JSL_LOGIC_SCOPE\<rparr>, \<lparr>sname = ''baud'', index = 0, sjsl = JSL_FIELD\<rparr>],
      valuestring = None, dupkey = ''io.serial.port.baud'', dupvalue = ''''\<rparr> s' = Some (Some ''9600'')"
  (is "\<exists>s'. _ \<and> rt_search ?jrp s' = _")
proof -
  have "cache (fsv kept_rt) = kept_layout" "root kept_rt = ET" by (simp_all add: kept_rt_def)
  moreover have "files_read show_int (\<lambda>_. kept_doc) kept_layout (dupvalue ?jrp) (segm ?jrp) = Some ''9600''"
    by (simp add: files_read_def kept_slots dir_entry_def fs_reader_def archive_entry_def) code_simp
  ultimately show ?thesis
    using load_filesystem_reads [of int_conv "\<lambda>_. kept_doc" kept_rt show_int] kept_saved by fastforce
qed

end
