(* ===== verification/Stream.thy ===== *)
theory Stream
  imports Net
begin

text \<open>
  The byte streams below the packets: receiving (\<^verbatim>\<open>naxfw/src/posix/tcpal.c\<close> and \<open>tcp_rx\<close> of
  \<^verbatim>\<open>tcpio.c\<close>) and sending (\<open>tcp_write\<close> of \<^verbatim>\<open>tcp.c\<close>, \<open>tcp_tx\<close>, \<^verbatim>\<open>fifo.c\<close>,
  \<open>_wp_exec\<close> of \<^verbatim>\<open>wpool.c\<close>). What \<open>recv\<close> returns is a list of chunks, the outcomes of
  \<open>send\<close>, \<open>epoll_ctl\<close> and the memory allocation are arguments. One call is one step: calls on
  the same link that run at the same time, which the lock of the queue orders only in part, are not modelled.
\<close>

section \<open>Receiving\<close>

definition TCP_BUFFER_SIZE :: nat where "TCP_BUFFER_SIZE = 0x11000"
definition TCP_MAXIMUM_PACKET_SIZE :: int where "TCP_MAXIMUM_PACKET_SIZE = push_bit 20 50"

text \<open>The template of a link: the size of the head, its parser, and the attribute for whole packets.\<close>

record tst =
  tst_cb :: nat
  tst_parser :: "(byte list \<Rightarrow> int option) option"
  fully_receive :: bool

text \<open>
  The receiving side of an \<open>ncb\<close>: the first \<open>rx_parse_offset\<close> bytes of \<open>packet\<close>; the large block, if
  one is marked, as its bytes so far and its size; the data posted to the callback.
\<close>

record ncb_rx =
  rx_packet :: "byte list"
  lbdata :: "(byte list \<times> nat) option"
  posted :: "byte list list"

definition post_data :: "tst \<Rightarrow> byte list \<Rightarrow> ncb_rx \<Rightarrow> ncb_rx" where
  "post_data T pkt s = s\<lparr>posted := posted s @ [if fully_receive T then pkt else drop (tst_cb T) pkt]\<rparr>"

text \<open>
  \<open>memcpy\<close> of \<open>n\<close> bytes of \<open>src\<close> to the end of what a buffer of \<open>capacity\<close> bytes holds. \<open>None\<close>: the copy
  reads behind \<open>src\<close> or writes behind the buffer (a negative count is a huge one, as \<open>size_t\<close>).
\<close>

definition memcpy_at :: "nat \<Rightarrow> byte list \<Rightarrow> byte list \<Rightarrow> int \<Rightarrow> byte list option" where
  "memcpy_at capacity buf src n =
     (if n < 0 \<or> int (length src) < n \<or> int capacity < int (length buf) + n then None else Some (buf @ take (nat n) src))"

definition tcp_parse_marked_lb :: "tst \<Rightarrow> byte list \<Rightarrow> nat \<Rightarrow> byte list \<Rightarrow> ncb_rx \<Rightarrow> (int \<times> ncb_rx) option" where
  "tcp_parse_marked_lb T lb lbsize cpbuff s =
     (if length cpbuff + length lb < lbsize then
        map_option (\<lambda>lb'. (0, s\<lparr>lbdata := Some (lb', lbsize)\<rparr>)) (memcpy_at lbsize lb cpbuff (int (length cpbuff)))
      else
        (let overplus = int lbsize - int (length lb)
         in map_option (\<lambda>lb'. (int (length cpbuff) - overplus, (post_data T lb' s)\<lparr>lbdata := None\<rparr>))
              (memcpy_at lbsize lb cpbuff overplus)))"

text \<open>
  The result is the number of bytes left, or negative on an error; \<open>None\<close> is a copy that leaves its
  buffer. The packet buffer has \<open>TCP_BUFFER_SIZE\<close> bytes, a large block the size it was allocated with.
\<close>

definition tcp_parse_pkt :: "(nat \<Rightarrow> bool) \<Rightarrow> tst \<Rightarrow> byte list \<Rightarrow> ncb_rx \<Rightarrow> (int \<times> ncb_rx) option" where
  "tcp_parse_pkt alloc T cpdata s =
     (if cpdata = [] then Some (-1, s)
      else if tst_cb T = 0 \<and> tst_parser T = None then Some (0, s\<lparr>posted := posted s @ [cpdata], rx_packet := []\<rparr>)
      else case lbdata s of
        Some (lb, lbsize) \<Rightarrow> tcp_parse_marked_lb T lb lbsize cpdata s
      | None \<Rightarrow>
          if length (rx_packet s) + length cpdata < tst_cb T then
            map_option (\<lambda>pk. (0, s\<lparr>rx_packet := pk\<rparr>)) (memcpy_at TCP_BUFFER_SIZE (rx_packet s) cpdata (int (length cpdata)))
          else
            (let used = tst_cb T - length (rx_packet s);
                 cpbuff = drop used cpdata
             in case memcpy_at TCP_BUFFER_SIZE (rx_packet s) cpdata (int used) of
                  None \<Rightarrow> None
                | Some pk \<Rightarrow>
                    (let s1 = s\<lparr>rx_packet := pk\<rparr>
                     in case Option.bind (tst_parser T) (\<lambda>parser. parser pk) of
                          None \<Rightarrow> Some (-1, s1)
                        | Some user_data_size \<Rightarrow>
                            if user_data_size > TCP_MAXIMUM_PACKET_SIZE \<or> user_data_size \<le> 0 then Some (-1, s1)
                            else
                              (let total = nat user_data_size + tst_cb T;
                                   missing = int total - int (length pk)
                               in if total > TCP_BUFFER_SIZE then
                                    (if alloc total then
                                       map_option (\<lambda>lb. (0, s1\<lparr>lbdata := Some (lb, total), rx_packet := []\<rparr>))
                                         (memcpy_at total [] cpdata (int (length cpdata)))
                                     else Some (-1, s1))
                                  else if int (length cpbuff) \<ge> missing then
                                    map_option (\<lambda>b. (int (length cpbuff) - missing, (post_data T b s1)\<lparr>rx_packet := []\<rparr>))
                                      (memcpy_at TCP_BUFFER_SIZE pk cpbuff missing)
                                  else
                                    map_option (\<lambda>b. (0, s1\<lparr>rx_packet := b\<rparr>))
                                      (memcpy_at TCP_BUFFER_SIZE pk cpbuff (int (length cpbuff)))))))"

text \<open>
  The loop of \<open>_tcp_rx\<close> over one chunk: whether it ended without an error, and the state. \<open>None\<close>
  would be a loop that does not end, or a copy that leaves its buffer.
\<close>

partial_function (option) tcp_rx_loop :: "(nat \<Rightarrow> bool) \<Rightarrow> tst \<Rightarrow> byte list \<Rightarrow> ncb_rx \<Rightarrow> (bool \<times> ncb_rx) option" where
  "tcp_rx_loop alloc T chunk s =
     (case tcp_parse_pkt alloc T chunk s of
        None \<Rightarrow> None
      | Some (overplus, s1) \<Rightarrow>
          if overplus < 0 then Some (False, s1)
          else if overplus = 0 then Some (True, s1)
          else tcp_rx_loop alloc T (drop (length chunk - nat overplus) chunk) s1)"

text \<open>\<open>tcp_rx\<close>: the chunks of successive calls of \<open>recv\<close>, until an error closes the link.\<close>

fun tcp_rx :: "(nat \<Rightarrow> bool) \<Rightarrow> tst \<Rightarrow> byte list list \<Rightarrow> ncb_rx \<Rightarrow> (bool \<times> ncb_rx) option" where
  "tcp_rx alloc T [] s = Some (True, s)"
| "tcp_rx alloc T (c # cs) s =
     (case tcp_rx_loop alloc T c s of
        None \<Rightarrow> None
      | Some (False, s1) \<Rightarrow> Some (False, s1)
      | Some (True, s1) \<Rightarrow> tcp_rx alloc T cs s1)"

text \<open>The template of the daemon's links.\<close>

definition jnet_tst :: tst where
  "jnet_tst = \<lparr>tst_cb = 8, tst_parser = Some nsp__tst_parser, fully_receive = False\<rparr>"

section \<open>Packets are found again however the stream is cut\<close>

definition wire_frame :: "byte list \<Rightarrow> byte list" where
  "wire_frame p = NSPDEF_OPCODE @ le32 (int (length p)) @ p"

lemma head_length [simp]: "length NSPDEF_OPCODE = 4" "length (le32 n) = 4"
  by (simp_all add: NSPDEF_OPCODE_def le32_def)

lemma frame_length [simp]: "length (wire_frame p) = length p + 8"
  by (simp add: wire_frame_def)

lemma frame_body: "drop 8 (wire_frame p) = p"
  by (simp add: wire_frame_def)

lemma head_parses:
  assumes "prefix b (wire_frame p)" "8 \<le> length b" "int (length p) < 2 ^ 31"
  shows "nsp__tst_parser b = Some (int (length p))"
proof -
  have b: "b = take (length b) (wire_frame p)" using assms(1) by (metis append_eq_conv_conj prefix_def)
  have "take (length b) (wire_frame p) = NSPDEF_OPCODE @ le32 (int (length p)) @ take (length b - 8) p"
    using assms(2) by (simp add: wire_frame_def)
  then have b8: "b = NSPDEF_OPCODE @ le32 (int (length p)) @ take (length b - 8) p" using b by simp
  have op: "take 4 b = NSPDEF_OPCODE" by (subst b8) simp
  have "drop 4 b = le32 (int (length p)) @ take (length b - 8) p" by (subst b8) simp
  then have "un_le32 (drop 4 b) = int (length p)" using assms(3) by (simp add: un_le32_le32)
  then show ?thesis using op assms(3) by (simp add: nsp__tst_parser_def)
qed

text \<open>A payload that fits the packet buffer of a link.\<close>

definition small :: "byte list \<Rightarrow> bool" where
  "small p \<longleftrightarrow> p \<noteq> [] \<and> length p + 8 \<le> TCP_BUFFER_SIZE"

text \<open>The bytes kept between two chunks: a proper part of the next packet, or nothing.\<close>

definition part_of :: "byte list \<Rightarrow> byte list list \<Rightarrow> bool" where
  "part_of left ps \<longleftrightarrow> (case ps of [] \<Rightarrow> left = [] | p # _ \<Rightarrow> length left < length (wire_frame p))"


text \<open>The part of \<open>tcp_parse_pkt\<close> behind a complete head.\<close>

lemma parse_head:
  assumes "chunk \<noteq> []" "lbdata s = None" "\<not> length (rx_packet s) + length chunk < 8"
    and "pk = rx_packet s @ take (8 - length (rx_packet s)) chunk" "rest = drop (8 - length (rx_packet s)) chunk"
    and "nsp__tst_parser pk = Some (int n)" "0 < n" "int n \<le> TCP_MAXIMUM_PACKET_SIZE"
    and "length (rx_packet s) \<le> TCP_BUFFER_SIZE" "length pk \<le> n + 8" "n + 8 \<le> TCP_BUFFER_SIZE \<or> length chunk \<le> n + 8"
  shows "tcp_parse_pkt alloc jnet_tst chunk s = Some
    (if n + 8 > TCP_BUFFER_SIZE then
       (if alloc (n + 8) then (0, s\<lparr>rx_packet := [], lbdata := Some (chunk, n + 8)\<rparr>) else (-1, s\<lparr>rx_packet := pk\<rparr>))
     else if int (length rest) \<ge> int (n + 8) - int (length pk) then
       (int (length rest) - (int (n + 8) - int (length pk)),
        (post_data jnet_tst (pk @ take (nat (int (n + 8) - int (length pk))) rest) (s\<lparr>rx_packet := pk\<rparr>))\<lparr>rx_packet := []\<rparr>)
     else (0, s\<lparr>rx_packet := pk @ rest\<rparr>))"
proof -
  have head: "memcpy_at TCP_BUFFER_SIZE (rx_packet s) chunk (int (8 - length (rx_packet s))) = Some pk"
    using assms(3,9) by (auto simp: assms(4) memcpy_at_def TCP_BUFFER_SIZE_def)
  show ?thesis
    unfolding tcp_parse_pkt_def Let_def jnet_tst_def tst.simps assms(2) option.case head assms(5) [symmetric]
    using assms(1,3,6,7,8,10,11) by (auto simp: memcpy_at_def)
qed

lemma take_over: "length a \<le> n \<Longrightarrow> a @ take (n - length a) b = take n (a @ b)"
  by simp

lemma parse_small:
  fixes s :: ncb_rx
  assumes "left @ chunk @ future = wire_frame p @ others" "small p" "length left < length (wire_frame p)" "chunk \<noteq> []"
    and "rx_packet s = left" "lbdata s = None"
  shows "tcp_parse_pkt alloc jnet_tst chunk s = Some
    (if length left + length chunk < length (wire_frame p) then (0, s\<lparr>rx_packet := left @ chunk\<rparr>)
     else (int (length left + length chunk) - int (length (wire_frame p)), s\<lparr>rx_packet := [], posted := posted s @ [p]\<rparr>))"
proof (cases "length left + length chunk < 8")
  case True
  then show ?thesis using assms(4-6) by (simp add: tcp_parse_pkt_def jnet_tst_def memcpy_at_def TCP_BUFFER_SIZE_def)
next
  case False
  let ?used = "8 - length left" and ?total = "length p + 8"
  let ?pk = "left @ take ?used chunk" and ?rest = "drop ?used chunk"
  have p: "int (length p) \<le> TCP_MAXIMUM_PACKET_SIZE" "int (length p) < 2 ^ 31" "p \<noteq> []" "?total \<le> TCP_BUFFER_SIZE"
    using assms(2) by (auto simp: small_def TCP_BUFFER_SIZE_def TCP_MAXIMUM_PACKET_SIZE_def push_bit_eq_mult)
  have same: "take n (left @ chunk) = take n (wire_frame p)" if "n \<le> length left + length chunk" "n \<le> ?total" for n
  proof -
    have "take n (left @ chunk @ future) = take n (wire_frame p @ others)" using assms(1) by simp
    then show ?thesis using that by simp
  qed
  have "?pk = take (max 8 (length left)) (left @ chunk)" by (simp add: max_def)
  also have "\<dots> = take (max 8 (length left)) (wire_frame p)" by (rule same) (use False assms(3) in auto)
  finally have pk: "?pk = take (max 8 (length left)) (wire_frame p)" .
  then have "prefix ?pk (wire_frame p)" by (metis take_is_prefix)
  then have ps: "nsp__tst_parser ?pk = Some (int (length p))" by (rule head_parses) (use False p in auto)
  have len: "length ?pk = max 8 (length left)" "?pk @ ?rest = left @ chunk" using False by simp_all
  have miss: "int ?total - int (length ?pk) = int (?total - length ?pk)" using assms(3) len(1) by simp
  have nf: "\<not> length (rx_packet s) + length chunk < 8" "0 < length p" using False p(3) assms(5) by auto
  have fits: "\<not> TCP_BUFFER_SIZE < ?total" using p(4) by simp
  have room: "length left \<le> TCP_BUFFER_SIZE" "length ?pk \<le> ?total" using p(4) assms(3) len(1) by simp_all
  have none: "?total \<le> TCP_BUFFER_SIZE \<or> length chunk \<le> ?total" using fits by simp
  note head = parse_head [OF assms(4,6) nf(1) refl refl, unfolded assms(5), OF ps nf(2) p(1) room none, of alloc]
  show ?thesis
  proof (cases "length left + length chunk < ?total")
    case True
    then have "\<not> int (length ?rest) \<ge> int (?total - length ?pk)" using len(1) by simp
    then have "tcp_parse_pkt alloc jnet_tst chunk s = Some (0, s\<lparr>rx_packet := ?pk @ ?rest\<rparr>)"
      unfolding head miss using fits by (simp only: if_True if_False)
    then show ?thesis using True unfolding len(2) by simp
  next
    case full: False
    have "length ?pk \<le> ?total" unfolding len(1) using assms(3) by simp
    then have "?pk @ take (?total - length ?pk) ?rest = take ?total (?pk @ ?rest)" by (rule take_over)
    also have "\<dots> = take ?total (left @ chunk)" by (simp only: len(2))
    also have "\<dots> = wire_frame p" using same [of ?total] full by simp
    finally have fr: "?pk @ take (?total - length ?pk) ?rest = wire_frame p" .
    have n: "int (length ?rest) \<ge> int (?total - length ?pk)"
      "int (length ?rest) - int (?total - length ?pk) = int (length left + length chunk) - int (length (wire_frame p))"
      using len(1) full False assms(3) by simp_all
    have "tcp_parse_pkt alloc jnet_tst chunk s = Some (int (length ?rest) - int (?total - length ?pk),
        (post_data jnet_tst (?pk @ take (?total - length ?pk) ?rest) (s\<lparr>rx_packet := ?pk\<rparr>))\<lparr>rx_packet := []\<rparr>)"
      unfolding head miss nat_int using n(1) fits by (simp only: if_True if_False)
    also have "\<dots> = Some (int (length left + length chunk) - int (length (wire_frame p)),
        (post_data jnet_tst (wire_frame p) (s\<lparr>rx_packet := ?pk\<rparr>))\<lparr>rx_packet := []\<rparr>)"
      unfolding fr n(2) ..
    also have "(post_data jnet_tst (wire_frame p) (s\<lparr>rx_packet := ?pk\<rparr>))\<lparr>rx_packet := []\<rparr> =
        s\<lparr>rx_packet := [], posted := posted s @ [p]\<rparr>"
      by (simp add: post_data_def jnet_tst_def frame_body)
    finally show ?thesis using full by simp
  qed
qed


lemma rx_loop_small:
  fixes s :: ncb_rx
  assumes "left @ chunk @ future = concat (map wire_frame ps)" "list_all small ps" "part_of left ps" "chunk \<noteq> []"
    and "rx_packet s = left" "lbdata s = None"
  shows "\<exists>ps1 ps2 left'. ps = ps1 @ ps2 \<and> part_of left' ps2 \<and> left' @ future = concat (map wire_frame ps2) \<and>
    tcp_rx_loop alloc jnet_tst chunk s = Some (True, s\<lparr>rx_packet := left', posted := posted s @ ps1\<rparr>)"
  using assms
proof (induction "length chunk" arbitrary: chunk left ps s rule: less_induct)
  case less
  obtain p qs where ps: "ps = p # qs" using less.prems(1,4) by (cases ps) auto
  let ?n = "length (wire_frame p)"
  have p: "small p" "length left < ?n" using less.prems(2,3) by (simp_all add: ps part_of_def)
  have str: "left @ chunk @ future = wire_frame p @ concat (map wire_frame qs)" using less.prems(1) by (simp add: ps)
  note parse = parse_small [OF str p less.prems(4-6), of alloc]
  show ?case
  proof (cases "length left + length chunk < ?n")
    case True
    then have "tcp_rx_loop alloc jnet_tst chunk s = Some (True, s\<lparr>rx_packet := left @ chunk\<rparr>)"
      by (subst tcp_rx_loop.simps) (simp add: parse)
    then show ?thesis using True less.prems(1)
      by (intro exI [of _ "[]"] exI [of _ ps] exI [of _ "left @ chunk"]) (simp add: part_of_def ps)
  next
    case False
    let ?k = "length left + length chunk - ?n"
    let ?s = "s\<lparr>rx_packet := [], posted := posted s @ [p]\<rparr>"
    let ?rest = "drop (length chunk - ?k) chunk"
    have r: "tcp_parse_pkt alloc jnet_tst chunk s = Some (int ?k, ?s)" using parse False by simp
    have less_k: "?k < length chunk" using p(2) less.prems(4) by (cases chunk) simp_all
    have "drop ?n (left @ chunk @ future) = concat (map wire_frame qs)" unfolding str by simp
    then have rest: "?rest @ future = concat (map wire_frame qs)"
      using False p(2) less_k by simp
    show ?thesis
    proof (cases "?k = 0")
      case True
      then have "tcp_rx_loop alloc jnet_tst chunk s = Some (True, ?s)"
        by (subst tcp_rx_loop.simps) (simp add: r)
      then show ?thesis using True rest
        by (intro exI [of _ "[p]"] exI [of _ qs] exI [of _ "[]"]) (auto simp: ps part_of_def split: list.split)
    next
      case more: False
      then have run: "tcp_rx_loop alloc jnet_tst chunk s = tcp_rx_loop alloc jnet_tst ?rest ?s"
        by (subst tcp_rx_loop.simps) (simp only: r option.case prod.case nat_int of_nat_less_0_iff of_nat_eq_0_iff if_False)
      have ne: "?rest \<noteq> []" "length ?rest < length chunk" using more less_k by simp_all
      have part: "part_of [] qs" by (auto simp: part_of_def split: list.split)
      have "\<exists>ps1 ps2 left'. qs = ps1 @ ps2 \<and> part_of left' ps2 \<and> left' @ future = concat (map wire_frame ps2) \<and>
          tcp_rx_loop alloc jnet_tst ?rest ?s = Some (True, ?s\<lparr>rx_packet := left', posted := posted ?s @ ps1\<rparr>)"
        by (rule less.hyps [OF ne(2) _ _ part ne(1)]) (use rest less.prems(2,6) ps in simp_all)
      then obtain ps1 ps2 left' where h: "qs = ps1 @ ps2" "part_of left' ps2" "left' @ future = concat (map wire_frame ps2)"
        "tcp_rx_loop alloc jnet_tst ?rest ?s = Some (True, ?s\<lparr>rx_packet := left', posted := posted ?s @ ps1\<rparr>)" by blast
      then show ?thesis using run
        by (intro exI [of _ "p # ps1"] exI [of _ ps2] exI [of _ left']) (simp add: ps)
    qed
  qed
qed

lemma rx_small:
  fixes s :: ncb_rx
  assumes "left @ concat chunks = concat (map wire_frame ps)" "list_all small ps" "part_of left ps" "list_all (\<lambda>c. c \<noteq> []) chunks"
    and "rx_packet s = left" "lbdata s = None"
  shows "tcp_rx alloc jnet_tst chunks s = Some (True, s\<lparr>rx_packet := [], posted := posted s @ ps\<rparr>)"
  using assms
proof (induction chunks arbitrary: left ps s)
  case Nil
  then have "left = []" "ps = []" by (cases ps; auto simp: part_of_def dest: arg_cong [where f = length])+
  then show ?case using Nil.prems(5) by simp
next
  case (Cons c cs)
  obtain ps1 ps2 left' where h: "ps = ps1 @ ps2" "part_of left' ps2" "left' @ concat cs = concat (map wire_frame ps2)"
    "tcp_rx_loop alloc jnet_tst c s = Some (True, s\<lparr>rx_packet := left', posted := posted s @ ps1\<rparr>)"
    using rx_loop_small [of left c "concat cs" ps s alloc] Cons.prems by auto
  have "tcp_rx alloc jnet_tst cs (s\<lparr>rx_packet := left', posted := posted s @ ps1\<rparr>) =
      Some (True, (s\<lparr>rx_packet := left', posted := posted s @ ps1\<rparr>)\<lparr>rx_packet := [], posted := (posted s @ ps1) @ ps2\<rparr>)"
    using Cons.IH [OF h(3), of "s\<lparr>rx_packet := left', posted := posted s @ ps1\<rparr>"] Cons.prems h by simp
  then show ?case using h(1,4) by simp
qed


section \<open>A large packet with a divided head\<close>

lemma marked_steps:
  assumes "lbdata s = Some (lb, n)" "list_all (\<lambda>c. c \<noteq> []) chunks" "length lb + length (concat chunks) < n"
  shows "tcp_rx alloc jnet_tst chunks s = Some (True, s\<lparr>lbdata := Some (lb @ concat chunks, n)\<rparr>)"
  using assms
proof (induction chunks arbitrary: lb s)
  case (Cons c cs)
  have "tcp_parse_pkt alloc jnet_tst c s = Some (0, s\<lparr>lbdata := Some (lb @ c, n)\<rparr>)"
    using Cons.prems by (simp add: tcp_parse_pkt_def jnet_tst_def tcp_parse_marked_lb_def memcpy_at_def)
  then have "tcp_rx_loop alloc jnet_tst c s = Some (True, s\<lparr>lbdata := Some (lb @ c, n)\<rparr>)" by (subst tcp_rx_loop.simps) simp
  then show ?case using Cons.IH [of "s\<lparr>lbdata := Some (lb @ c, n)\<rparr>" "lb @ c"] Cons.prems by simp
qed simp

lemma divided_head:
  assumes "0 < k" "k < 8" "TCP_BUFFER_SIZE < length p + 8" "int (length p) \<le> TCP_MAXIMUM_PACKET_SIZE" "alloc (length p + 8)"
    and "c @ concat cs = drop k (wire_frame p)" "8 \<le> k + length c" "list_all (\<lambda>c. c \<noteq> []) cs" "rx_packet s = []" "lbdata s = None"
  shows "tcp_rx alloc jnet_tst (take k (wire_frame p) # c # cs) s = Some (True, s\<lparr>lbdata := Some (drop k (wire_frame p), length p + 8)\<rparr>)"
proof -
  let ?f = "wire_frame p" and ?s = "s\<lparr>rx_packet := take k (wire_frame p)\<rparr>"
  have h: "length (take k ?f) = k" "take k ?f \<noteq> []" using assms(1,2) by (auto simp flip: length_0_conv)
  then have "tcp_parse_pkt alloc jnet_tst (take k ?f) s = Some (0, ?s)"
    using assms(2,9,10) by (simp add: tcp_parse_pkt_def jnet_tst_def memcpy_at_def TCP_BUFFER_SIZE_def)
  then have one: "tcp_rx_loop alloc jnet_tst (take k ?f) s = Some (True, ?s)" by (subst tcp_rx_loop.simps) simp
  have c: "take k ?f @ c @ concat cs = ?f" using assms(6) by simp
  have n: "c \<noteq> []" "lbdata ?s = None" "\<not> length (rx_packet ?s) + length c < 8" using assms(2,7,10) h(1) by auto
  have "take k ?f @ take (8 - k) c = take 8 (take k ?f @ c)" using take_over [of "take k ?f" 8 c] h(1) assms(2) by simp
  also have "\<dots> = take 8 (take k ?f @ c @ concat cs)" using assms(7) h(1) by simp
  finally have pk: "take k ?f @ take (8 - k) c = take 8 ?f" unfolding c .
  have "nsp__tst_parser (take 8 ?f) = Some (int (length p))"
    by (rule head_parses [OF take_is_prefix]) (use assms(4) in \<open>simp_all add: TCP_MAXIMUM_PACKET_SIZE_def push_bit_eq_mult\<close>)
  then have ps: "nsp__tst_parser (rx_packet ?s @ take (8 - length (rx_packet ?s)) c) = Some (int (length p))" using pk h(1) by simp
  have pos: "0 < length p" using assms(3) unfolding TCP_BUFFER_SIZE_def by linarith
  have "length (c @ concat cs) \<le> length p + 8" unfolding assms(6) by simp
  then have room: "length (rx_packet ?s) \<le> TCP_BUFFER_SIZE" "length c \<le> length p + 8"
    "length (rx_packet ?s @ take (8 - length (rx_packet ?s)) c) \<le> length p + 8"
    using h(1) assms(2) by (auto simp: TCP_BUFFER_SIZE_def)
  have "tcp_parse_pkt alloc jnet_tst c ?s = Some (0, ?s\<lparr>rx_packet := [], lbdata := Some (c, length p + 8)\<rparr>)"
    unfolding parse_head [OF n refl refl ps pos assms(4) room(1,3) disjI2 [OF room(2)]] using assms(3,5) by simp
  then have two: "tcp_rx_loop alloc jnet_tst c ?s = Some (True, ?s\<lparr>rx_packet := [], lbdata := Some (c, length p + 8)\<rparr>)"
    by (subst tcp_rx_loop.simps) simp
  have "length (c @ concat cs) < length p + 8" using assms(1,2) unfolding assms(6) by simp
  then have "length c + length (concat cs) < length p + 8" by (simp only: length_append)
  from marked_steps [OF _ assms(8) this, of "?s\<lparr>rx_packet := [], lbdata := Some (c, length p + 8)\<rparr>" alloc]
  show ?thesis using one two assms(6,9) by simp
qed


section \<open>Sending\<close>

definition MAXIMUM_FIFO_SIZE :: int where "MAXIMUM_FIFO_SIZE = 100"

definition ENOENT :: int where "ENOENT = 2"
definition EINTR :: int where "EINTR = 4"
definition EAGAIN :: int where "EAGAIN = 11"
definition NOMEM :: int where "NOMEM = 12"
definition EBUSY :: int where "EBUSY = 16"
definition INVAL :: int where "INVAL = 22"

record tx_node =
  tx_data :: "byte list"
  tx_offset :: nat

text \<open>
  The sending side of an \<open>ncb\<close>: the queue with its counter and its blocking flag, whether the link
  waits for \<open>EPOLLOUT\<close>, and the bytes the kernel has taken.
\<close>

record ncb_tx =
  tx_fifo :: "tx_node list"
  fifo_size :: int
  tx_overflow :: bool
  epollout :: bool
  sent :: "byte list"

definition fifo_init :: ncb_tx where
  "fifo_init = \<lparr>tx_fifo = [], fifo_size = 0, tx_overflow = False, epollout = False, sent = []\<rparr>"

text \<open>The outcome of one \<open>send\<close>: the number of bytes taken, or an error number.\<close>

datatype send_result = Taken nat | Refused_with int

text \<open>
  What the surroundings answer during a step: the status of the reference to the link and whether its
  callbacks are set, the results of \<open>send\<close>, the status of \<open>epoll_ctl\<close>, whether the connection is
  established, whether memory for the packet and for its node is available.
\<close>

record tx_env =
  link_status :: int
  handlers :: bool
  sends :: "send_result list"
  modify :: int
  established :: bool
  memory :: bool
  node_memory :: bool

text \<open>The sending half of a template: the builder of heads, the attribute that turns it off, the size of a head.\<close>

record tx_template =
  builder :: "(byte list \<Rightarrow> int \<Rightarrow> byte list option) option"
  no_build :: bool
  head_size :: nat

text \<open>\<open>tcp_txn\<close>: the status, the offset reached and the bytes taken. \<open>None\<close>: the results run out.\<close>

fun tcp_txn :: "send_result list \<Rightarrow> byte list \<Rightarrow> nat \<Rightarrow> (int \<times> nat \<times> byte list) option" where
  "tcp_txn rs pkt offset =
     (if offset \<ge> length pkt then Some (0, offset, [])
      else case rs of
        [] \<Rightarrow> None
      | Taken n # rs' \<Rightarrow>
          if n = 0 then Some (-1, offset, [])
          else map_option (\<lambda>(st, off, bs). (st, off, take n (drop offset pkt) @ bs)) (tcp_txn rs' pkt (offset + n))
      | Refused_with e # rs' \<Rightarrow> if e = EINTR then tcp_txn rs' pkt offset else Some (- e, offset, []))"

declare tcp_txn.simps [simp del]

definition fifo_queue :: "tx_env \<Rightarrow> tx_node \<Rightarrow> ncb_tx \<Rightarrow> int \<times> ncb_tx" where
  "fifo_queue e node t =
     (if fifo_size t \<ge> MAXIMUM_FIFO_SIZE then (- EBUSY, t)
      else if \<not> tx_overflow t then
        (if modify e < 0 then (modify e, t)
         else (modify e, t\<lparr>tx_fifo := tx_fifo t @ [node], epollout := True, tx_overflow := True, fifo_size := fifo_size t + 1\<rparr>))
      else (0, t\<lparr>tx_fifo := tx_fifo t @ [node], fifo_size := fifo_size t + 1\<rparr>))"

definition fifo_pop :: "tx_env \<Rightarrow> ncb_tx \<Rightarrow> int \<times> ncb_tx" where
  "fifo_pop e t =
     (case tx_fifo t of
        [] \<Rightarrow> (- ENOENT, t)
      | front # rest \<Rightarrow>
          (let t1 = t\<lparr>tx_fifo := rest, fifo_size := fifo_size t - 1\<rparr>
           in if fifo_size t1 = 0 \<and> tx_overflow t1
              then (0, t1\<lparr>tx_overflow := False, epollout := (if modify e < 0 then epollout t1 else False)\<rparr>)
              else (0, t1)))"

text \<open>The packet \<open>tcp_write\<close> builds, or its status. The serializer is a function of the payload.\<close>

definition write_body :: "(byte list \<Rightarrow> int \<times> byte list) option \<Rightarrow> byte list \<Rightarrow> int + byte list" where
  "write_body serializer origin =
     (case serializer of
        None \<Rightarrow> Inr origin
      | Some f \<Rightarrow> (case f origin of (status, body) \<Rightarrow> if status < 0 then Inl status else Inr body))"

definition write_packet :: "tx_template \<Rightarrow> (byte list \<Rightarrow> int \<times> byte list) option \<Rightarrow> byte list \<Rightarrow> int + byte list" where
  "write_packet T serializer origin =
     (if builder T = None \<or> no_build T then write_body serializer origin
      else case the (builder T) (replicate (head_size T + length origin) 0) (int (length origin)) of
        None \<Rightarrow> Inl (-1)
      | Some buffer \<Rightarrow>
          (case write_body serializer origin of Inl status \<Rightarrow> Inl status | Inr body \<Rightarrow> Inr (take (head_size T) buffer @ body)))"

definition tcp_write_ncb :: "tx_template \<Rightarrow> (byte list \<Rightarrow> int \<times> byte list) option \<Rightarrow> tx_env \<Rightarrow> byte list \<Rightarrow> ncb_tx \<Rightarrow> (int \<times> ncb_tx) option" where
  "tcp_write_ncb T serializer e origin t =
     (if origin = [] \<or> int (length origin) > TCP_MAXIMUM_PACKET_SIZE then Some (- INVAL, t)
      else if link_status e < 0 then Some (link_status e, t)
      else if \<not> handlers e then Some (- INVAL, t)
      else if \<not> established e then Some (0, t)
      else if \<not> memory e then Some (- NOMEM, t)
      else case write_packet T serializer origin of
        Inl status \<Rightarrow> Some (status, t)
      | Inr packet \<Rightarrow>
          (if \<not> node_memory e then Some (- NOMEM, t)
           else if \<not> tx_overflow t then
             (case tcp_txn (sends e) packet 0 of
                None \<Rightarrow> None
              | Some (status, off, bs) \<Rightarrow>
                  (let t1 = t\<lparr>sent := sent t @ bs\<rparr>
                   in if status = - EAGAIN then Some (fifo_queue e \<lparr>tx_data = packet, tx_offset = off\<rparr> t1)
                      else Some (status, t1)))
           else Some (fifo_queue e \<lparr>tx_data = packet, tx_offset = 0\<rparr> t)))"

text \<open>The call of the daemon: its template, no serializer.\<close>

definition jnet_template :: tx_template where
  "jnet_template = \<lparr>builder = Some nsp__tst_builder, no_build = False, head_size = 8\<rparr>"

definition link_write :: "tx_env \<Rightarrow> byte list \<Rightarrow> ncb_tx \<Rightarrow> (int \<times> ncb_tx) option" where
  "link_write = tcp_write_ncb jnet_template None"

text \<open>\<open>tcp_tx\<close> sends from the front of the queue, in place.\<close>

definition tcp_tx :: "tx_env \<Rightarrow> ncb_tx \<Rightarrow> (int \<times> ncb_tx) option" where
  "tcp_tx e t =
     (if \<not> established e then Some (- INVAL, t)
      else case tx_fifo t of
        [] \<Rightarrow> Some (- ENOENT, t)
      | node # rest \<Rightarrow>
          map_option (\<lambda>(status, off, bs). (status, t\<lparr>tx_fifo := node\<lparr>tx_offset := off\<rparr> # rest, sent := sent t @ bs\<rparr>))
            (tcp_txn (sends e) (tx_data node) (tx_offset node)))"

text \<open>\<open>_wp_exec\<close>: whether the link is closed, and the state.\<close>

definition wp_exec :: "tx_env \<Rightarrow> ncb_tx \<Rightarrow> (bool \<times> ncb_tx) option" where
  "wp_exec e t =
     map_option (\<lambda>(status, t1).
       if status < 0 then (status \<noteq> - EAGAIN \<and> status \<noteq> - ENOENT, t1) else (False, snd (fifo_pop e t1)))
     (tcp_tx e t)"


section \<open>Packets leave in order and whole\<close>

text \<open>
  A run of a link: packets are written and the link becomes writable, in any order. The log has one
  entry per write, in order: the packet was accepted (a success on an established link), or the write
  failed, with the number of bytes of its frame that had been sent before. A failed write leaves the
  link open, whatever it has sent. A closed link is not found any more: nothing changes. \<open>None\<close> only
  says that the list of results of \<open>send\<close> was too short.
\<close>

type_synonym tx_event = "tx_env \<times> byte list option"

datatype tx_entry = Accepted "byte list" | Failed nat "byte list"

record tx_run =
  run_ncb :: ncb_tx
  run_log :: "tx_entry list"
  run_closed :: bool

definition run_init :: tx_run where
  "run_init = \<lparr>run_ncb = fifo_init, run_log = [], run_closed = False\<rparr>"

definition tx_step :: "tx_event \<Rightarrow> tx_run \<Rightarrow> tx_run option" where
  "tx_step ev x =
     (case snd ev of
        Some p \<Rightarrow>
          if run_closed x then Some (x\<lparr>run_log := run_log x @ [Failed 0 p]\<rparr>)
          else (case link_write (fst ev) p (run_ncb x) of
             None \<Rightarrow> None
           | Some (status, t) \<Rightarrow>
               Some (x\<lparr>run_ncb := t,
                 run_log := run_log x @
                   [if 0 \<le> status \<and> established (fst ev) then Accepted p
                    else Failed (length (sent t) - length (sent (run_ncb x))) p]\<rparr>))
      | None \<Rightarrow>
          if run_closed x then Some x
          else map_option (\<lambda>(closed, t). x\<lparr>run_ncb := t, run_closed := closed\<rparr>) (wp_exec (fst ev) (run_ncb x)))"

text \<open>The bytes an entry of the log puts into the stream, and its packet.\<close>

definition entry_bytes :: "tx_entry \<Rightarrow> byte list" where
  "entry_bytes l = (case l of Accepted p \<Rightarrow> wire_frame p | Failed n p \<Rightarrow> take n (wire_frame p))"

definition entry_packet :: "tx_entry \<Rightarrow> byte list" where
  "entry_packet l = (case l of Accepted p \<Rightarrow> p | Failed n p \<Rightarrow> p)"

definition incomplete :: "tx_entry \<Rightarrow> bool" where
  "incomplete l \<longleftrightarrow> (case l of Accepted p \<Rightarrow> True | Failed n p \<Rightarrow> n < length (wire_frame p))"

definition proper :: "send_result \<Rightarrow> bool" where
  "proper r \<longleftrightarrow> (case r of Taken n \<Rightarrow> True | Refused_with e \<Rightarrow> 0 < e)"

definition pending :: "tx_node \<Rightarrow> byte list" where
  "pending node = drop (tx_offset node) (tx_data node)"

definition tx_inv :: "ncb_tx \<Rightarrow> tx_entry list \<Rightarrow> bool" where
  "tx_inv t log \<longleftrightarrow> sent t @ concat (map pending (tx_fifo t)) = concat (map entry_bytes log) \<and> list_all incomplete log \<and>
     fifo_size t = int (length (tx_fifo t)) \<and> fifo_size t \<le> MAXIMUM_FIFO_SIZE \<and> (tx_overflow t \<longleftrightarrow> tx_fifo t \<noteq> [])"

lemma fifo_init_inv: "tx_inv fifo_init []"
  by (simp add: tx_inv_def fifo_init_def MAXIMUM_FIFO_SIZE_def)

lemma failed_zero: "tx_inv t log \<Longrightarrow> tx_inv t (log @ [Failed 0 p])"
  by (simp add: tx_inv_def entry_bytes_def incomplete_def)

lemma txn_bytes:
  "tcp_txn rs pkt off = Some (st, off', bs) \<Longrightarrow> list_all proper rs \<Longrightarrow>
   bs @ drop off' pkt = drop off pkt \<and> (0 \<le> st \<longrightarrow> st = 0) \<and> (0 \<le> st \<longleftrightarrow> drop off' pkt = [])"
proof (induction rs pkt off arbitrary: st off' bs rule: tcp_txn.induct)
  case (1 rs pkt off)
  show ?case
  proof (cases "length pkt \<le> off")
    case True
    then show ?thesis using 1(3) by (subst (asm) tcp_txn.simps) auto
  next
    case False
    then obtain r rs' where rs: "rs = r # rs'" using 1(3) by (cases rs) (auto simp: tcp_txn.simps [of "[]"])
    show ?thesis
    proof (cases r)
      case (Taken n)
      show ?thesis
      proof (cases "n = 0")
        case True
        have "tcp_txn rs pkt off = Some (-1, off, [])" unfolding rs Taken True using False by (subst tcp_txn.simps) simp
        then show ?thesis using 1(3) False by auto
      next
        case n: False
        then obtain bs' where b: "tcp_txn rs' pkt (off + n) = Some (st, off', bs')" "bs = take n (drop off pkt) @ bs'"
          using 1(3) False by (auto simp: rs Taken tcp_txn.simps [of "Taken n # rs'"])
        have "bs' @ drop off' pkt = drop (off + n) pkt \<and> (0 \<le> st \<longrightarrow> st = 0) \<and> (0 \<le> st \<longleftrightarrow> drop off' pkt = [])"
          using 1(1) [OF _ rs Taken n b(1)] False 1(4) rs by simp
        then show ?thesis using b(2) append_take_drop_id [of n "drop off pkt"] by (simp add: add.commute)
      qed
    next
      case (Refused_with e)
      show ?thesis
      proof (cases "e = EINTR")
        case True
        then have "tcp_txn rs' pkt off = Some (st, off', bs)"
          using 1(3) False unfolding rs Refused_with by (simp add: tcp_txn.simps [of "Refused_with EINTR # rs'"])
        then show ?thesis using 1(2) [OF _ rs Refused_with True] False 1(4) rs by simp
      next
        case n: False
        then show ?thesis using 1(3,4) False
          by (auto simp: rs Refused_with proper_def tcp_txn.simps [of "Refused_with e # rs'"])
      qed
    qed
  qed
qed

lemma queue_inv:
  assumes "sent t @ concat (map pending (tx_fifo t)) @ pending node = concat (map entry_bytes log)" "list_all incomplete log"
    and "fifo_size t = int (length (tx_fifo t))" "tx_overflow t \<longleftrightarrow> tx_fifo t \<noteq> []" "fifo_queue e node t = (st, t')" "0 \<le> st"
  shows "tx_inv t' log"
  using assms by (auto simp: tx_inv_def fifo_queue_def EBUSY_def MAXIMUM_FIFO_SIZE_def split: if_splits)

lemma queue_refused: "fifo_queue e node t = (st, t') \<Longrightarrow> st < 0 \<Longrightarrow> t' = t"
  by (auto simp: fifo_queue_def split: if_splits)

lemma pop_inv:
  assumes "sent t @ concat (map pending (tl (tx_fifo t))) = concat (map entry_bytes log)" "list_all incomplete log" "tx_fifo t \<noteq> []"
    and "fifo_size t = int (length (tx_fifo t))" "fifo_size t \<le> MAXIMUM_FIFO_SIZE" "tx_overflow t"
  shows "tx_inv (snd (fifo_pop e t)) log"
  using assms by (cases "tx_fifo t") (auto simp: tx_inv_def fifo_pop_def Let_def)

lemma built: "p \<noteq> [] \<Longrightarrow> write_packet jnet_template None p = Inr (wire_frame p)"
  by (simp add: write_packet_def write_body_def jnet_template_def nsp__tst_builder_def wire_frame_def)

definition usable :: "tx_env \<Rightarrow> bool" where
  "usable e \<longleftrightarrow> 0 \<le> link_status e \<and> handlers e \<and> established e \<and> memory e \<and> node_memory e"

lemma write_refused:
  assumes "\<not> (p \<noteq> [] \<and> \<not> int (length p) > TCP_MAXIMUM_PACKET_SIZE \<and> usable e)" "link_write e p t = Some (st, t')"
  shows "t' = t \<and> (0 \<le> st \<longrightarrow> \<not> established e)"
  using assms built [of p]
  by (auto simp: link_write_def tcp_write_ncb_def usable_def INVAL_def NOMEM_def split: if_splits)

lemma write_usable:
  assumes "p \<noteq> []" "\<not> int (length p) > TCP_MAXIMUM_PACKET_SIZE" "usable e"
  shows "link_write e p t =
    (if \<not> tx_overflow t then
       (case tcp_txn (sends e) (wire_frame p) 0 of
          None \<Rightarrow> None
        | Some (status, off, bs) \<Rightarrow>
            (let t1 = t\<lparr>sent := sent t @ bs\<rparr>
             in if status = - EAGAIN then Some (fifo_queue e \<lparr>tx_data = wire_frame p, tx_offset = off\<rparr> t1)
                else Some (status, t1)))
     else Some (fifo_queue e \<lparr>tx_data = wire_frame p, tx_offset = 0\<rparr> t))"
  using assms by (simp add: link_write_def tcp_write_ncb_def usable_def built)

text \<open>The entry a write adds to the log.\<close>

definition write_entry :: "tx_env \<Rightarrow> byte list \<Rightarrow> int \<Rightarrow> ncb_tx \<Rightarrow> ncb_tx \<Rightarrow> tx_entry" where
  "write_entry e p st t t' =
     (if 0 \<le> st \<and> established e then Accepted p else Failed (length (sent t') - length (sent t)) p)"

lemma failed_write:
  assumes "tx_inv t log" "tx_fifo t = []" "bs @ drop off (wire_frame p) = wire_frame p" "drop off (wire_frame p) \<noteq> []" "st < 0"
  shows "tx_inv (t\<lparr>sent := sent t @ bs\<rparr>) (log @ [write_entry e p st t (t\<lparr>sent := sent t @ bs\<rparr>)])"
proof -
  have "take (length bs) (wire_frame p) = bs" by (metis assms(3) append_eq_conv_conj)
  moreover have "length bs < length (wire_frame p)" using arg_cong [OF assms(3), of length] assms(4) by simp
  ultimately show ?thesis using assms(1,2,5) by (auto simp: tx_inv_def write_entry_def entry_bytes_def incomplete_def)
qed

lemma write_step:
  assumes "tx_inv t log" "list_all proper (sends e)" "link_write e p t = Some (st, t')"
  shows "tx_inv t' (log @ [write_entry e p st t t'])"
proof -
  have inv: "sent t @ concat (map pending (tx_fifo t)) = concat (map entry_bytes log)" "fifo_size t = int (length (tx_fifo t))"
    "tx_overflow t \<longleftrightarrow> tx_fifo t \<noteq> []" "list_all incomplete log" using assms(1) by (simp_all add: tx_inv_def)
  have refused: "tx_inv t (log @ [write_entry e p st t t])" if "0 \<le> st \<longrightarrow> \<not> established e"
    using failed_zero [OF assms(1)] that by (auto simp: write_entry_def)
  show ?thesis
  proof (cases "p \<noteq> [] \<and> \<not> int (length p) > TCP_MAXIMUM_PACKET_SIZE \<and> usable e")
    case False
    from write_refused [OF this assms(3)] show ?thesis using refused by simp
  next
    case True
    then have b: "p \<noteq> []" "\<not> int (length p) > TCP_MAXIMUM_PACKET_SIZE" "usable e" and est: "established e"
      by (simp_all add: usable_def)
    note wu = assms(3) [unfolded write_usable [OF b]]
    have accepted: "write_entry e p st t t' = Accepted p" if "0 \<le> st" using that est by (simp add: write_entry_def)
    have all: "list_all incomplete (log @ [Accepted p])" using inv(4) by (simp add: incomplete_def)
    show ?thesis
    proof (cases "tx_overflow t")
      case over: True
      let ?n = "\<lparr>tx_data = wire_frame p, tx_offset = 0\<rparr>"
      have q: "fifo_queue e ?n t = (st, t')" using wu over by simp
      have "sent t @ concat (map pending (tx_fifo t)) @ pending ?n = concat (map entry_bytes (log @ [Accepted p]))"
        using inv(1) by (simp add: pending_def entry_bytes_def)
      from queue_inv [OF this all inv(2,3) q] show ?thesis
        using accepted queue_refused [OF q] refused by (cases "0 \<le> st") simp_all
    next
      case direct: False
      obtain ts off bs where tx: "tcp_txn (sends e) (wire_frame p) 0 = Some (ts, off, bs)"
        using wu direct by (cases "tcp_txn (sends e) (wire_frame p) 0") auto
      note tb = txn_bytes [OF tx assms(2)]
      let ?t = "t\<lparr>sent := sent t @ bs\<rparr>" and ?n = "\<lparr>tx_data = wire_frame p, tx_offset = off\<rparr>"
      have empty: "tx_fifo t = []" using inv(3) direct by simp
      have failed: "tx_inv ?t (log @ [write_entry e p st t ?t])" if "ts < 0" "st < 0"
        using failed_write [OF assms(1) empty, of bs off p st e] tb that by simp
      show ?thesis
      proof (cases "ts = - EAGAIN")
        case again: True
        have q: "fifo_queue e ?n ?t = (st, t')" using wu direct tx again by (simp add: Let_def)
        have str: "sent ?t @ concat (map pending (tx_fifo ?t)) @ pending ?n = concat (map entry_bytes (log @ [Accepted p]))"
          using inv(1) tb empty by (simp add: pending_def entry_bytes_def)
        show ?thesis
        proof (cases "0 \<le> st")
          case ok: True
          show ?thesis using queue_inv [OF str all _ _ q ok] inv(2,3) accepted [OF ok] by simp
        next
          case no: False
          then show ?thesis using queue_refused [OF q] failed again by (simp add: EAGAIN_def)
        qed
      next
        case False
        then have s: "st = ts" "t' = ?t" using wu direct tx by (simp_all add: Let_def)
        show ?thesis
        proof (cases "0 \<le> st")
          case ok: True
          then have "bs = wire_frame p" using tb s(1) by auto
          then show ?thesis using accepted [OF ok] s(2) inv empty all
            by (simp add: tx_inv_def MAXIMUM_FIFO_SIZE_def entry_bytes_def)
        next
          case no: False
          then show ?thesis using s failed by simp
        qed
      qed
    qed
  qed
qed

lemma writable_step:
  assumes "tx_inv t log" "list_all proper (sends e)" "wp_exec e t = Some (closed, t')"
  shows "tx_inv t' log"
proof -
  obtain st t1 where tx: "tcp_tx e t = Some (st, t1)" using assms(3) by (cases "tcp_tx e t") (auto simp: wp_exec_def)
  have x: "t' = (if st < 0 then t1 else snd (fifo_pop e t1))"
    using assms(3) tx by (auto simp: wp_exec_def split: if_splits)
  show ?thesis
  proof (cases "established e \<and> tx_fifo t \<noteq> []")
    case False
    then have "t1 = t" "st < 0" using tx by (auto simp: tcp_tx_def INVAL_def ENOENT_def split: if_splits)
    then show ?thesis using x assms(1) by simp
  next
    case True
    then obtain node rest where f: "tx_fifo t = node # rest" by (cases "tx_fifo t") auto
    obtain off bs where b: "tcp_txn (sends e) (tx_data node) (tx_offset node) = Some (st, off, bs)"
      "t1 = t\<lparr>tx_fifo := node\<lparr>tx_offset := off\<rparr> # rest, sent := sent t @ bs\<rparr>"
      using tx True f by (auto simp: tcp_tx_def)
    note tb = txn_bytes [OF b(1) assms(2)]
    have all: "sent t @ bs @ pending (node\<lparr>tx_offset := off\<rparr>) @ concat (map pending rest) = concat (map entry_bytes log)"
      using assms(1) f tb by (simp add: tx_inv_def pending_def flip: append_assoc)
    show ?thesis
    proof (cases "st < 0")
      case True
      then show ?thesis using x b(2) all assms(1) f by (simp add: tx_inv_def)
    next
      case False
      then have "pending (node\<lparr>tx_offset := off\<rparr>) = []" using tb by (simp add: pending_def)
      then have "sent t1 @ concat (map pending (tl (tx_fifo t1))) = concat (map entry_bytes log)" using all b(2) by simp
      moreover have "tx_fifo t1 \<noteq> []" "fifo_size t1 = int (length (tx_fifo t1))" "fifo_size t1 \<le> MAXIMUM_FIFO_SIZE" "tx_overflow t1"
        "list_all incomplete log" using assms(1) b(2) f by (simp_all add: tx_inv_def)
      ultimately show ?thesis using x False pop_inv [of t1 log e] by simp
    qed
  qed
qed

text \<open>The packets of the accepted writes.\<close>

fun accepted_packets :: "tx_entry list \<Rightarrow> byte list list" where
  "accepted_packets [] = []"
| "accepted_packets (l # ls) = (case l of Accepted p \<Rightarrow> p # accepted_packets ls | Failed n p \<Rightarrow> accepted_packets ls)"

lemma whole_entries:
  "\<forall>n p. Failed n p \<in> set log \<longrightarrow> n = 0 \<Longrightarrow> concat (map entry_bytes log) = concat (map wire_frame (accepted_packets log))"
proof (induction log)
  case (Cons l log)
  have "\<And>n p. l = Failed n p \<Longrightarrow> n = 0" using Cons.prems by (metis list.set_intros(1))
  moreover have "\<forall>n p. Failed n p \<in> set log \<longrightarrow> n = 0" using Cons.prems by (meson list.set_intros(2))
  ultimately show ?case using Cons.IH by (cases l) (auto simp: entry_bytes_def)
qed simp

lemma accepted_small: "\<forall>p. Accepted p \<in> set log \<longrightarrow> small p \<Longrightarrow> list_all small (accepted_packets log)"
  by (induction log) (auto split: tx_entry.splits)

text \<open>The packets written in a run.\<close>

fun writes_of :: "tx_event list \<Rightarrow> byte list list" where
  "writes_of [] = []"
| "writes_of (ev # evs) = (case snd ev of None \<Rightarrow> writes_of evs | Some p \<Rightarrow> p # writes_of evs)"

lemma tx_run_inv:
  "list_all (\<lambda>ev. list_all proper (sends (fst ev))) evs \<Longrightarrow> tx_inv (run_ncb x) (run_log x) \<Longrightarrow> foldo tx_step evs x = Some y \<Longrightarrow>
   tx_inv (run_ncb y) (run_log y) \<and> map entry_packet (run_log y) = map entry_packet (run_log x) @ writes_of evs"
proof (induction evs arbitrary: x)
  case (Cons ev evs)
  obtain x1 where x1: "tx_step ev x = Some x1" "foldo tx_step evs x1 = Some y" using Cons.prems(3) by (auto split: option.splits)
  obtain e po where ev: "ev = (e, po)" by (cases ev)
  have e: "list_all proper (sends e)" using Cons.prems(1) ev by simp
  have "tx_inv (run_ncb x1) (run_log x1) \<and>
      map entry_packet (run_log x1) = map entry_packet (run_log x) @ (case po of None \<Rightarrow> [] | Some p \<Rightarrow> [p])"
  proof (cases "run_closed x")
    case True
    then show ?thesis using x1(1) Cons.prems(2) failed_zero ev
      by (cases po) (auto simp: tx_step_def entry_packet_def)
  next
    case open_link: False
    show ?thesis
    proof (cases po)
      case None
      then show ?thesis using x1(1) ev open_link writable_step [OF Cons.prems(2) e] by (auto simp: tx_step_def)
    next
      case (Some p)
      then obtain st t where w: "link_write e p (run_ncb x) = Some (st, t)"
        "x1 = x\<lparr>run_ncb := t, run_log := run_log x @ [write_entry e p st (run_ncb x) t]\<rparr>"
        using x1(1) ev open_link by (auto simp: tx_step_def write_entry_def split: option.splits)
      from write_step [OF Cons.prems(2) e w(1)] show ?thesis using w(2) Some by (simp add: entry_packet_def write_entry_def)
    qed
  qed
  then show ?case using Cons.IH [of x1] Cons.prems(1) x1(2) ev by (cases po) simp_all
qed simp


section \<open>No peer can overrun a buffer or keep the receiver in its loop\<close>

text \<open>
  What holds between two chunks, whatever the peer sends: the packet buffer holds less than a head, or
  a head that was accepted and less than its packet; a large block is not full.
\<close>

definition partial_packet :: "byte list \<Rightarrow> bool" where
  "partial_packet b \<longleftrightarrow> length b < 8 \<or>
     (case nsp__tst_parser b of
        None \<Rightarrow> False
      | Some n \<Rightarrow> 0 < n \<and> n \<le> TCP_MAXIMUM_PACKET_SIZE \<and> int (length b) < n + 8 \<and> n + 8 \<le> int TCP_BUFFER_SIZE)"

definition rx_ok :: "ncb_rx \<Rightarrow> bool" where
  "rx_ok s \<longleftrightarrow> partial_packet (rx_packet s) \<and>
     (case lbdata s of None \<Rightarrow> True | Some (lb, n) \<Rightarrow> length lb < n \<and> int n \<le> TCP_MAXIMUM_PACKET_SIZE + 8)"

lemma parser_prefix:
  assumes "8 \<le> length b"
  shows "nsp__tst_parser (b @ c) = nsp__tst_parser b"
proof -
  have "drop 4 (b @ c) ! i = drop 4 b ! i" if "i < 4" for i using assms that by (subst nth_drop, simp)+ (simp add: nth_append)
  then have "un_le32 (drop 4 (b @ c)) = un_le32 (drop 4 b)" unfolding un_le32_def by (intro sum.cong) simp_all
  then show ?thesis using assms by (simp add: nsp__tst_parser_def)
qed

lemma rx_ok_buffer: "rx_ok s \<Longrightarrow> length (rx_packet s) < TCP_BUFFER_SIZE"
  by (auto simp: rx_ok_def partial_packet_def TCP_BUFFER_SIZE_def split: option.splits)

text \<open>One call of the parser: it fails, or it keeps the condition and uses up a part of its input.\<close>

lemma parse_ok:
  assumes "rx_ok s" "chunk \<noteq> []" "length chunk \<le> TCP_BUFFER_SIZE"
  shows "\<exists>r s'. tcp_parse_pkt alloc jnet_tst chunk s = Some (r, s') \<and>
    length (rx_packet s') < TCP_BUFFER_SIZE \<and> (r < 0 \<or> rx_ok s' \<and> r < int (length chunk))"
proof (cases "lbdata s")
  case (Some l)
  then obtain lb n where l: "lbdata s = Some (lb, n)" by (cases l) auto
  then have "length lb < n" using assms(1) by (simp add: rx_ok_def)
  then show ?thesis using assms l rx_ok_buffer [OF assms(1)]
    by (auto simp: tcp_parse_pkt_def jnet_tst_def tcp_parse_marked_lb_def post_data_def rx_ok_def memcpy_at_def Let_def)
next
  case None
  show ?thesis
  proof (cases "length (rx_packet s) + length chunk < 8")
    case True
    then show ?thesis using assms None
      by (auto simp: tcp_parse_pkt_def jnet_tst_def rx_ok_def partial_packet_def memcpy_at_def TCP_BUFFER_SIZE_def)
  next
    case False
    define pk where "pk = rx_packet s @ take (8 - length (rx_packet s)) chunk"
    define rest where "rest = drop (8 - length (rx_packet s)) chunk"
    have pk: "8 \<le> length pk" "length pk + length rest = length (rx_packet s) + length chunk" using False by (auto simp: pk_def rest_def)
    have short: "length pk < TCP_BUFFER_SIZE" using rx_ok_buffer [OF assms(1)] pk(1)
      by (cases "length (rx_packet s) < 8") (auto simp: pk_def TCP_BUFFER_SIZE_def)
    show ?thesis
    proof (cases "\<exists>n. nsp__tst_parser pk = Some (int n) \<and> 0 < n \<and> int n \<le> TCP_MAXIMUM_PACKET_SIZE")
      case bad: False
      have "\<not> (u \<le> TCP_MAXIMUM_PACKET_SIZE \<and> 0 < u)" if "nsp__tst_parser pk = Some u" for u
        using bad that by (metis nat_0_le order_less_imp_le zero_less_nat_eq)
      moreover have "memcpy_at TCP_BUFFER_SIZE (rx_packet s) chunk (int (8 - length (rx_packet s))) = Some pk"
        using False rx_ok_buffer [OF assms(1)] by (auto simp: memcpy_at_def pk_def TCP_BUFFER_SIZE_def)
      ultimately have "tcp_parse_pkt alloc jnet_tst chunk s = Some (-1, s\<lparr>rx_packet := pk\<rparr>)" using assms(2) None False
        by (auto simp: tcp_parse_pkt_def jnet_tst_def Let_def split: option.splits)
      then show ?thesis using short by simp
    next
      case True
      then obtain n where n: "nsp__tst_parser pk = Some (int n)" "0 < n" "int n \<le> TCP_MAXIMUM_PACKET_SIZE" by blast
      have less: "length pk < n + 8 \<or> length (rx_packet s) < 8"
        using assms(1) n(1) by (auto simp: rx_ok_def partial_packet_def pk_def)
      have le: "length pk < n + 8" using less n(2) False by (auto simp: pk_def)
      have room: "length (rx_packet s) \<le> TCP_BUFFER_SIZE" "length pk \<le> n + 8"
        using rx_ok_buffer [OF assms(1)] le by simp_all
      have big: "n + 8 \<le> TCP_BUFFER_SIZE \<or> length chunk \<le> n + 8" using assms(3) by linarith
      note h = parse_head [OF assms(2) None False pk_def rest_def n room big, of alloc]
      have used: "length rest \<le> length chunk" by (simp add: rest_def)
      show ?thesis using assms(2,3) le short pk n None used unfolding h
        by (auto simp: rx_ok_def partial_packet_def parser_prefix post_data_def)
    qed
  qed
qed

lemma rx_loop_ok:
  "rx_ok s \<Longrightarrow> chunk \<noteq> [] \<Longrightarrow> length chunk \<le> TCP_BUFFER_SIZE \<Longrightarrow>
   \<exists>ok s'. tcp_rx_loop alloc jnet_tst chunk s = Some (ok, s') \<and> length (rx_packet s') < TCP_BUFFER_SIZE \<and> (ok \<longrightarrow> rx_ok s')"
proof (induction "length chunk" arbitrary: chunk s rule: less_induct)
  case less
  obtain r s1 where p: "tcp_parse_pkt alloc jnet_tst chunk s = Some (r, s1)"
    and ok: "length (rx_packet s1) < TCP_BUFFER_SIZE \<and> (r < 0 \<or> rx_ok s1 \<and> r < int (length chunk))"
    using parse_ok [OF less.prems] by blast
  show ?case
  proof (cases "0 < r")
    case True
    let ?rest = "drop (length chunk - nat r) chunk"
    have "length ?rest < length chunk" "?rest \<noteq> []" "length ?rest \<le> TCP_BUFFER_SIZE" using ok True less.prems by auto
    then obtain b s' where l: "tcp_rx_loop alloc jnet_tst ?rest s1 = Some (b, s')" "length (rx_packet s') < TCP_BUFFER_SIZE" "b \<longrightarrow> rx_ok s'"
      using less.hyps [of ?rest s1] ok True by auto
    then show ?thesis using True p by (subst tcp_rx_loop.simps) simp
  next
    case False
    then show ?thesis using p ok by (subst tcp_rx_loop.simps) auto
  qed
qed

lemma rx_total:
  "rx_ok s \<Longrightarrow> list_all (\<lambda>c. c \<noteq> [] \<and> length c \<le> TCP_BUFFER_SIZE) chunks \<Longrightarrow>
   \<exists>ok s'. tcp_rx alloc jnet_tst chunks s = Some (ok, s') \<and> length (rx_packet s') < TCP_BUFFER_SIZE \<and> (ok \<longrightarrow> rx_ok s')"
proof (induction chunks arbitrary: s)
  case Nil
  then show ?case using rx_ok_buffer [of s] by (intro exI [of _ True]) simp
next
  case (Cons c cs)
  from rx_loop_ok [of s c alloc] Cons.prems obtain ok s1 where
    c: "tcp_rx_loop alloc jnet_tst c s = Some (ok, s1)" "length (rx_packet s1) < TCP_BUFFER_SIZE" "ok \<longrightarrow> rx_ok s1" by auto
  then show ?case using Cons.IH [of s1] Cons.prems(2) by (cases ok) auto
qed

section \<open>Properties\<close>

definition rx_init :: ncb_rx where "rx_init = \<lparr>rx_packet = [], lbdata = None, posted = []\<rparr>"

text \<open>C9: Whatever bytes a peer sends and however \<open>recv\<close> cuts them (each chunk is at most the receive
  buffer), the receiver of a link returns for every chunk, and no copy of the parser reads behind
  its input or writes behind the packet buffer or the large block (either would be \<open>None\<close>). The packet
  buffer is never filled up, and as long as the link is not closed a large block is kept below the size
  allocated for it, which is at most the maximum packet and a head.\<close>

theorem receiver_safe:
  assumes "list_all (\<lambda>c. c \<noteq> [] \<and> length c \<le> TCP_BUFFER_SIZE) chunks"
  shows "\<exists>ok s. tcp_rx alloc jnet_tst chunks rx_init = Some (ok, s) \<and> length (rx_packet s) < TCP_BUFFER_SIZE \<and>
    (\<not> ok \<or> (case lbdata s of None \<Rightarrow> True | Some (lb, n) \<Rightarrow> length lb < n \<and> int n \<le> TCP_MAXIMUM_PACKET_SIZE + 8))"
proof -
  have "rx_ok rx_init" by (simp add: rx_ok_def rx_init_def partial_packet_def)
  from rx_total [OF this assms, of alloc] show ?thesis by (auto simp: rx_ok_def)
qed

theorem receiver_safe_witness:
  "\<exists>ok s. tcp_rx (\<lambda>_. True) jnet_tst [[1, 2, 3], [255]] rx_init = Some (ok, s) \<and> length (rx_packet s) < TCP_BUFFER_SIZE \<and>
    (\<not> ok \<or> (case lbdata s of None \<Rightarrow> True | Some (lb, n) \<Rightarrow> length lb < n \<and> int n \<le> TCP_MAXIMUM_PACKET_SIZE + 8))"
  by (rule receiver_safe) (simp add: TCP_BUFFER_SIZE_def)

text \<open>C8: Packets leave a link in the order they were written. In any run of writes and writable events,
  with the kernel taking as little of a packet as it likes each time and failing when it likes, there
  is one entry of the log per write, in order. The bytes sent followed by the rest of the queue are
  exactly the frames of the accepted packets, whole, and of each failed write the bytes sent before it
  failed, always less than its frame; the counter of the queue is right and at most 100, and the
  blocking flag is set exactly while the queue is not empty.\<close>

theorem stream_in_order:
  assumes "list_all (\<lambda>ev. list_all proper (sends (fst ev))) evs"
    and "foldo tx_step evs run_init = Some x" "run_ncb x = t"
  shows "sent t @ concat (map pending (tx_fifo t)) =
      concat (map (\<lambda>l. case l of Accepted p \<Rightarrow> wire_frame p | Failed n p \<Rightarrow> take n (wire_frame p)) (run_log x)) \<and>
    map entry_packet (run_log x) = writes_of evs \<and>
    (\<forall>n p. Failed n p \<in> set (run_log x) \<longrightarrow> n < length (wire_frame p)) \<and>
    fifo_size t = int (length (tx_fifo t)) \<and> length (tx_fifo t) \<le> 100 \<and> (tx_overflow t \<longleftrightarrow> tx_fifo t \<noteq> [])"
proof -
  have "tx_inv (run_ncb run_init) (run_log run_init)" by (simp add: run_init_def fifo_init_inv)
  from tx_run_inv [OF assms(1) this assms(2)]
  have inv: "tx_inv t (run_log x)" "map entry_packet (run_log x) = writes_of evs" using assms(3) by (simp_all add: run_init_def)
  have "n < length (wire_frame p)" if "Failed n p \<in> set (run_log x)" for n p
    using inv(1) that unfolding tx_inv_def list_all_iff incomplete_def by fastforce
  then show ?thesis using inv by (simp add: tx_inv_def MAXIMUM_FIFO_SIZE_def entry_bytes_def [abs_def])
qed

definition an_env :: "send_result list \<Rightarrow> tx_env" where
  "an_env rs = \<lparr>link_status = 0, handlers = True, sends = rs, modify = 0, established = True, memory = True, node_memory = True\<rparr>"

definition slow_link :: "tx_event list" where
  "slow_link =
     [(an_env [Taken 3, Refused_with EAGAIN], Some [1, 2]), (an_env [], Some [5]),
      (an_env [Refused_with EINTR, Taken 7], None), (an_env [Taken 2, Taken 7], None)]"

lemma slow_link_run:
  "foldo tx_step slow_link run_init =
     Some \<lparr>run_ncb = \<lparr>tx_fifo = [], fifo_size = 0, tx_overflow = False, epollout = False,
                      sent = wire_frame [1, 2] @ wire_frame [5]\<rparr>,
           run_log = [Accepted [1, 2], Accepted [5]], run_closed = False\<rparr>"
  by code_simp

text \<open>
  A link on which the kernel runs out of buffers (\<open>NOMEM\<close>) after three bytes of the first packet: the
  write fails, the link stays open, and the next packet is accepted and sent behind the three bytes.
\<close>

definition broken_link :: "tx_event list" where
  "broken_link = [(an_env [Taken 3, Refused_with NOMEM], Some [1, 2]), (an_env [Taken 9], Some [5])]"

lemma broken_link_run:
  "foldo tx_step broken_link run_init =
     Some \<lparr>run_ncb = \<lparr>tx_fifo = [], fifo_size = 0, tx_overflow = False, epollout = False,
                      sent = take 3 (wire_frame [1, 2]) @ wire_frame [5]\<rparr>,
           run_log = [Failed 3 [1, 2], Accepted [5]], run_closed = False\<rparr>"
  by code_simp

text \<open>The receiver takes the three bytes for the beginning of a head and ends the link: the accepted packet is lost.\<close>

lemma partial_write_breaks_stream:
  "\<exists>x s. foldo tx_step broken_link run_init = Some x \<and> Accepted [5] \<in> set (run_log x) \<and> \<not> tx_overflow (run_ncb x) \<and>
    tcp_rx (\<lambda>_. True) jnet_tst [sent (run_ncb x)] rx_init = Some (False, s) \<and> posted s = []"
proof -
  let ?c = "take 3 (wire_frame [1, 2]) @ wire_frame [5]"
  have "tcp_parse_pkt (\<lambda>_. True) jnet_tst ?c rx_init = Some (-1, rx_init\<lparr>rx_packet := take 8 ?c\<rparr>)"
    by (simp add: tcp_parse_pkt_def jnet_tst_def memcpy_at_def wire_frame_def NSPDEF_OPCODE_def le32_def nsp__tst_parser_def
        rx_init_def TCP_BUFFER_SIZE_def)
  then have "tcp_rx_loop (\<lambda>_. True) jnet_tst ?c rx_init = Some (False, rx_init\<lparr>rx_packet := take 8 ?c\<rparr>)"
    by (subst tcp_rx_loop.simps) simp
  then show ?thesis unfolding broken_link_run by (simp add: rx_init_def)
qed

theorem stream_in_order_witness:
  "sent (run_ncb (the (foldo tx_step slow_link run_init))) = wire_frame [1, 2] @ wire_frame [5] \<and>
   sent (run_ncb (the (foldo tx_step broken_link run_init))) = take 3 (wire_frame [1, 2]) @ wire_frame [5]"
proof -
  have "list_all (\<lambda>ev. list_all proper (sends (fst ev))) slow_link" "list_all (\<lambda>ev. list_all proper (sends (fst ev))) broken_link"
    by code_simp+
  from stream_in_order [OF this(1) slow_link_run refl] stream_in_order [OF this(2) broken_link_run refl]
  show ?thesis by (simp add: slow_link_run broken_link_run)
qed

text \<open>C7: End to end: when no write failed after a part of its frame was sent, the queue of the sender
  has drained, and the bytes sent arrive in whatever chunks, the receiver hands exactly the accepted
  packets to its callback, in order and unchanged, provided each fits the packet buffer of \<open>0x11000\<close> bytes.\<close>

theorem link_delivers:
  assumes "list_all (\<lambda>ev. list_all proper (sends (fst ev))) evs"
    and "foldo tx_step evs run_init = Some x" "\<not> tx_overflow (run_ncb x)"
    and "\<forall>n p. Failed n p \<in> set (run_log x) \<longrightarrow> n = 0" "\<forall>p. Accepted p \<in> set (run_log x) \<longrightarrow> small p"
    and "concat chunks = sent (run_ncb x)" "list_all (\<lambda>c. c \<noteq> []) chunks"
  shows "tcp_rx alloc jnet_tst chunks rx_init = Some (True, rx_init\<lparr>posted := accepted_packets (run_log x)\<rparr>)"
proof -
  have "tx_inv (run_ncb run_init) (run_log run_init)" by (simp add: run_init_def fifo_init_inv)
  from tx_run_inv [OF assms(1) this assms(2)] have "sent (run_ncb x) = concat (map entry_bytes (run_log x))"
    using assms(3) by (auto simp: tx_inv_def)
  then have "[] @ concat chunks = concat (map wire_frame (accepted_packets (run_log x)))"
    using assms(6) whole_entries [OF assms(4)] by simp
  from rx_small [OF this _ _ assms(7), of rx_init alloc] show ?thesis
    using accepted_small [OF assms(5)] by (simp add: rx_init_def part_of_def split: list.splits)
qed

theorem link_delivers_witness:
  "tcp_rx (\<lambda>_. False) jnet_tst [take 12 (wire_frame [1, 2] @ wire_frame [5]), drop 12 (wire_frame [1, 2] @ wire_frame [5])] rx_init =
     Some (True, rx_init\<lparr>posted := [[1, 2], [5]]\<rparr>)"
proof -
  have p: "list_all (\<lambda>ev. list_all proper (sends (fst ev))) slow_link" by code_simp
  have "tcp_rx (\<lambda>_. False) jnet_tst [take 12 (wire_frame [1, 2] @ wire_frame [5]), drop 12 (wire_frame [1, 2] @ wire_frame [5])] rx_init =
     Some (True, rx_init\<lparr>posted := accepted_packets [Accepted [1, 2], Accepted [5]]\<rparr>)"
    by (rule link_delivers [OF p slow_link_run, unfolded tx_run.select_convs]) (auto simp: small_def TCP_BUFFER_SIZE_def wire_frame_def)
  then show ?thesis by simp
qed

text \<open>C10: A packet larger than the packet buffer is lost when its head arrives in two parts. The first
  \<open>k\<close> bytes are not copied into the large block, which then waits for \<open>k\<close> bytes more than the packet
  has: nothing is handed to the callback, and the next bytes of the stream are taken into the block.\<close>

theorem divided_head_loses_packet:
  assumes "0 < k" "k < 8" "TCP_BUFFER_SIZE < length p + 8" "int (length p) \<le> TCP_MAXIMUM_PACKET_SIZE" "alloc (length p + 8)"
    and "c @ concat cs = drop k (wire_frame p)" "8 \<le> k + length c" "list_all (\<lambda>c. c \<noteq> []) cs"
  shows "tcp_rx alloc jnet_tst (take k (wire_frame p) # c # cs) rx_init =
    Some (True, rx_init\<lparr>lbdata := Some (drop k (wire_frame p), length p + 8)\<rparr>)"
  by (rule divided_head) (use assms in \<open>simp_all add: rx_init_def\<close>)

theorem divided_head_loses_packet_witness:
  "tcp_rx (\<lambda>_. True) jnet_tst [take 4 (wire_frame (replicate 70000 7)), drop 4 (wire_frame (replicate 70000 7))] rx_init =
    Some (True, rx_init\<lparr>lbdata := Some (drop 4 (wire_frame (replicate 70000 7)), length (replicate 70000 (7 :: byte)) + 8)\<rparr>)"
  by (rule divided_head_loses_packet) (simp_all add: TCP_BUFFER_SIZE_def TCP_MAXIMUM_PACKET_SIZE_def push_bit_eq_mult)

end
