(* ===== verification/Object.thy ===== *)
theory Object
  imports Avltree
begin

text \<open>
  The table of objects (\<^verbatim>\<open>naxfw/src/posix/wosi/object.c\<close>): every link of the framework is an object,
  named by a handle and kept alive by a count of references. The table has 256 AVL trees of handles;
  the objects themselves are in a heap of addresses, so that an access to an object that was freed is
  the result \<open>None\<close>. Every call below runs under the mutex of the table and is one step; threads
  interleave between calls.
\<close>

section \<open>The table of handles\<close>

type_synonym obj_addr = nat
type_synonym handle_tab = "nat \<Rightarrow> (int \<times> obj_addr) avltree"

definition OBJ_HASHTABLE_SIZE :: nat where "OBJ_HASHTABLE_SIZE = 256"

definition avl_compare_routine :: "int \<times> obj_addr \<Rightarrow> int \<times> obj_addr \<Rightarrow> int" where
  "avl_compare_routine left right = (if fst left > fst right then 1 else if fst left < fst right then -1 else 0)"

definition hld2root :: "int \<Rightarrow> nat option" where
  "hld2root hld = (if hld > 0 then Some (nat (hld mod int OBJ_HASHTABLE_SIZE)) else None)"

definition tab_search :: "handle_tab \<Rightarrow> int \<Rightarrow> obj_addr option" where
  "tab_search tab hld =
     (case hld2root hld of
        None \<Rightarrow> None
      | Some root \<Rightarrow> map_option snd (avlsearch avl_compare_routine (tab root) (hld, 0)))"

definition tab_insert :: "handle_tab \<Rightarrow> int \<Rightarrow> obj_addr \<Rightarrow> handle_tab" where
  "tab_insert tab hld a =
     (case hld2root hld of
        None \<Rightarrow> tab
      | Some root \<Rightarrow> tab(root := avlinsert avl_compare_routine (tab root) (hld, a)))"

definition tab_remove :: "handle_tab \<Rightarrow> int \<Rightarrow> handle_tab" where
  "tab_remove tab hld =
     (case hld2root hld of
        None \<Rightarrow> tab
      | Some root \<Rightarrow> tab(root := fst (avlremove avl_compare_routine (tab root) (hld, 0))))"

text \<open>What the objects rely on: the table is a finite map on the positive handles.\<close>

locale handle_table =
  fixes wf :: "'t \<Rightarrow> bool" and empty :: 't and search :: "'t \<Rightarrow> int \<Rightarrow> 'a option"
    and insert :: "'t \<Rightarrow> int \<Rightarrow> 'a \<Rightarrow> 't" and remove :: "'t \<Rightarrow> int \<Rightarrow> 't"
  assumes wf_empty: "wf empty" and search_empty: "search empty h = None"
    and wf_insert: "wf t \<Longrightarrow> wf (insert t h a)" and wf_remove: "wf t \<Longrightarrow> wf (remove t h)"
    and search_insert: "wf t \<Longrightarrow> 0 < h \<Longrightarrow> search (insert t h a) k = (if k = h \<and> search t h = None then Some a else search t k)"
    and search_remove: "wf t \<Longrightarrow> search (remove t h) k = (if k = h then None else search t k)"
    and search_positive: "search t h \<noteq> None \<Longrightarrow> 0 < h"
begin

lemma insert_fresh: "wf t \<Longrightarrow> 0 < h \<Longrightarrow> search t h = None \<Longrightarrow> search (insert t h a) = (search t)(h \<mapsto> a)"
  by (rule ext) (simp add: search_insert)

lemma insert_taken: "wf t \<Longrightarrow> 0 < h \<Longrightarrow> search t h \<noteq> None \<Longrightarrow> search (insert t h a) = search t"
  by (rule ext) (simp add: search_insert)

lemma remove_only: "wf t \<Longrightarrow> search (remove t h) = (search t)(h := None)"
  by (rule ext) (simp add: search_remove)

end

interpretation handles: avl_compare avl_compare_routine fst
  by unfold_locales (auto simp: avl_compare_routine_def)

definition wf_tab :: "handle_tab \<Rightarrow> bool" where
  "wf_tab tab \<longleftrightarrow> (\<forall>i. avl (tab i) \<and> bst fst (tab i))"

lemma tab_search_Some:
  assumes "wf_tab tab"
  shows "tab_search tab h = Some a \<longleftrightarrow> 0 < h \<and> (h, a) \<in> elems (tab (nat (h mod 256)))"
proof -
  have b: "bst fst (tab (nat (h mod 256)))" using assms by (simp add: wf_tab_def)
  show ?thesis using handles.avlsearch_Some [OF b, of "(h, 0)"]
    by (auto simp: tab_search_def hld2root_def OBJ_HASHTABLE_SIZE_def)
qed

lemma tab_search_ext:
  assumes "wf_tab t" "wf_tab u" "\<And>a. 0 < h \<Longrightarrow> (h, a) \<in> elems (t (nat (h mod 256))) \<longleftrightarrow> (h, a) \<in> elems (u (nat (h mod 256)))"
  shows "tab_search t h = tab_search u h"
proof (cases "tab_search u h")
  case None
  then have "\<not> (\<exists>a. tab_search t h = Some a)" using assms by (metis tab_search_Some option.distinct(1))
  then show ?thesis using None by simp
next
  case (Some a)
  then show ?thesis using assms by (metis tab_search_Some)
qed

lemma wf_tab_insert: "wf_tab t \<Longrightarrow> wf_tab (tab_insert t h a)"
  by (auto simp: wf_tab_def tab_insert_def handles.bst_avlinsert avlinsert_balanced split: option.splits)

lemma wf_tab_remove: "wf_tab t \<Longrightarrow> wf_tab (tab_remove t h)"
  using handles.avlremove_correct avlremove_balanced
  by (fastforce simp: wf_tab_def tab_remove_def split: option.splits)

interpretation tab: handle_table wf_tab "\<lambda>_. ET" tab_search tab_insert tab_remove
proof unfold_locales
  fix t :: handle_tab and h k :: int and a :: obj_addr
  show "wf_tab (\<lambda>_. ET)" by (simp add: wf_tab_def)
  show "tab_search (\<lambda>_. ET) h = None" by (simp add: tab_search_def split: option.splits)
  show "tab_search t h \<noteq> None \<Longrightarrow> 0 < h" by (auto simp: tab_search_def hld2root_def split: if_splits)
  assume t: "wf_tab t"
  show wi: "wf_tab (tab_insert t h a)" and wr: "wf_tab (tab_remove t h)" using t by (simp_all add: wf_tab_insert wf_tab_remove)
  have b: "bst fst (t i)" for i using t by (simp add: wf_tab_def)
  show "tab_search (tab_remove t h) k = (if k = h then None else tab_search t k)"
  proof (cases "k = h")
    case True
    have "\<not> tab_search (tab_remove t h) h = Some c" for c
      using handles.avlremove_correct [OF b, of _ "(h, 0)"]
      unfolding tab_search_Some [OF wr] by (auto simp: tab_remove_def hld2root_def OBJ_HASHTABLE_SIZE_def)
    then show ?thesis using True by auto
  next
    case False
    have "tab_search (tab_remove t h) k = tab_search t k"
      by (rule tab_search_ext [OF wr t])
        (use False handles.avlremove_correct [OF b, of _ "(h, 0)"] in
          \<open>auto simp: tab_remove_def hld2root_def OBJ_HASHTABLE_SIZE_def split: option.splits\<close>)
    then show ?thesis using False by simp
  qed
  assume h: "0 < h"
  show "tab_search (tab_insert t h a) k = (if k = h \<and> tab_search t h = None then Some a else tab_search t k)"
  proof (cases "k = h \<and> tab_search t h = None")
    case True
    then have "h \<notin> fst ` elems (t (nat (h mod 256)))" using tab_search_Some [OF t, of h] h by auto
    then have "tab_search (tab_insert t h a) h = Some a" unfolding tab_search_Some [OF wi] using h
      by (simp add: tab_insert_def hld2root_def OBJ_HASHTABLE_SIZE_def handles.elems_avlinsert [OF b])
    then show ?thesis using True by simp
  next
    case False
    have "tab_search (tab_insert t h a) k = tab_search t k"
    proof (rule tab_search_ext [OF wi t])
      fix c assume "0 < k"
      have "h \<in> fst ` elems (t (nat (h mod 256)))" if "k = h" using False that tab_search_Some [OF t] by force
      then show "(k, c) \<in> elems (tab_insert t h a (nat (k mod 256))) \<longleftrightarrow> (k, c) \<in> elems (t (nat (k mod 256)))"
        using h by (auto simp: tab_insert_def hld2root_def OBJ_HASHTABLE_SIZE_def handles.elems_avlinsert [OF b] split: if_splits)
    qed
    then show ?thesis using False by auto
  qed
qed

section \<open>Objects\<close>

definition OBJSTAT_NORMAL :: nat where "OBJSTAT_NORMAL = 0"
definition OBJSTAT_CLOSEWAIT :: nat where "OBJSTAT_CLOSEWAIT = 1"
definition INVALID_OBJHLD :: int where "INVALID_OBJHLD = -1"

definition OBJ_EEXIST :: int where "OBJ_EEXIST = 17"
definition OBJ_ENODEV :: int where "OBJ_ENODEV = 19"
definition OBJ_EINVAL :: int where "OBJ_EINVAL = 22"
definition OBJ_ENOMEM :: int where "OBJ_ENOMEM = 12"

record object =
  hld :: int
  ostatus :: nat
  refcnt :: int
  osize :: nat
  unloader :: bool

text \<open>
  The manager. \<open>freed\<close> records the objects given back, with whether an unloader ran on them, in
  order; an object whose initializer failed never had a handle and is recorded with \<open>-1\<close>.
\<close>

record objmgr =
  roottab :: handle_tab
  atoid :: int
  heap :: "obj_addr \<rightharpoonup> object"
  freed :: "(int \<times> bool) list"

definition objinit :: objmgr where
  "objinit = \<lparr>roottab = (\<lambda>_. ET), atoid = 0, heap = (\<lambda>_. None), freed = []\<rparr>"

text \<open>The creator; the initializer is what it returns, if there is one.\<close>

record objcreator =
  known :: int
  csize :: nat
  initializer :: "int option"
  cunloader :: bool
  has_context :: bool
  ctxsize :: nat

definition objtabinst :: "object \<Rightarrow> obj_addr \<Rightarrow> objmgr \<Rightarrow> int \<times> object \<times> objmgr" where
  "objtabinst obj a m =
     (if hld obj \<noteq> INVALID_OBJHLD \<or> hld obj = 0 then
        (case hld2root (hld obj) of
           None \<Rightarrow> (- OBJ_ENODEV, obj, m)
         | Some _ \<Rightarrow>
             if tab_search (roottab m) (hld obj) \<noteq> None then (- OBJ_EEXIST, obj, m)
             else (0, obj, m\<lparr>roottab := tab_insert (roottab m) (hld obj) a\<rparr>))
      else
        (let h = atoid m + 1; obj1 = obj\<lparr>hld := h\<rparr>; m1 = m\<lparr>atoid := h\<rparr>
         in case hld2root h of
              None \<Rightarrow> (- OBJ_ENODEV, obj1, m1)
            | Some _ \<Rightarrow> (0, obj1, m1\<lparr>roottab := tab_insert (roottab m1) h a\<rparr>)))"

definition bad_creator :: "objcreator \<Rightarrow> bool" where
  "bad_creator c \<longleftrightarrow> csize c = 0 \<or> (has_context c \<and> ctxsize c = 0) \<or> (\<not> has_context c \<and> ctxsize c \<noteq> 0)"

definition new_object :: "objcreator \<Rightarrow> object" where
  "new_object c = \<lparr>hld = (if known c = 0 then INVALID_OBJHLD else known c), ostatus = OBJSTAT_NORMAL, refcnt = 0,
     osize = csize c, unloader = cunloader c\<rparr>"

text \<open>
  \<open>objallo4\<close>: the status with the handle; \<open>mem\<close> is what the allocator returns. \<open>None\<close>: a failed
  initializer without an unloader, the call of a null pointer.
\<close>

definition init_failed :: "objcreator \<Rightarrow> bool" where
  "init_failed c \<longleftrightarrow> (case initializer c of None \<Rightarrow> False | Some st \<Rightarrow> st < 0)"

definition objallo4 :: "objcreator \<Rightarrow> obj_addr option \<Rightarrow> objmgr \<Rightarrow> ((int \<times> int) \<times> objmgr) option" where
  "objallo4 c mem m =
     (if bad_creator c then Some ((- OBJ_EINVAL, INVALID_OBJHLD), m)
      else case mem of
        None \<Rightarrow> Some ((- OBJ_ENOMEM, INVALID_OBJHLD), m)
      | Some a \<Rightarrow>
          if init_failed c then
            (if cunloader c then Some ((-1, INVALID_OBJHLD), m\<lparr>freed := freed m @ [(-1, True)]\<rparr>) else None)
          else
            (case objtabinst (new_object c) a m of (status, obj, m1) \<Rightarrow>
               if status < 0 then Some ((status, INVALID_OBJHLD), m1)
               else Some ((0, hld obj), m1\<lparr>heap := (heap m1)(a \<mapsto> obj)\<rparr>)))"

text \<open>\<open>objallo3\<close> does the same and returns the handle only.\<close>

definition objallo3 :: "objcreator \<Rightarrow> obj_addr option \<Rightarrow> objmgr \<Rightarrow> (int \<times> objmgr) option" where
  "objallo3 c mem m =
     (if bad_creator c then Some (INVALID_OBJHLD, m)
      else case mem of
        None \<Rightarrow> Some (INVALID_OBJHLD, m)
      | Some a \<Rightarrow>
          if init_failed c then
            (if cunloader c then Some (INVALID_OBJHLD, m\<lparr>freed := freed m @ [(-1, True)]\<rparr>) else None)
          else
            (case objtabinst (new_object c) a m of (status, obj, m1) \<Rightarrow>
               if status < 0 then Some (INVALID_OBJHLD, m1)
               else Some (hld obj, m1\<lparr>heap := (heap m1)(a \<mapsto> obj)\<rparr>)))"

definition objallo :: "nat \<Rightarrow> int option \<Rightarrow> bool \<Rightarrow> bool \<Rightarrow> nat \<Rightarrow> obj_addr option \<Rightarrow> objmgr \<Rightarrow> (int \<times> objmgr) option" where
  "objallo sz init unl ctx cb =
     objallo3 \<lparr>known = INVALID_OBJHLD, csize = sz, initializer = init, cunloader = unl, has_context = ctx, ctxsize = cb\<rparr>"

definition objallo2 :: "nat \<Rightarrow> obj_addr option \<Rightarrow> objmgr \<Rightarrow> (int \<times> objmgr) option" where
  "objallo2 sz = objallo sz None False False 0"

text \<open>The reference operations. \<open>None\<close>: the table names an object that is not in memory.\<close>

definition objrefr2 :: "int \<Rightarrow> objmgr \<Rightarrow> ((int \<times> obj_addr option) \<times> objmgr) option" where
  "objrefr2 h m =
     (case tab_search (roottab m) h of
        None \<Rightarrow> Some ((-1, None), m)
      | Some a \<Rightarrow>
          (case heap m a of
             None \<Rightarrow> None
           | Some obj \<Rightarrow>
               if ostatus obj = OBJSTAT_NORMAL
               then Some ((int (osize obj), Some a), m\<lparr>heap := (heap m)(a \<mapsto> obj\<lparr>refcnt := refcnt obj + 1\<rparr>)\<rparr>)
               else Some ((-1, None), m)))"

definition objrefr :: "int \<Rightarrow> objmgr \<Rightarrow> (obj_addr option \<times> objmgr) option" where
  "objrefr h m =
     (case tab_search (roottab m) h of
        None \<Rightarrow> Some (None, m)
      | Some a \<Rightarrow>
          (case heap m a of
             None \<Rightarrow> None
           | Some obj \<Rightarrow>
               if ostatus obj = OBJSTAT_NORMAL
               then Some (Some a, m\<lparr>heap := (heap m)(a \<mapsto> obj\<lparr>refcnt := refcnt obj + 1\<rparr>)\<rparr>)
               else Some (None, m)))"

definition objreff :: "int \<Rightarrow> objmgr \<Rightarrow> (obj_addr option \<times> objmgr) option" where
  "objreff h m =
     (case tab_search (roottab m) h of
        None \<Rightarrow> Some (None, m)
      | Some a \<Rightarrow>
          (case heap m a of
             None \<Rightarrow> None
           | Some obj \<Rightarrow>
               if ostatus obj = OBJSTAT_NORMAL
               then Some (Some a, m\<lparr>heap := (heap m)(a \<mapsto> obj\<lparr>refcnt := refcnt obj + 1, ostatus := OBJSTAT_CLOSEWAIT\<rparr>)\<rparr>)
               else Some (None, m)))"

text \<open>\<open>_objtabrmve\<close> with the \<open>_objtagfree\<close> that follows it outside the lock.\<close>

definition obj_destroy :: "obj_addr \<Rightarrow> object \<Rightarrow> objmgr \<Rightarrow> objmgr" where
  "obj_destroy a obj m =
     m\<lparr>roottab := tab_remove (roottab m) (hld obj), heap := (heap m)(a := None), freed := freed m @ [(hld obj, unloader obj)]\<rparr>"

definition objdefr :: "int \<Rightarrow> objmgr \<Rightarrow> objmgr option" where
  "objdefr h m =
     (case tab_search (roottab m) h of
        None \<Rightarrow> Some m
      | Some a \<Rightarrow>
          (case heap m a of
             None \<Rightarrow> None
           | Some obj \<Rightarrow>
               if refcnt obj > 0 then
                 (let obj1 = obj\<lparr>refcnt := refcnt obj - 1\<rparr>; m1 = m\<lparr>heap := (heap m)(a \<mapsto> obj1)\<rparr>
                  in if refcnt obj1 = 0 \<and> ostatus obj1 = OBJSTAT_CLOSEWAIT then Some (obj_destroy a obj1 m1) else Some m1)
               else Some m))"

definition objclos :: "int \<Rightarrow> objmgr \<Rightarrow> objmgr option" where
  "objclos h m =
     (case tab_search (roottab m) h of
        None \<Rightarrow> Some m
      | Some a \<Rightarrow>
          (case heap m a of
             None \<Rightarrow> None
           | Some obj \<Rightarrow>
               if refcnt obj = 0 \<and> ostatus obj = OBJSTAT_NORMAL then Some (obj_destroy a obj m)
               else Some (m\<lparr>heap := (heap m)(a \<mapsto> obj\<lparr>ostatus := OBJSTAT_CLOSEWAIT\<rparr>)\<rparr>)))"


section \<open>Threads that share the table\<close>

text \<open>
  A run interleaves the calls of any number of threads. The second component counts the references
  that threads hold; a thread gives back only a reference it holds, and the allocator returns only
  addresses that are not in use: events that break these rules change nothing.
\<close>

datatype obj_event = Alloc objcreator "obj_addr option" | Refr int | Reff int | Defr int | Clos int

definition taken :: "int \<Rightarrow> (int \<Rightarrow> nat) \<Rightarrow> obj_addr option \<times> objmgr \<Rightarrow> objmgr \<times> (int \<Rightarrow> nat)" where
  "taken h held r = (snd r, if fst r = None then held else held(h := held h + 1))"

fun obj_step :: "obj_event \<Rightarrow> objmgr \<times> (int \<Rightarrow> nat) \<Rightarrow> (objmgr \<times> (int \<Rightarrow> nat)) option" where
  "obj_step (Alloc c mem) (m, held) =
     (if (case mem of None \<Rightarrow> False | Some a \<Rightarrow> heap m a \<noteq> None) then Some (m, held)
      else map_option (\<lambda>r. (snd r, held)) (objallo3 c mem m))"
| "obj_step (Refr h) (m, held) = map_option (taken h held) (objrefr h m)"
| "obj_step (Reff h) (m, held) = map_option (taken h held) (objreff h m)"
| "obj_step (Defr h) (m, held) =
     (if held h = 0 then Some (m, held) else map_option (\<lambda>m. (m, held(h := held h - 1))) (objdefr h m))"
| "obj_step (Clos h) (m, held) = map_option (\<lambda>m. (m, held)) (objclos h m)"

text \<open>What the callers in the framework pass: no chosen handle, and an unloader beside an initializer that can fail.\<close>

definition framework_event :: "obj_event \<Rightarrow> bool" where
  "framework_event ev = (case ev of Alloc c _ \<Rightarrow> known c = INVALID_OBJHLD \<and> (cunloader c \<or> \<not> init_failed c) | _ \<Rightarrow> True)"

definition counted :: "objmgr \<Rightarrow> (int \<Rightarrow> nat) \<Rightarrow> int \<Rightarrow> bool" where
  "counted m held h =
     (case tab_search (roottab m) h of
        None \<Rightarrow> held h = 0
      | Some a \<Rightarrow>
          (case heap m a of
             None \<Rightarrow> False
           | Some obj \<Rightarrow> hld obj = h \<and> refcnt obj = int (held h) \<and>
               (ostatus obj = OBJSTAT_NORMAL \<or> ostatus obj = OBJSTAT_CLOSEWAIT \<and> 0 < held h)))"

definition gone :: "objmgr \<Rightarrow> int list" where
  "gone m = filter (\<lambda>h. 0 < h) (map fst (freed m))"

definition obj_inv :: "objmgr \<times> (int \<Rightarrow> nat) \<Rightarrow> bool" where
  "obj_inv x \<longleftrightarrow> wf_tab (roottab (fst x)) \<and> 0 \<le> atoid (fst x) \<and> (\<forall>h. counted (fst x) (snd x) h) \<and>
     distinct (gone (fst x)) \<and> set (gone (fst x)) \<inter> dom (tab_search (roottab (fst x))) = {} \<and>
     set (gone (fst x)) \<union> dom (tab_search (roottab (fst x))) = {h. 0 < h \<and> h \<le> atoid (fst x)}"

lemma counted_Some:
  assumes "\<forall>h. counted m held h" "tab_search (roottab m) h = Some a"
  obtains obj where "heap m a = Some obj" "hld obj = h" "refcnt obj = int (held h)"
    "ostatus obj = OBJSTAT_NORMAL \<or> ostatus obj = OBJSTAT_CLOSEWAIT \<and> 0 < held h"
  using assms(1) [rule_format, of h] assms(2) by (auto simp: counted_def split: option.splits)

text \<open>A change of one object in place leaves the other handles counted.\<close>

lemma counted_update:
  assumes "\<forall>h. counted m held h" "tab_search (roottab m) h = Some a"
    and "hld obj = h" "refcnt obj = int n" "ostatus obj = OBJSTAT_NORMAL \<or> ostatus obj = OBJSTAT_CLOSEWAIT \<and> 0 < n"
  shows "\<forall>k. counted (m\<lparr>heap := (heap m)(a \<mapsto> obj)\<rparr>) (held(h := n)) k"
proof
  fix k
  obtain old where old: "heap m a = Some old" "hld old = h" using counted_Some [OF assms(1,2)] by metis
  show "counted (m\<lparr>heap := (heap m)(a \<mapsto> obj)\<rparr>) (held(h := n)) k"
  proof (cases "k = h")
    case True
    then show ?thesis using assms by (simp add: counted_def)
  next
    case False
    have "b \<noteq> a" if "tab_search (roottab m) k = Some b" for b
      using counted_Some [OF assms(1) that] old False by (metis option.inject)
    then show ?thesis using assms(1) [rule_format, of k] False by (auto simp: counted_def split: option.splits)
  qed
qed

lemma inv_update:
  assumes "obj_inv (m, held)" "tab_search (roottab m) h = Some a"
    and "hld obj = h" "refcnt obj = int n" "ostatus obj = OBJSTAT_NORMAL \<or> ostatus obj = OBJSTAT_CLOSEWAIT \<and> 0 < n"
  shows "obj_inv (m\<lparr>heap := (heap m)(a \<mapsto> obj)\<rparr>, held(h := n))"
  using assms counted_update [of m held h a obj n] by (simp add: obj_inv_def gone_def)

lemma inv_destroy:
  assumes "obj_inv (m, held)" "tab_search (roottab m) h = Some a" "hld obj = h"
  shows "obj_inv (obj_destroy a obj m, held(h := 0))"
proof -
  have wf: "wf_tab (roottab m)" and c: "\<forall>h. counted m held h" using assms(1) by (simp_all add: obj_inv_def)
  have pos: "0 < h" using tab.search_positive assms(2) by blast
  have s: "tab_search (roottab (obj_destroy a obj m)) = (tab_search (roottab m))(h := None)"
    using tab.remove_only [OF wf] assms(3) by (simp add: obj_destroy_def)
  have g: "gone (obj_destroy a obj m) = gone m @ [h]" using pos assms(3) by (simp add: gone_def obj_destroy_def)
  have "counted (obj_destroy a obj m) (held(h := 0)) k" for k
  proof (cases "k = h")
    case True
    then show ?thesis using s by (simp add: counted_def)
  next
    case False
    have "b \<noteq> a" if "tab_search (roottab m) k = Some b" for b
      using counted_Some [OF c that] counted_Some [OF c assms(2)] False by (metis option.inject)
    then show ?thesis using c [rule_format, of k] False s by (auto simp: counted_def obj_destroy_def split: option.splits)
  qed
  moreover have "wf_tab (roottab (obj_destroy a obj m))" using wf by (simp add: obj_destroy_def wf_tab_remove)
  ultimately show ?thesis using assms(1,2) s g by (auto simp: obj_inv_def obj_destroy_def)
qed

lemma next_handle:
  assumes "obj_inv (m, held)"
  shows "tab_search (roottab m) (atoid m + 1) = None \<and> atoid m + 1 \<notin> set (gone m)"
proof -
  have "atoid m + 1 \<notin> {h. 0 < h \<and> h \<le> atoid m}" by simp
  then have "atoid m + 1 \<notin> set (gone m) \<union> dom (tab_search (roottab m))" using assms unfolding obj_inv_def fst_conv by argo
  then show ?thesis by (simp add: domIff)
qed

lemma inv_alloc:
  assumes "obj_inv (m, held)" "heap m a = None" "hld obj = INVALID_OBJHLD" "refcnt obj = 0" "ostatus obj = OBJSTAT_NORMAL"
    and "objtabinst obj a m = (st, obj', m1)"
  shows "st = 0 \<and> hld obj' = atoid m + 1 \<and> obj_inv (m1\<lparr>heap := (heap m1)(a \<mapsto> obj')\<rparr>, held)"
proof -
  let ?h = "atoid m + 1"
  have wf: "wf_tab (roottab m)" and c: "\<forall>h. counted m held h" and pos: "0 < ?h"
    and dom: "set (gone m) \<union> dom (tab_search (roottab m)) = {h. 0 < h \<and> h \<le> atoid m}"
    using assms(1) by (auto simp: obj_inv_def)
  have fresh: "?h \<notin> set (gone m)" and new: "tab_search (roottab m) ?h = None" using next_handle [OF assms(1)] by simp_all
  have r: "st = 0" "obj' = obj\<lparr>hld := ?h\<rparr>" "m1 = m\<lparr>atoid := ?h, roottab := tab_insert (roottab m) ?h a\<rparr>"
    using assms(3,6) pos by (auto simp: objtabinst_def INVALID_OBJHLD_def Let_def hld2root_def)
  let ?m = "m1\<lparr>heap := (heap m1)(a \<mapsto> obj')\<rparr>"
  have s: "tab_search (roottab ?m) = (tab_search (roottab m))(?h \<mapsto> a)" using tab.insert_fresh [OF wf pos new] r by simp
  have held: "held ?h = 0" using c [rule_format, of ?h] new by (simp add: counted_def)
  have "counted ?m held k" for k
  proof (cases "k = ?h")
    case True
    then show ?thesis using s r held assms(4,5) by (simp add: counted_def)
  next
    case False
    have "b \<noteq> a" if "tab_search (roottab m) k = Some b" for b
      using counted_Some [OF c that] assms(2) by (metis option.distinct(1))
    then show ?thesis using c [rule_format, of k] False s r by (auto simp: counted_def split: option.splits)
  qed
  moreover have "wf_tab (roottab ?m)" using wf r by (simp add: wf_tab_insert)
  moreover have "gone ?m = gone m" using r by (simp add: gone_def)
  moreover have "?h \<notin> set (gone m)" using fresh by simp
  ultimately have "obj_inv (?m, held)" using assms(1) s r dom by (auto simp: obj_inv_def)
  then show ?thesis using r by simp
qed

text \<open>One call keeps the invariant and never touches an object that is not in memory.\<close>

lemma obj_step_ok:
  assumes "obj_inv (m, held)" "framework_event ev"
  shows "\<exists>y. obj_step ev (m, held) = Some y \<and> obj_inv y"
proof -
  have c: "\<forall>h. counted m held h" using assms(1) by (simp add: obj_inv_def)
  have same: "held(h := held h) = held" for h by simp
  show ?thesis
  proof (cases ev)
    case (Alloc cr mem)
    have "counted (m\<lparr>freed := l\<rparr>) held h = counted m held h" for l h by (simp add: counted_def split: option.split)
    then have freed: "obj_inv (m\<lparr>freed := freed m @ [(-1, True)]\<rparr>, held)" using assms(1) by (simp add: obj_inv_def gone_def)
    show ?thesis
    proof (cases "mem = None \<or> bad_creator cr \<or> init_failed cr \<or> heap m (the mem) \<noteq> None")
      case True
      then show ?thesis using assms freed Alloc by (auto simp: objallo3_def framework_event_def split: option.splits)
    next
      case False
      then obtain a where a: "mem = Some a" "heap m a = None" by auto
      obtain st obj' m1 where i: "objtabinst (new_object cr) a m = (st, obj', m1)" by (cases "objtabinst (new_object cr) a m")
      have "st = 0 \<and> hld obj' = atoid m + 1 \<and> obj_inv (m1\<lparr>heap := (heap m1)(a \<mapsto> obj')\<rparr>, held)"
        by (rule inv_alloc [OF assms(1) a(2) _ _ _ i])
          (use assms(2) Alloc in \<open>simp_all add: new_object_def framework_event_def INVALID_OBJHLD_def\<close>)
      then show ?thesis using a i False Alloc by (simp add: objallo3_def)
    qed
  next
    case (Refr h)
    show ?thesis
    proof (cases "tab_search (roottab m) h")
      case None
      then show ?thesis using assms(1) Refr by (simp add: objrefr_def taken_def)
    next
      case (Some a)
      from counted_Some [OF c Some] obtain obj where o: "heap m a = Some obj" "hld obj = h" "refcnt obj = int (held h)"
        "ostatus obj = OBJSTAT_NORMAL \<or> ostatus obj = OBJSTAT_CLOSEWAIT \<and> 0 < held h" .
      then show ?thesis
        using assms(1) Refr Some inv_update [OF assms(1) Some, of "obj\<lparr>refcnt := refcnt obj + 1\<rparr>" "held h + 1"]
        by (simp add: objrefr_def taken_def)
    qed
  next
    case (Reff h)
    show ?thesis
    proof (cases "tab_search (roottab m) h")
      case None
      then show ?thesis using assms(1) Reff by (simp add: objreff_def taken_def)
    next
      case (Some a)
      from counted_Some [OF c Some] obtain obj where o: "heap m a = Some obj" "hld obj = h" "refcnt obj = int (held h)"
        "ostatus obj = OBJSTAT_NORMAL \<or> ostatus obj = OBJSTAT_CLOSEWAIT \<and> 0 < held h" .
      then show ?thesis
        using assms(1) Reff Some
          inv_update [OF assms(1) Some, of "obj\<lparr>refcnt := refcnt obj + 1, ostatus := OBJSTAT_CLOSEWAIT\<rparr>" "held h + 1"]
        by (simp add: objreff_def taken_def)
    qed
  next
    case (Defr h)
    show ?thesis
    proof (cases "held h = 0")
      case True
      then show ?thesis using assms(1) Defr by simp
    next
      case False
      then obtain a where a: "tab_search (roottab m) h = Some a"
        using c [rule_format, of h] by (auto simp: counted_def split: option.splits)
      from counted_Some [OF c a] obtain obj where o: "heap m a = Some obj" "hld obj = h" "refcnt obj = int (held h)"
        "ostatus obj = OBJSTAT_NORMAL \<or> ostatus obj = OBJSTAT_CLOSEWAIT \<and> 0 < held h" .
      let ?o = "obj\<lparr>refcnt := refcnt obj - 1\<rparr>"
      have destroyed: "obj_destroy a ?o (m\<lparr>heap := (heap m)(a \<mapsto> ?o)\<rparr>) = obj_destroy a ?o m" by (simp add: obj_destroy_def)
      show ?thesis
      proof (cases "held h = 1 \<and> ostatus obj = OBJSTAT_CLOSEWAIT")
        case True
        then show ?thesis using inv_destroy [OF assms(1) a, of ?o] o a Defr destroyed by (simp add: objdefr_def Let_def)
      next
        case live: False
        then have "ostatus obj = OBJSTAT_NORMAL \<or> ostatus obj = OBJSTAT_CLOSEWAIT \<and> 0 < held h - 1" using o(4) False by auto
        then show ?thesis
          using inv_update [OF assms(1) a, of ?o "held h - 1"] o a Defr False live by (auto simp: objdefr_def Let_def)
      qed
    qed
  next
    case (Clos h)
    show ?thesis
    proof (cases "tab_search (roottab m) h")
      case None
      then show ?thesis using assms(1) Clos by (simp add: objclos_def)
    next
      case (Some a)
      from counted_Some [OF c Some] obtain obj where o: "heap m a = Some obj" "hld obj = h" "refcnt obj = int (held h)"
        "ostatus obj = OBJSTAT_NORMAL \<or> ostatus obj = OBJSTAT_CLOSEWAIT \<and> 0 < held h" .
      show ?thesis
      proof (cases "held h = 0")
        case True
        then have "held(h := 0) = held" by auto
        then show ?thesis using inv_destroy [OF assms(1) Some o(2)] o Some Clos True by (simp add: objclos_def)
      next
        case False
        then show ?thesis
          using inv_update [OF assms(1) Some, of "obj\<lparr>ostatus := OBJSTAT_CLOSEWAIT\<rparr>" "held h"] o Some Clos by (simp add: objclos_def)
      qed
    qed
  qed
qed

lemma obj_run_ok:
  "list_all framework_event evs \<Longrightarrow> obj_inv x \<Longrightarrow> \<exists>y. foldo obj_step evs x = Some y \<and> obj_inv y"
proof (induction evs arbitrary: x)
  case (Cons ev evs)
  obtain y where "obj_step ev x = Some y" "obj_inv y"
    using obj_step_ok [of "fst x" "snd x" ev] Cons.prems by auto
  then show ?case using Cons.IH [of y] Cons.prems(1) by simp
qed simp

lemma obj_init_ok: "obj_inv (objinit, \<lambda>_. 0)"
  by (simp add: obj_inv_def objinit_def gone_def counted_def wf_tab_def tab.search_empty dom_def)

section \<open>A closed object is not handed out again\<close>

definition shut :: "int \<Rightarrow> objmgr \<Rightarrow> bool" where
  "shut h m \<longleftrightarrow> h \<le> atoid m \<and>
     (case Option.bind (tab_search (roottab m) h) (heap m) of None \<Rightarrow> True | Some obj \<Rightarrow> ostatus obj = OBJSTAT_CLOSEWAIT)"

lemma same_addr:
  assumes "\<forall>h. counted m held h" "tab_search (roottab m) h = Some a" "tab_search (roottab m) k = Some a"
  shows "h = k"
  using counted_Some [OF assms(1,2)] counted_Some [OF assms(1,3)] by (metis option.inject)

lemma shut_update:
  assumes "\<forall>h. counted m held h" "shut h m" "tab_search (roottab m) k = Some a" "k = h \<Longrightarrow> ostatus obj = OBJSTAT_CLOSEWAIT"
  shows "shut h (m\<lparr>heap := (heap m)(a \<mapsto> obj)\<rparr>)"
  using assms same_addr [OF assms(1) _ assms(3), of h] by (cases "tab_search (roottab m) h") (auto simp: shut_def)

lemma shut_destroy:
  assumes "obj_inv (m, held)" "shut h m" "tab_search (roottab m) k = Some a" "hld obj = k"
  shows "shut h (obj_destroy a obj m)"
proof -
  have c: "\<forall>h. counted m held h" and wf: "wf_tab (roottab m)" using assms(1) by (simp_all add: obj_inv_def)
  have s: "tab_search (roottab (obj_destroy a obj m)) = (tab_search (roottab m))(k := None)"
    using tab.remove_only [OF wf] assms(4) by (simp add: obj_destroy_def)
  show ?thesis using assms(2,3) s same_addr [OF c _ assms(3), of h]
    by (cases "tab_search (roottab m) h") (auto simp: shut_def obj_destroy_def)
qed

lemma shut_status:
  "shut h m \<Longrightarrow> tab_search (roottab m) h = Some a \<Longrightarrow> heap m a = Some obj \<Longrightarrow> ostatus obj = OBJSTAT_CLOSEWAIT"
  by (simp add: shut_def)

lemma shut_step:
  assumes "obj_inv (m, held)" "framework_event ev" "shut h m" "obj_step ev (m, held) = Some (m', held')"
  shows "shut h m'"
proof -
  have c: "\<forall>h. counted m held h" using assms(1) by (simp add: obj_inv_def)
  note up = shut_update [OF c assms(3)] and st = shut_status [OF assms(3)] and de = shut_destroy [OF assms(1,3)]
  note split = option.splits if_splits
  note N = OBJSTAT_NORMAL_def OBJSTAT_CLOSEWAIT_def
  show ?thesis
  proof (cases ev)
    case (Alloc cr mem)
    show ?thesis
    proof (cases "mem = None \<or> bad_creator cr \<or> init_failed cr \<or> heap m (the mem) \<noteq> None")
      case True
      then show ?thesis using assms(3,4) Alloc by (auto simp: objallo3_def shut_def split: split)
    next
      case False
      then obtain a where a: "mem = Some a" "heap m a = None" by auto
      let ?h = "atoid m + 1"
      have pos: "0 < ?h" and wf: "wf_tab (roottab m)" using assms(1) by (simp_all add: obj_inv_def)
      note new = next_handle [OF assms(1), THEN conjunct1]
      have m': "m' = m\<lparr>atoid := ?h, roottab := tab_insert (roottab m) ?h a, heap := (heap m)(a \<mapsto> (new_object cr)\<lparr>hld := ?h\<rparr>)\<rparr>"
        using assms(2,4) Alloc a False pos
        by (auto simp: objallo3_def objtabinst_def framework_event_def new_object_def INVALID_OBJHLD_def Let_def hld2root_def)
      have "b \<noteq> a" if "tab_search (roottab m) h = Some b" for b
        using counted_Some [OF c that] a(2) by (metis option.distinct(1))
      then show ?thesis using assms(3) tab.insert_fresh [OF wf pos new]
        by (cases "tab_search (roottab m) h") (auto simp: m' shut_def)
    qed
  next
    case (Refr k)
    then show ?thesis using assms(3,4) st by (auto simp: objrefr_def taken_def N split: split intro!: up [unfolded N])
  next
    case (Reff k)
    then show ?thesis using assms(3,4) st by (auto simp: objreff_def taken_def N split: split intro!: up [unfolded N])
  next
    case (Defr k)
    have d: "obj_destroy a obj1 (m\<lparr>heap := (heap m)(a \<mapsto> obj1)\<rparr>) = obj_destroy a obj1 m" for a obj1 by (simp add: obj_destroy_def)
    show ?thesis
    proof (cases "held k = 0 \<or> tab_search (roottab m) k = None")
      case True
      then show ?thesis using assms(3,4) Defr by (auto simp: objdefr_def split: if_splits)
    next
      case False
      then obtain a where a: "tab_search (roottab m) k = Some a" by auto
      from counted_Some [OF c a] obtain obj where o: "heap m a = Some obj" "hld obj = k" "refcnt obj = int (held k)" by metis
      let ?o = "obj\<lparr>refcnt := refcnt obj - 1\<rparr>"
      have "m' = m\<lparr>heap := (heap m)(a \<mapsto> ?o)\<rparr> \<or> m' = obj_destroy a ?o m"
        using assms(4) Defr a o(1,3) False d by (auto simp: objdefr_def Let_def split: if_splits)
      moreover have "k = h \<Longrightarrow> ostatus ?o = OBJSTAT_CLOSEWAIT" using st a o(1) by simp
      ultimately show ?thesis using up [OF a, of ?o] de [OF a, of ?o] o(2) by auto
    qed
  next
    case (Clos k)
    show ?thesis
    proof (cases "tab_search (roottab m) k")
      case None
      then show ?thesis using assms(3,4) Clos by (auto simp: objclos_def)
    next
      case a: (Some a)
      from counted_Some [OF c a] obtain obj where o: "heap m a = Some obj" "hld obj = k" by metis
      have "m' = m\<lparr>heap := (heap m)(a \<mapsto> obj\<lparr>ostatus := OBJSTAT_CLOSEWAIT\<rparr>)\<rparr> \<or> m' = obj_destroy a obj m"
        using assms(4) Clos a o(1) by (auto simp: objclos_def split: if_splits)
      then show ?thesis using up [OF a, of "obj\<lparr>ostatus := OBJSTAT_CLOSEWAIT\<rparr>"] de [OF a o(2)] by auto
    qed
  qed
qed

section \<open>Properties\<close>

text \<open>C11: References protect an object. However the threads of the framework interleave their calls, no
  call ever touches an object that is not in memory; the handles ever given out are 1 up to the counter, each one
  is either in the table or freed, and freed only once; an object somebody holds a reference to is in
  the table, in memory, with exactly the number of references held as its count, and one marked closed
  has a holder.\<close>

theorem references_protect:
  assumes "list_all framework_event evs"
  shows "\<exists>m held. foldo obj_step evs (objinit, \<lambda>_. 0) = Some (m, held) \<and>
    distinct (gone m) \<and> set (gone m) \<inter> dom (tab_search (roottab m)) = {} \<and>
    set (gone m) \<union> dom (tab_search (roottab m)) = {h. 0 < h \<and> h \<le> atoid m} \<and>
    (\<forall>h. case Option.bind (tab_search (roottab m) h) (heap m) of
           None \<Rightarrow> held h = 0 \<and> tab_search (roottab m) h = None
         | Some obj \<Rightarrow> hld obj = h \<and> refcnt obj = int (held h) \<and> (ostatus obj = OBJSTAT_CLOSEWAIT \<longrightarrow> 0 < held h))"
proof -
  obtain m held where r: "foldo obj_step evs (objinit, \<lambda>_. 0) = Some (m, held)" "obj_inv (m, held)"
    using obj_run_ok [OF assms obj_init_ok] by force
  have "case Option.bind (tab_search (roottab m) h) (heap m) of
           None \<Rightarrow> held h = 0 \<and> tab_search (roottab m) h = None
         | Some obj \<Rightarrow> hld obj = h \<and> refcnt obj = int (held h) \<and> (ostatus obj = OBJSTAT_CLOSEWAIT \<longrightarrow> 0 < held h)" for h
  proof -
    have "counted m held h" using r(2) by (simp add: obj_inv_def)
    then show ?thesis
      by (cases "tab_search (roottab m) h") (auto simp: counted_def OBJSTAT_NORMAL_def OBJSTAT_CLOSEWAIT_def split: option.splits)
  qed
  then show ?thesis using r by (auto simp: obj_inv_def)
qed

definition link_creator :: objcreator where
  "link_creator = \<lparr>known = -1, csize = 512, initializer = Some 0, cunloader = True, has_context = False, ctxsize = 0\<rparr>"

definition race :: "obj_event list" where
  "race = [Alloc link_creator (Some 7), Alloc link_creator (Some 9), Refr 1, Refr 1, Clos 1, Refr 1, Defr 1, Clos 2, Defr 1, Clos 1]"

lemma race_run:
  "map_option (\<lambda>(m, held). (atoid m, freed m, held 1, tab_search (roottab m) 1, heap m 7)) (foldo obj_step race (objinit, \<lambda>_. 0)) =
     Some (2, [(2, True), (1, True)], 0, None, None)"
  by code_simp

lemma race_start: "map_option (\<lambda>(m, held). atoid m) (foldo obj_step (take 4 race) (objinit, \<lambda>_. 0)) = Some 2"
  by code_simp

lemma race_rest:
  "Option.bind (foldo obj_step (take 4 race) (objinit, \<lambda>_. 0)) (\<lambda>x. map_option (\<lambda>_. ()) (foldo obj_step (Clos 1 # drop 5 race) x)) = Some ()"
  by code_simp

theorem references_protect_witness:
  "\<exists>m held. foldo obj_step race (objinit, \<lambda>_. 0) = Some (m, held) \<and>
    distinct (gone m) \<and> set (gone m) \<inter> dom (tab_search (roottab m)) = {} \<and>
    set (gone m) \<union> dom (tab_search (roottab m)) = {h. 0 < h \<and> h \<le> atoid m} \<and>
    (\<forall>h. case Option.bind (tab_search (roottab m) h) (heap m) of
           None \<Rightarrow> held h = 0 \<and> tab_search (roottab m) h = None
         | Some obj \<Rightarrow> hld obj = h \<and> refcnt obj = int (held h) \<and> (ostatus obj = OBJSTAT_CLOSEWAIT \<longrightarrow> 0 < held h))"
  by (rule references_protect) code_simp

lemma shut_run:
  "list_all framework_event evs \<Longrightarrow> obj_inv x \<Longrightarrow> shut h (fst x) \<Longrightarrow> foldo obj_step evs x = Some y \<Longrightarrow> shut h (fst y) \<and> obj_inv y"
proof (induction evs arbitrary: x)
  case (Cons ev evs)
  obtain x1 where x1: "obj_step ev x = Some x1" "foldo obj_step evs x1 = Some y" using Cons.prems(4) by (auto split: option.splits)
  have "obj_inv x1" using obj_step_ok [of "fst x" "snd x" ev] Cons.prems x1 by auto
  moreover have "shut h (fst x1)" using shut_step [of "fst x" "snd x" ev h "fst x1" "snd x1"] Cons.prems x1 by simp
  ultimately show ?case using Cons.IH x1(2) Cons.prems(1) by simp
qed simp
text \<open>C12: A handle that was closed is dead: whatever the threads do after \<open>objclos\<close> or a final reference, no
  later call hands the object out again, with or without references still held.\<close>

theorem closed_handle_is_dead:
  assumes "list_all framework_event evs" "list_all framework_event evs'" "0 < h"
    and "foldo obj_step evs (objinit, \<lambda>_. 0) = Some (m, held)" "h \<le> atoid m"
    and "foldo obj_step (Clos h # evs') (m, held) = Some (m', held')"
  shows "objrefr h m' = Some (None, m') \<and> objreff h m' = Some (None, m') \<and> objrefr2 h m' = Some ((-1, None), m')"
proof -
  have inv: "obj_inv (m, held)" using obj_run_ok [OF assms(1) obj_init_ok] assms(4) by auto
  obtain m1 where m1: "objclos h m = Some m1" "foldo obj_step evs' (m1, held) = Some (m', held')"
    using assms(6) by (cases "objclos h m") auto
  have inv1: "obj_inv (m1, held)" using obj_step_ok [OF inv, of "Clos h"] m1(1) by (simp add: framework_event_def)
  have c: "\<forall>h. counted m held h" and wf: "wf_tab (roottab m)" using inv by (simp_all add: obj_inv_def)
  have "shut h m1"
  proof (cases "tab_search (roottab m) h")
    case None
    then show ?thesis using m1(1) assms(5) by (simp add: objclos_def shut_def)
  next
    case (Some a)
    from counted_Some [OF c Some] obtain obj where o: "heap m a = Some obj" "hld obj = h" by metis
    then show ?thesis using m1(1) assms(5) Some tab.remove_only [OF wf, of h]
      by (auto simp: objclos_def shut_def obj_destroy_def split: if_splits)
  qed
  from shut_run [OF assms(2) inv1 _ m1(2)] this have s: "shut h m'" and inv': "obj_inv (m', held')" by simp_all
  have c': "\<forall>h. counted m' held' h" using inv' by (simp add: obj_inv_def)
  show ?thesis
  proof (cases "tab_search (roottab m') h")
    case None
    then show ?thesis by (simp add: objrefr_def objreff_def objrefr2_def)
  next
    case (Some a)
    from counted_Some [OF c' Some] obtain obj where o: "heap m' a = Some obj" by metis
    then show ?thesis using shut_status [OF s Some o] Some
      by (simp add: objrefr_def objreff_def objrefr2_def OBJSTAT_NORMAL_def OBJSTAT_CLOSEWAIT_def)
  qed
qed

theorem closed_handle_is_dead_witness:
  "map_option fst (objrefr 1 (fst (the (foldo obj_step (Clos 1 # drop 5 race) (the (foldo obj_step (take 4 race) (objinit, \<lambda>_. 0))))))) = Some None"
proof -
  obtain m held where r: "foldo obj_step (take 4 race) (objinit, \<lambda>_. 0) = Some (m, held)" "atoid m = 2"
    using race_start by (cases "foldo obj_step (take 4 race) (objinit, \<lambda>_. 0)") auto
  obtain m' held' where r': "foldo obj_step (Clos 1 # drop 5 race) (m, held) = Some (m', held')"
    using race_rest r by (cases "foldo obj_step (Clos 1 # drop 5 race) (m, held)") auto
  have "list_all framework_event (take 4 race)" "list_all framework_event (drop 5 race)" by code_simp+
  from closed_handle_is_dead [OF this _ r(1) _ r'] show ?thesis using r r' by simp
qed

text \<open>
  The counter is not compared with chosen handles: after an object was created under the handle 1, the
  first object without a chosen handle gets 1 as well, is not entered in the table and is never freed.
\<close>

lemma known_handle_collision:
  "Option.bind (objallo3 (link_creator\<lparr>known := 1\<rparr>) (Some 7) objinit)
     (\<lambda>(h, m). map_option (\<lambda>(h', m'). (h, h', tab_search (roottab m') h', heap m' 9 \<noteq> None)) (objallo3 link_creator (Some 9) m)) =
   Some (1, 1, Some 7, True)"
  by code_simp

end
