(* ===== verification/Ring.thy ===== *)
theory Ring
  imports Prelude "HOL-Library.Word" "HOL-Library.Log_Nat"
begin

unbundle bit_operations_syntax

text \<open>
  The ring buffer of \<^verbatim>\<open>naxfw/src/cfifo.c\<close>: a buffer whose size is a power of two, and two 32-bit
  counters that only grow and wrap around. The counters are \<open>32 word\<close>s, so the wrap-around is the one
  of the code. The theory shows that the ring is a queue of bytes.
\<close>

section \<open>The ring\<close>

record ckfifo =
  buffer :: "8 word list"
  rsize :: "32 word"
  rin :: "32 word"
  rout :: "32 word"

definition is_powerof_2 :: "32 word \<Rightarrow> bool" where
  "is_powerof_2 x \<longleftrightarrow> x \<noteq> 0 \<and> x AND (x - 1) = 0"

definition ckfifo_init :: "8 word list \<Rightarrow> 32 word \<Rightarrow> ckfifo option" where
  "ckfifo_init buf sz =
     (if \<not> is_powerof_2 sz then None else Some \<lparr>buffer = buf, rsize = sz, rin = 0, rout = 0\<rparr>)"

definition ckfifo_len :: "ckfifo \<Rightarrow> 32 word" where
  "ckfifo_len ring = rin ring - rout ring"

definition ring_get :: "32 word \<Rightarrow> ckfifo \<Rightarrow> 8 word list \<times> ckfifo" where
  "ring_get sz ring =
     (let n = min sz (rin ring - rout ring);
          pos = rout ring AND (rsize ring - 1);
          len = min n (rsize ring - pos)
      in (take (unat len) (drop (unat pos) (buffer ring)) @ take (unat (n - len)) (buffer ring), ring\<lparr>rout := rout ring + n\<rparr>))"

definition ring_put :: "8 word list \<Rightarrow> ckfifo \<Rightarrow> 32 word \<times> ckfifo" where
  "ring_put bytes ring =
     (let n = min (word_of_nat (length bytes)) (rsize ring - rin ring + rout ring);
          pos = rin ring AND (rsize ring - 1);
          len = min n (rsize ring - pos)
      in (n, ring\<lparr>buffer := store_at 0 (take (unat (n - len)) (drop (unat len) bytes))
                             (store_at (unat pos) (take (unat len) bytes) (buffer ring)),
                  rin := rin ring + n\<rparr>))"

definition ckfifo_get :: "32 word \<Rightarrow> ckfifo \<Rightarrow> 8 word list \<times> ckfifo" where
  "ckfifo_get sz ring =
     (case ring_get sz ring of (bytes, r) \<Rightarrow> (bytes, if rin r = rout r then r\<lparr>rin := 0, rout := 0\<rparr> else r))"

definition ckfifo_put :: "8 word list \<Rightarrow> ckfifo \<Rightarrow> 32 word \<times> ckfifo" where
  "ckfifo_put bytes ring = ring_put bytes ring"

section \<open>A queue of bytes\<close>

text \<open>
  The results of a run of writes (\<open>Inl\<close>, the bytes) and reads (\<open>Inr\<close>, the number asked for): for a write the
  number of bytes accepted, for a read the bytes got. \<open>bounded_queue\<close> is the reference: a list of at most
  \<open>cap\<close> bytes, of which a write accepts as many as there is room for, and a read takes as many as there are.
\<close>

fun queue_run :: "('b list \<Rightarrow> 's \<Rightarrow> nat \<times> 's) \<Rightarrow> (nat \<Rightarrow> 's \<Rightarrow> 'b list \<times> 's) \<Rightarrow> ('b list + nat) list \<Rightarrow> 's \<Rightarrow>
    (nat + 'b list) list \<times> 's" where
  "queue_run put get [] s = ([], s)"
| "queue_run put get (Inl bs # ops) s =
     (let (n, s1) = put bs s; (results, s2) = queue_run put get ops s1 in (Inl n # results, s2))"
| "queue_run put get (Inr n # ops) s =
     (let (bs, s1) = get n s; (results, s2) = queue_run put get ops s1 in (Inr bs # results, s2))"

fun bounded_queue :: "nat \<Rightarrow> ('b list + nat) list \<Rightarrow> 'b list \<Rightarrow> (nat + 'b list) list \<times> 'b list" where
  "bounded_queue cap [] q = ([], q)"
| "bounded_queue cap (Inl bs # ops) q =
     (let n = min (length bs) (cap - length q); (results, q') = bounded_queue cap ops (q @ take n bs) in (Inl n # results, q'))"
| "bounded_queue cap (Inr n # ops) q =
     (let (results, q') = bounded_queue cap ops (drop n q) in (Inr (take n q) # results, q'))"

text \<open>What a user of a bounded queue relies on: it behaves as the reference.\<close>

locale byte_queue =
  fixes ok :: "'s \<Rightarrow> bool" and content :: "'s \<Rightarrow> 'b list" and capacity :: "'s \<Rightarrow> nat"
    and fits :: "nat \<Rightarrow> bool" and put :: "'b list \<Rightarrow> 's \<Rightarrow> nat \<times> 's" and get :: "nat \<Rightarrow> 's \<Rightarrow> 'b list \<times> 's"
  assumes put_law: "ok s \<Longrightarrow> fits (length bs) \<Longrightarrow> put bs s = (n, s') \<Longrightarrow>
      n = min (length bs) (capacity s - length (content s)) \<and> ok s' \<and> capacity s' = capacity s \<and> content s' = content s @ take n bs"
    and get_law: "ok s \<Longrightarrow> fits n \<Longrightarrow> get n s = (bs, s') \<Longrightarrow>
      bs = take n (content s) \<and> ok s' \<and> capacity s' = capacity s \<and> content s' = drop n (content s)"
begin

lemma run_refines:
  "ok s \<Longrightarrow> list_all (\<lambda>x. case x of Inl bs \<Rightarrow> fits (length bs) | Inr n \<Rightarrow> fits n) ops \<Longrightarrow> queue_run put get ops s = (results, s') \<Longrightarrow>
   bounded_queue (capacity s) ops (content s) = (results, content s') \<and> ok s' \<and> capacity s' = capacity s"
proof (induction ops arbitrary: s results)
  case (Cons x ops)
  show ?case
  proof (cases x)
    case (Inl bs)
    obtain n s1 where p: "put bs s = (n, s1)" by fastforce
    obtain rs where r: "queue_run put get ops s1 = (rs, s')" "results = Inl n # rs"
      using Cons.prems(3) p Inl by (auto simp: Let_def split: prod.splits)
    from put_law [OF Cons.prems(1) _ p] Cons.prems(2) Inl
    have l: "n = min (length bs) (capacity s - length (content s))" "ok s1" "capacity s1 = capacity s"
      "content s1 = content s @ take n bs" by auto
    from Cons.IH [OF l(2) _ r(1)] Cons.prems(2) show ?thesis using l r(2) Inl by (simp add: Let_def)
  next
    case (Inr n)
    obtain bs s1 where p: "get n s = (bs, s1)" by fastforce
    obtain rs where r: "queue_run put get ops s1 = (rs, s')" "results = Inr bs # rs"
      using Cons.prems(3) p Inr by (auto simp: Let_def split: prod.splits)
    from get_law [OF Cons.prems(1) _ p] Cons.prems(2) Inr
    have l: "bs = take n (content s)" "ok s1" "capacity s1 = capacity s" "content s1 = drop n (content s)" by auto
    from Cons.IH [OF l(2) _ r(1)] Cons.prems(2) show ?thesis using l r(2) Inr by (simp add: Let_def)
  qed
qed simp

end

text \<open>The bytes a run accepts and the bytes it hands out.\<close>

definition bytes_in :: "('b list + nat) list \<Rightarrow> (nat + 'b list) list \<Rightarrow> 'b list" where
  "bytes_in ops results = concat (map2 (\<lambda>x r. case (x, r) of (Inl bs, Inl n) \<Rightarrow> take n bs | _ \<Rightarrow> []) ops results)"

definition bytes_out :: "(nat + 'b list) list \<Rightarrow> 'b list" where
  "bytes_out results = concat (map (case_sum (\<lambda>_. []) id) results)"

lemma bounded_queue_fifo:
  "bounded_queue cap ops q = (results, q') \<Longrightarrow> q @ bytes_in ops results = bytes_out results @ q'"
proof (induction cap ops q arbitrary: results q' rule: bounded_queue.induct)
  case (2 cap bs ops q)
  then show ?case by (auto simp: Let_def bytes_in_def bytes_out_def split: prod.splits)
next
  case (3 cap n ops q)
  obtain rs where r: "bounded_queue cap ops (drop n q) = (rs, q')" "results = Inr (take n q) # rs"
    using 3(2) by (auto split: prod.splits)
  have "bytes_in (Inr n # ops) results = bytes_in ops rs" "bytes_out results = take n q @ bytes_out rs"
    by (simp_all add: r(2) bytes_in_def bytes_out_def)
  moreover have "q @ bytes_in ops rs = take n q @ drop n q @ bytes_in ops rs" by simp
  ultimately show ?case using 3(1) [OF r(1)] by (simp only: append_assoc)
qed (simp add: bytes_in_def bytes_out_def)

section \<open>Arithmetic of the indices\<close>

lemma power_of_2_nat:
  fixes n :: nat
  assumes "n \<noteq> 0" "n AND (n - 1) = 0"
  shows "\<exists>k. n = 2 ^ k"
proof -
  obtain k where k: "2 ^ k \<le> n" "n < 2 ^ (k + 1)" using ex_power_ivl1 [of 2 n] assms(1) by auto
  have "n div 2 ^ k = 1" using k by (simp add: div_nat_eqI)
  then have b: "bit n k" by (simp add: bit_iff_odd)
  have "n = 2 ^ k"
  proof (rule ccontr)
    assume "n \<noteq> 2 ^ k"
    then have "(n - 1) div 2 ^ k = 1" using k by (intro div_nat_eqI) auto
    then have "bit (n - 1) k" by (simp add: bit_iff_odd)
    then have "bit (n AND (n - 1)) k" using b by (simp add: bit_and_iff)
    then show False using assms(2) by simp
  qed
  then show ?thesis ..
qed

lemma powerof_2:
  assumes "is_powerof_2 x"
  obtains k where "k < 32" "unat x = 2 ^ k"
proof -
  have x: "unat x \<noteq> 0" using assms by (simp add: is_powerof_2_def unat_eq_0)
  have "unat (x - 1) = unat x - 1" using assms by (simp add: is_powerof_2_def unat_minus_one)
  moreover have "unat (x AND (x - 1)) = 0" using assms by (simp add: is_powerof_2_def)
  ultimately have "unat x AND (unat x - 1) = 0" by (simp add: unsigned_and_eq)
  from power_of_2_nat [OF x this] obtain k where k: "unat x = 2 ^ k" ..
  moreover have "unat x < 2 ^ LENGTH(32)" by (rule unsigned_less)
  ultimately have "k < 32" using power_less_imp_less_exp [of "2 :: nat" k 32] by simp
  then show ?thesis using that k by simp
qed

lemma low_bits:
  fixes w :: "32 word"
  assumes "is_powerof_2 sz"
  shows "unat (w AND (sz - 1)) = unat w mod unat sz"
proof -
  from powerof_2 [OF assms] obtain k where k: "k < 32" "unat sz = 2 ^ k" .
  have "unat (sz - 1) = 2 ^ k - 1" using assms k by (simp add: is_powerof_2_def unat_minus_one)
  then have "unat (w AND (sz - 1)) = unat w AND mask k" by (simp add: unsigned_and_eq mask_eq_exp_minus_1)
  then show ?thesis by (simp add: k flip: take_bit_eq_mask take_bit_eq_mod)
qed

lemma counter_step:
  fixes a b n :: "32 word"
  assumes "is_powerof_2 sz"
  shows "unat (a + b) mod unat sz = (unat a + unat b) mod unat sz"
proof -
  from powerof_2 [OF assms] obtain k where k: "k < 32" "unat sz = 2 ^ k" .
  have "(2 :: nat) ^ k dvd 2 ^ 32" using k(1) by (intro le_imp_power_dvd) simp
  then show ?thesis by (simp add: unat_word_ariths k(2) mod_mod_cancel)
qed

lemma counter_index:
  fixes a b n :: "32 word"
  assumes "is_powerof_2 sz"
  shows "(unat (a + b) + i) mod unat sz = (unat a + (unat b + i)) mod unat sz"
proof -
  have "(unat (a + b) + i) mod unat sz = (unat (a + b) mod unat sz + i) mod unat sz" by (simp only: mod_add_left_eq)
  also have "\<dots> = ((unat a + unat b) mod unat sz + i) mod unat sz" by (simp only: counter_step [OF assms])
  also have "\<dots> = (unat a + (unat b + i)) mod unat sz" by (simp only: mod_add_left_eq add.assoc)
  finally show ?thesis .
qed

text \<open>Reading and writing a ring of \<open>K\<close> cells in two parts.\<close>

lemma ring_read:
  assumes "length buf = K" "pos = start mod K" "n \<le> K" "0 < K" "a \<le> n" "pos + a \<le> K" "a = n \<or> pos + a = K"
  shows "take a (drop pos buf) @ take (n - a) buf = map (\<lambda>i. buf ! ((start + i) mod K)) [0..<n]"
proof (rule nth_equalityI)
  have pos: "pos < K" using assms(2,4) by simp
  show len: "length (take a (drop pos buf) @ take (n - a) buf) = length (map (\<lambda>i. buf ! ((start + i) mod K)) [0..<n])"
    using assms(1,3,5,6) by simp
  fix i assume "i < length (take a (drop pos buf) @ take (n - a) buf)"
  then have i: "i < n" unfolding len by simp
  have m: "(start + i) mod K = (pos + i) mod K" using assms(2) by (simp add: mod_simps)
  have "(take a (drop pos buf) @ take (n - a) buf) ! i = buf ! ((pos + i) mod K)"
  proof (cases "i < a")
    case True
    then show ?thesis using assms(1,6) by (simp add: nth_append)
  next
    case False
    then have e: "pos + a = K" using assms(7) i by simp
    have "(pos + i) mod K = pos + i - K" using False e pos i assms(3) by (simp add: mod_if)
    also have "\<dots> = i - a" using e by simp
    finally have "(pos + i) mod K = i - a" .
    moreover have "K - pos = a" using e by simp
    ultimately show ?thesis using False i assms(1) by (simp add: nth_append)
  qed
  then show "(take a (drop pos buf) @ take (n - a) buf) ! i = map (\<lambda>i. buf ! ((start + i) mod K)) [0..<n] ! i"
    using i m by simp
qed

lemma ring_write:
  assumes "length buf = K" "pos < K" "n \<le> K" "n \<le> length bs" "d < K" "a \<le> n" "pos + a \<le> K" "a = n \<or> pos + a = K"
  shows "store_at 0 (take (n - a) (drop a bs)) (store_at pos (take a bs) buf) ! ((pos + d) mod K) =
    (if d < n then bs ! d else buf ! ((pos + d) mod K))"
proof -
  let ?b1 = "store_at pos (take a bs) buf" and ?b2 = "take (n - a) (drop a bs)"
  have l: "length ?b1 = K" "length ?b2 = n - a" using assms by (simp_all add: store_length)
  have la: "length (take a bs) = a" using assms(4,6) by simp
  have "0 + length ?b2 \<le> length ?b1" using l assms(3) by simp
  from store_nth [OF this] have s0: "store_at 0 ?b2 ?b1 ! j = (if j < n - a then bs ! (a + j) else ?b1 ! j)" if "j < K" for j
    using that l assms(4,6) by simp
  have "pos + length (take a bs) \<le> length buf" using la assms(1,7) by simp
  from store_nth [OF this] have b1: "?b1 ! j = (if pos \<le> j \<and> j < pos + a then bs ! (j - pos) else buf ! j)" if "j < K" for j
    using that assms(1) la by auto
  show ?thesis
  proof (cases "pos + d < K")
    case True
    then have "\<not> pos + d < n - a" "(pos + d) mod K = pos + d" using assms(3,8) by auto
    moreover have "d < a \<longleftrightarrow> d < n" using True assms(6,8) by auto
    ultimately show ?thesis using b1 [OF True] s0 [OF True] by simp
  next
    case False
    then have e: "(pos + d) mod K = pos + d - K" using assms(2,5) by (simp add: mod_if)
    have j: "pos + d - K < K" "\<not> pos \<le> pos + d - K" using False assms(2,5) by auto
    show ?thesis
    proof (cases "d < n")
      case True
      then have "pos + a = K" using False assms(7,8) by auto
      then have "pos + d - K < n - a" "a + (pos + d - K) = d" using True False by auto
      then show ?thesis unfolding e s0 [OF j(1)] using True by simp
    next
      case no: False
      then have "\<not> pos + d - K < n - a" using False no assms(7,8) by auto
      then show ?thesis unfolding e s0 [OF j(1)] using no b1 [OF j(1)] j(2) by simp
    qed
  qed
qed

section \<open>The ring is a queue\<close>

definition ring_ok :: "ckfifo \<Rightarrow> bool" where
  "ring_ok r \<longleftrightarrow> is_powerof_2 (rsize r) \<and> length (buffer r) = unat (rsize r) \<and> unat (rin r - rout r) \<le> unat (rsize r)"

definition ring_content :: "ckfifo \<Rightarrow> 8 word list" where
  "ring_content r = map (\<lambda>i. buffer r ! ((unat (rout r) + i) mod unat (rsize r))) [0..<unat (rin r - rout r)]"

lemma ring_content_length [simp]: "length (ring_content r) = unat (ckfifo_len r)"
  by (simp add: ring_content_def ckfifo_len_def)

lemma size_pos: "is_powerof_2 sz \<Longrightarrow> 0 < unat sz"
  by (simp add: is_powerof_2_def unat_gt_0)

lemma word_diff_le: "unat n \<le> unat (a - b) \<Longrightarrow> unat (a - (b + n)) = unat (a - b) - unat n" for a b n :: "32 word"
  using unat_sub [of n "a - b"] by (simp add: word_le_nat_alt diff_diff_eq)

lemma unat_min: "unat (min a b) = min (unat a) (unat b)" for a b :: "32 word"
  by (simp add: min_def word_le_nat_alt)

lemma unat_minus_le: "unat b \<le> unat a \<Longrightarrow> unat (a - b) = unat a - unat b" for a b :: "32 word"
  by (rule unat_sub) (simp add: word_le_nat_alt)

lemma take_upt_min: "take m [0..<k] = [0..<min m k]"
  by (cases "m \<le> k") simp_all

lemma map_upt_drop: "map (\<lambda>i. f ((a + (m + i)) mod k)) [0..<d - m] = drop m (map (\<lambda>i. f ((a + i) mod k)) [0..<d])"
  by (rule nth_equalityI) (simp_all add: less_diff_conv add.commute)

lemma drop_min: "length xs = d \<Longrightarrow> drop (min m d) xs = drop m xs"
  by (simp add: min_def)

lemma get_refines:
  assumes "ring_ok r" "ring_get sz r = (bytes, r')"
  shows "bytes = take (unat sz) (ring_content r) \<and> ring_ok r' \<and> rsize r' = rsize r \<and> ring_content r' = drop (unat sz) (ring_content r)"
proof -
  let ?K = "unat (rsize r)" and ?O = "unat (rout r)" and ?D = "unat (rin r - rout r)"
  define n where "n = min sz (rin r - rout r)"
  have p: "is_powerof_2 (rsize r)" and len: "length (buffer r) = ?K" and D: "?D \<le> ?K" using assms(1) by (simp_all add: ring_ok_def)
  have n: "unat n = min (unat sz) ?D" by (simp add: n_def unat_min)
  have pos: "unat (rout r AND (rsize r - 1)) = ?O mod ?K" by (rule low_bits [OF p])
  have lt: "?O mod ?K < ?K" using size_pos [OF p] by simp
  have room: "unat (rsize r - (rout r AND (rsize r - 1))) = ?K - ?O mod ?K" using pos lt by (simp add: unat_minus_le)
  have first: "unat (min n (rsize r - (rout r AND (rsize r - 1)))) = min (unat n) (?K - ?O mod ?K)" by (simp add: unat_min room)
  then have second: "unat (n - min n (rsize r - (rout r AND (rsize r - 1)))) = unat n - min (unat n) (?K - ?O mod ?K)"
    by (simp add: unat_minus_le)
  define a where "a = unat (min n (rsize r - (rout r AND (rsize r - 1))))"
  have a: "a = min (unat n) (?K - ?O mod ?K)" unfolding a_def by (rule first)
  have r': "r' = r\<lparr>rout := rout r + n\<rparr>" and b: "bytes = take a (drop (?O mod ?K) (buffer r)) @ take (unat n - a) (buffer r)"
    using assms(2) unfolding ring_get_def Let_def n_def [symmetric] second pos first a [symmetric] by simp_all
  have "bytes = map (\<lambda>i. buffer r ! ((?O + i) mod ?K)) [0..<unat n]"
    unfolding b by (rule ring_read [OF len refl]) (use n D lt a in linarith)+
  then have bytes: "bytes = take (unat sz) (ring_content r)" using n by (simp add: ring_content_def take_map take_upt_min)
  have left: "unat (rin r - (rout r + n)) = ?D - unat n" using n by (intro word_diff_le) simp
  have "(unat (rout r + n) + i) mod ?K = (?O + (unat n + i)) mod ?K" for i
    by (rule counter_index [OF p])
  then have "ring_content r' = map (\<lambda>i. buffer r ! ((?O + (unat n + i)) mod ?K)) [0..<?D - unat n]"
    by (simp add: ring_content_def r' left)
  also have "\<dots> = drop (unat n) (ring_content r)" unfolding ring_content_def by (rule map_upt_drop)
  also have "\<dots> = drop (unat sz) (ring_content r)" unfolding n by (rule drop_min) (simp add: ckfifo_len_def)
  finally have "ring_content r' = drop (unat sz) (ring_content r)" .
  moreover have "ring_ok r'" using p len D by (simp add: ring_ok_def r' left)
  ultimately show ?thesis using bytes r' by simp
qed

lemma put_refines:
  assumes "ring_ok r" "length bytes < 2 ^ 32" "ring_put bytes r = (n, r')"
  shows "unat n = min (length bytes) (unat (rsize r) - length (ring_content r)) \<and> ring_ok r' \<and> rsize r' = rsize r \<and>
    ring_content r' = ring_content r @ take (unat n) bytes"
proof -
  let ?K = "unat (rsize r)" and ?I = "unat (rin r)" and ?O = "unat (rout r)" and ?D = "unat (rin r - rout r)"
  let ?pos = "?I mod ?K"
  have p: "is_powerof_2 (rsize r)" and len: "length (buffer r) = ?K" and D: "?D \<le> ?K" using assms(1) by (simp_all add: ring_ok_def)
  have "rsize r - rin r + rout r = rsize r - (rin r - rout r)" by simp
  then have space: "unat (rsize r - rin r + rout r) = ?K - ?D" using unat_minus_le [OF D] by (simp only:)
  define m where "m = min (word_of_nat (length bytes)) (rsize r - rin r + rout r)"
  have l: "unat (word_of_nat (length bytes) :: 32 word) = length bytes" using assms(2) by (simp add: unat_of_nat)
  have m: "unat m = min (length bytes) (?K - ?D)" unfolding m_def unat_min space l ..
  have pos: "unat (rin r AND (rsize r - 1)) = ?pos" by (rule low_bits [OF p])
  have lt: "?pos < ?K" using size_pos [OF p] by simp
  have room: "unat (rsize r - (rin r AND (rsize r - 1))) = ?K - ?pos" using pos lt by (simp add: unat_minus_le)
  define a where "a = unat (min m (rsize r - (rin r AND (rsize r - 1))))"
  have a: "a = min (unat m) (?K - ?pos)" unfolding a_def unat_min room ..
  have second: "unat (m - min m (rsize r - (rin r AND (rsize r - 1)))) = unat m - a"
    unfolding a_def by (rule unat_minus_le) (simp add: unat_min)
  let ?buf = "store_at 0 (take (unat m - a) (drop a bytes)) (store_at ?pos (take a bytes) (buffer r))"
  have r': "n = m" "r' = r\<lparr>buffer := ?buf, rin := rin r + m\<rparr>"
    using assms(3) unfolding ring_put_def Let_def m_def [symmetric] second pos a_def [symmetric] by auto
  have bounds: "unat m \<le> ?K" "unat m \<le> length bytes" "a \<le> unat m" "?pos + a \<le> ?K" "a = unat m \<or> ?pos + a = ?K"
    "?D + unat m \<le> ?K" using m a lt D by linarith+
  have lb: "length ?buf = ?K" using bounds len by (simp add: store_length)
  have in_out: "?I mod ?K = (?O + ?D) mod ?K" using counter_step [OF p, of "rout r" "rin r - rout r"] by simp
  have new: "rin r + m - rout r = (rin r - rout r) + m" by simp
  have "?K < 2 ^ LENGTH(32)" by (rule unsigned_less)
  then have "?D + unat m < 2 ^ 32" using bounds(6) by simp
  then have D': "unat (rin r + m - rout r) = ?D + unat m" unfolding new by (simp add: unat_plus_if')
  have cell: "?buf ! ((?pos + d) mod ?K) = (if d < unat m then bytes ! d else buffer r ! ((?pos + d) mod ?K))" if "d < ?K" for d
    by (rule ring_write [OF len lt bounds(1,2) that bounds(3,4,5)])
  have shift: "(?pos + d) mod ?K = (?O + (?D + d)) mod ?K" for d
    unfolding in_out by (simp only: mod_add_left_eq add.assoc)
  have old: "?buf ! ((?O + i) mod ?K) = buffer r ! ((?O + i) mod ?K)" if "i < ?D" for i
  proof -
    have d: "?K - ?D + i < ?K" "\<not> ?K - ?D + i < unat m" "?O + (?D + (?K - ?D + i)) = ?O + i + ?K" using that D bounds(6) by auto
    have "(?pos + (?K - ?D + i)) mod ?K = (?O + i) mod ?K" unfolding shift d(3) by simp
    then show ?thesis using cell [OF d(1)] d(2) by simp
  qed
  have fresh: "?buf ! ((?O + (?D + j)) mod ?K) = bytes ! j" if "j < unat m" for j
    using cell [of j] that bounds(1) unfolding shift by simp
  have "ring_content r' = map (\<lambda>i. ?buf ! ((?O + i) mod ?K)) [0..<?D + unat m]" by (simp add: ring_content_def r' D')
  also have "\<dots> = ring_content r @ take (unat m) bytes"
  proof (rule nth_equalityI)
    show "length (map (\<lambda>i. ?buf ! ((?O + i) mod ?K)) [0..<?D + unat m]) = length (ring_content r @ take (unat m) bytes)"
      using bounds(2) by (simp add: ckfifo_len_def)
    fix i assume "i < length (map (\<lambda>i. ?buf ! ((?O + i) mod ?K)) [0..<?D + unat m])"
    then have i: "i < ?D + unat m" by simp
    show "map (\<lambda>i. ?buf ! ((?O + i) mod ?K)) [0..<?D + unat m] ! i = (ring_content r @ take (unat m) bytes) ! i"
    proof (cases "i < ?D")
      case True
      then show ?thesis using old [OF True] i by (simp add: nth_append ring_content_def)
    next
      case False
      then have "?O + (?D + (i - ?D)) = ?O + i" by simp
      then show ?thesis using fresh [of "i - ?D"] False i by (simp add: nth_append ckfifo_len_def)
    qed
  qed
  finally have "ring_content r' = ring_content r @ take (unat m) bytes" .
  moreover have "ring_ok r'" using p lb bounds(6) by (simp add: ring_ok_def r' D')
  ultimately show ?thesis using r' m by (simp add: ckfifo_len_def)
qed

lemma reset_refines:
  assumes "ring_ok r" "rin r = rout r"
  shows "ring_ok (r\<lparr>rin := 0, rout := 0\<rparr>) \<and> ring_content (r\<lparr>rin := 0, rout := 0\<rparr>) = ring_content r"
  using assms by (simp add: ring_ok_def ring_content_def)

interpretation ring: byte_queue ring_ok ring_content "\<lambda>r. unat (rsize r)" "\<lambda>n. n < 2 ^ 32"
  "\<lambda>bs r. map_prod unat id (ckfifo_put bs r)" "\<lambda>n. ckfifo_get (word_of_nat n)"
proof unfold_locales
  fix s s' :: ckfifo and bs :: "8 word list" and n :: nat
  assume ok: "ring_ok s"
  show "n = min (length bs) (unat (rsize s) - length (ring_content s)) \<and> ring_ok s' \<and> unat (rsize s') = unat (rsize s) \<and>
      ring_content s' = ring_content s @ take n bs"
    if l: "length bs < 2 ^ 32" and e: "map_prod unat id (ckfifo_put bs s) = (n, s')"
  proof -
    obtain m where "ring_put bs s = (m, s')" "n = unat m" using e by (cases "ring_put bs s") (auto simp: ckfifo_put_def)
    from put_refines [OF ok l this(1)] this(2) show ?thesis by simp
  qed
  show "bs = take n (ring_content s) \<and> ring_ok s' \<and> unat (rsize s') = unat (rsize s) \<and> ring_content s' = drop n (ring_content s)"
    if l: "n < 2 ^ 32" and e: "ckfifo_get (word_of_nat n) s = (bs, s')"
  proof -
    obtain s1 where g: "ring_get (word_of_nat n) s = (bs, s1)" "s' = (if rin s1 = rout s1 then s1\<lparr>rin := 0, rout := 0\<rparr> else s1)"
      using e by (cases "ring_get (word_of_nat n) s") (auto simp: ckfifo_get_def)
    have "unat (word_of_nat n :: 32 word) = n" using l by (simp add: unat_of_nat)
    from get_refines [OF ok g(1)] this reset_refines [of s1] g(2) show ?thesis by auto
  qed
qed

section \<open>Properties\<close>

text \<open>C33: The ring buffer is a bounded queue of bytes. From any state of a ring, whatever the values of
  its wrapping counters, every run of writes and reads gives exactly the results of the reference queue
  whose capacity is the size of the ring: each write accepts as many bytes as there is room for, each
  read hands out as many as are asked for and there, and the ring ends with the content of the
  reference. So the bytes come out in the order they went in.\<close>

theorem ring_fifo:
  assumes "ring_ok r" "list_all (\<lambda>x. case x of Inl bs \<Rightarrow> length bs < 2 ^ 32 | Inr n \<Rightarrow> n < 2 ^ 32) ops"
    and "queue_run (\<lambda>bs r. map_prod unat id (ckfifo_put bs r)) (\<lambda>n. ckfifo_get (word_of_nat n)) ops r = (results, r')"
  shows "bounded_queue (unat (rsize r)) ops (ring_content r) = (results, ring_content r') \<and>
    length (ring_content r') \<le> unat (rsize r) \<and>
    ring_content r @ bytes_in ops results = bytes_out results @ ring_content r'"
proof -
  have "bounded_queue (unat (rsize r)) ops (ring_content r) = (results, ring_content r') \<and> ring_ok r' \<and> unat (rsize r') = unat (rsize r)"
    by (rule ring.run_refines [OF assms])
  then show ?thesis using bounded_queue_fifo by (auto simp: ring_ok_def ckfifo_len_def)
qed

definition wrapped :: ckfifo where
  "wrapped = \<lparr>buffer = [9, 9, 9, 9], rsize = 4, rin = 0, rout = 2 ^ 32 - 2\<rparr>"

lemma wrapped_run:
  "queue_run (\<lambda>bs r. map_prod unat id (ckfifo_put bs r)) (\<lambda>n. ckfifo_get (word_of_nat n))
     [Inl [1, 2, 3], Inr 3, Inl [4, 5]] wrapped =
   ([Inl 2, Inr [9, 9, 1], Inl 2], \<lparr>buffer = [1, 2, 4, 5], rsize = 4, rin = 4, rout = 1\<rparr>)"
  by code_simp

theorem ring_fifo_witness:
  "bounded_queue 4 [Inl [1, 2, 3], Inr 3, Inl [4, 5]] [9, 9] =
     ([Inl 2, Inr [9, 9, 1], Inl 2], ring_content \<lparr>buffer = [1, 2, 4, 5], rsize = 4, rin = 4, rout = 1\<rparr>)"
proof -
  have "ring_ok wrapped" by (simp add: ring_ok_def wrapped_def is_powerof_2_def)
  from ring_fifo [OF this _ wrapped_run] show ?thesis by (simp add: ring_content_def wrapped_def upt_rec)
qed

text \<open>A write that does not fit is accepted in part: of three bytes the ring takes the two it has room for.\<close>

lemma partial_put: "fst (ckfifo_put [1, 2, 3] wrapped) = 2"
  by code_simp

text \<open>\<open>ckfifo_init\<close> accepts exactly the sizes that are a power of two.\<close>

theorem ckfifo_init_sizes: "ckfifo_init buf sz \<noteq> None \<longleftrightarrow> (\<exists>k < 32. sz = 2 ^ k)"
proof
  assume "ckfifo_init buf sz \<noteq> None"
  then have "is_powerof_2 sz" by (simp add: ckfifo_init_def split: if_splits)
  from powerof_2 [OF this] obtain k where k: "k < 32" "unat sz = 2 ^ k" .
  have "sz = word_of_nat (unat sz)" by simp
  then have "sz = 2 ^ k" unfolding k(2) by simp
  then show "\<exists>k < 32. sz = 2 ^ k" using k(1) by blast
next
  assume "\<exists>k < 32. sz = 2 ^ k"
  then obtain k where k: "k < 32" "sz = 2 ^ k" by blast
  have "sz - 1 = mask k" using k(2) by (simp add: mask_eq_exp_minus_1)
  then have "sz AND (sz - 1) = take_bit k (2 ^ k)" using k(2) by (simp add: take_bit_eq_mask)
  moreover have "sz \<noteq> 0" using k by (simp add: exp_eq_zero_iff)
  ultimately show "ckfifo_init buf sz \<noteq> None" by (simp add: ckfifo_init_def is_powerof_2_def take_bit_eq_mod)
qed

end
