(* ===== verification/Osconf.thy ===== *)
theory Osconf
  imports Prelude
begin

unbundle bit_operations_syntax

text \<open>
  The parameters of the daemon: the file of start parameters (\<^verbatim>\<open>os/conf.c\<close>), the paths chosen from
  it, the listing of directories and the trimming of strings (\<^verbatim>\<open>os/refos.c\<close>), and the command line
  (\<^verbatim>\<open>ldr/args.c\<close>). What \<open>getopt_long\<close> and \<open>readdir\<close> return are lists, a file is its content.
\<close>

section \<open>The file of start parameters\<close>

definition TAB_CHAR :: char where "TAB_CHAR = CHR 0x09"

definition blank :: "char \<Rightarrow> bool" where
  "blank c \<longleftrightarrow> c = CHR '' '' \<or> c = TAB_CHAR"

text \<open>\<open>os_analy_line\<close>: the key and the value of a line, \<open>None\<close> for the result -1.\<close>

definition os_analy_line :: "string \<Rightarrow> (string \<times> string) option" where
  "os_analy_line line =
     (let cursor = dropWhile blank line in
      if cursor \<noteq> [] \<and> hd cursor = CHR ''#'' then None
      else
        (let key = takeWhile (\<lambda>c. \<not> blank c) cursor; rest = dropWhile (\<lambda>c. \<not> blank c) cursor
         in if rest = [] then None else Some (key, takeWhile (\<lambda>c. \<not> blank c) (dropWhile blank rest))))"

text \<open>One turn of the loop: the line cut off, and where the cursor stands.\<close>

definition os_next_line :: "string \<Rightarrow> string \<times> string" where
  "os_next_line cursor =
     (case strstr cursor CRLF of
        Some n \<Rightarrow> (take n cursor, drop (n + 2) cursor)
      | None \<Rightarrow>
          (case strstr cursor [LF] of
             Some n \<Rightarrow> (take n cursor, drop (n + 1) cursor)
           | None \<Rightarrow> (cursor, [])))"

lemma os_next_line_shorter: "cursor \<noteq> [] \<Longrightarrow> length (snd (os_next_line cursor)) < length cursor"
  by (simp add: os_next_line_def split: option.split)

function os_analy_conf :: "string \<Rightarrow> (string \<times> string) list" where
  "os_analy_conf cursor =
     (if cursor = [] then []
      else
        (case os_analy_line (fst (os_next_line cursor)) of
           Some node \<Rightarrow> node # os_analy_conf (snd (os_next_line cursor))
         | None \<Rightarrow> os_analy_conf (snd (os_next_line cursor))))"
  by auto
termination os_analy_conf by (relation "measure length") (simp_all add: os_next_line_shorter)

declare os_analy_conf.simps [simp del]

text \<open>The parameters in memory: whether a file was loaded, and its entries in order.\<close>

record conf_object =
  conf_loaded :: bool
  conf_head :: "(string \<times> string) list"

definition no_conf :: conf_object where
  "no_conf = \<lparr>conf_loaded = False, conf_head = []\<rparr>"

definition conf_path :: "string option \<Rightarrow> string" where
  "conf_path cfgfile = take 126 (case cfgfile of Some f \<Rightarrow> f | None \<Rightarrow> ''/etc/jess.conf'')"

text \<open>
  \<open>os_load_conf\<close> at the start: \<open>files\<close> gives the content of a file, \<open>None\<close> when it cannot be opened
  or read.
\<close>

definition os_load_conf :: "(string \<Rightarrow> string option) \<Rightarrow> string option \<Rightarrow> conf_object" where
  "os_load_conf files cfgfile =
     (case files (conf_path cfgfile) of
        None \<Rightarrow> no_conf
      | Some content \<Rightarrow>
          if content = [] then no_conf else \<lparr>conf_loaded = True, conf_head = os_analy_conf (cstr content)\<rparr>)"

definition os_query_conf :: "conf_object \<Rightarrow> string \<Rightarrow> string option" where
  "os_query_conf conf key =
     (if \<not> conf_loaded conf then None
      else map_option snd (find (\<lambda>node. strcasecmp (fst node) key = 0) (conf_head conf)))"

text \<open>The value and the integer stored through the pointer.\<close>

definition os_query_conf_integer :: "conf_object \<Rightarrow> string \<Rightarrow> (string \<times> int) option" where
  "os_query_conf_integer conf key =
     (case os_query_conf conf key of
        None \<Rightarrow> None
      | Some strvalue \<Rightarrow> if list_all isdigit strvalue then Some (strvalue, atoi strvalue) else None)"

text \<open>
  \<open>os_release_conf\<close>. \<open>None\<close>: the list head was never initialised, its null pointer is followed.
\<close>

definition os_release_conf :: "conf_object \<Rightarrow> conf_object option" where
  "os_release_conf conf = (if conf_loaded conf then Some no_conf else None)"

section \<open>Paths, directories and strings\<close>

definition JESSFS_CONFIG_FILE :: string where "JESSFS_CONFIG_FILE = ''configure.db''"
definition JESSFS_BINARY_FILE :: string where "JESSFS_BINARY_FILE = ''binary.db''"
definition JESSFS_CONFIG_SWAP :: string where "JESSFS_CONFIG_SWAP = ''configure.db.swap''"

record os_dirs =
  etcdir :: string
  fsdir :: string
  cfgdir :: string
  tmpdir :: string
  bindir :: string

definition os_choose_dir :: "conf_object \<Rightarrow> os_dirs" where
  "os_choose_dir conf =
     (let base = (case os_query_conf conf ''fsdir'' of Some d \<Rightarrow> d | None \<Rightarrow> ''/var/jess'')
      in \<lparr>etcdir = ''/etc/agv/'',
          fsdir = (case os_query_conf conf ''fsdir'' of Some d \<Rightarrow> d | None \<Rightarrow> ''/var/jess/''),
          cfgdir = base @ ''/'' @ JESSFS_CONFIG_FILE,
          tmpdir = base @ ''/'' @ JESSFS_CONFIG_SWAP,
          bindir = base @ ''/'' @ JESSFS_BINARY_FILE\<rparr>)"

text \<open>An entry of \<open>readdir\<close> with what \<open>stat\<close> says of it.\<close>

datatype st_mode = IsDir | IsReg | IsOther

record dirent =
  d_name :: string
  st_mode :: st_mode

definition skipped :: "dirent \<Rightarrow> bool" where
  "skipped ent \<longleftrightarrow> (d_name ent \<noteq> [] \<and> hd (d_name ent) = CHR ''.'') \<or> length (d_name ent) \<ge> 128"

fun os_foreach_dir :: "dirent list \<Rightarrow> (string \<times> dirent list) option" where
  "os_foreach_dir [] = None"
| "os_foreach_dir (ent # dirp) =
     (if skipped ent \<or> st_mode ent \<noteq> IsDir then os_foreach_dir dirp else Some (d_name ent, dirp))"

fun os_foreach_file :: "dirent list \<Rightarrow> (string \<times> dirent list) option" where
  "os_foreach_file [] = None"
| "os_foreach_file (ent # dirp) =
     (if skipped ent \<or> st_mode ent \<noteq> IsReg then os_foreach_file dirp else Some (d_name ent, dirp))"

definition isprint :: "char \<Rightarrow> bool" where
  "isprint c \<longleftrightarrow> (32 :: nat) \<le> of_char c \<and> of_char c \<le> (126 :: nat)"

definition invisible :: "char \<Rightarrow> bool" where
  "invisible c \<longleftrightarrow> \<not> isprint c \<or> c = CHR '' ''"

text \<open>\<open>os_strtrim\<close>: the loop at the end walks back from the last character.\<close>

definition os_strtrim :: "string \<Rightarrow> string option" where
  "os_strtrim str =
     (let cursor = dropWhile invisible str
      in if cursor = [] then None else Some (rev (dropWhile invisible (rev cursor))))"

text \<open>\<open>os_remove_file\<close> and \<open>os_delete_file\<close> by what \<open>remove\<close> returns and \<open>errno\<close>.\<close>

definition os_remove_file :: "int \<Rightarrow> int \<Rightarrow> int" where
  "os_remove_file retval errno = (if retval = 0 then 0 else - errno)"

definition os_delete_file :: "int \<Rightarrow> int \<Rightarrow> int" where
  "os_delete_file retval errno = (if retval \<noteq> 0 then 0 else - errno)"

section \<open>The command line\<close>

definition kInvisibleOptIndex_Reorganization :: int where "kInvisibleOptIndex_Reorganization = 0x0100"
definition kInvisibleOptIndex_ConfigFilePath :: int where "kInvisibleOptIndex_ConfigFilePath = 0x0400"
definition DEF_TCP_PORT :: int where "DEF_TCP_PORT = 4407"

text \<open>\<open>arg_analyze_input\<close> over what \<open>getopt_long\<close> returns: the flags and the path of the parameter file.\<close>

fun arg_analyze_loop :: "(int \<times> string option) list \<Rightarrow> int \<times> string \<Rightarrow> int \<times> string" where
  "arg_analyze_loop [] (retval, cfgfile) = (retval, cfgfile)"
| "arg_analyze_loop ((opt, optarg) # opts) (retval, cfgfile) =
     arg_analyze_loop opts
       (if opt = kInvisibleOptIndex_Reorganization \<or> opt = of_char (CHR ''r'')
        then (retval OR kInvisibleOptIndex_Reorganization, cfgfile)
        else if opt = kInvisibleOptIndex_ConfigFilePath \<or> opt = of_char (CHR ''f'')
        then (case optarg of
                Some arg \<Rightarrow> (retval OR kInvisibleOptIndex_ConfigFilePath, take 254 arg)
              | None \<Rightarrow> (retval, cfgfile))
        else (-1, cfgfile))"

definition arg_analyze_input :: "(int \<times> string option) list \<Rightarrow> int \<times> string" where
  "arg_analyze_input opts = arg_analyze_loop opts (0, [])"

text \<open>
  The head and the end of \<open>main\<close>: whether a reorganization is ordered, the parameters, the directory
  of the log, and the port, of which \<open>main\<close> keeps 16 bits. \<open>None\<close> is exit code 1.
\<close>

record start =
  order :: bool
  parameters :: conf_object
  logdir :: "string option"
  port :: int

definition main_parameters :: "(string \<Rightarrow> string option) \<Rightarrow> (int \<times> string option) list \<Rightarrow> start option" where
  "main_parameters files opts =
     (case arg_analyze_input opts of (charg, cfgfile) \<Rightarrow>
        if charg < 0 then None
        else
          (let conf = os_load_conf files (if charg AND kInvisibleOptIndex_ConfigFilePath \<noteq> 0 then Some cfgfile else None)
           in Some \<lparr>order = (charg AND kInvisibleOptIndex_Reorganization \<noteq> 0), parameters = conf,
                logdir = os_query_conf conf ''logdir'',
                port = (case os_query_conf_integer conf ''port'' of
                          Some (_, n) \<Rightarrow> take_bit 16 n
                        | None \<Rightarrow> DEF_TCP_PORT)\<rparr>))"


section \<open>What the file means\<close>

definition conf_line :: "string \<Rightarrow> bool" where
  "conf_line l \<longleftrightarrow> CR \<notin> set l \<and> LF \<notin> set l \<and> NUL \<notin> set l"

definition conf_text :: "string \<Rightarrow> string list \<Rightarrow> string" where
  "conf_text eol ls = concat (map (\<lambda>l. l @ eol) ls)"

lemma strstr_LF_append: "LF \<notin> set s \<Longrightarrow> strstr (s @ LF # t) [LF] = Some (length s)"
  by (induction s) auto

lemma next_line_crlf: "conf_line l \<Longrightarrow> os_next_line (l @ CRLF @ rest) = (l, rest)"
  using strstr_CRLF_append [of l rest] by (simp add: os_next_line_def conf_line_def)

lemma next_line_lf:
  assumes "conf_line l" "CR \<notin> set rest"
  shows "os_next_line (l @ [LF] @ rest) = (l, rest)"
proof -
  have "strstr (l @ [LF] @ rest) CRLF = None" using assms by (intro strstr_CRLF_None) (simp add: conf_line_def)
  then show ?thesis using strstr_LF_append [of l rest] assms(1) by (simp add: os_next_line_def conf_line_def)
qed

lemma analy_conf_lines:
  assumes "list_all conf_line ls" "eol = CRLF \<or> eol = [LF]"
  shows "os_analy_conf (conf_text eol ls) = List.map_filter os_analy_line ls"
  using assms(1)
proof (induction ls)
  case Nil
  then show ?case by (simp add: conf_text_def os_analy_conf.simps List.map_filter_def)
next
  case (Cons l ls)
  have no_cr: "CR \<notin> set (conf_text [LF] ls)" using Cons.prems by (auto simp: conf_text_def conf_line_def list_all_iff)
  have next_line: "os_next_line (conf_text eol (l # ls)) = (l, conf_text eol ls)"
    using assms(2) next_line_crlf [of l] next_line_lf [OF _ no_cr, of l] Cons.prems by (auto simp: conf_text_def)
  have "conf_text eol (l # ls) \<noteq> []" using assms(2) by (auto simp: conf_text_def CRLF_def)
  then show ?case using Cons next_line
    by (subst os_analy_conf.simps) (simp add: List.map_filter_def split: option.split)
qed

lemma query_map_of:
  "map_option snd (find (\<lambda>node. strcasecmp (fst node) key = 0) ns) = map_of (map (\<lambda>(k, v). (fold_key k, v)) ns) (fold_key key)"
  by (induction ns) (auto simp: strcasecmp_eq_0)

lemma analy_line_exact:
  assumes "list_all blank pre" "k \<noteq> []" "list_all (\<lambda>c. \<not> blank c) k" "hd k \<noteq> CHR ''#''" "sep \<noteq> []" "list_all blank sep"
    and "list_all (\<lambda>c. \<not> blank c) v" "rest = [] \<or> blank (hd rest)" "v = [] \<longrightarrow> rest = []"
  shows "os_analy_line (pre @ k @ sep @ v @ rest) = Some (k, v)"
proof -
  have d: "dropWhile blank (pre @ k @ sep @ v @ rest) = k @ sep @ v @ rest"
    using assms(1,2,3) by (cases k) (auto simp: dropWhile_append list_all_iff)
  have tw: "takeWhile (\<lambda>c. \<not> blank c) (k @ sep @ v @ rest) = k" "dropWhile (\<lambda>c. \<not> blank c) (k @ sep @ v @ rest) = sep @ v @ rest"
    using assms(3,5,6) by (cases sep; auto simp: takeWhile_append dropWhile_append list_all_iff)+
  have dv: "dropWhile blank (sep @ v @ rest) = v @ rest"
    using assms(6,7,9) by (cases v) (auto simp: dropWhile_append list_all_iff)
  have "takeWhile (\<lambda>c. \<not> blank c) (v @ rest) = v"
    using assms(7,8) by (cases rest) (auto simp: takeWhile_append list_all_iff)
  then show ?thesis using d tw dv assms(2,4,5) by (simp add: os_analy_line_def Let_def)
qed

section \<open>Properties\<close>

text \<open>C32: A parameter file whose lines all end in CRLF, or all in LF, is read line by line: a query for a
  key returns the value of the first line that has the key, up to case, and nothing else; lines that are
  comments or have no value do not count.\<close>

theorem conf_file_read:
  assumes "list_all conf_line ls" "eol = CRLF \<or> eol = [LF]" "files (conf_path cfgfile) = Some (conf_text eol ls)"
  shows "os_query_conf (os_load_conf files cfgfile) key =
    map_of (map (\<lambda>(k, v). (fold_key k, v)) (List.map_filter os_analy_line ls)) (fold_key key)"
proof (cases "ls = []")
  case True
  then show ?thesis using assms(3) by (simp add: os_load_conf_def os_query_conf_def no_conf_def conf_text_def List.map_filter_def)
next
  case False
  have "NUL \<notin> set (conf_text eol ls)" using assms(1,2) by (auto simp: conf_text_def conf_line_def list_all_iff CRLF_def CR_def LF_def NUL_def)
  moreover have "conf_text eol ls \<noteq> []" using assms(2) False by (cases ls) (auto simp: conf_text_def CRLF_def)
  ultimately show ?thesis using assms(3) analy_conf_lines [OF assms(1,2)]
    by (simp add: os_load_conf_def os_query_conf_def query_map_of)
qed

theorem conf_file_read_witness:
  "os_query_conf (os_load_conf (\<lambda>_. Some (conf_text [LF] [''# ports'', '' PORT 5000 '', ''port 1''])) None) ''port'' = Some ''5000''"
proof -
  have "list_all conf_line [''# ports'', '' PORT 5000 '', ''port 1'']" by code_simp
  from conf_file_read [OF this, of "[LF]" "\<lambda>_. Some (conf_text [LF] [''# ports'', '' PORT 5000 '', ''port 1''])" None "''port''"]
  have "os_query_conf (os_load_conf (\<lambda>_. Some (conf_text [LF] [''# ports'', '' PORT 5000 '', ''port 1''])) None) ''port'' =
    map_of (map (\<lambda>(k, v). (fold_key k, v)) (List.map_filter os_analy_line [''# ports'', '' PORT 5000 '', ''port 1''])) (fold_key ''port'')" by simp
  also have "\<dots> = Some ''5000''" by code_simp
  finally show ?thesis .
qed

text \<open>
  With mixed line ends the lines before a CRLF are read as one: here the entry \<open>b\<close> is lost and the
  value of \<open>a\<close> is wrong.
\<close>

lemma mixed_line_ends:
  "os_analy_conf (''a 1'' @ [LF] @ ''b 2'' @ CRLF) = [(''a'', ''1'' @ [LF] @ ''b'')]"
  by code_simp

text \<open>A key without a value but with a blank behind it is read as the integer 0.\<close>

lemma empty_integer: "os_query_conf_integer \<lparr>conf_loaded = True, conf_head = os_analy_conf ''port ''\<rparr> ''port'' = Some ([], 0)"
  by code_simp

text \<open>
  A configured directory is joined with a slash for the database and without one by the users of
  \<open>fsdir\<close>, who append the name of the file.
\<close>

lemma configured_dir:
  assumes "os_query_conf conf ''fsdir'' = Some d"
  shows "cfgdir (os_choose_dir conf) = d @ ''/configure.db'' \<and> fsdir (os_choose_dir conf) = d"
  using assms by (simp add: os_choose_dir_def JESSFS_CONFIG_FILE_def Let_def)

text \<open>The daemon starts exactly when every option of the command line is one it knows: \<open>-r\<close> or \<open>-f\<close>
  in their short or long form. The first unknown option, help and version included, ends the program,
  whatever comes behind it.\<close>

definition start_option :: "int \<Rightarrow> bool" where
  "start_option opt \<longleftrightarrow> opt = kInvisibleOptIndex_Reorganization \<or> opt = of_char (CHR ''r'') \<or>
     opt = kInvisibleOptIndex_ConfigFilePath \<or> opt = of_char (CHR ''f'')"

lemma or_flag: "x = -1 \<Longrightarrow> x OR y = (-1 :: int)" "0 \<le> x \<Longrightarrow> 0 \<le> y \<Longrightarrow> 0 \<le> x OR (y :: int)"
  by simp_all

lemma arg_loop_sign:
  "retval = -1 \<or> 0 \<le> retval \<Longrightarrow>
   (fst (arg_analyze_loop opts (retval, cfg)) = -1 \<or> 0 \<le> fst (arg_analyze_loop opts (retval, cfg))) \<and>
   (fst (arg_analyze_loop opts (retval, cfg)) < 0 \<longleftrightarrow> retval < 0 \<or> list_ex (\<lambda>x. \<not> start_option (fst x)) opts)"
proof (induction opts arbitrary: retval cfg)
  case (Cons x opts)
  obtain opt optarg where x: "x = (opt, optarg)" by (cases x)
  let ?step = "if opt = kInvisibleOptIndex_Reorganization \<or> opt = of_char (CHR ''r'')
        then (retval OR kInvisibleOptIndex_Reorganization, cfg)
        else if opt = kInvisibleOptIndex_ConfigFilePath \<or> opt = of_char (CHR ''f'')
        then (case optarg of Some arg \<Rightarrow> (retval OR kInvisibleOptIndex_ConfigFilePath, take 254 arg) | None \<Rightarrow> (retval, cfg))
        else (-1, cfg)"
  obtain r c where r: "?step = (r, c)" by fastforce
  have s: "(r = -1 \<or> 0 \<le> r) \<and> (r < 0 \<longleftrightarrow> retval < 0 \<or> \<not> start_option opt)"
    using r Cons.prems by (auto simp: start_option_def kInvisibleOptIndex_Reorganization_def kInvisibleOptIndex_ConfigFilePath_def split: if_splits option.splits)
  have "arg_analyze_loop (x # opts) (retval, cfg) = arg_analyze_loop opts (r, c)" using x r by simp
  then show ?case using Cons.IH [of r c] s x by auto
qed simp

theorem start_needs_known_options:
  "main_parameters files opts = None \<longleftrightarrow> list_ex (\<lambda>x. \<not> start_option (fst x)) opts"
proof -
  obtain charg cfg where a: "arg_analyze_input opts = (charg, cfg)" by fastforce
  have "charg < 0 \<longleftrightarrow> list_ex (\<lambda>x. \<not> start_option (fst x)) opts"
    using arg_loop_sign [of 0 opts "[]"] a by (simp add: arg_analyze_input_def)
  then show ?thesis using a by (simp add: main_parameters_def Let_def)
qed

text \<open>A step of a listing passes over hidden names, long names and other kinds, and returns the next entry.\<close>

definition listed :: "st_mode \<Rightarrow> dirent \<Rightarrow> bool" where
  "listed mode e \<longleftrightarrow> \<not> skipped e \<and> st_mode e = mode"

lemma foreach_file_next:
  "os_foreach_file dirp = Some (n, rest) \<longleftrightarrow>
     (\<exists>pre e. dirp = pre @ e # rest \<and> list_all (\<lambda>x. \<not> listed IsReg x) pre \<and> listed IsReg e \<and> n = d_name e)"
proof (induction dirp)
  case (Cons a dirp)
  then show ?case
    by (cases "listed IsReg a") (auto simp: listed_def Cons_eq_append_conv)
qed simp

lemma foreach_dir_next:
  "os_foreach_dir dirp = Some (n, rest) \<longleftrightarrow>
     (\<exists>pre e. dirp = pre @ e # rest \<and> list_all (\<lambda>x. \<not> listed IsDir x) pre \<and> listed IsDir e \<and> n = d_name e)"
proof (induction dirp)
  case (Cons a dirp)
  then show ?case
    by (cases "listed IsDir a") (auto simp: listed_def Cons_eq_append_conv)
qed simp

lemma strtrim_exact:
  "os_strtrim s = None \<longleftrightarrow> list_all invisible s"
  "os_strtrim s = Some t \<Longrightarrow> \<exists>pre post. s = pre @ t @ post \<and> list_all invisible pre \<and> list_all invisible post \<and>
     t \<noteq> [] \<and> \<not> invisible (hd t) \<and> \<not> invisible (last t)"
proof -
  show "os_strtrim s = None \<longleftrightarrow> list_all invisible s" by (simp add: os_strtrim_def Let_def list_all_iff)
  assume "os_strtrim s = Some t"
  let ?c = "dropWhile invisible s"
  have c: "?c \<noteq> []" "t = rev (dropWhile invisible (rev ?c))" using \<open>os_strtrim s = Some t\<close> by (auto simp: os_strtrim_def Let_def split: if_splits)
  have h: "\<not> invisible (hd ?c)" using c(1) hd_dropWhile by blast
  have ne: "dropWhile invisible (rev ?c) \<noteq> []" using h c(1) by (auto simp del: dropWhile_eq_Nil_conv simp: dropWhile_eq_Nil_conv [of invisible "rev ?c"] intro: hd_in_set)
  let ?post = "rev (takeWhile invisible (rev ?c))"
  have "?c = t @ ?post" using c(2) by (metis rev_append rev_rev_ident takeWhile_dropWhile_id)
  moreover have "s = takeWhile invisible s @ ?c" by simp
  moreover have "list_all invisible (takeWhile invisible s)" "list_all invisible ?post" by (auto simp: list_all_iff dest: set_takeWhileD)
  moreover have "t \<noteq> []" using c(2) ne by simp
  moreover have "\<not> invisible (last t)" using hd_dropWhile [OF ne] unfolding c(2) by (simp only: last_rev not_False_eq_True)
  moreover have "\<not> invisible (hd t)" using h \<open>?c = t @ ?post\<close> \<open>t \<noteq> []\<close> by (metis hd_append2)
  ultimately show "\<exists>pre post. s = pre @ t @ post \<and> list_all invisible pre \<and> list_all invisible post \<and>
     t \<noteq> [] \<and> \<not> invisible (hd t) \<and> \<not> invisible (last t)" by metis
qed

end
