(* ===== verification/Codec.thy ===== *)
theory Codec
  imports Prelude "HOL-Library.Word" "HOL-Library.Signed_Division"
begin

unbundle bit_operations_syntax

text \<open>
  Checksums and base64 of the framework (\<^verbatim>\<open>naxfw/src/hash.c\<close>). The table of the CRC is shown to
  compute the polynomial division bit by bit, and base64 to decode what it encodes, at the lengths it
  announces.
\<close>

section \<open>FNV\<close>

definition VFN_PRIME32 :: "32 word" where "VFN_PRIME32 = 16777619"
definition VFN_OFFSET_BASIS32 :: "32 word" where "VFN_OFFSET_BASIS32 = 2166136261"
definition VFN_PRIME64 :: "64 word" where "VFN_PRIME64 = 1099511628211"
definition VFN_OFFSET_BASIS64 :: "64 word" where "VFN_OFFSET_BASIS64 = 14695981039346656037"

definition vfn1_h32 :: "byte list \<Rightarrow> 32 word" where
  "vfn1_h32 key = (if key = [] then 0 else foldl (\<lambda>hash b. (hash * VFN_PRIME32) XOR ucast b) VFN_OFFSET_BASIS32 key)"

definition vfn1a_h32 :: "byte list \<Rightarrow> 32 word" where
  "vfn1a_h32 key = (if key = [] then 0 else foldl (\<lambda>hash b. (hash XOR ucast b) * VFN_PRIME32) VFN_OFFSET_BASIS32 key)"

definition vfn1_h64 :: "byte list \<Rightarrow> 64 word" where
  "vfn1_h64 key = (if key = [] then 0 else foldl (\<lambda>hash b. (hash * VFN_PRIME64) XOR ucast b) VFN_OFFSET_BASIS64 key)"

definition vfn1a_h64 :: "byte list \<Rightarrow> 64 word" where
  "vfn1a_h64 key = (if key = [] then 0 else foldl (\<lambda>hash b. (hash XOR ucast b) * VFN_PRIME64) VFN_OFFSET_BASIS64 key)"

section \<open>CRC32\<close>

definition CRC32_POLY :: "32 word" where "CRC32_POLY = 0xEDB88320"

definition crc32_shift :: "32 word \<Rightarrow> 32 word" where
  "crc32_shift c = (if c AND 1 \<noteq> 0 then drop_bit 1 c XOR CRC32_POLY else drop_bit 1 c)"

text \<open>The entry of the table: eight shifts of its index.\<close>

definition crc32_table :: "8 word \<Rightarrow> 32 word" where
  "crc32_table i = (crc32_shift ^^ 8) (ucast i)"

definition crc32_step :: "32 word \<Rightarrow> byte \<Rightarrow> 32 word" where
  "crc32_step crc b = drop_bit 8 crc XOR crc32_table (ucast (crc AND 0xff) XOR b)"

definition crc32 :: "32 word \<Rightarrow> byte list \<Rightarrow> 32 word" where
  "crc32 crc string =
     (if string = [] then 0 else foldl crc32_step (crc XOR 0xFFFFFFFF) string XOR 0xFFFFFFFF)"

text \<open>The reference: each byte is added to the register and divided out bit by bit.\<close>

definition crc32_bitwise :: "32 word \<Rightarrow> byte list \<Rightarrow> 32 word" where
  "crc32_bitwise crc string = NOT (foldl (\<lambda>c b. (crc32_shift ^^ 8) (c XOR ucast b)) (NOT crc) string)"

lemma shift_xor: "crc32_shift (a XOR b) = crc32_shift a XOR crc32_shift b"
proof -
  have o: "x AND 1 \<noteq> 0 \<longleftrightarrow> bit x 0" for x :: "32 word" by (simp add: and_one_eq bit_0 even_iff_mod_2_eq_zero)
  show ?thesis unfolding crc32_shift_def o
    by (auto simp: bit_xor_iff drop_bit_xor xor.assoc xor.commute xor.left_commute)
qed

lemma shifts_xor: "(crc32_shift ^^ n) (a XOR b) = (crc32_shift ^^ n) a XOR (crc32_shift ^^ n) b"
  by (induction n) (simp_all add: shift_xor)

lemma shifts_high: "take_bit n a = 0 \<Longrightarrow> (crc32_shift ^^ n) a = drop_bit n a"
proof (induction n arbitrary: a)
  case (Suc n)
  have "bit (take_bit (Suc n) a) 0 = bit a 0" by (simp add: bit_take_bit_iff)
  then have "even a" using Suc.prems by (simp add: bit_0)
  then have s: "crc32_shift a = drop_bit 1 a" by (simp add: crc32_shift_def and_one_eq even_iff_mod_2_eq_zero)
  have "take_bit n (drop_bit 1 a) = drop_bit 1 (take_bit (Suc n) a)" by (simp add: drop_bit_take_bit)
  then have "take_bit n (drop_bit 1 a) = 0" using Suc.prems by simp
  then have "(crc32_shift ^^ n) (drop_bit 1 a) = drop_bit n (drop_bit 1 a)" by (rule Suc.IH)
  then show ?case unfolding funpow_Suc_right o_apply s by simp
qed simp


lemma table_step: "crc32_step crc b = (crc32_shift ^^ 8) (crc XOR ucast b)"
proof -
  let ?low = "crc AND 0xff" and ?high = "crc AND NOT 0xff"
  have m: "(0xff :: 32 word) = mask 8" by (simp add: mask_eq_exp_minus_1)
  have "crc XOR ucast b = ?high XOR (?low XOR ucast b)" by (rule bit_word_eqI) (auto simp: bit_simps)
  moreover have "(ucast (ucast ?low XOR b) :: 32 word) = ?low XOR ucast b"
    unfolding m by (rule bit_word_eqI) (auto simp: bit_simps)
  moreover have "(crc32_shift ^^ 8) ?high = drop_bit 8 crc"
  proof -
    have "take_bit 8 ?high = 0" unfolding m by (rule bit_word_eqI) (auto simp: bit_simps)
    then have "(crc32_shift ^^ 8) ?high = drop_bit 8 ?high" by (rule shifts_high)
    also have "\<dots> = drop_bit 8 crc" unfolding m by (rule bit_word_eqI) (auto simp: bit_simps dest: bit_imp_le_length)
    finally show ?thesis .
  qed
  ultimately show ?thesis by (simp only: crc32_step_def crc32_table_def shifts_xor)
qed

text \<open>The CRC by table equals the division of the text bit by bit.\<close>

theorem crc32_table_driven: "crc32 crc string = (if string = [] then 0 else crc32_bitwise crc string)"
proof -
  have e: "(0xFFFFFFFF :: 32 word) = - 1" by simp
  have "x XOR 0xFFFFFFFF = NOT x" for x :: "32 word" unfolding e by (rule bit_word_eqI) (auto simp: bit_simps)
  moreover have "crc32_step = (\<lambda>c b. (crc32_shift ^^ 8) (c XOR ucast b))" by (intro ext) (rule table_step)
  ultimately show ?thesis by (simp only: crc32_def crc32_bitwise_def)
qed

text \<open>
  A text can be checked in pieces, except that an empty piece gives 0 instead of the checksum so far.
\<close>

lemma crc32_pieces: "xs \<noteq> [] \<Longrightarrow> ys \<noteq> [] \<Longrightarrow> crc32 (crc32 crc xs) ys = crc32 crc (xs @ ys)"
  by (simp add: crc32_def xor.assoc)

section \<open>Base64\<close>

definition base64char :: string where
  "base64char = ''ABCDEFGHIJKLMNOPQRSTUVWXYZabcdefghijklmnopqrstuvwxyz0123456789+/''"

definition symbol :: "8 word \<Rightarrow> char" where
  "symbol current = base64char ! unat current"

text \<open>The characters are signed: \<open>>>\<close> shifts in copies of the sign, which the masks take away.\<close>

definition asr :: "nat \<Rightarrow> 8 word \<Rightarrow> 8 word" where
  "asr n w = signed_drop_bit n w"

text \<open>A result of \<open>int\<close> arithmetic; \<open>None\<close>: it overflows. \<open>/\<close> and \<open>%\<close> truncate, also below zero.\<close>

definition INT_MAX :: int where "INT_MAX = 0x7FFFFFFF"

definition c_int :: "int \<Rightarrow> int option" where
  "c_int z = (if - INT_MAX - 1 \<le> z \<and> z \<le> INT_MAX then Some z else None)"

definition base64_encode_len :: "int \<Rightarrow> int option" where
  "base64_encode_len binlength =
     (let cnt_symbol_add = (if binlength smod 3 \<noteq> 0 then 3 - binlength smod 3 else 0)
      in case c_int (binlength + cnt_symbol_add) of None \<Rightarrow> None | Some n \<Rightarrow> c_int (n sdiv 3 * 4))"

fun base64_encode_loop :: "byte list \<Rightarrow> string" where
  "base64_encode_loop [] = []"
| "base64_encode_loop [a] = [symbol (asr 2 a AND 0x3F), symbol (push_bit 4 a AND 0x30), CHR ''='', CHR ''='']"
| "base64_encode_loop [a, b] =
     [symbol (asr 2 a AND 0x3F), symbol ((push_bit 4 a AND 0x30) OR (asr 4 b AND 0x0F)), symbol (push_bit 2 b AND 0x3C), CHR ''='']"
| "base64_encode_loop (a # b # c # rest) =
     [symbol (asr 2 a AND 0x3F), symbol ((push_bit 4 a AND 0x30) OR (asr 4 b AND 0x0F)),
      symbol ((push_bit 2 b AND 0x3C) OR (asr 6 c AND 0x03)), symbol (c AND 0x3F)] @ base64_encode_loop rest"

text \<open>
  The lengths are \<open>int\<close>s, so every text here has less than 2 GiB. The index \<open>j\<close> of \<open>base64_encode\<close> counts the
  symbols written: it overflows (\<open>None\<close>) exactly when there are more than an \<open>int\<close> can count. The result is
  \<open>Some None\<close> for an empty text (the null pointer). A text of one character is read before its
  beginning by \<open>base64_decode_len\<close> (\<open>None\<close>).
\<close>

definition base64_encode :: "byte list \<Rightarrow> string option option" where
  "base64_encode bindata =
     (if bindata = [] then Some None
      else if int (length (base64_encode_loop bindata)) > INT_MAX then None
      else Some (Some (base64_encode_loop bindata)))"

definition base64_decode_len :: "string \<Rightarrow> int option" where
  "base64_decode_len base64 =
     (if base64 = [] then Some (-1)
      else if length base64 = 1 then None
      else Some (int (length base64) div 4 * 3 - (if base64 ! (length base64 - 1) = CHR ''='' then 1 else 0)
           - (if base64 ! (length base64 - 2) = CHR ''='' then 1 else 0)))"

text \<open>The last index in the table that has the character, 255 when none has.\<close>

definition digit_of :: "char \<Rightarrow> 8 word" where
  "digit_of c = foldl (\<lambda>temp k. if base64char ! k = c then word_of_nat k else temp) 0xFF [0..<64]"

text \<open>The bytes written; \<open>None\<close>: a character behind the end of the text is read.\<close>

fun base64_decode_loop :: "string \<Rightarrow> byte list option" where
  "base64_decode_loop [] = Some []"
| "base64_decode_loop (p # q # r # s # rest) =
     (let b0 = (push_bit 2 (digit_of p) AND 0xFC) OR (asr 4 (digit_of q) AND 0x03);
          b1 = (push_bit 4 (digit_of q) AND 0xF0) OR (asr 2 (digit_of r) AND 0x0F);
          b2 = (push_bit 6 (digit_of r) AND 0xF0) OR (digit_of s AND 0x3F)
      in if r = CHR ''='' then Some [b0]
         else if s = CHR ''='' then Some [b0, b1]
         else map_option (\<lambda>bs. [b0, b1, b2] @ bs) (base64_decode_loop rest))"
| "base64_decode_loop _ = None"

definition base64_decode :: "string \<Rightarrow> (int \<times> byte list) option" where
  "base64_decode base64 =
     (if base64 = [] then Some (-1, []) else map_option (\<lambda>bs. (int (length bs), bs)) (base64_decode_loop base64))"

lemma symbols_distinct: "list_all (\<lambda>k. digit_of (base64char ! k) = word_of_nat k \<and> base64char ! k \<noteq> CHR ''='') [0..<64]"
  by code_simp

lemma digit_of_symbol:
  assumes "unat w < 64"
  shows "digit_of (symbol w) = w" "symbol w \<noteq> CHR ''=''"
proof -
  have "unat w \<in> set [0..<64]" using assms by simp
  then have "digit_of (base64char ! unat w) = word_of_nat (unat w) \<and> base64char ! unat w \<noteq> CHR ''=''"
    using symbols_distinct unfolding list_all_iff by blast
  then show "digit_of (symbol w) = w" "symbol w \<noteq> CHR ''=''" by (simp_all add: symbol_def)
qed

lemma six_bits: "x = x AND 0x3F \<Longrightarrow> unat x < 64" for x :: "8 word"
proof -
  assume "x = x AND 0x3F"
  moreover have "(0x3F :: 8 word) = mask 6" by (simp add: mask_eq_exp_minus_1)
  ultimately have "x = take_bit 6 x" by (simp add: take_bit_eq_mask)
  then have "unat x = take_bit 6 (unat x)" by (metis unsigned_take_bit_eq)
  then show ?thesis using take_bit_nat_less_exp [of 6 "unat x"] by simp
qed

lemma masks:
  "(0x3F :: 8 word) = mask 6" "(0x0F :: 8 word) = mask 4" "(0x03 :: 8 word) = mask 2" "(0xFC :: 8 word) = NOT (mask 2)"
  "(0xF0 :: 8 word) = NOT (mask 4)" "(0x30 :: 8 word) = mask 6 AND NOT (mask 4)" "(0x3C :: 8 word) = mask 6 AND NOT (mask 2)"
  by (simp_all add: mask_eq_exp_minus_1 not_eq_complement)

lemma up_two: "2 \<le> n \<Longrightarrow> Suc (Suc (n - 2)) = n"
  by simp

lemmas bits6 = bit_simps bit_signed_drop_bit_iff asr_def up_two

lemma encoded_digits:
  fixes a b c :: "8 word"
  shows "unat (asr 2 a AND 0x3F) < 64" "unat (push_bit 4 a AND 0x30) < 64"
    "unat ((push_bit 4 a AND 0x30) OR (asr 4 b AND 0x0F)) < 64" "unat (push_bit 2 b AND 0x3C) < 64"
    "unat ((push_bit 2 b AND 0x3C) OR (asr 6 c AND 0x03)) < 64" "unat (c AND 0x3F) < 64"
  by (rule six_bits; unfold masks; rule bit_word_eqI; auto simp: bits6)+

lemma first_byte:
  fixes a b :: "8 word"
  shows "(push_bit 2 (asr 2 a AND 0x3F) AND 0xFC) OR (asr 4 ((push_bit 4 a AND 0x30) OR (asr 4 b AND 0x0F)) AND 0x03) = a"
    "(push_bit 2 (asr 2 a AND 0x3F) AND 0xFC) OR (asr 4 (push_bit 4 a AND 0x30) AND 0x03) = a"
  unfolding masks by (rule bit_word_eqI; auto simp: bits6)+

lemma second_byte:
  fixes a b c :: "8 word"
  shows "(push_bit 4 ((push_bit 4 a AND 0x30) OR (asr 4 b AND 0x0F)) AND 0xF0) OR
      (asr 2 ((push_bit 2 b AND 0x3C) OR (asr 6 c AND 0x03)) AND 0x0F) = b"
    "(push_bit 4 ((push_bit 4 a AND 0x30) OR (asr 4 b AND 0x0F)) AND 0xF0) OR (asr 2 (push_bit 2 b AND 0x3C) AND 0x0F) = b"
  unfolding masks by (rule bit_word_eqI; auto simp: bits6)+

lemma third_byte:
  fixes b c :: "8 word"
  shows "(push_bit 6 ((push_bit 2 b AND 0x3C) OR (asr 6 c AND 0x03)) AND 0xF0) OR ((c AND 0x3F) AND 0x3F) = c"
  unfolding masks by (rule bit_word_eqI) (auto simp: bits6)

lemmas digits_back = encoded_digits [THEN digit_of_symbol(1)]
lemmas not_padding = encoded_digits [THEN digit_of_symbol(2)]

lemma decode_encode_loop: "base64_decode_loop (base64_encode_loop bs) = Some bs"
proof (induction bs rule: base64_encode_loop.induct)
  case 1
  then show ?case by simp
next
  case (2 a)
  then show ?case unfolding base64_encode_loop.simps base64_decode_loop.simps Let_def digits_back first_byte by simp
next
  case (3 a b)
  then show ?case unfolding base64_encode_loop.simps base64_decode_loop.simps Let_def digits_back first_byte second_byte
    by (simp add: not_padding)
next
  case (4 a b c rest)
  then show ?case
    unfolding base64_encode_loop.simps append.simps base64_decode_loop.simps Let_def digits_back first_byte second_byte third_byte
    by (simp only: not_padding if_False option.map append.simps)
qed

text \<open>The announced length of a text: four symbols per group of three bytes, as long as an \<open>int\<close> holds it.\<close>

lemma encode_len_value:
  assumes "0 \<le> n" "n \<le> INT_MAX"
  shows "base64_encode_len n = (if n \<le> 1610612733 then Some ((n + 2) div 3 * 4) else None)"
proof -
  have s: "k smod 3 = k mod 3" "k sdiv 3 = k div 3" if "0 \<le> k" for k :: int
    using that by (auto simp: smod_int_alt_def signed_divide_int_def sgn_if)
  define add where "add = (if n mod 3 \<noteq> 0 then 3 - n mod 3 else 0)"
  have a: "0 \<le> add" "n + add = (n + 2) div 3 * 3" unfolding add_def by (auto, presburger+)
  have b: "n \<le> 1610612733 \<longleftrightarrow> (n + 2) div 3 \<le> 536870911" by linarith
  have "base64_encode_len n = (case c_int (n + add) of None \<Rightarrow> None | Some m \<Rightarrow> c_int (m sdiv 3 * 4))"
    unfolding base64_encode_len_def Let_def s(1) [OF assms(1)] add_def ..
  also have "\<dots> = (if n \<le> 1610612733 then Some ((n + 2) div 3 * 4) else None)"
    using s(2) [of "n + add"] assms a b by (auto simp: c_int_def INT_MAX_def)
  finally show ?thesis .
qed

lemma encode_length: "int (length (base64_encode_loop bs)) = (int (length bs) + 2) div 3 * 4"
proof (induction bs rule: base64_encode_loop.induct)
  case (4 a b c rest)
  have "(int (length (a # b # c # rest)) + 2) div 3 = (int (length rest) + 2) div 3 + 1" by simp
  then show ?case using 4 by simp
qed simp_all

lemma encode_four: "bs \<noteq> [] \<Longrightarrow> 4 \<le> length (base64_encode_loop bs)"
  by (cases bs rule: base64_encode_loop.cases) auto

lemma decode_len_step:
  assumes "4 \<le> length e"
  shows "base64_decode_len (w # x # y # z # e) = map_option (\<lambda>n. n + 3) (base64_decode_len e)"
proof -
  have n: "(w # x # y # z # e) ! (length (w # x # y # z # e) - k) = e ! (length e - k)" if "k = 1 \<or> k = 2" for k
  proof -
    have "length (w # x # y # z # e) - k = Suc (Suc (Suc (Suc (length e - k))))" using assms that by auto
    then show ?thesis by simp
  qed
  have d: "int (length (w # x # y # z # e)) div 4 = int (length e) div 4 + 1" using div_add_self1 [of 4 "int (length e)"] by simp
  have "w # x # y # z # e \<noteq> []" "e \<noteq> []" "length e \<noteq> 1" "length (w # x # y # z # e) \<noteq> 1" using assms by auto
  then show ?thesis unfolding base64_decode_len_def d n [OF disjI1 [OF refl]] n [OF disjI2 [OF refl]] by simp
qed

lemma decode_length_loop:
  assumes "bs \<noteq> []"
  shows "base64_decode_len (base64_encode_loop bs) = Some (int (length bs))"
  using assms
proof (induction bs rule: base64_encode_loop.induct)
  case (4 a b c rest)
  show ?case
  proof (cases "rest = []")
    case True
    then show ?thesis using not_padding by (simp add: base64_decode_len_def)
  next
    case False
    then show ?thesis using 4 decode_len_step [OF encode_four [OF False]] by simp
  qed
qed (use not_padding in \<open>simp_all add: base64_decode_len_def\<close>)

text \<open>Longer texts overflow an \<open>int\<close>, in the announced length and in the index of the encoder.\<close>

lemma base64_overflow:
  assumes "1610612733 < length bindata" "int (length bindata) \<le> INT_MAX"
  shows "base64_encode_len (int (length bindata)) = None \<and> base64_encode bindata = None"
proof -
  have "536870912 \<le> (int (length bindata) + 2) div 3" using assms(1) by linarith
  then have "INT_MAX < int (length (base64_encode_loop bindata))" unfolding encode_length INT_MAX_def by linarith
  moreover have "bindata \<noteq> []" using assms(1) by auto
  ultimately show ?thesis using encode_len_value [of "int (length bindata)"] assms by (simp add: base64_encode_def)
qed

text \<open>C36: For a text of at most 1610612733 bytes no \<open>int\<close> overflows, what \<open>base64_encode\<close> makes of it is as
  long as \<open>base64_encode_len\<close> announces, and \<open>base64_decode\<close> gives the text back, with the length that
  \<open>base64_decode_len\<close> announces.\<close>

theorem base64_roundtrip:
  assumes "bindata \<noteq> []" "length bindata \<le> 1610612733"
  shows "\<exists>base64. base64_encode bindata = Some (Some base64) \<and> base64_encode_len (int (length bindata)) = Some (int (length base64)) \<and>
    base64_decode base64 = Some (int (length bindata), bindata) \<and> base64_decode_len base64 = Some (int (length bindata))"
proof -
  have "base64_encode_loop bindata \<noteq> []" using assms by (cases bindata rule: base64_encode_loop.cases) auto
  moreover have "(int (length bindata) + 2) div 3 \<le> 536870911" using assms(2) by linarith
  then have "int (length (base64_encode_loop bindata)) \<le> INT_MAX" unfolding encode_length INT_MAX_def by linarith
  moreover have "base64_encode_len (int (length bindata)) = Some (int (length (base64_encode_loop bindata)))"
    using encode_len_value [of "int (length bindata)"] assms(2) by (simp add: encode_length INT_MAX_def)
  ultimately show ?thesis using assms decode_encode_loop decode_length_loop by (simp add: base64_encode_def base64_decode_def)
qed

theorem base64_roundtrip_witness:
  "\<exists>base64. base64_encode [77, 97] = Some (Some base64) \<and> base64_encode_len 2 = Some (int (length base64)) \<and>
    base64_decode base64 = Some (2, [77, 97]) \<and> base64_decode_len base64 = Some 2"
  using base64_roundtrip [of "[77, 97]"] by simp

text \<open>
  A text whose length is not a multiple of four is read behind its end, and one of more than four
  characters can be written behind the length announced: five characters announce three bytes.
\<close>

lemma base64_overrun: "base64_decode_loop (''AAAA'' @ ''A'') = None \<and> base64_decode_len (''AAAA'' @ ''A'') = Some 3"
  by code_simp

end
