(* ===== verification/Des.thy ===== *)
theory Des
  imports Prelude "HOL-Library.Word"
begin

unbundle bit_operations_syntax

text \<open>
  The block cipher of the framework (\<open>des_encrypt\<close> and \<open>des_decrypt\<close> of \<^verbatim>\<open>naxfw/src/hash.c\<close>). A bit,
  which the code keeps in a \<open>char\<close> that is 0 or 1, is a \<open>bool\<close>. The theory shows that decryption gives
  the text back under every key, from the structure of the rounds and the two initial permutations
  only.
\<close>

section \<open>Tables\<close>

definition DES_IP_Table :: "nat list" where
  "DES_IP_Table =
     [58, 50, 42, 34, 26, 18, 10, 2, 60, 52, 44, 36, 28, 20, 12, 4, 62, 54, 46, 38,
      30, 22, 14, 6, 64, 56, 48, 40, 32, 24, 16, 8, 57, 49, 41, 33, 25, 17, 9, 1,
      59, 51, 43, 35, 27, 19, 11, 3, 61, 53, 45, 37, 29, 21, 13, 5, 63, 55, 47, 39,
      31, 23, 15, 7]"

definition DES_IP_1_Table :: "nat list" where
  "DES_IP_1_Table =
     [40, 8, 48, 16, 56, 24, 64, 32, 39, 7, 47, 15, 55, 23, 63, 31, 38, 6, 46, 14,
      54, 22, 62, 30, 37, 5, 45, 13, 53, 21, 61, 29, 36, 4, 44, 12, 52, 20, 60, 28,
      35, 3, 43, 11, 51, 19, 59, 27, 34, 2, 42, 10, 50, 18, 58, 26, 33, 1, 41, 9,
      49, 17, 57, 25]"

definition DES_E_Table :: "nat list" where
  "DES_E_Table =
     [32, 1, 2, 3, 4, 5, 4, 5, 6, 7, 8, 9, 8, 9, 10, 11, 12, 13, 12, 13,
      14, 15, 16, 17, 16, 17, 18, 19, 20, 21, 20, 21, 22, 23, 24, 25, 24, 25, 26, 27,
      28, 29, 28, 29, 30, 31, 32, 1]"

definition DES_P_Table :: "nat list" where
  "DES_P_Table =
     [16, 7, 20, 21, 29, 12, 28, 17, 1, 15, 23, 26, 5, 18, 31, 10, 2, 8, 24, 14,
      32, 27, 3, 9, 19, 13, 30, 6, 22, 11, 4, 25]"

definition DES_S :: "nat list list list" where
  "DES_S =
     [[[14, 4, 13, 1, 2, 15, 11, 8, 3, 10, 6, 12, 5, 9, 0, 7],
       [0, 15, 7, 4, 14, 2, 13, 1, 10, 6, 12, 11, 9, 5, 3, 8],
       [4, 1, 14, 8, 13, 6, 2, 11, 15, 12, 9, 7, 3, 10, 5, 0],
       [15, 12, 8, 2, 4, 9, 1, 7, 5, 11, 3, 14, 10, 0, 6, 13]],
      [[15, 1, 8, 14, 6, 11, 3, 4, 9, 7, 2, 13, 12, 0, 5, 10],
       [3, 13, 4, 7, 15, 2, 8, 14, 12, 0, 1, 10, 6, 9, 11, 5],
       [0, 14, 7, 11, 10, 4, 13, 1, 5, 8, 12, 6, 9, 3, 2, 15],
       [13, 8, 10, 1, 3, 15, 4, 2, 11, 6, 7, 12, 0, 5, 14, 9]],
      [[10, 0, 9, 14, 6, 3, 15, 5, 1, 13, 12, 7, 11, 4, 2, 8],
       [13, 7, 0, 9, 3, 4, 6, 10, 2, 8, 5, 14, 12, 11, 15, 1],
       [13, 6, 4, 9, 8, 15, 3, 0, 11, 1, 2, 12, 5, 10, 14, 7],
       [1, 10, 13, 0, 6, 9, 8, 7, 4, 15, 14, 3, 11, 5, 2, 12]],
      [[7, 13, 14, 3, 0, 6, 9, 10, 1, 2, 8, 5, 11, 12, 4, 15],
       [13, 8, 11, 5, 6, 15, 0, 3, 4, 7, 2, 12, 1, 10, 14, 9],
       [10, 6, 9, 0, 12, 11, 7, 13, 15, 1, 3, 14, 5, 2, 8, 4],
       [3, 15, 0, 6, 10, 1, 13, 8, 9, 4, 5, 11, 12, 7, 2, 14]],
      [[2, 12, 4, 1, 7, 10, 11, 6, 8, 5, 3, 15, 13, 0, 14, 9],
       [14, 11, 2, 12, 4, 7, 13, 1, 5, 0, 15, 10, 3, 9, 8, 6],
       [4, 2, 1, 11, 10, 13, 7, 8, 15, 9, 12, 5, 6, 3, 0, 14],
       [11, 8, 12, 7, 1, 14, 2, 13, 6, 15, 0, 9, 10, 4, 5, 3]],
      [[12, 1, 10, 15, 9, 2, 6, 8, 0, 13, 3, 4, 14, 7, 5, 11],
       [10, 15, 4, 2, 7, 12, 9, 5, 6, 1, 13, 14, 0, 11, 3, 8],
       [9, 14, 15, 5, 2, 8, 12, 3, 7, 0, 4, 10, 1, 13, 11, 6],
       [4, 3, 2, 12, 9, 5, 15, 10, 11, 14, 1, 7, 6, 0, 8, 13]],
      [[4, 11, 2, 14, 15, 0, 8, 13, 3, 12, 9, 7, 5, 10, 6, 1],
       [13, 0, 11, 7, 4, 9, 1, 10, 14, 3, 5, 12, 2, 15, 8, 6],
       [1, 4, 11, 13, 12, 3, 7, 14, 10, 15, 6, 8, 0, 5, 9, 2],
       [6, 11, 13, 8, 1, 4, 10, 7, 9, 5, 0, 15, 14, 2, 3, 12]],
      [[13, 2, 8, 4, 6, 15, 11, 1, 10, 9, 3, 14, 5, 0, 12, 7],
       [1, 15, 13, 8, 10, 3, 7, 4, 12, 5, 6, 11, 0, 14, 9, 2],
       [7, 11, 4, 1, 9, 12, 14, 2, 0, 6, 10, 13, 15, 3, 5, 8],
       [2, 1, 14, 7, 4, 10, 8, 13, 15, 12, 9, 0, 3, 5, 6, 11]]]"

definition DES_PC_1 :: "nat list" where
  "DES_PC_1 =
     [57, 49, 41, 33, 25, 17, 9, 1, 58, 50, 42, 34, 26, 18, 10, 2, 59, 51, 43, 35,
      27, 19, 11, 3, 60, 52, 44, 36, 63, 55, 47, 39, 31, 23, 15, 7, 62, 54, 46, 38,
      30, 22, 14, 6, 61, 53, 45, 37, 29, 21, 13, 5, 28, 20, 12, 4]"

definition DES_PC_2 :: "nat list" where
  "DES_PC_2 =
     [14, 17, 11, 24, 1, 5, 3, 28, 15, 6, 21, 10, 23, 19, 12, 4, 26, 8, 16, 7,
      27, 20, 13, 2, 41, 52, 31, 37, 47, 55, 30, 40, 51, 45, 33, 48, 44, 49, 39, 56,
      34, 53, 46, 42, 50, 36, 29, 32]"

definition DES_MOVE_TIMES :: "nat list" where
  "DES_MOVE_TIMES =
     [1, 1, 2, 2, 2, 2, 2, 2, 1, 2, 2, 2, 2, 2, 2, 1]"

section \<open>Bytes and bits\<close>

type_synonym bits = "bool list"

definition ByteToBit :: "byte \<Rightarrow> bits" where
  "ByteToBit ch = map (bit ch) [0..<8]"

definition BitToByte :: "bits \<Rightarrow> byte" where
  "BitToByte bs = foldl (\<lambda>ch cnt. ch OR push_bit cnt (of_bool (bs ! cnt))) 0 [0..<8]"

definition Char8ToBit64 :: "byte list \<Rightarrow> bits" where
  "Char8ToBit64 ch = concat (map ByteToBit ch)"

definition Bit64ToChar8 :: "bits \<Rightarrow> byte list" where
  "Bit64ToChar8 bs = map (\<lambda>cnt. BitToByte (take 8 (drop (cnt * 8) bs))) [0..<8]"

section \<open>The parts of a round\<close>

text \<open>The transforms by a table: the bit at each place is read from the place the table names.\<close>

definition permute :: "nat list \<Rightarrow> bits \<Rightarrow> bits" where
  "permute table data = map (\<lambda>i. data ! (i - 1)) table"

definition DES_PC1_Transform :: "bits \<Rightarrow> bits" where "DES_PC1_Transform = permute DES_PC_1"
definition DES_PC2_Transform :: "bits \<Rightarrow> bits" where "DES_PC2_Transform = permute DES_PC_2"
definition DES_IP_Transform :: "bits \<Rightarrow> bits" where "DES_IP_Transform = permute DES_IP_Table"
definition DES_IP_1_Transform :: "bits \<Rightarrow> bits" where "DES_IP_1_Transform = permute DES_IP_1_Table"
definition DES_E_Transform :: "bits \<Rightarrow> bits" where "DES_E_Transform = permute DES_E_Table"
definition DES_P_Transform :: "bits \<Rightarrow> bits" where "DES_P_Transform = permute DES_P_Table"

definition DES_ROL :: "bits \<Rightarrow> nat \<Rightarrow> bits" where
  "DES_ROL data time =
     take (28 - time) (drop time data) @ take time data @
     take (28 - time) (drop (28 + time) data) @ take time (drop 28 data)"

text \<open>The loop over the sixteen keys, each from the rotated halves.\<close>

fun subkey_loop :: "nat list \<Rightarrow> bits \<Rightarrow> bits list" where
  "subkey_loop [] temp = []"
| "subkey_loop (t # ts) temp = (let temp' = DES_ROL temp t in DES_PC2_Transform temp' # subkey_loop ts temp')"

definition DES_MakeSubKeys :: "bits \<Rightarrow> bits list" where
  "DES_MakeSubKeys key = subkey_loop DES_MOVE_TIMES (DES_PC1_Transform key)"

definition DES_XOR :: "bits \<Rightarrow> bits \<Rightarrow> bits" where
  "DES_XOR R L = map2 (\<noteq>) R L"

definition sbox_output :: "nat \<Rightarrow> bits \<Rightarrow> bits" where
  "sbox_output cnt d =
     (let line = 2 * of_bool (d ! 0) + of_bool (d ! 5);
          row = 8 * of_bool (d ! 1) + 4 * of_bool (d ! 2) + 2 * of_bool (d ! 3) + of_bool (d ! 4);
          output = DES_S ! cnt ! line ! row
      in [bit output 3, bit output 2, bit output 1, bit output 0])"

definition DES_SBOX :: "bits \<Rightarrow> bits" where
  "DES_SBOX data = concat (map (\<lambda>cnt. sbox_output cnt (take 6 (drop (cnt * 6) data))) [0..<8])"

definition round_function :: "bits \<Rightarrow> bits \<Rightarrow> bits" where
  "round_function key right = DES_P_Transform (DES_SBOX (DES_XOR (DES_E_Transform right) key))"

text \<open>One turn of the loop over the rounds; the halves are swapped unless it is the last.\<close>

definition half_round :: "bits \<Rightarrow> bits \<Rightarrow> bits" where
  "half_round key plainBits = DES_XOR (take 32 plainBits) (round_function key (drop 32 plainBits)) @ drop 32 plainBits"

definition DES_SWAP :: "bits \<Rightarrow> bits" where
  "DES_SWAP bs = drop 32 bs @ take 32 bs"

fun des_rounds :: "bits list \<Rightarrow> bits \<Rightarrow> bits" where
  "des_rounds [] bs = bs"
| "des_rounds [key] bs = half_round key bs"
| "des_rounds (key # keys) bs = des_rounds keys (DES_SWAP (half_round key bs))"

definition des_encryptBlock :: "bits list \<Rightarrow> byte list \<Rightarrow> byte list" where
  "des_encryptBlock subKeys plainBlock =
     Bit64ToChar8 (DES_IP_1_Transform (des_rounds subKeys (DES_IP_Transform (Char8ToBit64 plainBlock))))"

definition des_decryptBlock :: "bits list \<Rightarrow> byte list \<Rightarrow> byte list" where
  "des_decryptBlock subKeys cipherBlock =
     Bit64ToChar8 (DES_IP_1_Transform (des_rounds (rev subKeys) (DES_IP_Transform (Char8ToBit64 cipherBlock))))"

definition DEFAULT_DES_KEY :: "byte list" where
  "DEFAULT_DES_KEY = [0x33, 0x75, 0x42, 0x23, 0x2A, 0x74, 0x54, 0x79]"

definition key_schedule :: "byte list option \<Rightarrow> bits list" where
  "key_schedule key = DES_MakeSubKeys (Char8ToBit64 (case key of None \<Rightarrow> DEFAULT_DES_KEY | Some k \<Rightarrow> k))"

fun block_loop :: "(byte list \<Rightarrow> byte list) \<Rightarrow> nat \<Rightarrow> byte list \<Rightarrow> byte list" where
  "block_loop f 0 input = []"
| "block_loop f (Suc n) input = f (take 8 input) @ block_loop f n (drop 8 input)"

text \<open>The results with the output buffer. A key has eight bytes.\<close>

definition des_encrypt :: "byte list option \<Rightarrow> byte list \<Rightarrow> int \<times> byte list" where
  "des_encrypt key input =
     (if input = [] \<or> length input mod 8 \<noteq> 0 then (-22, [])
      else (to_int32 (int (length input)), block_loop (des_encryptBlock (key_schedule key)) (length input div 8) input))"

definition des_decrypt :: "byte list option \<Rightarrow> byte list \<Rightarrow> int \<times> byte list" where
  "des_decrypt key input =
     (if input = [] \<or> length input mod 8 \<noteq> 0 then (-22, [])
      else (to_int32 (int (length input)), block_loop (des_decryptBlock (key_schedule key)) (length input div 8) input))"


section \<open>The permutations and the packing are undone\<close>

lemma tables_inverse:
  "length DES_IP_Table = 64" "length DES_IP_1_Table = 64"
  "list_all (\<lambda>i. 0 < DES_IP_Table ! i \<and> DES_IP_Table ! i \<le> 64 \<and> DES_IP_1_Table ! (DES_IP_Table ! i - 1) = i + 1) [0..<64]"
  "list_all (\<lambda>i. 0 < DES_IP_1_Table ! i \<and> DES_IP_1_Table ! i \<le> 64 \<and> DES_IP_Table ! (DES_IP_1_Table ! i - 1) = i + 1) [0..<64]"
  by code_simp+

lemma permute_inverse:
  assumes "length u = n" "length t = n" "list_all (\<lambda>i. 0 < u ! i \<and> u ! i \<le> n \<and> t ! (u ! i - 1) = i + 1) [0..<n]" "length data = n"
  shows "permute u (permute t data) = data"
proof (rule nth_equalityI)
  show "length (permute u (permute t data)) = length data" using assms by (simp add: permute_def)
  fix i assume "i < length (permute u (permute t data))"
  then have i: "i < n" using assms(1) by (simp add: permute_def)
  then have u: "0 < u ! i" "u ! i \<le> n" "t ! (u ! i - 1) = i + 1" using assms(3) by (auto simp: list_all_iff)
  have "permute u (permute t data) ! i = permute t data ! (u ! i - 1)" using i assms(1) by (simp add: permute_def)
  also have "\<dots> = data ! (t ! (u ! i - 1) - 1)" using u(1,2) assms(2) by (simp add: permute_def)
  finally show "permute u (permute t data) ! i = data ! i" using u(3) by simp
qed

lemma ip_inverse: "length data = 64 \<Longrightarrow> DES_IP_Transform (DES_IP_1_Transform data) = data"
  "length data = 64 \<Longrightarrow> DES_IP_1_Transform (DES_IP_Transform data) = data"
  unfolding DES_IP_Transform_def DES_IP_1_Transform_def
  by (rule permute_inverse [OF tables_inverse(1,2,3)] permute_inverse [OF tables_inverse(2,1,4)]; simp)+

lemma ip_length [simp]: "length (DES_IP_Transform data) = 64" "length (DES_IP_1_Transform data) = 64"
  by (simp_all add: DES_IP_Transform_def DES_IP_1_Transform_def permute_def tables_inverse)

lemma byte_bits [simp]: "length (ByteToBit ch) = 8"
  by (simp add: ByteToBit_def)

lemma packed_bits:
  "bit (foldl (\<lambda>ch cnt. ch OR push_bit cnt (of_bool (bs ! cnt))) 0 [0..<n] :: byte) i \<longleftrightarrow> i < n \<and> i < 8 \<and> bs ! i"
proof (induction n)
  case (Suc n)
  have "bit (push_bit n (of_bool (bs ! n)) :: byte) i \<longleftrightarrow> i = n \<and> i < 8 \<and> bs ! n"
    by (cases "bs ! n") (auto simp: bit_simps)
  then show ?case using Suc by (auto simp: bit_or_iff less_Suc_eq)
qed simp

lemma byte_back: "BitToByte (ByteToBit ch) = ch"
  by (rule bit_word_eqI) (simp add: BitToByte_def packed_bits ByteToBit_def)

lemma bits_back: "length bs = 8 \<Longrightarrow> ByteToBit (BitToByte bs) = bs"
  by (rule nth_equalityI) (simp_all add: ByteToBit_def BitToByte_def packed_bits)

lemma block_bits: "length bs = 8 * n \<Longrightarrow> Char8ToBit64 (map (\<lambda>cnt. BitToByte (take 8 (drop (cnt * 8) bs))) [0..<n]) = bs"
proof (induction n arbitrary: bs)
  case (Suc n)
  have "map (\<lambda>cnt. BitToByte (take 8 (drop (cnt * 8) bs))) [0..<Suc n] =
    BitToByte (take 8 bs) # map (\<lambda>cnt. BitToByte (take 8 (drop (cnt * 8) (drop 8 bs)))) [0..<n]"
    by (simp add: upt_conv_Cons map_Suc_upt [symmetric] comp_def add.commute del: upt_Suc)
  then show ?case using Suc.IH [of "drop 8 bs"] Suc.prems by (simp add: Char8ToBit64_def bits_back)
qed (simp add: Char8ToBit64_def)

lemma char8_length [simp]: "length (Char8ToBit64 ch) = 8 * length ch"
  by (induction ch) (simp_all add: Char8ToBit64_def)

lemma block_back: "Bit64ToChar8 (Char8ToBit64 ch) = ch" if "length ch = 8"
proof -
  have "map (\<lambda>cnt. BitToByte (take 8 (drop (cnt * 8) (Char8ToBit64 ch)))) [0..<length ch] = ch"
  proof (induction ch)
    case (Cons c ch)
    have "Char8ToBit64 (c # ch) = ByteToBit c @ Char8ToBit64 ch" by (simp add: Char8ToBit64_def)
    then show ?case using Cons
      by (simp add: upt_conv_Cons map_Suc_upt [symmetric] comp_def add.commute byte_back del: upt_Suc)
  qed simp
  then show ?thesis by (simp add: Bit64ToChar8_def that)
qed

lemma block_of_bits: "length bs = 64 \<Longrightarrow> Char8ToBit64 (Bit64ToChar8 bs) = bs"
  unfolding Bit64ToChar8_def by (rule block_bits) simp

lemma block_length [simp]: "length (Bit64ToChar8 bs) = 8"
  by (simp add: Bit64ToChar8_def)

section \<open>The rounds are undone in reverse\<close>

lemma xor_length [simp]: "length (DES_XOR a b) = min (length a) (length b)"
  by (simp add: DES_XOR_def)

lemma xor_twice: "length a \<le> length b \<Longrightarrow> DES_XOR (DES_XOR a b) b = a"
  by (rule nth_equalityI) (auto simp: DES_XOR_def)

lemma function_length [simp]: "length (round_function key right) = 32"
proof -
  have "length DES_P_Table = 32" by code_simp
  then show ?thesis by (simp add: round_function_def DES_P_Transform_def permute_def)
qed

lemma half_round_length [simp]: "length bs = 64 \<Longrightarrow> length (half_round key bs) = 64"
  by (simp add: half_round_def)

lemma half_round_twice: "length bs = 64 \<Longrightarrow> half_round key (half_round key bs) = bs"
  by (simp add: half_round_def xor_twice)

lemma swap_length [simp]: "length bs = 64 \<Longrightarrow> length (DES_SWAP bs) = 64"
  by (simp add: DES_SWAP_def)

lemma swap_twice: "length bs = 64 \<Longrightarrow> DES_SWAP (DES_SWAP bs) = bs"
  by (simp add: DES_SWAP_def)

lemma rounds_length [simp]: "length bs = 64 \<Longrightarrow> length (des_rounds keys bs) = 64"
  by (induction keys bs rule: des_rounds.induct) simp_all

lemma rounds_snoc: "keys \<noteq> [] \<Longrightarrow> des_rounds (keys @ [key]) bs = half_round key (DES_SWAP (des_rounds keys bs))"
  by (induction keys bs rule: des_rounds.induct) (auto simp: neq_Nil_conv)

lemma rounds_undone: "length bs = 64 \<Longrightarrow> des_rounds (rev keys) (des_rounds keys bs) = bs"
proof (induction keys arbitrary: bs)
  case (Cons key keys)
  show ?case
  proof (cases "keys = []")
    case True
    then show ?thesis using Cons.prems by (simp add: half_round_twice)
  next
    case False
    then have f: "des_rounds (key # keys) bs = des_rounds keys (DES_SWAP (half_round key bs))" by (auto simp: neq_Nil_conv)
    have "des_rounds (rev (key # keys)) (des_rounds (key # keys) bs) =
      half_round key (DES_SWAP (des_rounds (rev keys) (des_rounds keys (DES_SWAP (half_round key bs)))))"
      unfolding f using False by (simp add: rounds_snoc)
    also have "\<dots> = bs" using Cons.prems by (simp add: Cons.IH swap_twice half_round_twice)
    finally show ?thesis .
  qed
qed simp

lemma block_roundtrip:
  assumes "length b = 8"
  shows "des_decryptBlock keys (des_encryptBlock keys b) = b"
  using assms by (simp add: des_encryptBlock_def des_decryptBlock_def block_of_bits ip_inverse rounds_undone block_back)

lemma encrypted_length [simp]: "length (des_encryptBlock keys b) = 8"
  by (simp add: des_encryptBlock_def)

lemma loop_roundtrip:
  "length input = 8 * n \<Longrightarrow> length (block_loop (des_encryptBlock keys) n input) = 8 * n \<and>
   block_loop (des_decryptBlock keys) n (block_loop (des_encryptBlock keys) n input) = input"
  by (induction n arbitrary: input) (simp_all add: block_roundtrip)

text \<open>C35: A text of whole blocks is given back by \<open>des_decrypt\<close> from what \<open>des_encrypt\<close> makes of it, under
  every key and under the built-in one; the encrypted text has the same length. Both return the length
  cast to an \<open>int\<close>: the length itself below 2 GiB, and a wrong number from there on.\<close>

theorem des_roundtrip:
  assumes "input \<noteq> []" "length input mod 8 = 0"
  shows "\<exists>output. des_encrypt key input = (to_int32 (int (length input)), output) \<and> length output = length input \<and>
    des_decrypt key output = (to_int32 (int (length input)), input) \<and>
    (to_int32 (int (length input)) = int (length input) \<longleftrightarrow> length input < 2 ^ 31)"
proof -
  let ?n = "length input div 8" and ?k = "key_schedule key"
  let ?o = "block_loop (des_encryptBlock ?k) ?n input"
  have l: "length input = 8 * ?n" using assms(2) by auto
  from loop_roundtrip [OF this, of ?k] have o: "length ?o = length input" "block_loop (des_decryptBlock ?k) ?n ?o = input" using l by simp_all
  have "?o \<noteq> []" using o(1) assms(1) by auto
  moreover have "to_int32 (int (length input)) = int (length input) \<longleftrightarrow> length input < 2 ^ 31"
    using to_int32_id [of "int (length input)"] to_int32_range [of "int (length input)"] by auto
  ultimately show ?thesis using assms o by (simp add: des_encrypt_def des_decrypt_def)
qed

theorem des_roundtrip_witness:
  "\<exists>output. des_encrypt None [1, 2, 3, 4, 5, 6, 7, 8] = (8, output) \<and> length output = length [1, 2, 3, 4, 5, 6, 7, 8 :: byte] \<and>
     des_decrypt None output = (8, [1, 2, 3, 4, 5, 6, 7, 8])"
  using des_roundtrip [of "[1, 2, 3, 4, 5, 6, 7, 8]" None] by simp

end
