(* ===== verification/Md5.thy ===== *)
theory Md5
  imports Prelude "HOL-Library.Word"
begin

unbundle bit_operations_syntax

text \<open>
  The MD5 digest of the framework (\<^verbatim>\<open>naxfw/src/hash.c\<close>), which takes its text in pieces. The theory
  shows that the pieces do not matter: the digest is the one of the padded text cut into blocks, also
  when the 64-bit counter of bits, kept in two words, carries.
\<close>

section \<open>The compression of a block\<close>

definition md5_F :: "32 word \<Rightarrow> 32 word \<Rightarrow> 32 word \<Rightarrow> 32 word" where "md5_F x y z = (x AND y) OR (NOT x AND z)"
definition md5_G :: "32 word \<Rightarrow> 32 word \<Rightarrow> 32 word \<Rightarrow> 32 word" where "md5_G x y z = (x AND z) OR (y AND NOT z)"
definition md5_H :: "32 word \<Rightarrow> 32 word \<Rightarrow> 32 word \<Rightarrow> 32 word" where "md5_H x y z = x XOR y XOR z"
definition md5_I :: "32 word \<Rightarrow> 32 word \<Rightarrow> 32 word \<Rightarrow> 32 word" where "md5_I x y z = y XOR (x OR NOT z)"

definition ROTATE_LEFT :: "32 word \<Rightarrow> nat \<Rightarrow> 32 word" where
  "ROTATE_LEFT x n = push_bit n x OR drop_bit (32 - n) x"

type_synonym md5_state = "32 word \<times> 32 word \<times> 32 word \<times> 32 word"

text \<open>One line of a round. The next line names the registers shifted by one, so they rotate here.\<close>

fun md5_line :: "(32 word \<Rightarrow> 32 word \<Rightarrow> 32 word \<Rightarrow> 32 word) \<Rightarrow> 32 word list \<Rightarrow> nat \<times> nat \<times> 32 word \<Rightarrow> md5_state \<Rightarrow> md5_state" where
  "md5_line f x (i, s, ac) (a, b, c, d) = (d, ROTATE_LEFT (a + (f b c d + x ! i + ac)) s + b, b, c)"

definition round1 :: "(nat \<times> nat \<times> 32 word) list" where
  "round1 =
     [(0, 7, 0xd76aa478), (1, 12, 0xe8c7b756), (2, 17, 0x242070db), (3, 22, 0xc1bdceee),
      (4, 7, 0xf57c0faf), (5, 12, 0x4787c62a), (6, 17, 0xa8304613), (7, 22, 0xfd469501),
      (8, 7, 0x698098d8), (9, 12, 0x8b44f7af), (10, 17, 0xffff5bb1), (11, 22, 0x895cd7be),
      (12, 7, 0x6b901122), (13, 12, 0xfd987193), (14, 17, 0xa679438e), (15, 22, 0x49b40821)]"

definition round2 :: "(nat \<times> nat \<times> 32 word) list" where
  "round2 =
     [(1, 5, 0xf61e2562), (6, 9, 0xc040b340), (11, 14, 0x265e5a51), (0, 20, 0xe9b6c7aa),
      (5, 5, 0xd62f105d), (10, 9, 0x2441453), (15, 14, 0xd8a1e681), (4, 20, 0xe7d3fbc8),
      (9, 5, 0x21e1cde6), (14, 9, 0xc33707d6), (3, 14, 0xf4d50d87), (8, 20, 0x455a14ed),
      (13, 5, 0xa9e3e905), (2, 9, 0xfcefa3f8), (7, 14, 0x676f02d9), (12, 20, 0x8d2a4c8a)]"

definition round3 :: "(nat \<times> nat \<times> 32 word) list" where
  "round3 =
     [(5, 4, 0xfffa3942), (8, 11, 0x8771f681), (11, 16, 0x6d9d6122), (14, 23, 0xfde5380c),
      (1, 4, 0xa4beea44), (4, 11, 0x4bdecfa9), (7, 16, 0xf6bb4b60), (10, 23, 0xbebfbc70),
      (13, 4, 0x289b7ec6), (0, 11, 0xeaa127fa), (3, 16, 0xd4ef3085), (6, 23, 0x4881d05),
      (9, 4, 0xd9d4d039), (12, 11, 0xe6db99e5), (15, 16, 0x1fa27cf8), (2, 23, 0xc4ac5665)]"

definition round4 :: "(nat \<times> nat \<times> 32 word) list" where
  "round4 =
     [(0, 6, 0xf4292244), (7, 10, 0x432aff97), (14, 15, 0xab9423a7), (5, 21, 0xfc93a039),
      (12, 6, 0x655b59c3), (3, 10, 0x8f0ccc92), (10, 15, 0xffeff47d), (1, 21, 0x85845dd1),
      (8, 6, 0x6fa87e4f), (15, 10, 0xfe2ce6e0), (6, 15, 0xa3014314), (13, 21, 0x4e0811a1),
      (4, 6, 0xf7537e82), (11, 10, 0xbd3af235), (2, 15, 0x2ad7d2bb), (9, 21, 0xeb86d391)]"

definition md5_decode :: "byte list \<Rightarrow> 32 word list" where
  "md5_decode input =
     map (\<lambda>i. ucast (input ! (4 * i)) OR push_bit 8 (ucast (input ! (4 * i + 1))) OR
              push_bit 16 (ucast (input ! (4 * i + 2))) OR push_bit 24 (ucast (input ! (4 * i + 3)))) [0..<16]"

definition md5_transform :: "md5_state \<Rightarrow> byte list \<Rightarrow> md5_state" where
  "md5_transform state block =
     (let x = md5_decode block;
          regs = fold (md5_line md5_I x) round4 (fold (md5_line md5_H x) round3
                   (fold (md5_line md5_G x) round2 (fold (md5_line md5_F x) round1 state)))
      in case state of (s0, s1, s2, s3) \<Rightarrow> case regs of (a, b, c, d) \<Rightarrow> (s0 + a, s1 + b, s2 + c, s3 + d))"

section \<open>The context\<close>

record md5ctx =
  md5_regs :: md5_state
  count0 :: "32 word"
  count1 :: "32 word"
  md5_buffer :: "byte list"

definition PADDING :: "byte list" where "PADDING = 0x80 # replicate 63 0"

definition md5_iv :: md5_state where "md5_iv = (0x67452301, 0xefcdab89, 0x98badcfe, 0x10325476)"

text \<open>\<open>md5_init\<close> leaves the buffer as it is.\<close>

definition md5_init :: "byte list \<Rightarrow> md5ctx" where
  "md5_init garbage = \<lparr>md5_regs = md5_iv, count0 = 0, count1 = 0, md5_buffer = garbage\<rparr>"

definition md5_index :: "md5ctx \<Rightarrow> nat" where
  "md5_index ctx = unat (drop_bit 3 (count0 ctx) AND 0x3F)"

text \<open>The loop over the whole blocks of the input, with what is left.\<close>

function md5_blocks :: "md5_state \<Rightarrow> byte list \<Rightarrow> md5_state \<times> byte list" where
  "md5_blocks st input = (if 64 \<le> length input then md5_blocks (md5_transform st (take 64 input)) (drop 64 input) else (st, input))"
  by auto
termination md5_blocks by (relation "measure (length \<circ> snd)") auto

declare md5_blocks.simps [simp del]

definition count_up :: "nat \<Rightarrow> md5ctx \<Rightarrow> md5ctx" where
  "count_up n ctx =
     (let len = word_of_nat n; c0 = count0 ctx + push_bit 3 len;
          c1 = (if c0 < push_bit 3 len then count1 ctx + 1 else count1 ctx)
      in ctx\<lparr>count0 := c0, count1 := c1 + drop_bit 29 len\<rparr>)"

definition md5_update :: "md5ctx \<Rightarrow> byte list \<Rightarrow> md5ctx" where
  "md5_update ctx input =
     (let index = md5_index ctx; ctx1 = count_up (length input) ctx; partLen = 64 - index
      in if length input \<ge> partLen then
           (let block = store_at index (take partLen input) (md5_buffer ctx1);
                (st, rest) = md5_blocks (md5_transform (md5_regs ctx1) block) (drop partLen input)
            in ctx1\<lparr>md5_regs := st, md5_buffer := store_at 0 rest block\<rparr>)
         else ctx1\<lparr>md5_buffer := store_at index input (md5_buffer ctx1)\<rparr>)"

definition md5_encode :: "32 word list \<Rightarrow> byte list" where
  "md5_encode input = concat (map (\<lambda>w. map (\<lambda>k. ucast (drop_bit (8 * k) w AND 0xff)) [0..<4]) input)"

definition md5_final :: "md5ctx \<Rightarrow> byte list" where
  "md5_final ctx =
     (let bits = md5_encode [count0 ctx, count1 ctx]; index = md5_index ctx;
          padLen = (if index < 56 then 56 - index else 120 - index);
          ctx2 = md5_update (md5_update ctx (take padLen PADDING)) bits
      in case md5_regs ctx2 of (a, b, c, d) \<Rightarrow> md5_encode [a, b, c, d])"


section \<open>The pieces do not matter\<close>

lemma blocks_short: "length x < 64 \<Longrightarrow> md5_blocks st x = (st, x)"
  by (simp add: md5_blocks.simps)

lemma blocks_one: "length b = 64 \<Longrightarrow> md5_blocks st (b @ x) = md5_blocks (md5_transform st b) x"
  by (simp add: md5_blocks.simps [of st "b @ x"])

lemma blocks_rest: "length (snd (md5_blocks st x)) = length x mod 64"
proof (induction st x rule: md5_blocks.induct)
  case (1 st x)
  then show ?case by (cases "64 \<le> length x") (simp_all add: md5_blocks.simps [of st x] le_mod_geq)
qed

lemma blocks_append: "md5_blocks st (x @ y) = md5_blocks (fst (md5_blocks st x)) (snd (md5_blocks st x) @ y)"
proof (induction st x rule: md5_blocks.induct)
  case (1 st x)
  then show ?case
    by (cases "64 \<le> length x") (simp_all add: md5_blocks.simps [of st "x @ y"] md5_blocks.simps [of st x])
qed

definition md5_ok :: "md5ctx \<Rightarrow> byte list \<Rightarrow> bool" where
  "md5_ok ctx m \<longleftrightarrow> length (md5_buffer ctx) = 64 \<and> md5_regs ctx = fst (md5_blocks md5_iv m) \<and>
     take (length m mod 64) (md5_buffer ctx) = snd (md5_blocks md5_iv m) \<and>
     count0 ctx = word_of_nat (8 * length m) \<and> count1 ctx = word_of_nat (8 * length m div 2 ^ 32)"

lemma index_ok: "md5_ok ctx m \<Longrightarrow> md5_index ctx = length m mod 64"
proof -
  assume "md5_ok ctx m"
  then have c: "count0 ctx = word_of_nat (8 * length m)" by (simp add: md5_ok_def)
  have m: "(0x3F :: 32 word) = mask 6" by (simp add: mask_eq_exp_minus_1)
  have "md5_index ctx = take_bit 6 (drop_bit 3 (take_bit 32 (8 * length m)))"
    by (simp add: md5_index_def m c unsigned_take_bit_eq unsigned_drop_bit_eq unsigned_of_nat del: of_nat_mult flip: take_bit_eq_mask)
  also have "\<dots> = take_bit 6 (drop_bit 3 (8 * length m))"
    by (rule bit_eqI) (auto simp: bit_simps)
  also have "drop_bit 3 (8 * length m) = length m" by (simp add: drop_bit_eq_div)
  finally show ?thesis by (simp add: take_bit_eq_mod)
qed

lemma carry_digit:
  fixes x y M :: nat
  assumes "x < M" "y < M"
  shows "(x + y) div M = (if (x + y) mod M < y then 1 else 0)"
proof (cases "x + y < M")
  case True
  then show ?thesis by simp
next
  case False
  then have "(x + y) div M = 1" using assms by (intro div_nat_eqI) auto
  moreover have "(x + y) mod M = x + y - M" using False assms by (simp add: mod_if)
  ultimately show ?thesis using assms False by simp
qed

lemma carry:
  fixes a b :: nat
  shows "(a + b) div 2 ^ 32 = a div 2 ^ 32 + b div 2 ^ 32 + (if (a + b) mod 2 ^ 32 < b mod 2 ^ 32 then 1 else 0)"
  unfolding div_add1_eq [of a b "2 ^ 32"] by (subst carry_digit) (simp_all add: mod_add_eq)

lemma count_ok:
  assumes "count0 ctx = word_of_nat (8 * k)" "count1 ctx = word_of_nat (8 * k div 2 ^ 32)" "n < 2 ^ 32"
  shows "count0 (count_up n ctx) = word_of_nat (8 * (k + n)) \<and> count1 (count_up n ctx) = word_of_nat (8 * (k + n) div 2 ^ 32)"
proof -
  let ?s = "push_bit 3 (word_of_nat n) :: 32 word"
  have s: "?s = word_of_nat (8 * n)" by (simp add: push_bit_eq_mult)
  have c0: "count0 ctx + word_of_nat (8 * n) = word_of_nat (8 * k + 8 * n)" by (simp add: assms(1))
  have lt: "count0 ctx + ?s < ?s \<longleftrightarrow> (8 * k + 8 * n) mod 2 ^ 32 < 8 * n mod 2 ^ 32"
    unfolding s c0 word_less_nat_alt by (simp add: unsigned_of_nat take_bit_eq_mod del: of_nat_add of_nat_mult)
  have "unat (drop_bit 29 (word_of_nat n :: 32 word)) = n div 2 ^ 29" using assms(3)
    unfolding unsigned_drop_bit_eq unsigned_of_nat by (simp add: take_bit_eq_mod drop_bit_eq_div)
  moreover have "n div 2 ^ 29 = 8 * n div 2 ^ 32" using div_mult_mult1 [of 8 n "2 ^ 29"] by simp
  moreover have "word_of_nat (unat (drop_bit 29 (word_of_nat n :: 32 word))) = (drop_bit 29 (word_of_nat n) :: 32 word)" by simp
  ultimately have d: "(drop_bit 29 (word_of_nat n) :: 32 word) = word_of_nat (8 * n div 2 ^ 32)" by (simp only:)
  show ?thesis using carry [of "8 * k" "8 * n"] lt
    by (simp add: count_up_def Let_def s c0 assms(2) d distrib_left del: of_nat_mult)
qed

lemma update_ok:
  assumes "md5_ok ctx m" "length input < 2 ^ 32"
  shows "md5_ok (md5_update ctx input) (m @ input)"
proof -
  let ?i = "length m mod 64" and ?c = "count_up (length input) ctx"
  let ?r = "snd (md5_blocks md5_iv m)" and ?st = "fst (md5_blocks md5_iv m)"
  have ok: "length (md5_buffer ctx) = 64" "md5_regs ctx = ?st" "take ?i (md5_buffer ctx) = ?r" using assms(1) by (simp_all add: md5_ok_def)
  have c: "md5_buffer ?c = md5_buffer ctx" "md5_regs ?c = md5_regs ctx" by (simp_all add: count_up_def Let_def)
  have i: "md5_index ctx = ?i" "?i < 64" "length ?r = ?i" using index_ok [OF assms(1)] by (simp_all add: blocks_rest)
  have count: "count0 ?c = word_of_nat (8 * length (m @ input))" "count1 ?c = word_of_nat (8 * length (m @ input) div 2 ^ 32)"
    using count_ok [of ctx "length m" "length input"] assms by (simp_all only: md5_ok_def length_append)
  have app: "md5_blocks md5_iv (m @ input) = md5_blocks ?st (?r @ input)" by (rule blocks_append)
  show ?thesis
  proof (cases "64 - ?i \<le> length input")
    case True
    let ?block = "store_at ?i (take (64 - ?i) input) (md5_buffer ctx)"
    have b: "?block = ?r @ take (64 - ?i) input" using True ok i(2) by (simp add: store_at_def)
    then have lb: "length ?block = 64" using True i by simp
    obtain st rest where sr: "md5_blocks (md5_transform ?st ?block) (drop (64 - ?i) input) = (st, rest)" by fastforce
    have all: "md5_blocks md5_iv (m @ input) = (st, rest)"
    proof -
      have "?r @ input = ?block @ drop (64 - ?i) input" unfolding b by simp
      then show ?thesis unfolding app by (simp only: blocks_one [OF lb] sr)
    qed
    have lr: "length rest = length (m @ input) mod 64" using blocks_rest [of md5_iv "m @ input"] all by simp
    have u: "md5_update ctx input = ?c\<lparr>md5_regs := st, md5_buffer := store_at 0 rest ?block\<rparr>"
      using True by (simp add: md5_update_def Let_def i(1) c ok(2) sr)
    have "take (length rest) (store_at 0 rest ?block) = rest" by (simp add: store_at_def)
    moreover have "length (store_at 0 rest ?block) = 64" using lb lr by (simp add: store_length)
    ultimately show ?thesis using all lr count by (simp add: md5_ok_def u del: length_append of_nat_mult)
  next
    case False
    have u: "md5_update ctx input = ?c\<lparr>md5_buffer := store_at ?i input (md5_buffer ctx)\<rparr>"
      using False by (simp add: md5_update_def Let_def i(1) c)
    have all: "md5_blocks md5_iv (m @ input) = (?st, ?r @ input)" unfolding app by (rule blocks_short) (use False i in simp)
    then have lr: "?i + length input = length (m @ input) mod 64" using blocks_rest [of md5_iv "m @ input"] i(3) by simp
    have "take (?i + length input) (store_at ?i input (md5_buffer ctx)) = ?r @ input"
      using False ok i(2,3) by (simp add: store_at_def)
    moreover have "length (store_at ?i input (md5_buffer ctx)) = 64" using False ok(1) i(2) by (simp add: store_length)
    ultimately show ?thesis using all lr count c(2) ok(2) by (simp add: md5_ok_def u del: length_append of_nat_mult)
  qed
qed

text \<open>The reference: the text, a one bit, zeros to 56 bytes, the length in bits; then block by block.\<close>

definition md5_pad :: "byte list \<Rightarrow> byte list" where
  "md5_pad m =
     m @ [0x80] @ replicate ((119 - length m mod 64) mod 64) 0 @
     md5_encode [word_of_nat (8 * length m), word_of_nat (8 * length m div 2 ^ 32)]"

definition md5_reference :: "byte list \<Rightarrow> byte list" where
  "md5_reference m = (case fst (md5_blocks md5_iv (md5_pad m)) of (a, b, c, d) \<Rightarrow> md5_encode [a, b, c, d])"

lemma encode_length_4: "length (md5_encode ws) = 4 * length ws"
  by (induction ws) (simp_all add: md5_encode_def)

lemma pad_zeros: "i < 64 \<Longrightarrow> (119 - i) mod 64 = (if i < 56 then 55 - i else 119 - i)" for i :: nat
proof (cases "i < 56")
  case True
  then have "119 - i = (55 - i) + 64" by simp
  then have "(119 - i) mod 64 = (55 - i) mod 64" by (simp only: mod_add_self2)
  also have "\<dots> = 55 - i" by (rule mod_less) simp
  finally show ?thesis using True by simp
next
  case False
  assume "i < 64"
  then have "(119 - i) mod 64 = 119 - i" by (intro mod_less) (use False in linarith)
  then show ?thesis using False by simp
qed

lemma pad_length:
  fixes i :: nat
  assumes "i < 64"
  shows "(if i < 56 then 56 - i else 120 - i) = Suc ((119 - i) mod 64)"
  unfolding pad_zeros [OF assms] using assms by (cases "i < 56") simp_all

lemma padding_take:
  assumes "i < 64"
  shows "take (if i < 56 then 56 - i else 120 - i) PADDING = [0x80] @ replicate ((119 - i) mod 64) 0"
proof -
  have "(119 - i) mod 64 \<le> 63" using mod_less_divisor [of 64 "119 - i"] by linarith
  then show ?thesis unfolding pad_length [OF assms] PADDING_def by (simp only: take_Suc_Cons take_replicate min.absorb1 append.simps)
qed

lemma padded_whole: "length (md5_pad m) mod 64 = 0"
proof -
  have *: "(i + (1 + ((119 - i) mod 64 + 8))) mod 64 = 0" if "i < 64" for i :: nat
  proof -
    have "i + (1 + ((119 - i) mod 64 + 8)) = (if i < 56 then 64 else 128)" unfolding pad_zeros [OF that] using that by auto
    then show ?thesis by simp
  qed
  have "(n + (1 + ((119 - n mod 64) mod 64 + 8))) mod 64 = 0" for n :: nat
    using * [of "n mod 64"] by (simp only: mod_add_left_eq mod_less_divisor zero_less_numeral)
  then show ?thesis by (simp add: md5_pad_def encode_length_4)
qed

lemma final_ok:
  assumes "md5_ok ctx m"
  shows "md5_final ctx = md5_reference m"
proof -
  let ?i = "length m mod 64"
  define padLen where "padLen = (if ?i < 56 then 56 - ?i else 120 - ?i)"
  have i: "md5_index ctx = ?i" "?i < 64" using index_ok [OF assms] by simp_all
  have p: "take padLen PADDING = [0x80] @ replicate ((119 - ?i) mod 64) 0" unfolding padLen_def by (rule padding_take [OF i(2)])
  let ?bits = "md5_encode [count0 ctx, count1 ctx]"
  have bits: "?bits = md5_encode [word_of_nat (8 * length m), word_of_nat (8 * length m div 2 ^ 32)]"
    using assms by (simp only: md5_ok_def)
  have "length (take padLen PADDING) < 2 ^ 32" by (simp add: PADDING_def)
  from update_ok [OF assms this] have "md5_ok (md5_update ctx (take padLen PADDING)) (m @ take padLen PADDING)" .
  from update_ok [OF this, of ?bits]
  have "md5_ok (md5_update (md5_update ctx (take padLen PADDING)) ?bits) (md5_pad m)"
    by (simp add: encode_length_4 md5_pad_def p bits)
  then have "md5_regs (md5_update (md5_update ctx (take padLen PADDING)) ?bits) = fst (md5_blocks md5_iv (md5_pad m))" by (simp add: md5_ok_def)
  then show ?thesis unfolding md5_final_def md5_reference_def Let_def i(1) padLen_def [symmetric] by simp
qed

lemma updates_ok: "md5_ok ctx m \<Longrightarrow> list_all (\<lambda>p. length p < 2 ^ 32) pieces \<Longrightarrow> md5_ok (foldl md5_update ctx pieces) (m @ concat pieces)"
proof (induction pieces arbitrary: ctx m)
  case (Cons p pieces)
  then show ?case using Cons.IH [of "md5_update ctx p" "m @ p"] update_ok [of ctx m p] by simp
qed simp

text \<open>C34: However a text is cut into pieces, \<open>md5_init\<close>, an \<open>md5_update\<close> for each piece and \<open>md5_final\<close>
  give the digest of the whole: the padded text compressed block by block. (A piece
  may have up to 2^32 - 64 bytes; beyond that the index of the code wraps around.)\<close>

theorem md5_pieces:
  assumes "length garbage = 64" "list_all (\<lambda>p. length p \<le> 2 ^ 32 - 64) pieces"
  shows "md5_final (foldl md5_update (md5_init garbage) pieces) = md5_reference (concat pieces)"
proof -
  have "md5_ok (md5_init garbage) []" using assms(1) by (simp add: md5_ok_def md5_init_def blocks_short)
  moreover have "list_all (\<lambda>p. length p < 2 ^ 32) pieces" using assms(2) by (auto simp: list_all_iff)
  ultimately show ?thesis using updates_ok final_ok by fastforce
qed

theorem md5_pieces_witness:
  "md5_final (foldl md5_update (md5_init (replicate 64 0)) [[97], [], [98, 99]]) = md5_reference (concat [[97], [], [98, 99]])"
  by (rule md5_pieces) simp_all

end
