(* ===== verification/Naos.thy ===== *)
theory Naos
  imports Prelude "HOL-Library.Word"
begin

unbundle bit_operations_syntax

text \<open>
  Addresses, byte orders and strings of the framework (\<^verbatim>\<open>naxfw/src/naos.c\<close>, \<^verbatim>\<open>naxfw/src/rtlstr.c\<close>,
  \<^verbatim>\<open>naxfw/src/refs.c\<close>). A C string is the list of its characters before the terminator.
\<close>

section \<open>Byte orders\<close>

definition naos_chord32 :: "32 word \<Rightarrow> 32 word" where
  "naos_chord32 value =
     foldl (\<lambda>dst i. push_bit (if i < 3 then 8 else 0) (dst OR (drop_bit (i * 8) value AND 0xFF))) 0 [0..<4]"

definition naos_chord16 :: "16 word \<Rightarrow> 16 word" where
  "naos_chord16 value =
     foldl (\<lambda>dst i. push_bit (if i < 1 then 8 else 0) (dst OR (drop_bit (i * 8) value AND 0xFF))) 0 [0..<2]"

section \<open>Addresses in dotted notation\<close>

text \<open>\<open>abuff_sprintf\<close> into 16 bytes passes 15 as the size: at most 14 characters are kept.\<close>

definition naos_ipv4tos :: "32 word \<Rightarrow> string" where
  "naos_ipv4tos inet =
     take 14 (joins ''.'' (map (\<lambda>k. show_nat (unat (drop_bit (8 * k) inet AND 0xFF))) [3, 2, 1, 0]))"

text \<open>
  The scanner: the number of characters read, the number of the segment and its digits. The code's
  test for an empty segment compares the address of the array with 0 and is never true.
\<close>

definition INET_ADDRSTRLEN :: nat where "INET_ADDRSTRLEN = 16"

fun legal_loop :: "string \<Rightarrow> nat \<Rightarrow> nat \<Rightarrow> string \<Rightarrow> bool" where
  "legal_loop [] i k segm = (k = 3 \<and> segm \<noteq> [] \<and> atoi segm \<le> 255)"
| "legal_loop (c # cs) i k segm =
     (if i = INET_ADDRSTRLEN - 1 \<or> k > 3 then False
      else if c = CHR ''.'' then (if atoi segm > 255 then False else legal_loop cs (i + 1) (k + 1) [])
      else if isdigit c then (if length segm \<ge> 3 then False else legal_loop cs (i + 1) k (segm @ [c]))
      else False)"

definition naos_is_legal_ipv4 :: "string \<Rightarrow> bool" where
  "naos_is_legal_ipv4 inetstr = legal_loop inetstr 0 0 []"

text \<open>\<open>strtok\<close> on dots passes over empty segments.\<close>

definition strtok_dots :: "string \<Rightarrow> string list" where
  "strtok_dots s = filter (\<lambda>p. p \<noteq> []) (splitc (CHR ''.'') s)"

datatype byte_order_t = kByteOrder_LittleEndian | kByteOrder_BigEndian

fun bit_mov :: "byte_order_t \<Rightarrow> nat list" where
  "bit_mov kByteOrder_LittleEndian = [24, 16, 8, 0]"
| "bit_mov kByteOrder_BigEndian = [0, 8, 16, 24]"

definition naos_ipv4tou :: "string \<Rightarrow> byte_order_t \<Rightarrow> 32 word" where
  "naos_ipv4tou inetstr method =
     (if \<not> naos_is_legal_ipv4 inetstr then 0
      else ucast (foldl (\<lambda>digital (p, m). digital OR push_bit m (word_of_nat (digits_val 0 p)) :: 64 word) 0
             (zip (take 4 (strtok_dots inetstr)) (bit_mov method))))"

section \<open>Strings\<close>

text \<open>Characters are signed.\<close>

definition schar :: "char \<Rightarrow> int" where
  "schar c = (if of_char c < (128 :: int) then of_char c else of_char c - 256)"

text \<open>What the comparisons return where a string has ended or both go on.\<close>

definition at_end :: "string \<Rightarrow> int" where
  "at_end s = (case s of [] \<Rightarrow> 0 | c # _ \<Rightarrow> schar c)"

definition last_compare :: "string \<Rightarrow> string \<Rightarrow> int" where
  "last_compare s1 s2 = (if at_end s1 < at_end s2 then -1 else if at_end s1 > at_end s2 then 1 else 0)"

fun rtl_strcmp :: "string \<Rightarrow> string \<Rightarrow> int" where
  "rtl_strcmp (a # s1) (b # s2) =
     (if schar a < schar b then -1 else if schar a > schar b then 1 else rtl_strcmp s1 s2)"
| "rtl_strcmp s1 s2 = last_compare s1 s2"

fun rtl_strncmp :: "string \<Rightarrow> string \<Rightarrow> nat \<Rightarrow> int" where
  "rtl_strncmp (a # s1) (b # s2) (Suc n) =
     (if schar a < schar b then -1 else if schar a > schar b then 1 else rtl_strncmp s1 s2 n)"
| "rtl_strncmp s1 s2 n = last_compare s1 s2"

definition rtl_lower :: "char \<Rightarrow> int" where
  "rtl_lower c = (if schar (CHR ''A'') \<le> schar c \<and> schar c \<le> schar (CHR ''Z'') then schar c + 0x20 else schar c)"

fun rtl_strcasecmp :: "string \<Rightarrow> string \<Rightarrow> int" where
  "rtl_strcasecmp (a # s1) (b # s2) =
     (if rtl_lower a < rtl_lower b then -1 else if rtl_lower a > rtl_lower b then 1 else rtl_strcasecmp s1 s2)"
| "rtl_strcasecmp s1 s2 = last_compare s1 s2"

fun rtl_strncasecmp :: "string \<Rightarrow> string \<Rightarrow> nat \<Rightarrow> int" where
  "rtl_strncasecmp (a # s1) (b # s2) (Suc n) =
     (if rtl_lower a < rtl_lower b then -1 else if rtl_lower a > rtl_lower b then 1 else rtl_strncasecmp s1 s2 n)"
| "rtl_strncasecmp s1 s2 n = 0"

text \<open>\<open>rtl_strcpy\<close> writes the string and its terminator; \<open>rtl_strncpy\<close> exactly \<open>n\<close> characters.\<close>

definition rtl_strcpy :: "string \<Rightarrow> string" where
  "rtl_strcpy src = src @ [NUL]"

definition rtl_strncpy :: "string \<Rightarrow> nat \<Rightarrow> string" where
  "rtl_strncpy src n = take n src @ replicate (n - length src) NUL"

text \<open>The duplicates: the bytes allocated and the bytes written to them.\<close>

definition rtl_strdup :: "string \<Rightarrow> nat \<times> string" where
  "rtl_strdup s = (length s + 1, rtl_strcpy s)"

definition rtl_strndup :: "string \<Rightarrow> nat \<Rightarrow> nat \<times> string" where
  "rtl_strndup s n = ((if length s > n then n else length s) + 1, rtl_strcpy s)"

text \<open>\<open>rtl_memcpy\<close> copies words of eight bytes while more than eight are left, then bytes.\<close>

function rtl_memcpy :: "byte list \<Rightarrow> byte list" where
  "rtl_memcpy src = (if length src > 8 then take 8 src @ rtl_memcpy (drop 8 src) else src)"
  by auto
termination rtl_memcpy by (relation "measure length") auto

declare rtl_memcpy.simps [simp del]

section \<open>References\<close>

definition REF_STATUS_NORMAL :: nat where "REF_STATUS_NORMAL = 0"
definition REF_STATUS_CLOSEWAIT :: nat where "REF_STATUS_CLOSEWAIT = 1"
definition REF_STATUS_CLOSED :: nat where "REF_STATUS_CLOSED = 2"

text \<open>A counter with its state; \<open>closings\<close> counts the calls of \<open>on_closed\<close>.\<close>

record refs =
  ref_count :: int
  ref_status :: nat
  closings :: nat

definition ref_init :: refs where
  "ref_init = \<lparr>ref_count = 0, ref_status = REF_STATUS_NORMAL, closings = 0\<rparr>"

definition ref_retain :: "refs \<Rightarrow> int \<times> refs" where
  "ref_retain r =
     (if ref_status r \<noteq> REF_STATUS_NORMAL then (-1, r) else (ref_count r + 1, r\<lparr>ref_count := ref_count r + 1\<rparr>))"

definition ref_release :: "refs \<Rightarrow> int \<times> refs" where
  "ref_release r =
     (if ref_status r = REF_STATUS_CLOSED \<or> ref_count r \<le> 0 then (-1, r)
      else
        (let r1 = r\<lparr>ref_count := ref_count r - 1\<rparr>
         in (ref_count r1, if ref_count r1 = 0 \<and> ref_status r1 = REF_STATUS_CLOSEWAIT then r1\<lparr>closings := closings r1 + 1\<rparr> else r1)))"

definition ref_close :: "refs \<Rightarrow> refs" where
  "ref_close r =
     (if ref_status r = REF_STATUS_NORMAL then
        (if ref_count r = 0 then r\<lparr>closings := closings r + 1, ref_status := REF_STATUS_CLOSED\<rparr>
         else r\<lparr>ref_status := REF_STATUS_CLOSEWAIT\<rparr>)
      else r)"


section \<open>Byte orders are reversed\<close>

lemma chord32_unfold:
  "naos_chord32 v = push_bit 24 (v AND 0xFF) OR push_bit 16 (drop_bit 8 v AND 0xFF) OR push_bit 8 (drop_bit 16 v AND 0xFF) OR (drop_bit 24 v AND 0xFF)"
proof -
  have m: "(0xFF :: 32 word) = mask 8" by (simp add: mask_eq_exp_minus_1)
  have "naos_chord32 v = push_bit 8 (push_bit 8 (push_bit 8 (v AND mask 8) OR (drop_bit 8 v AND mask 8)) OR (drop_bit 16 v AND mask 8)) OR (drop_bit 24 v AND mask 8)"
    unfolding naos_chord32_def m by (simp add: upt_rec push_bit_of_0)
  also have "\<dots> = push_bit 24 (v AND mask 8) OR push_bit 16 (drop_bit 8 v AND mask 8) OR push_bit 8 (drop_bit 16 v AND mask 8) OR (drop_bit 24 v AND mask 8)"
    by (simp only: push_bit_or push_bit_push_bit or.assoc) simp
  finally show ?thesis unfolding m .
qed

lemma chord32_byte:
  assumes "i < 4"
  shows "drop_bit (8 * i) (naos_chord32 v) AND 0xFF = drop_bit (8 * (3 - i)) v AND 0xFF"
proof -
  have m: "(0xFF :: 32 word) = mask 8" by (simp add: mask_eq_exp_minus_1)
  consider "i = 0" | "i = 1" | "i = 2" | "i = 3" using assms by linarith
  then show ?thesis
    unfolding chord32_unfold m by cases (auto intro!: bit_word_eqI simp: bit_simps)
qed

text \<open>\<open>naos_chord32\<close> reverses the bytes of a word, so it is its own inverse.\<close>

theorem chord32_reverses: "map (\<lambda>i. drop_bit (8 * i) (naos_chord32 v) AND 0xFF) [0..<4] = rev (map (\<lambda>i. drop_bit (8 * i) v AND 0xFF) [0..<4])"
  by (simp add: upt_rec chord32_byte [of 0, simplified] chord32_byte [of 1, simplified] chord32_byte [of 2, simplified] chord32_byte [of 3, simplified])

lemma chord32_involution: "naos_chord32 (naos_chord32 v) = v"
proof -
  have m: "(0xFF :: 32 word) = mask 8" by (simp add: mask_eq_exp_minus_1)
  have "v = push_bit 24 (drop_bit 24 v AND 0xFF) OR push_bit 16 (drop_bit 16 v AND 0xFF) OR push_bit 8 (drop_bit 8 v AND 0xFF) OR (v AND 0xFF)"
  proof (rule bit_word_eqI)
    fix n assume "n < LENGTH(32)"
    then consider "n < 8" | "8 \<le> n" "n < 16" | "16 \<le> n" "n < 24" | "24 \<le> n" "n < 32" by force
    then show "bit v n = bit (push_bit 24 (drop_bit 24 v AND 0xFF) OR push_bit 16 (drop_bit 16 v AND 0xFF) OR push_bit 8 (drop_bit 8 v AND 0xFF) OR (v AND 0xFF)) n"
      unfolding m by cases (auto simp: bit_simps)
  qed
  then show ?thesis unfolding chord32_unfold [of "naos_chord32 v"]
    using chord32_byte [of 0 v] chord32_byte [of 1 v] chord32_byte [of 2 v] chord32_byte [of 3 v] by simp
qed

section \<open>Dotted addresses\<close>

definition octet :: "string \<Rightarrow> bool" where
  "octet p \<longleftrightarrow> list_all isdigit p \<and> length p \<le> 3 \<and> digits_val 0 p \<le> 255"

lemma digits_val_bound: "list_all isdigit p \<Longrightarrow> digits_val a p < (a + 1) * 10 ^ length p"
proof (induction p arbitrary: a)
  case (Cons c p)
  have "of_char c \<le> (57 :: nat)" using Cons.prems by (simp add: isdigit_def)
  then have "of_char c - 48 \<le> (9 :: nat)" by simp
  moreover have "digits_val (10 * a + (of_char c - 48)) p < (10 * a + (of_char c - 48) + 1) * 10 ^ length p" using Cons by simp
  moreover have "(10 * a + (of_char c - 48) + 1) * 10 ^ length p \<le> (10 * (a + 1)) * 10 ^ length p"
    using calculation(1) by (intro mult_right_mono) simp_all
  ultimately show ?case using Cons.prems by (simp add: algebra_simps)
qed simp

lemma atoi_octet:
  assumes "list_all isdigit p" "length p \<le> 3"
  shows "atoi p = int (digits_val 0 p)"
proof -
  have "digits_val 0 p < 10 ^ length p" using digits_val_bound [OF assms(1), of 0] by simp
  also have "\<dots> \<le> 10 ^ 3" using assms(2) by (intro power_increasing) simp_all
  finally have lt: "digits_val 0 p < 1000" by simp
  show ?thesis
  proof (cases p)
    case Nil
    then show ?thesis by (simp add: atoi_def strtol10_def)
  next
    case (Cons c cs)
    then have d: "isdigit c" using assms(1) by simp
    then have "dropWhile is_space p = p" "c \<noteq> CHR ''-''" "c \<noteq> CHR ''+''" using Cons isdigit_not_space isdigit_not_sign by auto
    then have "strtol10 p = int (digits_val 0 p)" using Cons lt by (simp add: strtol10_def Let_def)
    then show ?thesis using lt by (simp add: atoi_def)
  qed
qed

lemma legal_loop_exact:
  "list_all isdigit segm \<Longrightarrow> length segm \<le> 3 \<Longrightarrow> i \<le> 15 \<Longrightarrow>
   legal_loop s i k segm \<longleftrightarrow> i + length s \<le> 15 \<and> k + length (splitc (CHR ''.'') s) = 4 \<and>
     list_all octet ((segm @ hd (splitc (CHR ''.'') s)) # tl (splitc (CHR ''.'') s)) \<and>
     last ((segm @ hd (splitc (CHR ''.'') s)) # tl (splitc (CHR ''.'') s)) \<noteq> []"
proof (induction s i k segm rule: legal_loop.induct)
  case (1 i k segm)
  then show ?case by (auto simp: atoi_octet octet_def)
next
  case (2 c cs i k segm)
  obtain p ps where sp: "splitc (CHR ''.'') cs = p # ps" by (cases "splitc (CHR ''.'') cs") auto
  show ?case
  proof (cases "i = 15 \<or> k > 3")
    case True
    then show ?thesis using 2(5) sp by (auto simp: INET_ADDRSTRLEN_def)
  next
    case False
    then have nf: "\<not> (i = INET_ADDRSTRLEN - 1 \<or> k > 3)" by (simp add: INET_ADDRSTRLEN_def)
    have i: "i + 1 \<le> 15" using False 2(5) by simp
    show ?thesis
    proof (cases "c = CHR ''.''")
      case True
      show ?thesis using 2(1) [OF nf True] i nf True sp 2(3,4) by (auto simp: atoi_octet octet_def)
    next
      case nd: False
      show ?thesis
      proof (cases "isdigit c \<and> length segm < 3")
        case True
        then show ?thesis using 2(2) [OF nf nd] i nf nd sp 2(3,4) by auto
      next
        case bad: False
        then show ?thesis using nf nd sp by (auto simp: octet_def)
      qed
    qed
  qed
qed

text \<open>The check of dotted addresses accepts exactly the texts of at most 15 characters made of four
  parts of at most three digits with values up to 255, of which only the last one has to be there: the
  first three may be empty.\<close>

theorem legal_ipv4_exact:
  "naos_is_legal_ipv4 s \<longleftrightarrow> length s \<le> 15 \<and> length (splitc (CHR ''.'') s) = 4 \<and> list_all octet (splitc (CHR ''.'') s) \<and> last (splitc (CHR ''.'') s) \<noteq> []"
  using legal_loop_exact [of "[]" 0 s 0] by (cases "splitc (CHR ''.'') s") (auto simp: naos_is_legal_ipv4_def)

lemma legal_ipv4_gaps: "naos_is_legal_ipv4 ''...1'' \<and> naos_ipv4tou ''...1'' kByteOrder_LittleEndian = 0x01000000"
  by code_simp


text \<open>The four numbers of an address and their text.\<close>

definition quad :: "32 word \<Rightarrow> nat \<Rightarrow> nat" where
  "quad inet k = unat (drop_bit (8 * k) inet AND 0xFF)"

definition dotted :: "32 word \<Rightarrow> string" where
  "dotted inet = joins ''.'' (map (\<lambda>k. show_nat (quad inet k)) [3, 2, 1, 0])"

lemma quad_less: "quad inet k < 256"
proof -
  have m: "(0xFF :: 32 word) = mask 8" by (simp add: mask_eq_exp_minus_1)
  have "quad inet k = take_bit 8 (unat (drop_bit (8 * k) inet))"
    unfolding quad_def m by (simp add: unsigned_take_bit_eq flip: take_bit_eq_mask)
  also have "\<dots> < 2 ^ 8" by (rule take_bit_nat_less_exp)
  finally show ?thesis by simp
qed

lemma show_nat_length: "n < 256 \<Longrightarrow> length (show_nat n) \<le> 3"
  by (subst show_nat.simps, subst show_nat.simps, subst show_nat.simps) simp

lemma octet_show: "n < 256 \<Longrightarrow> octet (show_nat n)"
  by (simp add: octet_def show_nat_length digits_val_show_nat)

lemma no_dot: "list_all isdigit p \<Longrightarrow> CHR ''.'' \<notin> set p"
  by (auto simp: list_all_iff isdigit_def)

lemma dotted_parts: "splitc (CHR ''.'') (dotted inet) = map (\<lambda>k. show_nat (quad inet k)) [3, 2, 1, 0]"
  unfolding dotted_def by (rule splitc_joins) (auto simp: no_dot)

lemma dotted_legal: "length (dotted inet) \<le> 15 \<Longrightarrow> naos_is_legal_ipv4 (dotted inet)"
  using quad_less [of inet] legal_loop_exact [of "[]" 0 "dotted inet" 0]
  by (simp add: naos_is_legal_ipv4_def dotted_parts octet_show)

lemma dotted_short: "length (dotted inet) \<le> 15"
  using show_nat_length [OF quad_less [of inet 3]] show_nat_length [OF quad_less [of inet 2]]
    show_nat_length [OF quad_less [of inet 1]] show_nat_length [OF quad_less [of inet 0]]
  by (simp add: dotted_def)

lemma quads_back:
  "(ucast (((push_bit 24 (word_of_nat (quad inet 3)) OR push_bit 16 (word_of_nat (quad inet 2))) OR
     push_bit 8 (word_of_nat (quad inet 1))) OR word_of_nat (quad inet 0) :: 64 word) :: 32 word) = inet"
proof -
  have m: "(0xFF :: 32 word) = mask 8" by (simp add: mask_eq_exp_minus_1)
  have q: "(word_of_nat (quad inet k) :: 64 word) = ucast (drop_bit (8 * k) inet AND 0xFF)" for k by (simp add: quad_def)
  show ?thesis
  proof (rule bit_word_eqI)
    fix n assume "n < LENGTH(32)"
    then consider "n < 8" | "8 \<le> n" "n < 16" | "16 \<le> n" "n < 24" | "24 \<le> n" "n < 32" by force
    then show "bit (ucast (((push_bit 24 (word_of_nat (quad inet 3)) OR push_bit 16 (word_of_nat (quad inet 2))) OR
     push_bit 8 (word_of_nat (quad inet 1))) OR word_of_nat (quad inet 0) :: 64 word) :: 32 word) n = bit inet n"
      unfolding q m by cases (auto simp: bit_simps)
  qed
qed

text \<open>An address whose dotted text has at most 14 characters is printed and read back; the longer
  ones, 15 characters with four numbers of three digits, are cut by a character when they are printed.\<close>

theorem ipv4_roundtrip:
  "naos_ipv4tos inet = take 14 (dotted inet) \<and> (length (dotted inet) = 15 \<or> naos_ipv4tou (naos_ipv4tos inet) kByteOrder_LittleEndian = inet)"
proof -
  have t: "naos_ipv4tos inet = take 14 (dotted inet)" by (simp add: naos_ipv4tos_def dotted_def quad_def)
  have "naos_ipv4tou (naos_ipv4tos inet) kByteOrder_LittleEndian = inet" if "length (dotted inet) \<noteq> 15"
  proof -
    have "naos_ipv4tos inet = dotted inet" using t dotted_short [of inet] that by simp
    moreover have "strtok_dots (dotted inet) = map (\<lambda>k. show_nat (quad inet k)) [3, 2, 1, 0]"
      by (simp add: strtok_dots_def dotted_parts)
    ultimately show ?thesis using dotted_legal [OF dotted_short, of inet] quads_back [of inet]
      by (simp add: naos_ipv4tou_def digits_val_show_nat push_bit_of_0)
  qed
  then show ?thesis using t by blast
qed

lemma ipv4_cut: "naos_ipv4tos 0xFFFFFFFF = ''255.255.255.25''"
  by code_simp

section \<open>Strings and references\<close>

lemma schar_inj: "schar a = schar b \<longleftrightarrow> a = b"
proof
  assume "schar a = schar b"
  moreover have "0 \<le> (of_char c :: int) \<and> of_char c < (256 :: int)" for c
    using pos_mod_bound [of 256 "of_char c :: int"] pos_mod_sign [of 256 "of_char c :: int"] by simp
  note this [of a] this [of b]
  ultimately have "of_char a = (of_char b :: int)" by (auto simp: schar_def split: if_splits)
  then show "a = b" by (simp add: of_char_eq_iff)
qed simp

lemma schar_zero: "schar a = 0 \<longleftrightarrow> a = NUL"
  using schar_inj [of a NUL] by (simp add: schar_def NUL_def)

lemma last_compare_zero: "NUL \<notin> set s \<Longrightarrow> NUL \<notin> set t \<Longrightarrow> last_compare s t = 0 \<longleftrightarrow> take 1 s = take 1 t"
proof -
  assume "NUL \<notin> set s" "NUL \<notin> set t"
  moreover have "last_compare s t = 0 \<longleftrightarrow> at_end s = at_end t" by (auto simp: last_compare_def)
  ultimately show ?thesis by (cases s; cases t) (auto simp: at_end_def schar_zero schar_inj eq_commute [of 0])
qed

text \<open>\<open>rtl_strcmp\<close> is zero exactly for equal strings; \<open>rtl_strncmp\<close> with the bound \<open>n\<close> compares one
  character too many: it is zero exactly when the first \<open>n + 1\<close> characters agree.\<close>

theorem rtl_compare_exact:
  assumes "NUL \<notin> set s" "NUL \<notin> set t"
  shows "(rtl_strcmp s t = 0 \<longleftrightarrow> s = t) \<and> (rtl_strncmp s t n = 0 \<longleftrightarrow> take (n + 1) s = take (n + 1) t)"
proof
  show "rtl_strcmp s t = 0 \<longleftrightarrow> s = t" using assms
    by (induction s t rule: rtl_strcmp.induct) (auto simp: schar_inj last_compare_zero dest: antisym_conv1)
  show "rtl_strncmp s t n = 0 \<longleftrightarrow> take (n + 1) s = take (n + 1) t" using assms
    by (induction s t n rule: rtl_strncmp.induct) (auto simp: schar_inj last_compare_zero dest: antisym_conv1)
qed

theorem rtl_compare_exact_witness:
  "(rtl_strcmp ''abc'' ''abd'' = 0 \<longleftrightarrow> ''abc'' = ''abd'') \<and> (rtl_strncmp ''abc'' ''abd'' 2 = 0 \<longleftrightarrow> take (2 + 1) ''abc'' = take (2 + 1) ''abd'')"
  by (rule rtl_compare_exact) (simp_all add: NUL_def)

lemma memcpy_copies: "rtl_memcpy src = src"
  by (induction src rule: rtl_memcpy.induct) (simp add: rtl_memcpy.simps)

text \<open>\<open>rtl_strndup\<close> copies the whole string into the space for \<open>n\<close> characters.\<close>

lemma strndup_overflow: "n < length s \<Longrightarrow> fst (rtl_strndup s n) < length (snd (rtl_strndup s n))"
  by (simp add: rtl_strndup_def rtl_strcpy_def)

datatype ref_op = Retain | Release | Close

fun ref_step :: "ref_op \<Rightarrow> refs \<Rightarrow> refs" where
  "ref_step Retain r = snd (ref_retain r)"
| "ref_step Release r = snd (ref_release r)"
| "ref_step Close r = ref_close r"

definition ref_inv :: "refs \<Rightarrow> bool" where
  "ref_inv r \<longleftrightarrow> 0 \<le> ref_count r \<and> ref_status r \<le> REF_STATUS_CLOSED \<and> (ref_status r = REF_STATUS_CLOSED \<longrightarrow> ref_count r = 0) \<and>
     closings r = (if ref_status r \<noteq> REF_STATUS_NORMAL \<and> ref_count r = 0 then 1 else 0)"

lemma ref_step_inv: "ref_inv r \<Longrightarrow> ref_inv (ref_step op r)"
  by (cases op)
    (auto simp: ref_inv_def ref_retain_def ref_release_def ref_close_def REF_STATUS_NORMAL_def REF_STATUS_CLOSEWAIT_def REF_STATUS_CLOSED_def Let_def)

text \<open>A counted object is closed exactly once: after any sequence of retains, releases and closes the
  closing routine has run once if the object was closed and nobody holds it, and not at all otherwise.\<close>

theorem ref_closed_once:
  "closings (fold ref_step ops ref_init) = (if ref_status (fold ref_step ops ref_init) \<noteq> REF_STATUS_NORMAL \<and> ref_count (fold ref_step ops ref_init) = 0 then 1 else 0)"
proof -
  have "ref_inv r \<Longrightarrow> ref_inv (fold ref_step ops r)" for r by (induction ops arbitrary: r) (simp_all add: ref_step_inv)
  moreover have "ref_inv ref_init" by (simp add: ref_inv_def ref_init_def REF_STATUS_NORMAL_def REF_STATUS_CLOSED_def)
  ultimately show ?thesis by (simp add: ref_inv_def)
qed

end
