(* ===== verification/Clist.thy ===== *)
theory Clist
  imports Prelude
begin

text \<open>
  The doubly linked lists of \<^verbatim>\<open>naxfw/include/clist.h\<close>. The task queues, the clients, their
  subscriptions, the elements of array nodes, the requests of a packet and the send queue of a link
  are lists of this kind; the other theories model them as HOL lists. Here the links themselves are
  modelled: a memory gives the two pointers of every node. The theory shows that the operations
  refine the operations on HOL lists the other theories use, for all lists of a program together.
\<close>

section \<open>Nodes\<close>

record list_mem =
  lnext :: "nat \<Rightarrow> nat"
  lprev :: "nat \<Rightarrow> nat"

definition set_next :: "nat \<Rightarrow> nat \<Rightarrow> list_mem \<Rightarrow> list_mem" where
  "set_next a b m = m\<lparr>lnext := (lnext m)(a := b)\<rparr>"

definition set_prev :: "nat \<Rightarrow> nat \<Rightarrow> list_mem \<Rightarrow> list_mem" where
  "set_prev a b m = m\<lparr>lprev := (lprev m)(a := b)\<rparr>"

lemma link_fields [simp]:
  "lnext (set_next a b m) = (lnext m)(a := b)" "lprev (set_next a b m) = lprev m"
  "lprev (set_prev a b m) = (lprev m)(a := b)" "lnext (set_prev a b m) = lnext m"
  by (simp_all add: set_next_def set_prev_def)

section \<open>Operations\<close>

definition INIT_LIST_HEAD :: "nat \<Rightarrow> list_mem \<Rightarrow> list_mem" where
  "INIT_LIST_HEAD l m = set_prev l l (set_next l l m)"

text \<open>\<open>list_link\<close> is \<open>__list_add\<close>, \<open>list_unlink\<close> is \<open>__list_del\<close>.\<close>

definition list_link :: "nat \<Rightarrow> nat \<Rightarrow> nat \<Rightarrow> list_mem \<Rightarrow> list_mem" where
  "list_link newone prv nxt m =
     set_next prv newone (set_prev newone prv (set_next newone nxt (set_prev nxt newone m)))"

definition list_add :: "nat \<Rightarrow> nat \<Rightarrow> list_mem \<Rightarrow> list_mem" where
  "list_add newone head m = list_link newone head (lnext m head) m"

definition list_add_tail :: "nat \<Rightarrow> nat \<Rightarrow> list_mem \<Rightarrow> list_mem" where
  "list_add_tail newone head m = list_link newone (lprev m head) head m"

definition list_unlink :: "nat \<Rightarrow> nat \<Rightarrow> list_mem \<Rightarrow> list_mem" where
  "list_unlink prv nxt m = set_next prv nxt (set_prev nxt prv m)"

definition list_del :: "nat \<Rightarrow> list_mem \<Rightarrow> list_mem" where
  "list_del entry m = list_unlink (lprev m entry) (lnext m entry) m"

definition list_replace :: "nat \<Rightarrow> nat \<Rightarrow> list_mem \<Rightarrow> list_mem" where
  "list_replace old newone m =
     (let m1 = set_next newone (lnext m old) m;
          m2 = set_prev (lnext m1 newone) newone m1;
          m3 = set_prev newone (lprev m2 old) m2
      in set_next (lprev m3 newone) newone m3)"

definition list_replace_init :: "nat \<Rightarrow> nat \<Rightarrow> list_mem \<Rightarrow> list_mem" where
  "list_replace_init old newone m = INIT_LIST_HEAD old (list_replace old newone m)"

definition list_del_init :: "nat \<Rightarrow> list_mem \<Rightarrow> list_mem" where
  "list_del_init entry m = INIT_LIST_HEAD entry (list_del entry m)"

definition list_move :: "nat \<Rightarrow> nat \<Rightarrow> list_mem \<Rightarrow> list_mem" where
  "list_move l head m = list_add l head (list_del l m)"

definition list_move_tail :: "nat \<Rightarrow> nat \<Rightarrow> list_mem \<Rightarrow> list_mem" where
  "list_move_tail l head m = list_add_tail l head (list_del l m)"

definition list_is_last :: "nat \<Rightarrow> nat \<Rightarrow> list_mem \<Rightarrow> bool" where
  "list_is_last l head m \<longleftrightarrow> lnext m l = head"

definition list_empty :: "nat \<Rightarrow> list_mem \<Rightarrow> bool" where
  "list_empty head m \<longleftrightarrow> lnext m head = head"

definition list_empty_careful :: "nat \<Rightarrow> list_mem \<Rightarrow> bool" where
  "list_empty_careful head m \<longleftrightarrow> lnext m head = head \<and> lnext m head = lprev m head"

definition list_rotate_left :: "nat \<Rightarrow> list_mem \<Rightarrow> list_mem" where
  "list_rotate_left head m = (if \<not> list_empty head m then list_move_tail (lnext m head) head m else m)"

definition list_is_singular :: "nat \<Rightarrow> list_mem \<Rightarrow> bool" where
  "list_is_singular head m \<longleftrightarrow> \<not> list_empty head m \<and> lnext m head = lprev m head"

text \<open>\<open>list_cut\<close> is \<open>__list_cut_position\<close>, \<open>list_join\<close> is \<open>__list_splice\<close>.\<close>

definition list_cut :: "nat \<Rightarrow> nat \<Rightarrow> nat \<Rightarrow> list_mem \<Rightarrow> list_mem" where
  "list_cut l head entry m =
     (let newone_first = lnext m entry;
          m1 = set_next l (lnext m head) m;
          m2 = set_prev (lnext m1 l) l m1;
          m3 = set_prev l entry m2;
          m4 = set_next entry l m3;
          m5 = set_next head newone_first m4
      in set_prev newone_first head m5)"

definition list_cut_position :: "nat \<Rightarrow> nat \<Rightarrow> nat \<Rightarrow> list_mem \<Rightarrow> list_mem" where
  "list_cut_position l head entry m =
     (if list_empty head m then m
      else if list_is_singular head m \<and> lnext m head \<noteq> entry \<and> head \<noteq> entry then m
      else if entry = head then INIT_LIST_HEAD l m
      else list_cut l head entry m)"

definition list_join :: "nat \<Rightarrow> nat \<Rightarrow> nat \<Rightarrow> list_mem \<Rightarrow> list_mem" where
  "list_join l prv nxt m =
     (let fst_node = lnext m l; lst_node = lprev m l
      in set_prev nxt lst_node (set_next lst_node nxt (set_next prv fst_node (set_prev fst_node prv m))))"

definition list_splice :: "nat \<Rightarrow> nat \<Rightarrow> list_mem \<Rightarrow> list_mem" where
  "list_splice l head m = (if \<not> list_empty l m then list_join l head (lnext m head) m else m)"

definition list_splice_tail :: "nat \<Rightarrow> nat \<Rightarrow> list_mem \<Rightarrow> list_mem" where
  "list_splice_tail l head m = (if \<not> list_empty l m then list_join l (lprev m head) head m else m)"

definition list_splice_init :: "nat \<Rightarrow> nat \<Rightarrow> list_mem \<Rightarrow> list_mem" where
  "list_splice_init l head m =
     (if \<not> list_empty l m then INIT_LIST_HEAD l (list_join l head (lnext m head) m) else m)"

definition list_splice_tail_init :: "nat \<Rightarrow> nat \<Rightarrow> list_mem \<Rightarrow> list_mem" where
  "list_splice_tail_init l head m =
     (if \<not> list_empty l m then INIT_LIST_HEAD l (list_join l (lprev m head) head m) else m)"

text \<open>
  The loops. The body gets the memory and a state of its own; \<open>None\<close> is a loop that does not end.
  \<open>list_for_each_safe\<close> reads the successor before the body runs, so the body may take the node out.
\<close>

partial_function (option) for_each_loop :: "(nat \<Rightarrow> list_mem \<Rightarrow> 's \<Rightarrow> list_mem \<times> 's) \<Rightarrow> nat \<Rightarrow> nat \<Rightarrow>
    list_mem \<Rightarrow> 's \<Rightarrow> (list_mem \<times> 's) option" where
  "for_each_loop body head pos m s =
     (if pos = head then Some (m, s)
      else case body pos m s of (m', s') \<Rightarrow> for_each_loop body head (lnext m' pos) m' s')"

definition list_for_each where
  "list_for_each body head m s = for_each_loop body head (lnext m head) m s"

partial_function (option) for_each_prev_loop :: "(nat \<Rightarrow> list_mem \<Rightarrow> 's \<Rightarrow> list_mem \<times> 's) \<Rightarrow> nat \<Rightarrow> nat \<Rightarrow>
    list_mem \<Rightarrow> 's \<Rightarrow> (list_mem \<times> 's) option" where
  "for_each_prev_loop body head pos m s =
     (if pos = head then Some (m, s)
      else case body pos m s of (m', s') \<Rightarrow> for_each_prev_loop body head (lprev m' pos) m' s')"

definition list_for_each_prev where
  "list_for_each_prev body head m s = for_each_prev_loop body head (lprev m head) m s"

partial_function (option) for_each_safe_loop :: "(nat \<Rightarrow> list_mem \<Rightarrow> 's \<Rightarrow> list_mem \<times> 's) \<Rightarrow> nat \<Rightarrow> nat \<Rightarrow> nat \<Rightarrow>
    list_mem \<Rightarrow> 's \<Rightarrow> (list_mem \<times> 's) option" where
  "for_each_safe_loop body head pos n m s =
     (if pos = head then Some (m, s)
      else case body pos m s of (m', s') \<Rightarrow> for_each_safe_loop body head n (lnext m' n) m' s')"

definition list_for_each_safe where
  "list_for_each_safe body head m s =
     for_each_safe_loop body head (lnext m head) (lnext m (lnext m head)) m s"

section \<open>The list a head stands for\<close>

fun path :: "list_mem \<Rightarrow> nat \<Rightarrow> nat list \<Rightarrow> bool" where
  "path m a [] \<longleftrightarrow> True"
| "path m a (x # xs) \<longleftrightarrow> lnext m a = x \<and> lprev m x = a \<and> path m x xs"

definition is_list :: "list_mem \<Rightarrow> nat \<Rightarrow> nat list \<Rightarrow> bool" where
  "is_list m h xs \<longleftrightarrow> distinct (h # xs) \<and> path m h (xs @ [h])"

lemma path_append [simp]: "path m a (xs @ ys) \<longleftrightarrow> path m a xs \<and> path m (last (a # xs)) ys"
  by (induction xs arbitrary: a) auto

lemma path_cong:
  "(\<And>x. x \<in> set (butlast (a # xs)) \<Longrightarrow> lnext m x = lnext m' x) \<Longrightarrow>
   (\<And>x. x \<in> set xs \<Longrightarrow> lprev m x = lprev m' x) \<Longrightarrow> path m a xs \<longleftrightarrow> path m' a xs"
  by (induction xs arbitrary: a) (auto split: if_splits)

lemma path_next_frame: "a \<notin> set (butlast (b # xs)) \<Longrightarrow> path (set_next a c m) b xs = path m b xs"
  by (rule path_cong) auto

lemma path_prev_frame: "a \<notin> set xs \<Longrightarrow> path (set_prev a c m) b xs = path m b xs"
  by (rule path_cong) auto

section \<open>One list\<close>

lemma list_of_nil: "is_list m h [] \<longleftrightarrow> lnext m h = h \<and> lprev m h = h"
  by (auto simp: is_list_def)

lemma list_first: "is_list m h xs \<Longrightarrow> lnext m h = hd (xs @ [h])"
  by (cases xs) (auto simp: is_list_def)

lemma list_last: "is_list m h xs \<Longrightarrow> lprev m h = last (h # xs)"
  by (simp add: is_list_def)

lemma list_empty_iff: "is_list m h xs \<Longrightarrow> list_empty h m \<longleftrightarrow> xs = []"
  by (cases xs) (auto simp: is_list_def list_empty_def)

lemma list_empty_careful_iff: "is_list m h xs \<Longrightarrow> list_empty_careful h m \<longleftrightarrow> xs = []"
  by (cases xs) (auto simp: is_list_def list_empty_careful_def)

lemma list_is_singular_iff: "is_list m h xs \<Longrightarrow> list_is_singular h m \<longleftrightarrow> length xs = 1"
  by (cases xs rule: list.exhaust; cases "tl xs" rule: rev_cases)
    (auto simp: is_list_def list_is_singular_def list_empty_def)

lemma list_neighbours:
  assumes "is_list m h (xs @ x # ys)"
  shows "lprev m x = last (h # xs)" "lnext m x = hd (ys @ [h])"
  using assms by (cases ys; simp add: is_list_def)+

lemma list_is_last_iff:
  assumes "is_list m h xs" "x \<in> set xs"
  shows "list_is_last x h m \<longleftrightarrow> x = last xs"
proof -
  obtain us vs where xs: "xs = us @ x # vs" using split_list [OF assms(2)] by blast
  have "lnext m x = hd (vs @ [h])" using list_neighbours(2) [of m h us x vs] assms(1) xs by simp
  then show ?thesis using assms(1) by (cases vs) (auto simp: xs list_is_last_def is_list_def)
qed

lemma last_notin_butlast:
  assumes "distinct xs" "xs \<noteq> []"
  shows "last xs \<notin> set (butlast xs)"
proof -
  have "distinct (butlast xs @ [last xs])" using assms by (metis append_butlast_last_id)
  then show ?thesis by simp
qed

lemma link_ok:
  assumes l: "is_list m h (xs @ ys)" and n: "n \<notin> set (h # xs @ ys)"
  shows "is_list (list_link n (last (h # xs)) (hd (ys @ [h])) m) h (xs @ n # ys)"
proof -
  let ?p = "last (h # xs)" and ?m = "list_link n (last (h # xs)) (hd (ys @ [h])) m"
  obtain q qs where q: "ys @ [h] = q # qs" by (cases ys) auto
  have d: "distinct (h # xs @ ys)" and p1: "path m h xs" and p2: "path m ?p (q # qs)"
    using l q by (simp_all add: is_list_def)
  have bl: "butlast (q # qs) = ys" unfolding q [symmetric] by simp
  have pin: "?p \<in> set (h # xs)" by (rule last_in_set) simp
  have pys: "?p \<notin> set ys" using pin d by auto
  have pbut: "?p \<notin> set (butlast (h # xs))" by (rule last_notin_butlast) (use d in simp_all)
  have nb: "n \<notin> set (butlast (h # xs))" using n in_set_butlastD [of n "h # xs"] by auto
  have qx: "q \<notin> set xs" using q d by (cases ys) auto
  have qqs: "q \<notin> set qs" using q d by (cases ys) auto
  have nq: "n \<notin> set (q # qs)" using n q [symmetric] by (simp add: set_eq_iff)
  have a: "path ?m h xs = path m h xs"
    by (rule path_cong) (use pbut nb qx n q in \<open>auto simp: list_link_def\<close>)
  have b: "path ?m q qs = path m q qs"
    by (rule path_cong) (unfold bl, use pys n qqs nq q in \<open>auto simp: list_link_def\<close>)
  have "path ?m h (xs @ n # q # qs)"
    using a b p1 p2 nq n by (auto simp: list_link_def q)
  moreover have "xs @ n # q # qs = (xs @ n # ys) @ [h]" using q by simp
  ultimately show ?thesis using d n by (simp add: is_list_def)
qed

lemma unlink_ok:
  assumes l: "is_list m h (xs @ n # ys)"
  shows "is_list (list_del n m) h (xs @ ys)"
proof -
  let ?p = "last (h # xs)" and ?m = "list_del n m"
  obtain q qs where q: "ys @ [h] = q # qs" by (cases ys) auto
  have d: "distinct (h # xs @ n # ys)" and p1: "path m h xs" and p2: "path m n (q # qs)"
    using l q by (simp_all add: is_list_def)
  have m: "?m = set_next ?p q (set_prev q ?p m)"
    using list_neighbours [OF l] q by (simp add: list_del_def list_unlink_def)
  have bl: "butlast (q # qs) = ys" unfolding q [symmetric] by simp
  have pin: "?p \<in> set (h # xs)" by (rule last_in_set) simp
  have pys: "?p \<notin> set ys" using pin d by auto
  have pbut: "?p \<notin> set (butlast (h # xs))" by (rule last_notin_butlast) (use d in simp_all)
  have qx: "q \<notin> set xs" using q d by (cases ys) auto
  have qqs: "q \<notin> set qs" using q d by (cases ys) auto
  have a: "path ?m h xs = path m h xs"
    by (rule path_cong) (use pbut qx in \<open>auto simp: m\<close>)
  have b: "path ?m q qs = path m q qs"
    by (rule path_cong) (unfold bl, use pys qqs in \<open>auto simp: m\<close>)
  have "path ?m h (xs @ q # qs)" using a b p1 p2 by (auto simp: m)
  moreover have "xs @ q # qs = (xs @ ys) @ [h]" using q by simp
  ultimately show ?thesis using d by (simp add: is_list_def)
qed

lemma path_frame:
  "is_list m h xs \<Longrightarrow> (\<And>x. x \<in> set (h # xs) \<Longrightarrow> lnext m' x = lnext m x \<and> lprev m' x = lprev m x) \<Longrightarrow>
   is_list m' h xs"
  using path_cong [of h "xs @ [h]" m m'] by (auto simp: is_list_def)

lemma replace_ok:
  assumes l: "is_list m h (xs @ old # ys)" and n: "n \<notin> set (h # xs @ old # ys)"
  shows "is_list (list_replace old n m) h (xs @ n # ys)"
proof -
  let ?p = "last (h # xs)" and ?m = "list_replace old n m"
  obtain q qs where q: "ys @ [h] = q # qs" by (cases ys) auto
  have d: "distinct (h # xs @ old # ys)" and p1: "path m h xs" and p2: "path m old (q # qs)"
    using l q by (simp_all add: is_list_def)
  have qo: "q \<noteq> old" using q d by (cases ys) auto
  have nq: "n \<notin> set (q # qs)" using n q [symmetric] by (simp add: set_eq_iff)
  have pin: "?p \<in> set (h # xs)" by (rule last_in_set) simp
  have m: "?m = set_next ?p n (set_prev n ?p (set_prev q n (set_next n q m)))"
    using list_neighbours [OF l] q qo nq n pin by (simp add: list_replace_def Let_def)
  have bl: "butlast (q # qs) = ys" unfolding q [symmetric] by simp
  have pys: "?p \<notin> set ys" using pin d by auto
  have pbut: "?p \<notin> set (butlast (h # xs))" by (rule last_notin_butlast) (use d in simp_all)
  have nb: "n \<notin> set (butlast (h # xs))" using n in_set_butlastD [of n "h # xs"] by auto
  have qx: "q \<notin> set xs" using q d by (cases ys) auto
  have qqs: "q \<notin> set qs" using q d by (cases ys) auto
  have a: "path ?m h xs = path m h xs"
    by (rule path_cong) (use pbut nb qx n in \<open>auto simp: m\<close>)
  have b: "path ?m q qs = path m q qs"
    by (rule path_cong) (unfold bl, use pys n qqs nq in \<open>auto simp: m\<close>)
  have pn: "?p \<noteq> n" using pin n by auto
  have "path ?m h (xs @ n # q # qs)" using a b p1 p2 nq pn by (auto simp: m)
  moreover have "xs @ n # q # qs = (xs @ n # ys) @ [h]" using q by simp
  ultimately show ?thesis using d n by (simp add: is_list_def)
qed

lemma replace_head_ok:
  assumes l: "is_list m h xs" and n: "n \<notin> set (h # xs)"
  shows "is_list (list_replace h n m) n xs"
proof (cases xs)
  case Nil
  then show ?thesis using l n by (simp add: is_list_def list_replace_def Let_def)
next
  case (Cons f fs)
  let ?m = "list_replace h n m" and ?L = "last (f # fs)"
  have d: "distinct (h # f # fs)" and p: "path m f fs" "lnext m h = f" "lprev m f = h" "lnext m ?L = h" "lprev m h = ?L"
    using l Cons by (simp_all add: is_list_def)
  have Lin: "?L \<in> set (f # fs)" by (rule last_in_set) simp
  have m: "?m = set_next ?L n (set_prev n ?L (set_prev f n (set_next n f m)))"
    using p d n Cons by (simp add: list_replace_def Let_def)
  have Lb: "?L \<notin> set (butlast (f # fs))" by (rule last_notin_butlast) (use d in simp_all)
  have nb: "n \<notin> set (butlast (f # fs))" using n Cons in_set_butlastD [of n "f # fs"] by auto
  have a: "path ?m f fs = path m f fs"
    by (rule path_cong) (use Lb nb d n Cons in \<open>auto simp: m\<close>)
  have Ln: "?L \<noteq> n" using Lin n Cons by auto
  show ?thesis using a p d n Ln Cons by (auto simp: is_list_def m)
qed

lemma join_ok:
  assumes l: "is_list m l xs" and h: "is_list m h (ys @ zs)" and dis: "set (l # xs) \<inter> set (h # ys @ zs) = {}"
    and ne: "xs \<noteq> []"
  shows "is_list (list_join l (last (h # ys)) (hd (zs @ [h])) m) h (ys @ xs @ zs)"
proof -
  define p L M where "p = last (h # ys)" and "L = last xs" and "M = list_join l p (hd (zs @ [h])) m"
  obtain q qs where q: "zs @ [h] = q # qs" by (cases zs) auto
  obtain f fs where xs: "xs = f # fs" using ne by (cases xs) auto
  have d: "distinct (h # ys @ zs)" and p1: "path m h ys" and p2: "path m p (q # qs)"
    using h q by (simp_all add: is_list_def p_def)
  have dx: "distinct xs" and p3: "path m f fs" and fst: "lnext m l = f" and lst: "lprev m l = L"
    using l by (simp_all add: is_list_def xs L_def)
  have m: "M = set_prev q L (set_next L q (set_next p f (set_prev f p m)))"
    using fst lst q by (simp add: list_join_def Let_def M_def)
  have bl: "butlast (q # qs) = zs" unfolding q [symmetric] by simp
  have Lin: "L \<in> set xs" using ne by (simp add: L_def)
  have pin: "p \<in> set (h # ys)" unfolding p_def by (rule last_in_set) simp
  have qin: "q \<in> set (h # zs)" using q by (cases zs) auto
  have pzs: "p \<notin> set zs" using pin d by auto
  have pbut: "p \<notin> set (butlast (h # ys))" unfolding p_def by (rule last_notin_butlast) (use d in simp_all)
  have Lb: "L \<notin> set (butlast (h # ys))" using Lin dis in_set_butlastD [of L "h # ys"] by auto
  have Lbx: "L \<notin> set (butlast xs)" unfolding L_def using dx ne by (rule last_notin_butlast)
  have qy: "q \<notin> set ys" using q d by (cases zs) auto
  have qqs: "q \<notin> set qs" using q d by (cases zs) auto
  have qsx: "set qs \<subseteq> set (h # zs)" using q by (metis (no_types) set_subset_Cons set_append list.set(2) sup_commute insert_is_Un list.simps(15) empty_set)
  have fxs: "f \<in> set xs" using xs by simp
  have pxs: "p \<notin> set xs" "q \<notin> set xs" using pin qin dis by auto
  have pbx: "p \<notin> set (butlast xs)" using pxs in_set_butlastD [of p xs] by auto
  have a: "path M h ys = path m h ys"
    by (rule path_cong) (use pbut Lb qy fxs dis in \<open>auto simp: m\<close>)
  have b: "path M q qs = path m q qs"
    by (rule path_cong) (unfold bl, use pzs Lin fxs qqs qsx dis in \<open>auto simp: m\<close>)
  have c: "path M f fs = path m f fs"
    by (rule path_cong) (use Lbx pbx pxs dx in \<open>auto simp: m xs\<close>)
  have pL: "p \<noteq> L" "f \<noteq> q" using pin pxs Lin fxs by auto
  have v: "lnext M p = f" "lprev M f = p" "lnext M L = q" "lprev M q = L" using pL by (simp_all add: m)
  have L2: "last (p # f # fs) = L" by (simp add: L_def xs)
  have "path M h (ys @ (f # fs) @ q # qs)"
    by (simp only: path_append path.simps p_def [symmetric] L2) (use a b c v p1 p2 p3 in simp)
  moreover have "ys @ (f # fs) @ q # qs = (ys @ xs @ zs) @ [h]" using q xs by simp
  ultimately have "path M h ((ys @ xs @ zs) @ [h])" by (simp only:)
  moreover have "distinct (h # ys @ xs @ zs)" using d dx dis by auto
  ultimately show ?thesis unfolding is_list_def p_def [symmetric] M_def [symmetric] by blast
qed

lemma cut_ok:
  assumes h: "is_list m h (xs @ e # ys)" and l: "l \<notin> set (h # xs @ e # ys)"
  shows "is_list (list_cut l h e m) l (xs @ [e])" "is_list (list_cut l h e m) h ys"
proof -
  let ?m = "list_cut l h e m"
  obtain q qs where q: "ys @ [h] = q # qs" by (cases ys) auto
  obtain f fs where f: "xs @ [e] = f # fs" by (cases xs) auto
  have d: "distinct (h # xs @ e # ys)" using h by (simp add: is_list_def)
  have "path m h ((xs @ [e]) @ q # qs)" using h q by (simp add: is_list_def)
  then have p: "lnext m h = f" "path m f fs" "lnext m e = q" "path m q qs"
    unfolding f using f by (auto simp: last_append dest: arg_cong [of _ _ last] split: if_splits)
  have le: "last (f # fs) = e" unfolding f [symmetric] by simp
  have blf: "butlast (f # fs) = xs" unfolding f [symmetric] by simp
  have blq: "butlast (q # qs) = ys" unfolding q [symmetric] by simp
  have fin: "set (f # fs) = insert e (set xs)" unfolding f [symmetric] by simp
  have qin: "set (q # qs) = insert h (set ys)" unfolding q [symmetric] by simp
  have df: "f \<notin> set fs" using d f by (cases xs) auto
  have dq: "q \<notin> set qs" using d q by (cases ys) auto
  have m: "?m = set_prev q h (set_next h q (set_next e l (set_prev l e (set_prev f l (set_next l f m)))))"
    using p l d by (auto simp: list_cut_def Let_def)
  have qi: "q \<in> insert h (set ys)" and "set fs \<subseteq> insert e (set xs)" using fin qin by auto
  then have qf: "q \<notin> set fs" using d by auto
  have fi: "f \<in> insert e (set xs)" and "set qs \<subseteq> insert h (set ys)" using fin qin by auto
  then have fq: "f \<notin> set qs" using d by auto
  have a: "path ?m f fs = path m f fs"
    by (rule path_cong) (unfold blf, use l d df fin qin qf in \<open>auto simp: m\<close>)
  have b: "path ?m q qs = path m q qs"
    by (rule path_cong) (unfold blq, use l d dq fin qin fq in \<open>auto simp: m\<close>)
  have ne: "f \<noteq> q" "f \<noteq> l" "q \<noteq> l" "e \<noteq> h" "e \<noteq> l" "h \<noteq> l" using fi qi d l by auto
  have "path ?m l ((f # fs) @ [l])" using a p ne le by (simp add: m)
  then show "is_list ?m l (xs @ [e])" using d l by (simp only: f [symmetric]) (simp add: is_list_def)
  have "path ?m h (q # qs)" using b p ne by (simp add: m)
  then show "is_list ?m h ys" using d by (simp only: q [symmetric]) (simp add: is_list_def)
qed


section \<open>All lists of a program\<close>

text \<open>
  A family gives the entries of every initialised head. A node that was taken out with
  \<open>list_del_init\<close> is again a head of its own.
\<close>

type_synonym family = "nat \<Rightarrow> nat list option"

definition lists_ok :: "list_mem \<Rightarrow> family \<Rightarrow> bool" where
  "lists_ok m F \<longleftrightarrow>
     (\<forall>h xs. F h = Some xs \<longrightarrow> is_list m h xs) \<and>
     (\<forall>h k xs ys. F h = Some xs \<longrightarrow> F k = Some ys \<longrightarrow> h \<noteq> k \<longrightarrow> set (h # xs) \<inter> set (k # ys) = {})"

definition loose :: "nat \<Rightarrow> family \<Rightarrow> bool" where
  "loose n F \<longleftrightarrow> (\<forall>h xs. F h = Some xs \<longrightarrow> n \<notin> set xs \<and> (n = h \<longrightarrow> xs = []))"

definition entries_without :: "nat \<Rightarrow> family \<Rightarrow> family" where
  "entries_without n F = (\<lambda>h. map_option (removeAll n) (F h))"

datatype list_op =
    Op_init nat | Op_add nat nat | Op_add_tail nat nat | Op_del nat | Op_del_init nat | Op_replace nat nat
  | Op_replace_init nat nat | Op_move nat nat | Op_move_tail nat nat | Op_rotate nat | Op_cut nat nat nat
  | Op_splice nat nat | Op_splice_tail nat nat | Op_splice_init nat nat | Op_splice_tail_init nat nat

fun run_op :: "list_op \<Rightarrow> list_mem \<Rightarrow> list_mem" where
  "run_op (Op_init l) m = INIT_LIST_HEAD l m"
| "run_op (Op_add n h) m = list_add n h m"
| "run_op (Op_add_tail n h) m = list_add_tail n h m"
| "run_op (Op_del n) m = list_del n m"
| "run_op (Op_del_init n) m = list_del_init n m"
| "run_op (Op_replace old n) m = list_replace old n m"
| "run_op (Op_replace_init old n) m = list_replace_init old n m"
| "run_op (Op_move n h) m = list_move n h m"
| "run_op (Op_move_tail n h) m = list_move_tail n h m"
| "run_op (Op_rotate h) m = list_rotate_left h m"
| "run_op (Op_cut l h e) m = list_cut_position l h e m"
| "run_op (Op_splice l h) m = list_splice l h m"
| "run_op (Op_splice_tail l h) m = list_splice_tail l h m"
| "run_op (Op_splice_init l h) m = list_splice_init l h m"
| "run_op (Op_splice_tail_init l h) m = list_splice_tail_init l h m"

text \<open>What a caller has to keep to, and what the operation does to the lists.\<close>

definition entry_of :: "nat \<Rightarrow> family \<Rightarrow> bool" where
  "entry_of n F \<longleftrightarrow> (\<exists>h xs. F h = Some xs \<and> n \<in> set xs)"

fun op_pre :: "list_op \<Rightarrow> family \<Rightarrow> bool" where
  "op_pre (Op_init l) F \<longleftrightarrow> \<not> entry_of l F"
| "op_pre (Op_add n h) F \<longleftrightarrow> loose n F \<and> n \<noteq> h \<and> F h \<noteq> None"
| "op_pre (Op_add_tail n h) F \<longleftrightarrow> loose n F \<and> n \<noteq> h \<and> F h \<noteq> None"
| "op_pre (Op_del n) F \<longleftrightarrow> entry_of n F"
| "op_pre (Op_del_init n) F \<longleftrightarrow> entry_of n F \<or> F n = Some []"
| "op_pre (Op_replace old n) F \<longleftrightarrow> loose n F \<and> n \<noteq> old \<and> (entry_of old F \<or> F old \<noteq> None)"
| "op_pre (Op_replace_init old n) F \<longleftrightarrow> loose n F \<and> n \<noteq> old \<and> (entry_of old F \<or> F old \<noteq> None)"
| "op_pre (Op_move n h) F \<longleftrightarrow> entry_of n F \<and> F h \<noteq> None"
| "op_pre (Op_move_tail n h) F \<longleftrightarrow> entry_of n F \<and> F h \<noteq> None"
| "op_pre (Op_rotate h) F \<longleftrightarrow> F h \<noteq> None"
| "op_pre (Op_cut l h e) F \<longleftrightarrow> loose l F \<and> l \<noteq> h \<and> (\<exists>xs. F h = Some xs \<and> e \<in> set (h # xs))"
| "op_pre (Op_splice l h) F \<longleftrightarrow> l \<noteq> h \<and> F l \<noteq> None \<and> F h \<noteq> None"
| "op_pre (Op_splice_tail l h) F \<longleftrightarrow> l \<noteq> h \<and> F l \<noteq> None \<and> F h \<noteq> None"
| "op_pre (Op_splice_init l h) F \<longleftrightarrow> l \<noteq> h \<and> F l \<noteq> None \<and> F h \<noteq> None"
| "op_pre (Op_splice_tail_init l h) F \<longleftrightarrow> l \<noteq> h \<and> F l \<noteq> None \<and> F h \<noteq> None"

definition entries :: "family \<Rightarrow> nat \<Rightarrow> nat list" where
  "entries F h = (case F h of None \<Rightarrow> [] | Some xs \<Rightarrow> xs)"

definition abs_add :: "nat \<Rightarrow> nat \<Rightarrow> family \<Rightarrow> family" where
  "abs_add n h F = F(n := None, h \<mapsto> n # entries F h)"

definition abs_add_tail :: "nat \<Rightarrow> nat \<Rightarrow> family \<Rightarrow> family" where
  "abs_add_tail n h F = F(n := None, h \<mapsto> entries F h @ [n])"

definition abs_replace :: "nat \<Rightarrow> nat \<Rightarrow> family \<Rightarrow> family" where
  "abs_replace old n F =
     (if F old \<noteq> None then F(old := None, n := F old)
      else (\<lambda>h. map_option (map (\<lambda>x. if x = old then n else x)) (F h))(n := None))"

definition abs_splice :: "nat \<Rightarrow> nat list \<Rightarrow> nat \<Rightarrow> family \<Rightarrow> family" where
  "abs_splice l xs h F = (if entries F l = [] then F else F(l := None, h \<mapsto> xs))"

fun abs_op :: "list_op \<Rightarrow> family \<Rightarrow> family" where
  "abs_op (Op_init l) F = F(l \<mapsto> [])"
| "abs_op (Op_add n h) F = abs_add n h F"
| "abs_op (Op_add_tail n h) F = abs_add_tail n h F"
| "abs_op (Op_del n) F = entries_without n F"
| "abs_op (Op_del_init n) F = (entries_without n F)(n \<mapsto> [])"
| "abs_op (Op_replace old n) F = abs_replace old n F"
| "abs_op (Op_replace_init old n) F = (abs_replace old n F)(old \<mapsto> [])"
| "abs_op (Op_move n h) F = abs_add n h (entries_without n F)"
| "abs_op (Op_move_tail n h) F = abs_add_tail n h (entries_without n F)"
| "abs_op (Op_rotate h) F = (if entries F h = [] then F else F(h \<mapsto> rotate1 (entries F h)))"
| "abs_op (Op_cut l h e) F =
     (let xs = entries F h
      in if xs = [] then F
         else if e = h then F(l \<mapsto> [])
         else F(l \<mapsto> takeWhile (\<lambda>x. x \<noteq> e) xs @ [e], h \<mapsto> tl (dropWhile (\<lambda>x. x \<noteq> e) xs)))"
| "abs_op (Op_splice l h) F = abs_splice l (entries F l @ entries F h) h F"
| "abs_op (Op_splice_tail l h) F = abs_splice l (entries F h @ entries F l) h F"
| "abs_op (Op_splice_init l h) F = (abs_splice l (entries F l @ entries F h) h F)(l \<mapsto> [])"
| "abs_op (Op_splice_tail_init l h) F = (abs_splice l (entries F h @ entries F l) h F)(l \<mapsto> [])"

subsection \<open>A step on some lists of the family\<close>

lemma lists_step:
  assumes ok: "lists_ok m F"
    and out: "\<And>h. h \<notin> K \<Longrightarrow> F' h = F h"
    and apart: "\<And>h xs. F h = Some xs \<Longrightarrow> h \<notin> K \<Longrightarrow> set (h # xs) \<inter> D = {}"
    and frame: "\<And>x. x \<notin> D \<Longrightarrow> lnext m' x = lnext m x \<and> lprev m' x = lprev m x"
    and new: "\<And>h xs. F' h = Some xs \<Longrightarrow> h \<in> K \<Longrightarrow> is_list m' h xs \<and> set (h # xs) \<subseteq> D"
    and sep: "\<And>h k xs ys. F' h = Some xs \<Longrightarrow> F' k = Some ys \<Longrightarrow> h \<in> K \<Longrightarrow> k \<in> K \<Longrightarrow> h \<noteq> k \<Longrightarrow>
      set (h # xs) \<inter> set (k # ys) = {}"
  shows "lists_ok m' F'"
  unfolding lists_ok_def
proof (intro conjI allI impI)
  fix h xs assume h: "F' h = Some xs"
  show "is_list m' h xs"
  proof (cases "h \<in> K")
    case True
    then show ?thesis using new [OF h] by blast
  next
    case False
    then have F: "F h = Some xs" using out h by simp
    have "is_list m h xs" using ok F by (simp add: lists_ok_def)
    then show ?thesis
    proof (rule path_frame)
      fix x assume "x \<in> set (h # xs)"
      then have "x \<notin> D" using apart [OF F False] by blast
      then show "lnext m' x = lnext m x \<and> lprev m' x = lprev m x" by (rule frame)
    qed
  qed
next
  fix h k xs ys assume h: "F' h = Some xs" and k: "F' k = Some ys" and "h \<noteq> k"
  show "set (h # xs) \<inter> set (k # ys) = {}"
  proof (cases "h \<in> K"; cases "k \<in> K")
    assume "h \<in> K" "k \<in> K"
    then show ?thesis using sep h k \<open>h \<noteq> k\<close> by blast
  next
    assume "h \<in> K" "k \<notin> K"
    then show ?thesis using new [OF h] apart [of k ys] out [of k] k by fastforce
  next
    assume "h \<notin> K" "k \<in> K"
    then show ?thesis using new [OF k] apart [of h xs] out [of h] h by fastforce
  next
    assume "h \<notin> K" "k \<notin> K"
    then show ?thesis using ok h k out \<open>h \<noteq> k\<close> unfolding lists_ok_def by simp
  qed
qed

lemma lists_okD:
  "lists_ok m F \<Longrightarrow> F h = Some xs \<Longrightarrow> is_list m h xs"
  "lists_ok m F \<Longrightarrow> F h = Some xs \<Longrightarrow> F k = Some ys \<Longrightarrow> h \<noteq> k \<Longrightarrow> set (h # xs) \<inter> set (k # ys) = {}"
  by (auto simp: lists_ok_def)

lemma init_step:
  assumes "lists_ok m F" "\<not> entry_of l F"
  shows "lists_ok (INIT_LIST_HEAD l m) (F(l \<mapsto> []))"
  by (rule lists_step [OF assms(1), of "{l}" _ "{l}"])
    (use assms(2) in \<open>auto simp: INIT_LIST_HEAD_def is_list_def entry_of_def\<close>)

lemma link_between_step:
  assumes ok: "lists_ok m F" and n: "loose n F" "n \<noteq> h" and h: "F h = Some (xs @ ys)"
    and p: "p = last (h # xs)" and q: "q = hd (ys @ [h])"
  shows "lists_ok (list_link n p q m) (F(n := None, h \<mapsto> xs @ n # ys))"
proof -
  have nh: "n \<notin> set (h # xs @ ys)" using n h unfolding loose_def by fastforce
  have l: "is_list (list_link n p q m) h (xs @ n # ys)"
    unfolding p q by (rule link_ok [OF lists_okD(1) [OF ok h] nh])
  have pq: "p \<in> set (h # xs @ ys)" "q \<in> set (h # xs @ ys)" using p q by (cases ys; auto)+
  show ?thesis
  proof (rule lists_step [OF ok, of "{n, h}" _ "set (n # h # xs @ ys)"])
    fix k zs assume k: "F k = Some zs" "k \<notin> {n, h}"
    show "set (k # zs) \<inter> set (n # h # xs @ ys) = {}"
      using lists_okD(2) [OF ok k(1) h] n(1) k by (auto simp: loose_def)
  next
    fix x assume "x \<notin> set (n # h # xs @ ys)"
    then show "lnext (list_link n p q m) x = lnext m x \<and> lprev (list_link n p q m) x = lprev m x"
      using pq by (auto simp: list_link_def)
  qed (use l n in \<open>auto split: if_splits\<close>)
qed

lemma del_step:
  assumes ok: "lists_ok m F" and e: "entry_of n F"
  shows "lists_ok (list_del n m) (entries_without n F)" "loose n (entries_without n F)"
proof -
  obtain h zs where h: "F h = Some zs" "n \<in> set zs" using e by (auto simp: entry_of_def)
  obtain xs ys where zs: "zs = xs @ n # ys" using split_list [OF h(2)] by blast
  have l: "is_list m h (xs @ n # ys)" using lists_okD(1) [OF ok h(1)] zs by simp
  have d: "distinct (h # xs @ n # ys)" using l by (simp add: is_list_def)
  have new: "is_list (list_del n m) h (xs @ ys)" by (rule unlink_ok [OF l])
  have pq: "lprev m n \<in> set (h # zs)" "lnext m n \<in> set (h # zs)"
    using list_neighbours [OF l] zs by (cases ys; auto)+
  have other: "n \<notin> set (k # ws)" if "F k = Some ws" "k \<noteq> h" for k ws
    using lists_okD(2) [OF ok that(1) h(1) that(2)] h(2) by auto
  show "lists_ok (list_del n m) (entries_without n F)"
  proof (rule lists_step [OF ok, of "{h}" _ "set (h # zs)"])
    fix k assume "k \<notin> {h}"
    then show "entries_without n F k = F k" using other [of k] by (cases "F k") (auto simp: entries_without_def)
  next
    fix k ws assume "F k = Some ws" "k \<notin> {h}"
    then show "set (k # ws) \<inter> set (h # zs) = {}" using lists_okD(2) [OF ok _ h(1)] by simp
  next
    fix x assume "x \<notin> set (h # zs)"
    then show "lnext (list_del n m) x = lnext m x \<and> lprev (list_del n m) x = lprev m x"
      using pq by (auto simp: list_del_def list_unlink_def)
  qed (use new d zs h in \<open>auto simp: entries_without_def\<close>)
  show "loose n (entries_without n F)"
    using other d zs h by (auto simp: loose_def entries_without_def)
qed


lemma replace_entry_step:
  assumes ok: "lists_ok m F" and e: "entry_of old F" "F old = None" and n: "loose n F" "n \<noteq> old"
  shows "lists_ok (list_replace old n m) (abs_replace old n F)"
proof -
  obtain h zs where h: "F h = Some zs" "old \<in> set zs" using e by (auto simp: entry_of_def)
  obtain xs ys where zs: "zs = xs @ old # ys" using split_list [OF h(2)] by blast
  have l: "is_list m h (xs @ old # ys)" using lists_okD(1) [OF ok h(1)] zs by simp
  have d: "distinct (h # xs @ old # ys)" using l by (simp add: is_list_def)
  have nz: "n \<notin> set zs" "n \<noteq> h" using n(1) h unfolding loose_def by fastforce+
  then have new: "is_list (list_replace old n m) h (xs @ n # ys)" using replace_ok [OF l, of n] zs by auto
  have pq: "lprev m old \<in> set (h # zs)" "lnext m old \<in> set (h # zs)"
    using list_neighbours [OF l] zs by (cases ys; auto)+
  have mapped: "map (\<lambda>x. if x = old then n else x) zs = xs @ n # ys"
    using d zs by (auto intro: map_idI)
  have other: "old \<notin> set (k # ws)" if "F k = Some ws" "k \<noteq> h" for k ws
    using lists_okD(2) [OF ok that(1) h(1) that(2)] h(2) by auto
  show ?thesis
  proof (rule lists_step [OF ok, of "{h, n}" _ "set (n # h # zs)"])
    fix k assume "k \<notin> {h, n}"
    then show "abs_replace old n F k = F k" using other [of k] e(2)
      by (cases "F k") (auto simp: abs_replace_def intro!: map_idI)
  next
    fix k ws assume k: "F k = Some ws" "k \<notin> {h, n}"
    then show "set (k # ws) \<inter> set (n # h # zs) = {}"
      using lists_okD(2) [OF ok k(1) h(1)] n(1) by (auto simp: loose_def)
  next
    fix x assume "x \<notin> set (n # h # zs)"
    then show "lnext (list_replace old n m) x = lnext m x \<and> lprev (list_replace old n m) x = lprev m x"
      using pq nz h(2) by (auto simp: list_replace_def Let_def)
  qed (use new d zs h e(2) mapped nz in \<open>auto simp: abs_replace_def split: if_splits\<close>)
qed

lemma replace_head_step:
  assumes ok: "lists_ok m F" and h: "F old = Some xs" and n: "loose n F" "n \<noteq> old"
  shows "lists_ok (list_replace old n m) (abs_replace old n F)"
proof -
  have l: "is_list m old xs" by (rule lists_okD(1) [OF ok h])
  have nz: "n \<notin> set (old # xs)" using n h unfolding loose_def by fastforce
  have new: "is_list (list_replace old n m) n xs" by (rule replace_head_ok [OF l nz])
  have d: "distinct (old # xs)" using l by (simp add: is_list_def)
  have pq: "lprev m old \<in> set (old # xs)" "lnext m old \<in> set (old # xs)"
    using list_last [OF l] list_first [OF l] by (cases xs; auto)+
  show ?thesis
  proof (rule lists_step [OF ok, of "{old, n}" _ "set (n # old # xs)"])
    fix k ws assume k: "F k = Some ws" "k \<notin> {old, n}"
    then show "set (k # ws) \<inter> set (n # old # xs) = {}"
      using lists_okD(2) [OF ok k(1) h] n(1) by (auto simp: loose_def)
  next
    fix x assume "x \<notin> set (n # old # xs)"
    then show "lnext (list_replace old n m) x = lnext m x \<and> lprev (list_replace old n m) x = lprev m x"
      using pq by (auto simp: list_replace_def Let_def)
  qed (use new h n in \<open>auto simp: abs_replace_def split: if_splits\<close>)
qed

lemma join_step:
  assumes ok: "lists_ok m F" and l: "F l = Some xs" "xs \<noteq> []" and h: "F h = Some (ys @ zs)" and lh: "l \<noteq> h"
    and p: "p = last (h # ys)" and q: "q = hd (zs @ [h])"
  shows "lists_ok (list_join l p q m) (F(l := None, h \<mapsto> ys @ xs @ zs))"
proof -
  have ll: "is_list m l xs" and hh: "is_list m h (ys @ zs)" using lists_okD(1) [OF ok] l h by auto
  have dis: "set (l # xs) \<inter> set (h # ys @ zs) = {}" by (rule lists_okD(2) [OF ok l(1) h lh])
  have new: "is_list (list_join l p q m) h (ys @ xs @ zs)" unfolding p q by (rule join_ok [OF ll hh dis l(2)])
  have pq: "p \<in> set (h # ys @ zs)" "q \<in> set (h # ys @ zs)" using p q by (cases zs; auto)+
  have fl: "lnext m l \<in> set xs" "lprev m l \<in> set xs"
    using list_first [OF ll] list_last [OF ll] l(2) by (cases xs; auto)+
  show ?thesis
  proof (rule lists_step [OF ok, of "{l, h}" _ "set (l # h # ys @ xs @ zs)"])
    fix k ws assume k: "F k = Some ws" "k \<notin> {l, h}"
    then show "set (k # ws) \<inter> set (l # h # ys @ xs @ zs) = {}"
      using lists_okD(2) [OF ok k(1) h] lists_okD(2) [OF ok k(1) l(1)] by auto
  next
    fix x assume "x \<notin> set (l # h # ys @ xs @ zs)"
    then show "lnext (list_join l p q m) x = lnext m x \<and> lprev (list_join l p q m) x = lprev m x"
      using pq fl by (auto simp: list_join_def Let_def)
  qed (use new lh in \<open>auto split: if_splits\<close>)
qed

lemma cut_step:
  assumes ok: "lists_ok m F" and h: "F h = Some (xs @ e # ys)" and l: "loose l F" "l \<noteq> h"
  shows "lists_ok (list_cut l h e m) (F(l \<mapsto> xs @ [e], h \<mapsto> ys))"
proof -
  have hh: "is_list m h (xs @ e # ys)" by (rule lists_okD(1) [OF ok h])
  have d: "distinct (h # xs @ e # ys)" using hh by (simp add: is_list_def)
  have lz: "l \<notin> set (h # xs @ e # ys)" using l h unfolding loose_def by fastforce
  note new = cut_ok [OF hh lz]
  have ends: "lnext m h \<in> set (xs @ [e])" "lnext m e \<in> set (h # ys)"
    using list_first [OF hh] list_neighbours(2) [OF hh] by (cases xs; cases ys; auto)+
  show ?thesis
  proof (rule lists_step [OF ok, of "{l, h}" _ "set (l # h # xs @ e # ys)"])
    fix k ws assume k: "F k = Some ws" "k \<notin> {l, h}"
    then show "set (k # ws) \<inter> set (l # h # xs @ e # ys) = {}"
      using lists_okD(2) [OF ok k(1) h] l(1) by (auto simp: loose_def)
  next
    fix x assume "x \<notin> set (l # h # xs @ e # ys)"
    then show "lnext (list_cut l h e m) x = lnext m x \<and> lprev (list_cut l h e m) x = lprev m x"
      using ends by (auto simp: list_cut_def Let_def)
  qed (use new d lz l(2) in \<open>auto split: if_splits\<close>)
qed

subsection \<open>The operations\<close>

lemma entry_has_owner:
  "lists_ok m F \<Longrightarrow> F h = Some xs \<Longrightarrow> entry_of h F \<Longrightarrow> False"
  unfolding lists_ok_def entry_of_def by (metis IntI empty_iff is_list_def list.set_intros distinct.simps(2))

lemma add_step:
  assumes "lists_ok m F" "loose n F" "n \<noteq> h" "F h \<noteq> None"
  shows "lists_ok (list_add n h m) (abs_add n h F)" "lists_ok (list_add_tail n h m) (abs_add_tail n h F)"
proof -
  obtain xs where h: "F h = Some xs" using assms(4) by blast
  note l = lists_okD(1) [OF assms(1) h]
  show "lists_ok (list_add n h m) (abs_add n h F)"
    using link_between_step [OF assms(1-3), of "[]" xs] h list_first [OF l]
    by (simp add: list_add_def abs_add_def entries_def)
  show "lists_ok (list_add_tail n h m) (abs_add_tail n h F)"
    using link_between_step [OF assms(1-3), of xs "[]"] h list_last [OF l]
    by (simp add: list_add_tail_def abs_add_tail_def entries_def)
qed

lemma replace_step:
  assumes "lists_ok m F" "loose n F" "n \<noteq> old" "entry_of old F \<or> F old \<noteq> None"
  shows "lists_ok (list_replace old n m) (abs_replace old n F)"
  using replace_entry_step [OF assms(1) _ _ assms(2,3)] replace_head_step [OF assms(1) _ assms(2,3)] assms(4)
  by (cases "F old") auto

lemma splice_step:
  assumes ok: "lists_ok m F" and lh: "l \<noteq> h" and l: "F l = Some xs" and h: "F h = Some ys"
  shows "lists_ok (list_splice l h m) (abs_splice l (entries F l @ entries F h) h F)"
    "lists_ok (list_splice_tail l h m) (abs_splice l (entries F h @ entries F l) h F)"
  using join_step [OF ok l _ _ lh, of "[]" ys] join_step [OF ok l _ _ lh, of ys "[]"] ok l h
    list_first [OF lists_okD(1) [OF ok h]] list_last [OF lists_okD(1) [OF ok h]]
    list_empty_iff [OF lists_okD(1) [OF ok l]]
  by (auto simp: list_splice_def list_splice_tail_def abs_splice_def entries_def)

lemma move_step:
  assumes ok: "lists_ok m F" and e: "entry_of n F" and h: "F h \<noteq> None"
  shows "lists_ok (list_move n h m) (abs_add n h (entries_without n F))"
    "lists_ok (list_move_tail n h m) (abs_add_tail n h (entries_without n F))"
proof -
  have nh: "n \<noteq> h" using entry_has_owner [OF ok _ e] h by auto
  have "entries_without n F h \<noteq> None" using h by (simp add: entries_without_def)
  from add_step [OF del_step [OF ok e] nh this]
  show "lists_ok (list_move n h m) (abs_add n h (entries_without n F))"
    "lists_ok (list_move_tail n h m) (abs_add_tail n h (entries_without n F))"
    by (simp_all add: list_move_def list_move_tail_def)
qed

lemma del_init_step:
  assumes ok: "lists_ok m F" and e: "entry_of n F \<or> F n = Some []"
  shows "lists_ok (list_del_init n m) ((entries_without n F)(n \<mapsto> []))"
proof (cases "entry_of n F")
  case True
  have "\<not> entry_of n (entries_without n F)" by (auto simp: entry_of_def entries_without_def)
  then show ?thesis using init_step [OF del_step(1) [OF ok True]] by (simp add: list_del_init_def)
next
  case False
  then have n: "F n = Some []" using e by blast
  then have "lnext m n = n" "lprev m n = n" using lists_okD(1) [OF ok n] by (simp_all add: is_list_def)
  then have "list_del_init n m = INIT_LIST_HEAD n m"
    by (simp add: list_del_init_def list_del_def list_unlink_def INIT_LIST_HEAD_def set_next_def set_prev_def)
  moreover have "entries_without n F = F"
    using False by (auto simp: entries_without_def entry_of_def fun_eq_iff option.map_ident_strong
      intro!: option.map_ident_strong)
  ultimately show ?thesis using init_step [OF ok False] by simp
qed


lemma replaced_is_no_entry: "loose n F \<Longrightarrow> n \<noteq> old \<Longrightarrow> F old \<noteq> None \<longrightarrow> \<not> entry_of old F \<Longrightarrow> \<not> entry_of old (abs_replace old n F)"
  by (auto simp: entry_of_def abs_replace_def split: if_splits)

lemma spliced_is_no_entry:
  "lists_ok m F \<Longrightarrow> F l = Some xs \<Longrightarrow> F h = Some ys \<Longrightarrow> l \<noteq> h \<Longrightarrow> set zs \<subseteq> set xs \<union> set ys \<Longrightarrow>
   \<not> entry_of l (abs_splice l zs h F)"
proof
  assume ok: "lists_ok m F" and F: "F l = Some xs" "F h = Some ys" and lh: "l \<noteq> h"
    and zs: "set zs \<subseteq> set xs \<union> set ys" and e: "entry_of l (abs_splice l zs h F)"
  have no: "\<not> entry_of l F" using entry_has_owner [OF ok F(1)] by blast
  then have "l \<notin> set zs" using zs F by (auto simp: entry_of_def)
  then show False using e no by (auto simp: entry_of_def abs_splice_def split: if_splits)
qed

lemma rotate_step:
  assumes ok: "lists_ok m F" and h: "F h \<noteq> None"
  shows "lists_ok (list_rotate_left h m) (if entries F h = [] then F else F(h \<mapsto> rotate1 (entries F h)))"
proof -
  obtain xs where xs: "F h = Some xs" using h by blast
  note l = lists_okD(1) [OF ok xs]
  show ?thesis
  proof (cases xs)
    case Nil
    then show ?thesis using ok xs list_empty_iff [OF l] by (simp add: list_rotate_left_def entries_def)
  next
    case (Cons f fs)
    have e: "entry_of f F" unfolding entry_of_def by (rule exI [of _ h], rule exI [of _ xs]) (simp add: xs Cons)
    have d: "distinct (h # f # fs)" using l Cons by (simp add: is_list_def)
    have f: "F f = None" using entry_has_owner [OF ok _ e] by (cases "F f") auto
    have other: "f \<notin> set ws" if "F k = Some ws" "k \<noteq> h" for k ws
      using lists_okD(2) [OF ok that(1) xs that(2)] Cons by auto
    have "abs_add_tail f h (entries_without f F) = F(h \<mapsto> fs @ [f])"
    proof
      fix k
      show "abs_add_tail f h (entries_without f F) k = (F(h \<mapsto> fs @ [f])) k"
        using xs Cons d f other [of k]
        by (cases "F k") (auto simp: abs_add_tail_def entries_def entries_without_def)
    qed
    moreover have "list_rotate_left h m = list_move_tail f h m"
      using list_empty_iff [OF l] list_first [OF l] Cons by (simp add: list_rotate_left_def)
    ultimately show ?thesis using move_step(2) [OF ok e h] xs Cons by (simp add: entries_def)
  qed
qed

lemma cut_position_step:
  assumes ok: "lists_ok m F" and l: "loose l F" "l \<noteq> h" and h: "F h = Some xs" and e: "e \<in> set (h # xs)"
  shows "lists_ok (list_cut_position l h e m) (abs_op (Op_cut l h e) F)"
proof (cases "xs = []")
  case True
  then show ?thesis using ok h list_empty_iff [OF lists_okD(1) [OF ok h]]
    by (simp add: list_cut_position_def entries_def)
next
  case False
  note hh = lists_okD(1) [OF ok h]
  have open_cut: "list_cut_position l h e m = (if e = h then INIT_LIST_HEAD l m else list_cut l h e m)"
    using False e list_empty_iff [OF hh] list_is_singular_iff [OF hh] list_first [OF hh]
    by (cases xs) (auto simp: list_cut_position_def)
  have "\<not> entry_of l F" using l(1) by (auto simp: loose_def entry_of_def)
  then have a: "e = h \<Longrightarrow> ?thesis" unfolding open_cut using init_step [OF ok] False h by (simp add: entries_def)
  have "?thesis" if eh: "e \<noteq> h"
  proof -
    have "e \<in> set xs" using e eh by simp
    then obtain us vs where xs: "xs = us @ e # vs" and us: "e \<notin> set us" using split_list_first by metis
    have parts: "takeWhile (\<lambda>x. x \<noteq> e) xs = us" "dropWhile (\<lambda>x. x \<noteq> e) xs = e # vs"
      using us by (auto simp: xs takeWhile_append dropWhile_append)
    have "lists_ok (list_cut l h e m) (F(l \<mapsto> us @ [e], h \<mapsto> vs))"
      by (rule cut_step [OF ok _ l]) (use h xs in simp)
    moreover have "abs_op (Op_cut l h e) F = F(l \<mapsto> us @ [e], h \<mapsto> vs)"
      using False eh h parts by (simp add: entries_def Let_def)
    ultimately show ?thesis using eh by (simp only: open_cut if_False)
  qed
  with a show ?thesis by blast
qed

lemma splice_init_step:
  assumes ok: "lists_ok m F" and lh: "l \<noteq> h" and l: "F l = Some xs" and h: "F h = Some ys"
  shows "lists_ok (list_splice_init l h m) ((abs_splice l (entries F l @ entries F h) h F)(l \<mapsto> []))"
    "lists_ok (list_splice_tail_init l h m) ((abs_splice l (entries F h @ entries F l) h F)(l \<mapsto> []))"
proof -
  note em = list_empty_iff [OF lists_okD(1) [OF ok l]]
  have no: "\<not> entry_of l (abs_splice l (entries F l @ entries F h) h F)"
    "\<not> entry_of l (abs_splice l (entries F h @ entries F l) h F)"
    by (rule spliced_is_no_entry [OF ok l h lh]; simp add: entries_def l h)+
  have nil: "xs = [] \<Longrightarrow> (abs_splice l zs h F)(l \<mapsto> []) = F" for zs
    using l by (auto simp: abs_splice_def entries_def)
  show "lists_ok (list_splice_init l h m) ((abs_splice l (entries F l @ entries F h) h F)(l \<mapsto> []))"
    using init_step [OF splice_step(1) [OF ok lh l h] no(1)] em nil ok
    by (cases "xs = []") (simp_all add: list_splice_init_def list_splice_def)
  show "lists_ok (list_splice_tail_init l h m) ((abs_splice l (entries F h @ entries F l) h F)(l \<mapsto> []))"
    using init_step [OF splice_step(2) [OF ok lh l h] no(2)] em nil ok
    by (cases "xs = []") (simp_all add: list_splice_tail_init_def list_splice_tail_def)
qed

lemma op_step: "lists_ok m F \<Longrightarrow> op_pre p F \<Longrightarrow> lists_ok (run_op p m) (abs_op p F)"
proof (cases p)
  case (Op_replace_init old n)
  assume ok: "lists_ok m F" and pre: "op_pre p F"
  have "\<not> entry_of old (abs_replace old n F)"
    by (rule replaced_is_no_entry) (use pre Op_replace_init entry_has_owner [OF ok] in auto)
  from init_step [OF replace_step [OF ok] this] pre Op_replace_init show ?thesis
    by (simp add: list_replace_init_def)
next
  case (Op_cut l h e)
  assume ok: "lists_ok m F" and pre: "op_pre p F"
  then obtain xs where h: "F h = Some xs" "e \<in> set (h # xs)" using Op_cut by auto
  have l: "loose l F" "l \<noteq> h" using pre Op_cut by auto
  show ?thesis unfolding Op_cut run_op.simps by (rule cut_position_step [OF ok l h])
qed (auto simp: init_step add_step del_step del_init_step replace_step move_step rotate_step
  dest: splice_step splice_init_step simp del: abs_op.simps(11))

section \<open>Programs over lists\<close>

fun ops_pre :: "list_op list \<Rightarrow> family \<Rightarrow> bool" where
  "ops_pre [] F \<longleftrightarrow> True"
| "ops_pre (p # ps) F \<longleftrightarrow> op_pre p F \<and> ops_pre ps (abs_op p F)"

text \<open>
  C39: Every sequence of list operations a program runs on its heads, each within its contract, leaves
  behind every head exactly the list that the operations on sequences give, linked in both directions,
  with no node in two lists.
\<close>

theorem linked_lists_refine:
  "lists_ok m F \<Longrightarrow> ops_pre ps F \<Longrightarrow> lists_ok (fold run_op ps m) (fold abs_op ps F)"
  by (induction ps arbitrary: m F) (auto simp: op_step simp del: run_op.simps abs_op.simps op_pre.simps)

theorem linked_lists_refine_witness:
  "lists_ok (fold run_op [Op_init 7, Op_add_tail 1 7, Op_add_tail 2 7, Op_add 3 7, Op_cut 8 7 1, Op_del_init 3] \<lparr>lnext = id, lprev = id\<rparr>)
     [7 \<mapsto> [2], 8 \<mapsto> [1], 3 \<mapsto> []]"
proof -
  have "lists_ok \<lparr>lnext = id, lprev = id\<rparr> Map.empty" by (simp add: lists_ok_def)
  moreover have "ops_pre [Op_init 7, Op_add_tail 1 7, Op_add_tail 2 7, Op_add 3 7, Op_cut 8 7 1, Op_del_init 3] Map.empty"
    by (simp add: entry_of_def loose_def abs_add_def abs_add_tail_def entries_def Let_def)
  moreover have "fold abs_op [Op_init 7, Op_add_tail 1 7, Op_add_tail 2 7, Op_add 3 7, Op_cut 8 7 1, Op_del_init 3] Map.empty
      = [7 \<mapsto> [2], 8 \<mapsto> [1], 3 \<mapsto> []]"
    by (simp add: abs_add_def abs_add_tail_def entries_def entries_without_def Let_def fun_eq_iff)
  ultimately show ?thesis using linked_lists_refine by metis
qed

section \<open>Loops that take nodes out\<close>

text \<open>\<open>dropped\<close> are the nodes the body takes out, when its state \<open>s\<close> changes by \<open>f\<close>.\<close>

fun dropped :: "('s \<Rightarrow> nat \<Rightarrow> bool) \<Rightarrow> (nat \<Rightarrow> 's \<Rightarrow> 's) \<Rightarrow> nat list \<Rightarrow> 's \<Rightarrow> nat list" where
  "dropped del f [] s = []"
| "dropped del f (x # xs) s = (if del s x then x # dropped del f xs (f x s) else dropped del f xs (f x s))"

definition dropping :: "('s \<Rightarrow> nat \<Rightarrow> bool) \<Rightarrow> (nat \<Rightarrow> 's \<Rightarrow> 's) \<Rightarrow> nat \<Rightarrow> list_mem \<Rightarrow> 's \<Rightarrow> list_mem \<times> 's" where
  "dropping del f x m s = (if del s x then list_del_init x m else m, f x s)"

definition take_out :: "nat list \<Rightarrow> family \<Rightarrow> family" where
  "take_out ds F = fold (\<lambda>x F. (entries_without x F)(x \<mapsto> [])) ds F"

lemma safe_loop:
  "lists_ok m F \<Longrightarrow> F h = Some (ys @ xs) \<Longrightarrow> pos = hd (xs @ [h]) \<Longrightarrow> n = lnext m pos \<Longrightarrow>
   \<exists>m'. for_each_safe_loop (dropping del f) h pos n m s = Some (m', fold f xs s) \<and>
     lists_ok m' (take_out (dropped del f xs s) F)"
proof (induction xs arbitrary: ys m F s pos n)
  case Nil
  then show ?case by (simp add: for_each_safe_loop.simps take_out_def)
next
  case (Cons x xs)
  have l: "is_list m h (ys @ x # xs)" using lists_okD(1) Cons.prems(1,2) by blast
  have d: "distinct (h # ys @ x # xs)" using l by (simp add: is_list_def)
  have pos: "pos = x" "x \<noteq> h" using Cons.prems(3) d by auto
  have n: "n = hd (xs @ [h])" using list_neighbours(2) [OF l] Cons.prems(4) pos by simp
  have unfold_once: "for_each_safe_loop (dropping del f) h pos n m s =
      for_each_safe_loop (dropping del f) h n (lnext (fst (dropping del f x m s)) n) (fst (dropping del f x m s)) (f x s)"
    by (subst for_each_safe_loop.simps) (simp add: pos dropping_def)
  show ?case
  proof (cases "del s x")
    case True
    let ?F = "(entries_without x F)(x \<mapsto> [])"
    have e: "entry_of x F" unfolding entry_of_def
      by (rule exI [of _ h], rule exI [of _ "ys @ x # xs"]) (simp add: Cons.prems(2))
    have "lists_ok (list_del_init x m) ?F" by (rule del_init_step [OF Cons.prems(1)]) (simp add: e)
    moreover have "?F h = Some (ys @ xs)" using Cons.prems(2) d pos by (simp add: entries_without_def)
    ultimately have "\<exists>m'. for_each_safe_loop (dropping del f) h n (lnext (list_del_init x m) n) (list_del_init x m) (f x s)
        = Some (m', fold f xs (f x s)) \<and> lists_ok m' (take_out (dropped del f xs (f x s)) ?F)"
      by (rule Cons.IH [OF _ _ n refl])
    moreover have "dropping del f x m s = (list_del_init x m, f x s)" using True by (simp add: dropping_def)
    moreover have "take_out (dropped del f (x # xs) s) F = take_out (dropped del f xs (f x s)) ?F"
      using True by (simp add: take_out_def)
    ultimately show ?thesis by (simp only: unfold_once fst_conv fold_Cons comp_apply)
  next
    case False
    have "F h = Some ((ys @ [x]) @ xs)" using Cons.prems(2) by simp
    then have "\<exists>m'. for_each_safe_loop (dropping del f) h n (lnext m n) m (f x s)
        = Some (m', fold f xs (f x s)) \<and> lists_ok m' (take_out (dropped del f xs (f x s)) F)"
      by (rule Cons.IH [OF Cons.prems(1) _ n refl])
    moreover have "dropping del f x m s = (m, f x s)" using False by (simp add: dropping_def)
    ultimately show ?thesis using False by (simp add: unfold_once)
  qed
qed

lemma take_out_entries: "F h = Some xs \<Longrightarrow> h \<notin> set ds \<Longrightarrow> take_out ds F h = Some (filter (\<lambda>x. x \<notin> set ds) xs)"
proof (induction ds arbitrary: F xs)
  case (Cons d ds)
  have "take_out ds ((entries_without d F)(d \<mapsto> [])) h = Some (filter (\<lambda>x. x \<notin> set ds) (removeAll d xs))"
    by (rule Cons.IH) (use Cons.prems in \<open>simp_all add: entries_without_def\<close>)
  moreover have "take_out (d # ds) F = take_out ds ((entries_without d F)(d \<mapsto> []))" by (simp add: take_out_def)
  moreover have "filter (\<lambda>x. x \<notin> set ds) (removeAll d xs) = filter (\<lambda>x. x \<notin> set (d # ds)) xs"
    by (simp add: removeAll_filter_not_eq) (rule filter_cong; auto)
  ultimately show ?case by (simp only:)
qed (simp add: take_out_def)

lemma take_out_others:
  assumes "lists_ok m F" "F h = Some xs" "k \<noteq> h" "F k \<noteq> None" "set ds \<subseteq> set xs"
  shows "take_out ds F k = F k"
proof -
  obtain ys where k: "F k = Some ys" using assms(4) by blast
  have "set (k # ys) \<inter> set (h # xs) = {}" by (rule lists_okD(2) [OF assms(1) k assms(2,3)])
  then have "k \<notin> set ds" "filter (\<lambda>x. x \<notin> set ds) ys = ys"
    using assms(5) by (auto intro!: filter_True)
  then show ?thesis using take_out_entries [of F k ys ds] k by simp
qed

lemma take_out_empty: "F d = Some [] \<Longrightarrow> take_out ds F d = Some []"
  by (induction ds arbitrary: F) (simp_all add: take_out_def entries_without_def)

lemma take_out_nodes: "d \<in> set ds \<Longrightarrow> take_out ds F d = Some []"
proof (induction ds arbitrary: F)
  case (Cons x ds)
  then show ?case using take_out_empty [of "(entries_without x F)(x \<mapsto> [])" x ds]
    by (cases "d = x") (auto simp: take_out_def)
qed simp

lemma dropped_subset: "set (dropped del f xs s) \<subseteq> set xs"
  by (induction xs arbitrary: s) auto

text \<open>
  C40: A \<open>list_for_each_safe\<close> loop whose body may take out the node it visits returns; it visits every
  node of the list once and in order, the list keeps the nodes not taken out in their order, each node taken
  out is an empty list of its own, and no other list changes.
\<close>

theorem safe_loop_visits_all:
  assumes "lists_ok m F" "F h = Some xs"
  shows "\<exists>m' F'. list_for_each_safe (dropping del f) h m s = Some (m', fold f xs s) \<and> lists_ok m' F' \<and>
      F' h = Some (filter (\<lambda>x. x \<notin> set (dropped del f xs s)) xs) \<and>
      (\<forall>d\<in>set (dropped del f xs s). F' d = Some []) \<and> (\<forall>k. k \<noteq> h \<and> F k \<noteq> None \<longrightarrow> F' k = F k)"
proof -
  note l = lists_okD(1) [OF assms]
  have "take_out (dropped del f xs s) F k = F k" if "k \<noteq> h" "F k \<noteq> None" for k
    by (rule take_out_others [OF assms(1,2) that dropped_subset])
  moreover have "\<forall>d\<in>set (dropped del f xs s). take_out (dropped del f xs s) F d = Some []"
    using take_out_nodes by blast
  moreover
  have "h \<notin> set (dropped del f xs s)" using dropped_subset [of del f xs s] l by (auto simp: is_list_def)
  note take_out_entries [of F h xs, OF assms(2) this]
  moreover note safe_loop [OF assms(1), of h "[]" xs _ _ del f s, OF _ list_first [OF l] refl]
  ultimately show ?thesis using assms(2) by (auto simp: list_for_each_safe_def)
qed

theorem safe_loop_visits_all_witness:
  "\<exists>m'. list_for_each_safe (dropping (\<lambda>s x. x = 2) (\<lambda>x s. s @ [x])) 7
        (fold run_op [Op_init 7, Op_add_tail 1 7, Op_add_tail 2 7, Op_add_tail 3 7] \<lparr>lnext = id, lprev = id\<rparr>) []
      = Some (m', [1, 2, 3]) \<and> is_list m' 7 [1, 3]"
proof -
  let ?m = "fold run_op [Op_init 7, Op_add_tail 1 7, Op_add_tail 2 7, Op_add_tail 3 7] \<lparr>lnext = id, lprev = id\<rparr>"
  have "lists_ok ?m [7 \<mapsto> [1, 2, 3]]"
    by (simp add: lists_ok_def is_list_def INIT_LIST_HEAD_def list_add_tail_def list_link_def)
  from safe_loop_visits_all [OF this, of 7 "[1, 2, 3]" "\<lambda>s x. x = 2" "\<lambda>x s. s @ [x]" "[]"]
  show ?thesis by (auto simp: lists_ok_def)
qed


section \<open>Loops that only look\<close>

lemma for_each_visits:
  assumes "is_list m h xs"
  shows "list_for_each (\<lambda>x m s. (m, f x s)) h m s = Some (m, fold f xs s)"
proof -
  have "for_each_loop (\<lambda>x m s. (m, f x s)) h (hd (zs @ [h])) m s = Some (m, fold f zs s)"
    if "is_list m h (ys @ zs)" for ys zs s
    using that
  proof (induction zs arbitrary: ys s)
    case Nil
    then show ?case by (simp add: for_each_loop.simps)
  next
    case (Cons z zs)
    have "is_list m h ((ys @ [z]) @ zs)" using Cons.prems by simp
    note rest = Cons.IH [OF this, of "f z s"]
    have "z \<noteq> h" using Cons.prems by (auto simp: is_list_def)
    then show ?case using rest list_neighbours(2) [OF Cons.prems]
      by (simp add: for_each_loop.simps [of _ _ z])
  qed
  from this [of "[]" xs s] assms list_first [OF assms] show ?thesis by (simp add: list_for_each_def)
qed

lemma for_each_prev_visits:
  assumes "is_list m h xs"
  shows "list_for_each_prev (\<lambda>x m s. (m, f x s)) h m s = Some (m, fold f (rev xs) s)"
proof -
  have "for_each_prev_loop (\<lambda>x m s. (m, f x s)) h (last (h # zs)) m s = Some (m, fold f (rev zs) s)"
    if "is_list m h (zs @ ys)" for ys zs s
    using that
  proof (induction zs arbitrary: ys s rule: rev_induct)
    case Nil
    then show ?case by (simp add: for_each_prev_loop.simps)
  next
    case (snoc z zs)
    have l: "is_list m h (zs @ z # ys)" using snoc.prems by simp
    note rest = snoc.IH [OF l, of "f z s"]
    have "z \<noteq> h" using l by (auto simp: is_list_def)
    then show ?case using rest list_neighbours(1) [OF l]
      by (simp add: for_each_prev_loop.simps [of _ _ z])
  qed
  from this [of xs "[]" s] assms list_last [OF assms] show ?thesis by (simp add: list_for_each_prev_def)
qed

section \<open>Queues\<close>

text \<open>
  What the worker threads need of the queue of tasks: a task is put at the end, the oldest is
  taken out. \<open>rep\<close> gives the waiting tasks, \<open>free\<close> the nodes that may be put in.
\<close>

datatype queue_event = Put nat | Take

fun abs_queue :: "queue_event list \<Rightarrow> nat list \<Rightarrow> nat option list \<times> nat list" where
  "abs_queue [] xs = ([], xs)"
| "abs_queue (Put n # es) xs = abs_queue es (xs @ [n])"
| "abs_queue (Take # es) [] = (case abs_queue es [] of (out, zs) \<Rightarrow> (None # out, zs))"
| "abs_queue (Take # es) (x # xs) = (case abs_queue es xs of (out, zs) \<Rightarrow> (Some x # out, zs))"

fun run_queue :: "(nat \<Rightarrow> 'm \<Rightarrow> 'm) \<Rightarrow> ('m \<Rightarrow> nat option \<times> 'm) \<Rightarrow> queue_event list \<Rightarrow> 'm \<Rightarrow> nat option list \<times> 'm" where
  "run_queue enq deq [] m = ([], m)"
| "run_queue enq deq (Put n # es) m = run_queue enq deq es (enq n m)"
| "run_queue enq deq (Take # es) m =
     (case deq m of (r, m1) \<Rightarrow> case run_queue enq deq es m1 of (out, m2) \<Rightarrow> (r # out, m2))"

fun puts :: "queue_event list \<Rightarrow> nat list" where
  "puts [] = []"
| "puts (Put n # es) = n # puts es"
| "puts (Take # es) = puts es"

locale linked_queue =
  fixes rep :: "'m \<Rightarrow> nat list \<Rightarrow> bool" and free :: "nat \<Rightarrow> bool"
    and enq :: "nat \<Rightarrow> 'm \<Rightarrow> 'm" and deq :: "'m \<Rightarrow> nat option \<times> 'm"
  assumes enq_rep: "rep m xs \<Longrightarrow> free n \<Longrightarrow> n \<notin> set xs \<Longrightarrow> rep (enq n m) (xs @ [n])"
    and deq_empty: "rep m [] \<Longrightarrow> deq m = (None, m)"
    and deq_rep: "rep m (x # xs) \<Longrightarrow> fst (deq m) = Some x \<and> rep (snd (deq m)) xs"
begin

lemma queue_refines:
  "rep m xs \<Longrightarrow> distinct (xs @ puts es) \<Longrightarrow> list_all free (puts es) \<Longrightarrow>
   fst (run_queue enq deq es m) = fst (abs_queue es xs) \<and>
   rep (snd (run_queue enq deq es m)) (snd (abs_queue es xs))"
proof (induction es arbitrary: m xs)
  case (Cons e es)
  show ?case
  proof (cases e)
    case (Put n)
    with Cons.prems have "rep (enq n m) (xs @ [n])" by (auto intro: enq_rep)
    from Cons.IH [OF this] Cons.prems Put show ?thesis by simp
  next
    case Take
    show ?thesis
    proof (cases xs)
      case Nil
      with Cons.prems Take Cons.IH [of m "[]"] deq_empty [of m] show ?thesis
        by (auto split: prod.splits)
    next
      case (Cons x ys)
      with Cons.prems have "fst (deq m) = Some x \<and> rep (snd (deq m)) ys" by (simp add: deq_rep)
      with Cons.IH [of "snd (deq m)" ys] Cons.prems Take Cons show ?thesis
        by (auto split: prod.splits)
    qed
  qed
qed simp

end

text \<open>
  The loop of \<open>pro_rotate_task\<close> takes the first node and leaves the loop at once; a task is put in
  with \<open>list_add_tail\<close> (\<open>pro_receive_data\<close>). The count of the waiting tasks is in \<open>Order\<close>.
\<close>

definition take_task :: "nat \<Rightarrow> list_mem \<Rightarrow> nat option \<times> list_mem" where
  "take_task h m = (let pos = lnext m h in if pos = h then (None, m) else (Some pos, list_del_init pos m))"

lemma take_task_rep:
  assumes "is_list m h (x # xs)"
  shows "fst (take_task h m) = Some x \<and> is_list (snd (take_task h m)) h xs"
proof -
  have x: "lnext m h = x" "x \<noteq> h" "x \<notin> set xs" using assms by (auto simp: is_list_def)
  have "is_list (list_del x m) h xs" using unlink_ok [of m h "[]" x xs] assms by simp
  then have "is_list (list_del_init x m) h xs"
    by (rule path_frame) (use x in \<open>auto simp: list_del_init_def INIT_LIST_HEAD_def\<close>)
  then show ?thesis using x by (simp add: take_task_def Let_def)
qed

interpretation tasks: linked_queue "\<lambda>m. is_list m h" "\<lambda>n. n \<noteq> h" "\<lambda>n. list_add_tail n h" "take_task h" for h
proof
  fix m xs n assume l: "is_list m h xs" and n: "n \<noteq> h" "n \<notin> set xs"
  show "is_list (list_add_tail n h m) h (xs @ [n])"
    using link_ok [of m h xs "[]" n] l n list_last [OF l] by (simp add: list_add_tail_def)
next
  fix m assume "is_list m h []"
  then show "take_task h m = (None, m)" by (simp add: take_task_def is_list_def)
qed (rule take_task_rep)

text \<open>
  The linked task list is a first-in first-out queue: whatever order tasks are put in and taken
  out, the workers get the tasks that a queue gives, and the list holds what the queue holds.
\<close>

theorem task_list_fifo:
  "is_list m h xs \<Longrightarrow> distinct (xs @ puts es) \<Longrightarrow> h \<notin> set (puts es) \<Longrightarrow>
   fst (run_queue (\<lambda>n. list_add_tail n h) (take_task h) es m) = fst (abs_queue es xs) \<and>
   is_list (snd (run_queue (\<lambda>n. list_add_tail n h) (take_task h) es m)) h (snd (abs_queue es xs))"
  by (rule tasks.queue_refines) (auto simp: list_all_iff)

theorem task_list_fifo_witness:
  "fst (run_queue (\<lambda>n. list_add_tail n 7) (take_task 7) [Put 1, Put 2, Take, Put 3, Take, Take, Take]
     (INIT_LIST_HEAD 7 \<lparr>lnext = id, lprev = id\<rparr>)) = [Some 1, Some 2, Some 3, None]"
  using task_list_fifo [of "INIT_LIST_HEAD 7 \<lparr>lnext = id, lprev = id\<rparr>" 7 "[]"
      "[Put 1, Put 2, Take, Put 3, Take, Take, Take]"]
  by (simp add: list_of_nil INIT_LIST_HEAD_def)

end
