(* ===== verification/Spec2Isabelle.thy ===== *)
theory Spec2Isabelle
  imports Avltree Request Virfs Fsdb Binary Cjson Ldr Runtime Config Net Order Server Loader Handlers Daemon Session Jsontext Document Reload
    Stream Object Ring Osconf Codec Des Md5 Naos Clist
begin

text \<open>
  \<^bold>\<open>jess, a configuration daemon.\<close>

  jess keeps a tree of configuration values. Clients connect over TCP or a local socket and send
  requests: a title line (the command), an optional option line, and up to eight payload lines, each a
  dotted key, possibly with array indices, and an optional value. The daemon reads and changes the
  tree, publishes changes to subscribers, keeps every archive of the tree as a JSON document in a
  slot of a database file, and takes checkpoints of that file.

  \<^bold>\<open>Parts, theories and sources.\<close> Paths are below \<^verbatim>\<open>src/\<close>.

  \<^item> \<open>Prelude\<close>: C strings, the C library functions the sources call on them, 32-bit integers.
  \<^item> \<open>Avltree\<close> (\<^verbatim>\<open>naxfw/src/avltree.c\<close>): the tree with stored heights; insertion, removal with
    rebalancing, search, least and greatest element.
  \<^item> \<open>Request\<close> (\<^verbatim>\<open>runtime/request.c\<close>): payload lines to request records (\<open>JRP\<close>).
  \<^item> \<open>Virfs\<close> (\<^verbatim>\<open>fs/virfs.c\<close>, \<^verbatim>\<open>fs/inner.c\<close>): directory and archive slots with the bit mask.
    \<open>Fsdb\<close> (\<^verbatim>\<open>fs/virfs.c\<close>, \<^verbatim>\<open>fs/checkpoint.c\<close>): the two caches, database file, sync, file
    sync, flush thread, checkpoints. \<open>Binary\<close> (\<^verbatim>\<open>fs/virfs.c\<close>, \<^verbatim>\<open>pro/binary.c\<close>): the
    mapped binary region.
  \<^item> \<open>Cjson\<close> and \<open>Jsontext\<close> (\<^verbatim>\<open>ldr/cJSON.c\<close>): the items of a document in memory with the
    editing functions, and the parser and printer.
  \<^item> \<open>Ldr\<close> and \<open>Loader\<close> (\<^verbatim>\<open>ldr/ldr.c\<close>): the nodes of the tree; loading the tree from the file
    system, importing a configuration directory. \<open>Runtime\<close> (\<^verbatim>\<open>runtime/runtime.c\<close>): search,
    update, creation and deletion in the tree.
  \<^item> \<open>Net\<close> (\<^verbatim>\<open>ldr/interact.c\<close>, \<^verbatim>\<open>ldr/tst.h\<close>): client contexts, windows,
    subscriptions, publishing, framing, idle links.
  \<^item> \<open>Order\<close> (\<^verbatim>\<open>pro/order.c\<close>): the two worker threads, their queues, dispatch of command words,
    execution of tasks, composition of answers. \<open>Handlers\<close> (\<^verbatim>\<open>pro/variable.c\<close>,
    \<^verbatim>\<open>pro/manage.c\<close>, \<^verbatim>\<open>fs/proc.c\<close>, \<^verbatim>\<open>ldr/entry.c\<close>): the commands and the start.
  \<^item> \<open>Osconf\<close> (\<^verbatim>\<open>os/conf.c\<close>, \<^verbatim>\<open>os/refos.c\<close>, \<^verbatim>\<open>ldr/args.c\<close>): the file of start parameters, the
    command line, the paths chosen from them.
  \<^item> \<open>Stream\<close> (\<^verbatim>\<open>naxfw/src/posix\<close>: \<^verbatim>\<open>tcpal.c\<close>, \<^verbatim>\<open>tcpio.c\<close>, \<^verbatim>\<open>tcp.c\<close>, \<^verbatim>\<open>fifo.c\<close>,
    \<^verbatim>\<open>wpool.c\<close>): packets out of the bytes a link receives, and the queue of packets a link sends.
    \<open>Net\<close> hands whole packets to the daemon; \<open>Stream\<close> is the layer below it.
  \<^item> \<open>Object\<close> (\<^verbatim>\<open>naxfw/src/posix/wosi/object.c\<close>): handles, references and deferred closing of the
    framework's objects; its table is 256 trees of \<open>Avltree\<close>.
  \<^item> \<open>Clist\<close> (\<^verbatim>\<open>naxfw/include/clist.h\<close>): the doubly linked lists of the whole program, with
    their pointers. The other theories use HOL lists for them.
  \<^item> \<open>Ring\<close> (\<^verbatim>\<open>naxfw/src/cfifo.c\<close>), \<open>Codec\<close>, \<open>Des\<close>, \<open>Md5\<close> (\<^verbatim>\<open>naxfw/src/hash.c\<close>) and \<open>Naos\<close>
    (\<^verbatim>\<open>naxfw/src/naos.c\<close>, \<^verbatim>\<open>rtlstr.c\<close>, \<^verbatim>\<open>refs.c\<close>): the ring buffer, checksums, base64, DES and
    MD5, addresses, byte orders, strings and reference counts of the framework.

  The theories \<open>Config\<close>, \<open>Server\<close>, \<open>Daemon\<close>, \<open>Session\<close>, \<open>Document\<close> and \<open>Reload\<close> hold proofs over
  these models and no models of their own code.

  \<^bold>\<open>State and effects.\<close> The tree is a store: a partial map from addresses to node records, with the
  index of every level an AVL tree of names and addresses. The JSON memory is a second store. The
  state \<open>'d rt\<close> holds both, the root index and the file system; \<open>'d\<close> is the type of JSON numbers,
  which the daemon only passes on. Operations pass the state explicitly. A result \<open>None\<close> of an
  operation on a store means that the code follows a pointer to dead memory, or does not return; the
  theorems that promise a result promise \<open>Some\<close>. Errors the code reports are values. The outcomes of
  operating system calls, the clock, the conversions of the C library on floating point numbers and
  the contents of freed memory are arguments (\<open>io\<close>, \<open>env\<close>, \<open>conv\<close>). The worker threads and the network
  callbacks form a transition system whose steps are whole callbacks and whole task executions, as
  the locks of the code make them. Calls on the object table, each under its mutex, are the steps of
  another one, with the threads interleaved between them. Calls on one link (\<open>Stream\<close>) come one after
  the other. Objects are in a heap of addresses, as nodes are.

  \<^bold>\<open>Interfaces.\<close> \<open>avl_compare\<close> (\<open>Avltree\<close>) is the contract of a comparison function, with the
  refinement of the tree operations to sets of keyed elements; it is interpreted for names of scopes
  (\<open>Ldr\<close>), for the renumbering index (\<open>Fsdb\<close>) and for handles (\<open>Object\<close>). \<open>handle_table\<close> (\<open>Object\<close>) is
  the contract of a table of handles as a map, interpreted for the 256 trees; the proofs on objects
  use only its laws. \<open>byte_queue\<close> (\<open>Ring\<close>) is the contract of a bounded queue of bytes, interpreted
  for the ring buffer. \<open>linked_queue\<close> (\<open>Clist\<close>) is the queue of tasks of a worker thread, interpreted
  for the linked list. \<open>name_index\<close> (\<open>Ldr\<close>) is the contract of the index of
  a level as a map up to letter case; the tree and loader proofs use only its laws. \<open>slot_table\<close>
  (\<open>Virfs\<close>) is the contract of a table of slots with keys, interpreted for directories and archives.
  \<open>task_handlers\<close> (\<open>Server\<close>) is what the task machinery asks of the handlers; \<open>Daemon\<close> interprets it
  for the real dispatch of commands.

  \<^bold>\<open>What is shown.\<close>

  \<^item> Request parser: accepted requests respect all buffer limits and the level structure, canonical
    requests survive printing and parsing, the in-place loops equal their references.
  \<^item> Index: a balanced search tree of logarithmic height that refines a finite map.
  \<^item> Tree: after a successful write the key reads the value written, every other key with plain indices
    reads as before, and the node store stays well formed. (The forms \<open>[?]\<close> and \<open>[$]\<close> name the next and
    the last item, which a write that appends an item changes.)
  \<^item> File system: the layout invariant holds in every reachable state, every operation refines an
    operation on the abstract tables, a file sync is atomic, the flush thread requests a sync exactly by
    its rules. A checkpoint restores the configuration of the last sync before it, not changes made
    since. Reads may be short, and names given by clients may denote the database or the swap file.
  \<^item> JSON text: printing and parsing round trip in both formats, the printer stays in its buffer, the
    string parser in its allocation, nesting is bounded.
  \<^item> Loading: on saved documents the loader returns, and every key reads in the new tree exactly as
    in the documents.
  \<^item> Server: a client's window counts its pending requests in every reachable state; a request is
    answered by exactly one composed packet, if its handlers do not queue requests or answers of their
    own and the answer fits the response buffer; changes go to exactly their subscribers, those of the
    root \<open>/\<close> included; from the socket to the answer, a value written is the value read. At most one file
    sync is pending; one that fails before the renaming stays pending for ever.
  \<^item> Streams: every copy of the receiver is checked and stays in its buffer on every input. What is sent
    are the frames of the accepted packets in order, and of a failed write the part sent before it
    failed, with the link left open. Without such parts, packets that fit the packet buffer arrive as
    they were queued, however the network cuts the bytes. Two ways to lose packets are shown: a head cut
    in two before a packet larger than the buffer, and a write that fails after a part of its frame.
  \<^item> Objects: an object that is referenced is not freed, a closed handle cannot be referenced again.
  \<^item> Linked lists: every operation on the pointers is the operation on sequences the other theories
    use, for all lists together; a loop that takes out the node it visits visits all of them.
  \<^item> Parameters: the value of a key of a well-formed file is the one the daemon starts with.
  \<^item> Framework: the ring answers as a bounded queue of its size across the wrap of its counters; MD5 does
    not depend on the pieces; DES and base64 decode what they encode; the CRC table computes the
    polynomial division. Lengths are the \<open>int\<close>s of the code: base64 overflows above 1610612733 bytes, and
    the number DES returns is the length only below 2 GiB.

  \<^bold>\<open>Bounds and fuel.\<close> \<open>jfree\<close> and \<open>item_tree\<close> follow child links with the number of addresses ever used
  as fuel; \<open>item_tree_rep\<close> shows that this is enough for every document. Loops over slots, payload
  lines and queues are structural. \<open>ldr_next_misc\<close>, the loops of the loader and the deletion functions
  are \<open>partial_function\<close>s on \<open>option\<close>; \<open>Document\<close> and \<open>Reload\<close> prove that the loader returns. The parser
  terminates by the number of characters left. \<open>tcp_rx_loop\<close> is a \<open>partial_function\<close> on \<open>option\<close>;
  \<open>rx_total\<close> proves that it returns for the template of the daemon on every input, with no copy outside
  its buffer (which would be \<open>None\<close> as well). The
  receive buffer (\<open>TCP_BUFFER_SIZE\<close>), the packet limit and the length of the send queue are the
  constants of the code; counters of 32 bits are words of 32 bits.

  \<^bold>\<open>Not modelled.\<close> Windows variants of the sources (\<^verbatim>\<open>naxfw/src/windows\<close>). Of
  \<^verbatim>\<open>naxfw/src/posix\<close> the wrappers of sockets, epoll, threads, pipes, files and logging, which are
  sequences of calls of the operating system, and UDP. Thread creation and joining in
  \<^verbatim>\<open>pro/order.c\<close>, the start of the listening sockets and the UDP callback in
  \<^verbatim>\<open>ldr/interact.c\<close>: calls of the framework. Of the framework's library the parts the daemon does
  not call: dictionary, allocator, matrix, reader of \<^verbatim>\<open>etc\<close> files, SHA-256, the second base64 and the
  hexadecimal dump. The interactive clients under \<^verbatim>\<open>easycfgd\<close>, usage texts, debug prints. Of
  \<^verbatim>\<open>cJSON.c\<close> the functions no caller uses (duplicate, compare, minify, array constructors). Memory
  allocation is assumed to succeed except where the code handles its failure in the modelled
  functions.
\<close>

end
